(* ===== verification/Prelude.thy ===== *)
theory Prelude
  imports Main "HOL-Library.Word"
begin

text \<open>
  Shared vocabulary of the development: the machine integers of the C code as words, the
  helper lemmas on lists and words that several components use, and the collections of
  facts (\<open>ring_simps\<close>, \<open>byte_simps\<close>) that the component proofs pass to the simplifier.
\<close>

unbundle bit_operations_syntax

type_synonym u8 = "8 word"
type_synonym u16 = "16 word"
type_synonym u32 = "32 word"
type_synonym u64 = "64 word"

text \<open>A C \<open>int\<close> and an \<open>int64_t\<close> are words read with \<^const>\<open>sint\<close>.\<close>

type_synonym i32 = "32 word"
type_synonym i64 = "64 word"

type_synonym bytes = "u8 list"

named_theorems ring_simps
named_theorems byte_simps

section \<open>Lists\<close>

lemma map_nth_upt_take: "n \<le> length xs \<Longrightarrow> map (\<lambda>i. xs ! i) [0..<n] = take n xs"
  by (simp add: list_eq_iff_nth_eq)

lemma upt_Suc_map_shift: "map f [0..<Suc n] = f 0 # map (\<lambda>i. f (Suc i)) [0..<n]"
  by (simp add: upt_conv_Cons map_Suc_upt [symmetric] del: upt_Suc)

lemma take_drop_split:
  "n \<le> length xs \<Longrightarrow> xs = take n xs @ drop n xs"
  by simp

lemma length_take_le [simp]: "n \<le> length xs \<Longrightarrow> length (take n xs) = n"
  by simp

lemma nested_update:
  assumes "i < length L" and "j < length (L ! i)" and "x < length L"
  shows "L[i := (L ! i)[j := v]] ! x ! y = (if x = i \<and> y = j then v else L ! x ! y)"
  using assms by (cases "x = i"; cases "y = j") simp_all

lemma in_set_update_other:
  assumes "i < length xs" and "xs ! i \<noteq> x"
  shows "x \<in> set (xs[i := y]) \<longleftrightarrow> x = y \<or> x \<in> set xs"
proof -
  have "set xs = insert (xs ! i) (set (take i xs) \<union> set (drop (Suc i) xs))"
    by (subst id_take_nth_drop [OF assms(1)]) auto
  moreover have "set (xs[i := y]) = insert y (set (take i xs) \<union> set (drop (Suc i) xs))"
    using assms(1) by (subst upd_conv_take_nth_drop) auto
  ultimately show ?thesis using assms(2) by auto
qed

lemma hd_dropWhile_Cons: "dropWhile P xs = y # ys \<Longrightarrow> \<not> P y"
  by (induction xs) (auto split: if_splits)

lemma filter_map_comm: "filter P (map f xs) = map f (filter (\<lambda>x. P (f x)) xs)"
  by (induction xs) auto

section \<open>Words\<close>

lemma unat_bound: "unat (x :: 'a::len word) < 2 ^ LENGTH('a)"
  by (rule unsigned_less)

lemma u32_bound: "unat (x :: u32) < 2 ^ 32"
  using unat_bound [of x] by simp

lemma u8_bound: "unat (x :: u8) < 2 ^ 8"
  using unat_bound [of x] by simp

lemma of_nat_neq_0_u32: "Suc n < 2 ^ 32 \<Longrightarrow> (of_nat (Suc n) :: u32) \<noteq> 0"
proof
  assume lt: "Suc n < 2 ^ 32" and "(of_nat (Suc n) :: u32) = 0"
  then have "2 ^ LENGTH(32) dvd Suc n" unfolding word_of_nat_eq_0_iff by blast
  then have "2 ^ LENGTH(32) \<le> Suc n" by (rule dvd_imp_le) simp
  with lt show False by simp
qed

lemma drop_bit_eq_iff_div:
  "drop_bit n (x :: 'a::len word) = drop_bit n y \<longleftrightarrow> unat x div 2 ^ n = unat y div 2 ^ n"
  by (metis drop_bit_eq_div unat_drop_bit_eq word_unat_eq_iff)

lemma unat_drop_bit_div: "unat (drop_bit n (x :: 'a::len word)) = unat x div 2 ^ n"
  by (metis drop_bit_eq_div unat_drop_bit_eq)

text \<open>\<open>(x | (2^n - 1)) == (y | (2^n - 1))\<close> of the C code compares the bits above \<open>n\<close>.\<close>

lemma or_mask_eq_iff:
  "(x OR mask n) = (y OR mask n) \<longleftrightarrow> drop_bit n x = drop_bit n (y :: 'a::len word)"
proof
  assume "(x OR mask n) = (y OR mask n)"
  then have "bit (x OR mask n) i = bit (y OR mask n) i" for i by simp
  then show "drop_bit n x = drop_bit n y"
    by (intro bit_word_eqI) (auto simp: bit_simps)
next
  assume eq: "drop_bit n x = drop_bit n y"
  show "(x OR mask n) = (y OR mask n)"
  proof (rule bit_word_eqI)
    fix i assume "i < LENGTH('a)"
    show "bit (x OR mask n) i = bit (y OR mask n) i"
    proof (cases "i < n")
      case True
      then show ?thesis using \<open>i < LENGTH('a)\<close> by (simp add: bit_simps)
    next
      case False
      from eq have "bit (drop_bit n x) (i - n) = bit (drop_bit n y) (i - n)" by simp
      with False show ?thesis by (simp add: bit_simps)
    qed
  qed
qed

lemma sint_small: "uint (i :: i32) < 2 ^ 31 \<Longrightarrow> sint i = uint i"
  by (auto simp: sint_uint intro!: signed_take_bit_int_eq_self order_trans [OF _ uint_ge_0])

lemma sint_nonneg:
  assumes "0 \<le> sint (i :: i32)"
  shows "uint i < 2 ^ 31" and "sint i = uint i"
proof -
  have "sint i = uint i - 2 ^ 32 * of_bool (bit i 31)"
    using uint_lt2p [of i]
    by (simp add: sint_uint signed_take_bit_eq_take_bit_minus bit_uint_iff take_bit_int_eq_self)
  with assms show "sint i = uint i" using uint_lt2p [of i] by (cases "bit i 31") simp_all
  with sint_lt [of i] show "uint i < 2 ^ 31" by simp
qed

lemma uint_succ: "uint (i :: i32) < 2 ^ 31 \<Longrightarrow> uint (i + 1) = uint i + 1"
  by (simp add: uint_word_ariths)

lemma and_mask_unat: "unat (x AND mask n :: 'a::len word) = unat x mod 2 ^ n"
  by (metis take_bit_eq_mask take_bit_eq_mod unsigned_take_bit_eq)

end
