(* ===== verification/Ring.thy ===== *)
theory Ring
  imports Prelude
begin

text \<open>
  Ring buffers and the FIFO interface. Three components keep their queue as an array with a
  head and a tail index (\<open>skynet_mq.c\<close>, \<open>service_harbor.c\<close>, \<open>lua-netpack.c\<close>); this theory
  holds the index arithmetic they share and the locale \<open>fifo\<close> that each of them
  interprets with its own operations.
\<close>

section \<open>Index arithmetic\<close>

definition ring_list :: "'a list \<Rightarrow> nat \<Rightarrow> nat \<Rightarrow> nat \<Rightarrow> 'a list" where
  "ring_list buf cap head n = map (\<lambda>i. buf ! ((head + i) mod cap)) [0..<n]"

definition ring_len :: "nat \<Rightarrow> nat \<Rightarrow> nat \<Rightarrow> nat" where
  "ring_len cap head tail = (if head \<le> tail then tail - head else tail + cap - head)"

lemma ring_list_0 [simp]: "ring_list buf cap head 0 = []"
  by (simp add: ring_list_def)

lemma length_ring_list [simp]: "length (ring_list buf cap head n) = n"
  by (simp add: ring_list_def)

lemma ring_list_Suc:
  assumes "head < cap"
  shows "ring_list buf cap head (Suc n) = buf ! head # ring_list buf cap (Suc head mod cap) n"
proof -
  have "(head + Suc i) mod cap = (Suc head mod cap + i) mod cap" for i
    by (simp add: mod_add_left_eq)
  with assms show ?thesis
    unfolding ring_list_def upt_Suc_map_shift by simp
qed

lemma ring_list_snoc:
  "ring_list buf cap head (Suc n) = ring_list buf cap head n @ [buf ! ((head + n) mod cap)]"
  by (simp add: ring_list_def)

lemma mod_add_neq:
  assumes "i < n" and "n < (cap::nat)"
  shows "(head + i) mod cap \<noteq> (head + n) mod cap"
proof
  assume "(head + i) mod cap = (head + n) mod cap"
  then have "cap dvd (head + n) - (head + i)"
    using assms(1) by (metis mod_eq_dvd_iff_nat add_le_cancel_left less_imp_le)
  then have "cap dvd n - i" by simp
  with assms show False
    by (metis dvd_imp_le less_imp_diff_less not_less zero_less_diff)
qed

lemma ring_list_write:
  assumes "n < cap" and "length buf = cap"
  shows "ring_list (buf[(head + n) mod cap := x]) cap head (Suc n) = ring_list buf cap head n @ [x]"
proof -
  have "(head + n) mod cap < length buf" using assms by auto
  moreover have "ring_list (buf[(head + n) mod cap := x]) cap head n = ring_list buf cap head n"
    unfolding ring_list_def using assms(1)
    by (auto intro!: nth_list_update_neq dest: mod_add_neq [of _ n cap head, THEN not_sym])
  ultimately show ?thesis by (simp add: ring_list_snoc)
qed

lemma ring_list_linear:
  assumes "n \<le> cap" and "n \<le> length buf"
  shows "ring_list buf cap 0 n = take n buf"
proof -
  have "ring_list buf cap 0 n = map (\<lambda>i. buf ! i) [0..<n]"
    unfolding ring_list_def using assms(1) by auto
  with assms(2) show ?thesis by (simp add: map_nth_upt_take)
qed

lemma ring_list_bigger:
  "m \<le> n \<Longrightarrow> take m (ring_list buf cap head n) = ring_list buf cap head m"
  by (simp add: ring_list_def take_map)

lemma wrap_index: "t < cap \<Longrightarrow> (if cap \<le> Suc t then 0 else Suc t) = Suc t mod cap"
  by (auto simp: mod_if)

lemma ring_len_le: "head < cap \<Longrightarrow> tail < cap \<Longrightarrow> ring_len cap head tail < cap"
  by (auto simp: ring_len_def)

lemma ring_len_tail: "head < cap \<Longrightarrow> tail < cap \<Longrightarrow> (head + ring_len cap head tail) mod cap = tail"
  by (auto simp: ring_len_def mod_if)

lemma ring_len_0_iff: "head < cap \<Longrightarrow> tail < cap \<Longrightarrow> ring_len cap head tail = 0 \<longleftrightarrow> head = tail"
  by (auto simp: ring_len_def)

lemma ring_len_push:
  assumes "head < cap" and "tail < cap" and "Suc tail mod cap \<noteq> head"
  shows "ring_len cap head (Suc tail mod cap) = Suc (ring_len cap head tail)"
  using assms by (auto simp: ring_len_def mod_if split: if_splits)

lemma ring_len_full:
  assumes "head < cap" and "tail < cap" and "Suc tail mod cap = head"
  shows "Suc (ring_len cap head tail) = cap"
  using assms by (auto simp: ring_len_def mod_if split: if_splits)

lemma ring_len_pop:
  assumes "head < cap" and "tail < cap" and "head \<noteq> tail"
  shows "ring_len cap head tail = Suc (ring_len cap (Suc head mod cap) tail)"
  using assms by (auto simp: ring_len_def mod_if split: if_splits)

lemmas ring_arith = ring_len_le ring_len_tail ring_len_0_iff ring_len_push ring_len_full ring_len_pop

section \<open>The FIFO interface\<close>

datatype 'a fifo_op = Push 'a | Pop

fun fifo_run :: "('q \<Rightarrow> 'a \<Rightarrow> 'q) \<Rightarrow> ('q \<Rightarrow> 'a option \<times> 'q) \<Rightarrow> 'q \<Rightarrow> 'a fifo_op list \<Rightarrow> 'a list \<times> 'q" where
  "fifo_run push pop q [] = ([], q)"
| "fifo_run push pop q (Push x # ops) = fifo_run push pop (push q x) ops"
| "fifo_run push pop q (Pop # ops) =
     (case pop q of (r, q') \<Rightarrow>
        (case fifo_run push pop q' ops of (out, q'') \<Rightarrow>
           ((case r of None \<Rightarrow> out | Some x \<Rightarrow> x # out), q'')))"

fun fifo_inputs :: "'a fifo_op list \<Rightarrow> 'a list" where
  "fifo_inputs [] = []"
| "fifo_inputs (Push x # ops) = x # fifo_inputs ops"
| "fifo_inputs (Pop # ops) = fifo_inputs ops"

text \<open>
  What a client of a queue relies on: \<open>push\<close> appends to the abstract content, \<open>pop\<close> takes its
  first element or answers that there is none, and both keep the representation invariant.
\<close>

locale fifo =
  fixes push :: "'q \<Rightarrow> 'a \<Rightarrow> 'q"
    and pop :: "'q \<Rightarrow> 'a option \<times> 'q"
    and abs :: "'q \<Rightarrow> 'a list"
    and inv :: "'q \<Rightarrow> bool"
  assumes inv_push: "inv q \<Longrightarrow> inv (push q x)"
    and abs_push: "inv q \<Longrightarrow> abs (push q x) = abs q @ [x]"
    and inv_pop: "inv q \<Longrightarrow> inv (snd (pop q))"
    and pop_none: "inv q \<Longrightarrow> abs q = [] \<Longrightarrow> fst (pop q) = None \<and> abs (snd (pop q)) = []"
    and pop_some: "inv q \<Longrightarrow> abs q = x # xs \<Longrightarrow> fst (pop q) = Some x \<and> abs (snd (pop q)) = xs"
begin

lemma pop_step: "inv q \<Longrightarrow> (case fst (pop q) of None \<Rightarrow> [] | Some x \<Rightarrow> [x]) @ abs (snd (pop q)) = abs q"
  using pop_none [of q] pop_some [of q] by (cases "abs q") auto

text \<open>Whatever the interleaving, what came out followed by what is left is what went in, in order.\<close>

lemma run_conserves:
  "inv q \<Longrightarrow> fifo_run push pop q ops = (out, q') \<Longrightarrow> inv q' \<and> out @ abs q' = abs q @ fifo_inputs ops"
proof (induction ops arbitrary: q out q')
  case Nil
  then show ?case by simp
next
  case (Cons a ops)
  show ?case
  proof (cases a)
    case (Push x)
    then show ?thesis
      using Cons.IH [of "push q x" out q'] Cons.prems by (simp add: inv_push abs_push)
  next
    case Pop
    obtain r q1 where r: "pop q = (r, q1)" by force
    obtain out1 where o1: "fifo_run push pop q1 ops = (out1, q')"
      and out: "out = (case r of None \<Rightarrow> out1 | Some x \<Rightarrow> x # out1)"
      using Cons.prems(2) r Pop by (auto split: prod.splits)
    have "inv q1 \<and> (case r of None \<Rightarrow> [] | Some x \<Rightarrow> [x]) @ abs q1 = abs q"
      using inv_pop [of q] pop_step [of q] r Cons.prems(1) by simp
    moreover from this have "inv q' \<and> out1 @ abs q' = abs q1 @ fifo_inputs ops"
      using Cons.IH o1 by blast
    ultimately show ?thesis
      using out Pop by (auto split: option.splits)
  qed
qed

lemma run_pops_all:
  assumes "inv q"
  shows "fst (fifo_run push pop q (replicate (length (abs q)) Pop)) = abs q"
  using assms
proof (induction "abs q" arbitrary: q)
  case Nil
  then show ?case by simp
next
  case (Cons x xs)
  from Cons have p: "fst (pop q) = Some x" "abs (snd (pop q)) = xs"
    using pop_some by metis+
  with Cons.hyps(1) [of "snd (pop q)"] inv_pop Cons.prems
  have "fst (fifo_run push pop (snd (pop q)) (replicate (length xs) Pop)) = xs" by simp
  with p Cons.hyps(2) [symmetric] show ?case
    by (simp add: case_prod_beta)
qed

end

end
