(* ===== verification/Mq.thy ===== *)
theory Mq
  imports Ring
begin

text \<open>
  The message queues of \<open>skynet-src/skynet_mq.c\<close>: one ring buffer of messages per service and
  the global list of queues that have work. A spin lock guards each operation of the C file,
  so an operation is one atomic step of the model and the \<open>lock\<close> words are left out. Queues live
  in a heap indexed by their address; \<open>None\<close> as a result is a failed assertion or the use of a
  queue that is not allocated. A slot of the array that was never written is \<open>None\<close>.
\<close>

section \<open>Data\<close>

type_synonym mqid = nat

definition DEFAULT_QUEUE_SIZE :: nat where "DEFAULT_QUEUE_SIZE = 64"
definition MQ_OVERLOAD :: nat where "MQ_OVERLOAD = 1024"

record 'm message_queue =
  mq_handle :: u32
  mq_cap :: nat
  mq_head :: nat
  mq_tail :: nat
  mq_release :: bool
  mq_in_global :: bool
  mq_overload :: nat
  mq_overload_threshold :: nat
  mq_queue :: "'m option list"
  mq_next :: "mqid option"

record 'm mq_state =
  mq_heap :: "mqid \<rightharpoonup> 'm message_queue"
  gq_head :: "mqid option"
  gq_tail :: "mqid option"

section \<open>The global list\<close>

definition skynet_mq_init :: "('m, 'z) mq_state_scheme \<Rightarrow> ('m, 'z) mq_state_scheme" where
  "skynet_mq_init S = S\<lparr>gq_head := None, gq_tail := None\<rparr>"

definition skynet_globalmq_push ::
  "('m, 'z) mq_state_scheme \<Rightarrow> mqid \<Rightarrow> ('m, 'z) mq_state_scheme option" where
  "skynet_globalmq_push S p =
     (case mq_heap S p of
        None \<Rightarrow> None
      | Some q \<Rightarrow>
          if mq_next q \<noteq> None then None
          else (case gq_tail S of
                  Some t \<Rightarrow>
                    (case mq_heap S t of
                       None \<Rightarrow> None
                     | Some tq \<Rightarrow> Some (S\<lparr>mq_heap := (mq_heap S)(t \<mapsto> tq\<lparr>mq_next := Some p\<rparr>),
                                         gq_tail := Some p\<rparr>))
                | None \<Rightarrow> Some (S\<lparr>gq_head := Some p, gq_tail := Some p\<rparr>)))"

definition skynet_globalmq_pop ::
  "('m, 'z) mq_state_scheme \<Rightarrow> (mqid option \<times> ('m, 'z) mq_state_scheme) option" where
  "skynet_globalmq_pop S =
     (case gq_head S of
        None \<Rightarrow> Some (None, S)
      | Some p \<Rightarrow>
          (case mq_heap S p of
             None \<Rightarrow> None
           | Some q \<Rightarrow>
               (let S1 = S\<lparr>gq_head := mq_next q\<rparr> in
                if mq_next q = None \<and> gq_tail S \<noteq> Some p then None
                else (let S2 = (if mq_next q = None then S1\<lparr>gq_tail := None\<rparr> else S1) in
                      Some (Some p, S2\<lparr>mq_heap := (mq_heap S2)(p \<mapsto> q\<lparr>mq_next := None\<rparr>)\<rparr>)))))"

section \<open>One queue\<close>

definition mq_new :: "u32 \<Rightarrow> 'm message_queue" where
  "mq_new handle =
     \<lparr>mq_handle = handle, mq_cap = DEFAULT_QUEUE_SIZE, mq_head = 0, mq_tail = 0,
      mq_release = False, mq_in_global = True, mq_overload = 0,
      mq_overload_threshold = MQ_OVERLOAD,
      mq_queue = replicate DEFAULT_QUEUE_SIZE None, mq_next = None\<rparr>"

text \<open>\<open>p\<close> is the address \<open>skynet_malloc\<close> returns.\<close>

definition skynet_mq_create ::
  "('m, 'z) mq_state_scheme \<Rightarrow> mqid \<Rightarrow> u32 \<Rightarrow> ('m, 'z) mq_state_scheme" where
  "skynet_mq_create S p handle = S\<lparr>mq_heap := (mq_heap S)(p \<mapsto> mq_new handle)\<rparr>"

definition mq_free ::
  "('m, 'z) mq_state_scheme \<Rightarrow> mqid \<Rightarrow> ('m, 'z) mq_state_scheme option" where
  "mq_free S p =
     (case mq_heap S p of
        None \<Rightarrow> None
      | Some q \<Rightarrow> if mq_next q \<noteq> None then None else Some (S\<lparr>mq_heap := (mq_heap S)(p := None)\<rparr>))"

definition skynet_mq_handle :: "'m message_queue \<Rightarrow> u32" where
  "skynet_mq_handle q = mq_handle q"

definition skynet_mq_length :: "'m message_queue \<Rightarrow> nat" where
  "skynet_mq_length q =
     (let head = mq_head q; tail = mq_tail q; cap = mq_cap q in
      if head \<le> tail then tail - head else tail + cap - head)"

definition skynet_mq_overload :: "'m message_queue \<Rightarrow> nat \<times> 'm message_queue" where
  "skynet_mq_overload q =
     (if mq_overload q \<noteq> 0 then (mq_overload q, q\<lparr>mq_overload := 0\<rparr>) else (0, q))"

text \<open>
  The loop that doubles the threshold. The C loop does not end on a zero threshold; the
  invariant \<open>mq_inv\<close> below excludes that value, and the guard \<open>0 < threshold\<close> only serves the
  totality of the function.
\<close>

function overload_scan :: "nat \<Rightarrow> nat \<Rightarrow> nat \<Rightarrow> nat \<times> nat" where
  "overload_scan len overload threshold =
     (if 0 < threshold \<and> threshold < len then overload_scan len len (threshold * 2)
      else (overload, threshold))"
  by pat_completeness auto
termination
  by (relation "measure (\<lambda>(len, overload, threshold). len - threshold)") auto

declare overload_scan.simps [simp del]

definition skynet_mq_pop :: "'m message_queue \<Rightarrow> nat \<times> 'm option \<times> 'm message_queue" where
  "skynet_mq_pop q =
     (if mq_head q \<noteq> mq_tail q then
        (let message = mq_queue q ! mq_head q;
             head = Suc (mq_head q);
             tail = mq_tail q;
             cap = mq_cap q;
             head' = (if cap \<le> head then 0 else head);
             len = (if tail < head' then tail + cap - head' else tail - head');
             (overload, threshold) =
               overload_scan len (mq_overload q) (mq_overload_threshold q)
         in (0, message,
             q\<lparr>mq_head := head', mq_overload := overload, mq_overload_threshold := threshold\<rparr>))
      else
        (1, None, q\<lparr>mq_overload_threshold := MQ_OVERLOAD, mq_in_global := False\<rparr>))"

definition expand_queue :: "'m message_queue \<Rightarrow> 'm message_queue" where
  "expand_queue q =
     q\<lparr>mq_queue := map (\<lambda>i. mq_queue q ! ((mq_head q + i) mod mq_cap q)) [0..<mq_cap q]
                   @ replicate (mq_cap q) None,
       mq_head := 0, mq_tail := mq_cap q, mq_cap := mq_cap q * 2\<rparr>"

text \<open>The part of \<open>skynet_mq_push\<close> that works on the queue alone.\<close>

definition mq_enqueue :: "'m message_queue \<Rightarrow> 'm \<Rightarrow> 'm message_queue" where
  "mq_enqueue q m =
     (let q1 = q\<lparr>mq_queue := (mq_queue q)[mq_tail q := Some m]\<rparr>;
          q2 = q1\<lparr>mq_tail := (if mq_cap q \<le> Suc (mq_tail q) then 0 else Suc (mq_tail q))\<rparr>
      in if mq_head q2 = mq_tail q2 then expand_queue q2 else q2)"

definition skynet_mq_push ::
  "('m, 'z) mq_state_scheme \<Rightarrow> mqid \<Rightarrow> 'm \<Rightarrow> ('m, 'z) mq_state_scheme option" where
  "skynet_mq_push S p m =
     (case mq_heap S p of
        None \<Rightarrow> None
      | Some q \<Rightarrow>
          (let q' = mq_enqueue q m in
           if \<not> mq_in_global q'
           then skynet_globalmq_push
                  (S\<lparr>mq_heap := (mq_heap S)(p \<mapsto> q'\<lparr>mq_in_global := True\<rparr>)\<rparr>) p
           else Some (S\<lparr>mq_heap := (mq_heap S)(p \<mapsto> q')\<rparr>)))"

definition skynet_mq_mark_release ::
  "('m, 'z) mq_state_scheme \<Rightarrow> mqid \<Rightarrow> ('m, 'z) mq_state_scheme option" where
  "skynet_mq_mark_release S p =
     (case mq_heap S p of
        None \<Rightarrow> None
      | Some q \<Rightarrow>
          if mq_release q then None
          else (let S1 = S\<lparr>mq_heap := (mq_heap S)(p \<mapsto> q\<lparr>mq_release := True\<rparr>)\<rparr> in
                if \<not> mq_in_global q then skynet_globalmq_push S1 p else Some S1))"

section \<open>Dropping a queue\<close>

definition mq_pop_at ::
  "('m, 'z) mq_state_scheme \<Rightarrow> mqid \<Rightarrow> (nat \<times> 'm option \<times> ('m, 'z) mq_state_scheme) option" where
  "mq_pop_at S p =
     (case mq_heap S p of
        None \<Rightarrow> None
      | Some q \<Rightarrow> (case skynet_mq_pop q of
                     (ret, m, q') \<Rightarrow> Some (ret, m, S\<lparr>mq_heap := (mq_heap S)(p \<mapsto> q')\<rparr>)))"

text \<open>\<open>f\<close> is the callback \<open>drop_func\<close>; it works on the whole state.\<close>

partial_function (option) drop_loop ::
  "('m \<Rightarrow> ('m, 'z) mq_state_scheme \<Rightarrow> ('m, 'z) mq_state_scheme option) \<Rightarrow>
   ('m, 'z) mq_state_scheme \<Rightarrow> mqid \<Rightarrow> ('m, 'z) mq_state_scheme option" where
  "drop_loop f S p =
     Option.bind (mq_pop_at S p)
       (\<lambda>(ret, m, S1). if ret \<noteq> 0 then Some S1
          else Option.bind m (\<lambda>msg. Option.bind (f msg S1) (\<lambda>S2. drop_loop f S2 p)))"

definition drop_queue ::
  "('m \<Rightarrow> ('m, 'z) mq_state_scheme \<Rightarrow> ('m, 'z) mq_state_scheme option) \<Rightarrow>
   ('m, 'z) mq_state_scheme \<Rightarrow> mqid \<Rightarrow> ('m, 'z) mq_state_scheme option" where
  "drop_queue f S p = Option.bind (drop_loop f S p) (\<lambda>S1. mq_free S1 p)"

definition skynet_mq_release ::
  "('m \<Rightarrow> ('m, 'z) mq_state_scheme \<Rightarrow> ('m, 'z) mq_state_scheme option) \<Rightarrow>
   ('m, 'z) mq_state_scheme \<Rightarrow> mqid \<Rightarrow> ('m, 'z) mq_state_scheme option" where
  "skynet_mq_release f S p =
     (case mq_heap S p of
        None \<Rightarrow> None
      | Some q \<Rightarrow> if mq_release q then drop_queue f S p else skynet_globalmq_push S p)"

section \<open>The queue is a FIFO\<close>

definition mq_slots :: "'m message_queue \<Rightarrow> 'm option list" where
  "mq_slots q = ring_list (mq_queue q) (mq_cap q) (mq_head q)
                  (ring_len (mq_cap q) (mq_head q) (mq_tail q))"

definition mq_abs :: "'m message_queue \<Rightarrow> 'm list" where
  "mq_abs q = map the (mq_slots q)"

definition mq_inv :: "'m message_queue \<Rightarrow> bool" where
  "mq_inv q \<longleftrightarrow> mq_head q < mq_cap q \<and> mq_tail q < mq_cap q \<and> length (mq_queue q) = mq_cap q
     \<and> 0 < mq_overload_threshold q \<and> None \<notin> set (mq_slots q)"

lemma skynet_mq_length_eq: "skynet_mq_length q = ring_len (mq_cap q) (mq_head q) (mq_tail q)"
  by (simp add: skynet_mq_length_def ring_len_def)

lemma length_mq_abs: "length (mq_abs q) = skynet_mq_length q"
  by (simp add: mq_abs_def mq_slots_def skynet_mq_length_eq)

lemma mq_abs_Nil_iff: "mq_inv q \<Longrightarrow> mq_abs q = [] \<longleftrightarrow> mq_head q = mq_tail q"
  using ring_len_0_iff [of "mq_head q" "mq_cap q" "mq_tail q"] length_mq_abs [of q]
  by (auto simp: mq_inv_def skynet_mq_length_eq)

lemma overload_scan_pos:
  "0 < thr \<Longrightarrow> overload_scan len ov thr = (ov', thr') \<Longrightarrow> 0 < thr' \<and> len \<le> thr' \<and> thr \<le> thr'"
proof (induction len ov thr rule: overload_scan.induct)
  case (1 len ov thr)
  show ?case
  proof (cases "thr < len")
    case True
    with 1 have "overload_scan len len (thr * 2) = (ov', thr')"
      by (simp add: overload_scan.simps [of len ov thr])
    with 1 True show ?thesis by simp
  next
    case False
    with 1 show ?thesis by (simp add: overload_scan.simps [of len ov thr])
  qed
qed

lemma overload_scan_reports:
  "0 < thr \<Longrightarrow> overload_scan len ov thr = (ov', thr') \<Longrightarrow> ov' = (if thr < len then len else ov)"
proof (induction len ov thr rule: overload_scan.induct)
  case (1 len ov thr)
  show ?case
  proof (cases "thr < len")
    case True
    with 1 have e: "overload_scan len len (thr * 2) = (ov', thr')"
      by (simp add: overload_scan.simps [of len ov thr])
    with 1 True show ?thesis by (simp split: if_splits)
  next
    case False
    with 1 show ?thesis by (simp add: overload_scan.simps [of len ov thr])
  qed
qed

lemma mq_new_inv: "mq_inv (mq_new h)" and mq_new_abs: "mq_abs (mq_new h) = []"
  by (simp_all add: mq_inv_def mq_new_def mq_abs_def mq_slots_def ring_len_def
        DEFAULT_QUEUE_SIZE_def MQ_OVERLOAD_def)

lemma mq_slots_write:
  assumes "mq_inv q"
  shows "ring_list ((mq_queue q)[mq_tail q := Some m]) (mq_cap q) (mq_head q)
           (Suc (ring_len (mq_cap q) (mq_head q) (mq_tail q))) = mq_slots q @ [Some m]"
  using ring_list_write [of "ring_len (mq_cap q) (mq_head q) (mq_tail q)" "mq_cap q" "mq_queue q"
      "mq_head q" "Some m"] assms
  by (simp add: mq_inv_def mq_slots_def ring_len_le ring_len_tail)

lemma mq_slots_expand:
  assumes "mq_head q < mq_cap q" and "length (mq_queue q) = mq_cap q"
  shows "mq_slots (expand_queue q) = ring_list (mq_queue q) (mq_cap q) (mq_head q) (mq_cap q)"
proof -
  let ?new = "ring_list (mq_queue q) (mq_cap q) (mq_head q) (mq_cap q)"
  have "mq_slots (expand_queue q) = ring_list (?new @ replicate (mq_cap q) None) (mq_cap q * 2) 0 (mq_cap q)"
    by (simp add: mq_slots_def expand_queue_def ring_len_def ring_list_def)
  also have "\<dots> = take (mq_cap q) (?new @ replicate (mq_cap q) None)"
    by (rule ring_list_linear) simp_all
  finally show ?thesis by simp
qed

lemma mq_enqueue_slots:
  assumes "mq_inv q"
  shows "mq_slots (mq_enqueue q m) = mq_slots q @ [Some m]"
proof (cases "Suc (mq_tail q) mod mq_cap q = mq_head q")
  case True
  let ?q2 = "q\<lparr>mq_queue := (mq_queue q)[mq_tail q := Some m], mq_tail := Suc (mq_tail q) mod mq_cap q\<rparr>"
  have "mq_enqueue q m = expand_queue ?q2"
    using assms True by (simp add: mq_enqueue_def mq_inv_def wrap_index)
  then have "mq_slots (mq_enqueue q m) =
      ring_list ((mq_queue q)[mq_tail q := Some m]) (mq_cap q) (mq_head q) (mq_cap q)"
    using assms by (simp add: mq_slots_expand mq_inv_def)
  then show ?thesis
    using mq_slots_write [OF assms, of m] ring_len_full [of "mq_head q" "mq_cap q" "mq_tail q"] assms True
    by (simp add: mq_inv_def)
next
  case False
  then have "mq_enqueue q m = q\<lparr>mq_queue := (mq_queue q)[mq_tail q := Some m],
      mq_tail := Suc (mq_tail q) mod mq_cap q\<rparr>"
    using assms by (auto simp: mq_enqueue_def mq_inv_def wrap_index Let_def)
  then show ?thesis
    using mq_slots_write [OF assms, of m] ring_len_push [of "mq_head q" "mq_cap q" "mq_tail q"] assms False
    by (simp add: mq_inv_def mq_slots_def)
qed

lemma mq_enqueue_abs: "mq_inv q \<Longrightarrow> mq_abs (mq_enqueue q m) = mq_abs q @ [m]"
  by (simp add: mq_abs_def mq_enqueue_slots)

lemma mq_enqueue_inv: "mq_inv q \<Longrightarrow> mq_inv (mq_enqueue q m)"
  using mq_enqueue_slots [of q m]
  by (auto simp: mq_inv_def mq_enqueue_def expand_queue_def Let_def)

lemma mq_enqueue_frame [simp]:
  "mq_handle (mq_enqueue q m) = mq_handle q" "mq_release (mq_enqueue q m) = mq_release q"
  "mq_in_global (mq_enqueue q m) = mq_in_global q" "mq_next (mq_enqueue q m) = mq_next q"
  by (simp_all add: mq_enqueue_def expand_queue_def Let_def)

lemma skynet_mq_pop_empty:
  "mq_inv q \<Longrightarrow> mq_abs q = [] \<Longrightarrow>
     skynet_mq_pop q = (1, None, q\<lparr>mq_overload_threshold := MQ_OVERLOAD, mq_in_global := False\<rparr>)"
  by (simp add: mq_abs_Nil_iff skynet_mq_pop_def)

lemma mq_slots_pop:
  assumes "mq_inv q" and "mq_head q \<noteq> mq_tail q"
  shows "mq_slots q = (mq_queue q ! mq_head q) #
    ring_list (mq_queue q) (mq_cap q) (Suc (mq_head q) mod mq_cap q)
      (ring_len (mq_cap q) (Suc (mq_head q) mod mq_cap q) (mq_tail q))"
  using assms ring_list_Suc [of "mq_head q" "mq_cap q" "mq_queue q"]
    ring_len_pop [of "mq_head q" "mq_cap q" "mq_tail q"]
  by (simp add: mq_slots_def mq_inv_def)

lemma skynet_mq_pop_nonempty:
  assumes "mq_inv q" and "mq_abs q = m # ms"
  obtains ov thr where "skynet_mq_pop q = (0, Some m,
      q\<lparr>mq_head := Suc (mq_head q) mod mq_cap q, mq_overload := ov, mq_overload_threshold := thr\<rparr>)"
    and "overload_scan (length ms) (mq_overload q) (mq_overload_threshold q) = (ov, thr)"
proof -
  have ne: "mq_head q \<noteq> mq_tail q"
    using assms mq_abs_Nil_iff [OF assms(1)] by simp
  have slots: "mq_queue q ! mq_head q = Some m"
    using mq_slots_pop [OF assms(1) ne] assms by (auto simp: mq_abs_def mq_inv_def)
  let ?h = "Suc (mq_head q) mod mq_cap q"
  have h: "(if mq_cap q \<le> Suc (mq_head q) then 0 else Suc (mq_head q)) = ?h"
    using assms(1) by (simp add: mq_inv_def wrap_index)
  have "length ms = ring_len (mq_cap q) ?h (mq_tail q)"
    using mq_slots_pop [OF assms(1) ne] assms(2) by (auto simp: mq_abs_def)
  then have len: "(if mq_tail q < ?h then mq_tail q + mq_cap q - ?h else mq_tail q - ?h) = length ms"
    by (auto simp: ring_len_def)
  obtain ov thr where sc: "overload_scan (length ms) (mq_overload q) (mq_overload_threshold q) = (ov, thr)"
    by force
  show thesis
    by (rule that [OF _ sc]) (use ne slots h len sc in \<open>auto simp: skynet_mq_pop_def Let_def split: if_splits\<close>)
qed

lemma skynet_mq_pop_sound:
  assumes "mq_inv q" and "mq_abs q = m # ms" and "skynet_mq_pop q = (ret, r, q')"
  shows "ret = 0 \<and> r = Some m \<and> mq_abs q' = ms \<and> mq_inv q' \<and> mq_in_global q' = mq_in_global q
    \<and> mq_release q' = mq_release q \<and> mq_next q' = mq_next q \<and> mq_handle q' = mq_handle q"
proof -
  obtain ov thr where p: "skynet_mq_pop q = (0, Some m,
      q\<lparr>mq_head := Suc (mq_head q) mod mq_cap q, mq_overload := ov, mq_overload_threshold := thr\<rparr>)"
    and sc: "overload_scan (length ms) (mq_overload q) (mq_overload_threshold q) = (ov, thr)"
    using skynet_mq_pop_nonempty [OF assms(1,2)] by blast
  have "0 < thr" using overload_scan_pos [OF _ sc] assms(1) by (simp add: mq_inv_def)
  moreover have "mq_slots q' = tl (mq_slots q)"
    using p assms mq_slots_pop [OF assms(1)] mq_abs_Nil_iff [OF assms(1)] by (auto simp: mq_slots_def)
  ultimately show ?thesis
    using p assms mq_slots_pop [OF assms(1)] mq_abs_Nil_iff [OF assms(1)]
    by (auto simp: mq_inv_def mq_abs_def)
qed

lemma skynet_mq_pop_inv: "mq_inv q \<Longrightarrow> mq_inv (snd (snd (skynet_mq_pop q)))"
proof (cases "mq_abs q")
  case Nil
  assume "mq_inv q"
  with Nil show ?thesis
    by (simp add: skynet_mq_pop_empty) (simp add: mq_inv_def mq_slots_def MQ_OVERLOAD_def)
next
  case (Cons m ms)
  assume "mq_inv q"
  with Cons skynet_mq_pop_sound show ?thesis by (metis prod.collapse)
qed

interpretation mqf: fifo mq_enqueue "\<lambda>q. snd (skynet_mq_pop q)"
  mq_abs mq_inv
proof
  fix q :: "'a message_queue" and x xs
  assume q: "mq_inv q"
  show "mq_inv (mq_enqueue q x)" "mq_abs (mq_enqueue q x) = mq_abs q @ [x]"
    using q by (simp_all add: mq_enqueue_inv mq_enqueue_abs)
  show "mq_inv (snd (snd (skynet_mq_pop q)))"
    using q by (simp add: skynet_mq_pop_inv)
  show "fst (snd (skynet_mq_pop q)) = None \<and>
      mq_abs (snd (snd (skynet_mq_pop q))) = []"
    if "mq_abs q = []"
    using q that by (simp add: skynet_mq_pop_empty) (simp add: mq_abs_def mq_slots_def)
  show "fst (snd (skynet_mq_pop q)) = Some x \<and>
      mq_abs (snd (snd (skynet_mq_pop q))) = xs"
    if "mq_abs q = x # xs"
    using skynet_mq_pop_sound [OF q that] by (cases "skynet_mq_pop q") auto
qed

section \<open>The global list is a FIFO of queue addresses\<close>

fun gq_list :: "(mqid \<rightharpoonup> 'm message_queue) \<Rightarrow> mqid option \<Rightarrow> mqid list \<Rightarrow> bool" where
  "gq_list h p [] \<longleftrightarrow> p = None"
| "gq_list h p (x # xs) \<longleftrightarrow>
     p = Some x \<and> (case h x of None \<Rightarrow> False | Some q \<Rightarrow> gq_list h (mq_next q) xs)"

text \<open>\<open>ids\<close> is what the linked list spells; only a queue on the list has a successor.\<close>

definition gq_rep :: "('m, 'z) mq_state_scheme \<Rightarrow> mqid list \<Rightarrow> bool" where
  "gq_rep S ids \<longleftrightarrow> gq_list (mq_heap S) (gq_head S) ids \<and> distinct ids
     \<and> gq_tail S = (if ids = [] then None else Some (last ids))
     \<and> (\<forall>y q. mq_heap S y = Some q \<longrightarrow> mq_next q \<noteq> None \<longrightarrow> y \<in> set ids)"

text \<open>What the list operations leave alone: everything but the link.\<close>

definition unlinked :: "'m message_queue \<Rightarrow> 'm message_queue" where
  "unlinked q = q\<lparr>mq_next := None\<rparr>"

definition same_queues :: "(mqid \<rightharpoonup> 'm message_queue) \<Rightarrow> (mqid \<rightharpoonup> 'm message_queue) \<Rightarrow> bool" where
  "same_queues h h' \<longleftrightarrow> (\<forall>y. map_option unlinked (h y) = map_option unlinked (h' y))"

lemma unlinked_frame [simp]:
  "mq_abs (unlinked q) = mq_abs q" "mq_inv (unlinked q) = mq_inv q"
  "mq_in_global (unlinked q) = mq_in_global q" "mq_release (unlinked q) = mq_release q"
  "mq_handle (unlinked q) = mq_handle q"
  by (simp_all add: unlinked_def mq_abs_def mq_slots_def mq_inv_def)

lemma same_queuesD:
  assumes "same_queues h h'" and "h' y = Some q'"
  obtains q where "h y = Some q" and "unlinked q = unlinked q'"
  using assms unfolding same_queues_def by (metis map_option_eq_Some)

lemma same_queues_refl [simp]: "same_queues h h"
  by (simp add: same_queues_def)

lemma same_queues_trans: "same_queues h h' \<Longrightarrow> same_queues h' h'' \<Longrightarrow> same_queues h h''"
  by (simp add: same_queues_def)

lemma same_queues_upd:
  "h x = Some q \<Longrightarrow> unlinked q' = unlinked q \<Longrightarrow> same_queues h (h(x \<mapsto> q'))"
  by (simp add: same_queues_def)

lemma same_queues_dom: "same_queues h h' \<Longrightarrow> h y = None \<longleftrightarrow> h' y = None"
  unfolding same_queues_def by (metis option.map_disc_iff)

lemma unlinked_eqD:
  assumes "unlinked q = unlinked q'"
  shows "mq_abs q = mq_abs q'" "mq_inv q = mq_inv q'" "mq_in_global q = mq_in_global q'"
    "mq_release q = mq_release q'" "mq_handle q = mq_handle q'"
  using assms unlinked_frame by metis+

lemma gq_list_cong:
  "(\<And>x. x \<in> set xs \<Longrightarrow> map_option mq_next (h' x) = map_option mq_next (h x)) \<Longrightarrow>
     gq_list h' p xs = gq_list h p xs"
proof (induction xs arbitrary: p)
  case Nil
  then show ?case by simp
next
  case (Cons x xs)
  then have "map_option mq_next (h' x) = map_option mq_next (h x)" by simp
  with Cons show ?case by (cases "h x"; cases "h' x") auto
qed

lemma gq_list_alloc: "gq_list h p xs \<Longrightarrow> x \<in> set xs \<Longrightarrow> \<exists>q. h x = Some q"
  by (induction h p xs rule: gq_list.induct) (auto split: option.splits)

lemma gq_list_snoc:
  assumes "gq_list h p ids" and "distinct (ids @ [x])" and "ids \<noteq> []"
    and "h x = Some q" and "mq_next q = None" and "h (last ids) = Some tq"
  shows "gq_list (h(last ids \<mapsto> tq\<lparr>mq_next := Some x\<rparr>)) p (ids @ [x])"
  using assms
proof (induction ids arbitrary: p)
  case Nil
  then show ?case by simp
next
  case (Cons y ys)
  show ?case
  proof (cases "ys = []")
    case True
    with Cons.prems show ?thesis by simp
  next
    case False
    with Cons.prems have "last ys \<noteq> y" by (metis distinct_append distinct.simps(2) last_in_set)
    with Cons False show ?thesis by (auto split: option.splits)
  qed
qed

lemma skynet_globalmq_push_rep:
  assumes "gq_rep S ids" and "p \<notin> set ids" and "mq_heap S p = Some q"
  obtains S' where "skynet_globalmq_push S p = Some S'" and "gq_rep S' (ids @ [p])"
    and "same_queues (mq_heap S) (mq_heap S')"
proof -
  have nx: "mq_next q = None" using assms unfolding gq_rep_def by blast
  show thesis
  proof (cases "ids = []")
    case True
    with assms nx show thesis
      by (intro that [of "S\<lparr>gq_head := Some p, gq_tail := Some p\<rparr>"])
        (auto simp: skynet_globalmq_push_def gq_rep_def)
  next
    case False
    then obtain tq where tq: "mq_heap S (last ids) = Some tq"
      using assms(1) gq_list_alloc last_in_set unfolding gq_rep_def by blast
    let ?S' = "S\<lparr>mq_heap := (mq_heap S)(last ids \<mapsto> tq\<lparr>mq_next := Some p\<rparr>), gq_tail := Some p\<rparr>"
    have "skynet_globalmq_push S p = Some ?S'"
      using assms nx tq False by (simp add: skynet_globalmq_push_def gq_rep_def)
    moreover have "gq_rep ?S' (ids @ [p])"
      using assms nx tq False gq_list_snoc [of "mq_heap S" "gq_head S" ids p q tq]
      by (auto simp: gq_rep_def)
    moreover have "same_queues (mq_heap S) (mq_heap ?S')"
      using tq by (simp add: same_queues_upd unlinked_def)
    ultimately show thesis by (rule that)
  qed
qed

lemma skynet_globalmq_pop_empty: "gq_rep S [] \<Longrightarrow> skynet_globalmq_pop S = Some (None, S)"
  by (simp add: gq_rep_def skynet_globalmq_pop_def)

lemma skynet_globalmq_pop_rep:
  assumes "gq_rep S (p # ids)"
  obtains S' where "skynet_globalmq_pop S = Some (Some p, S')" and "gq_rep S' ids"
    and "same_queues (mq_heap S) (mq_heap S')"
proof -
  obtain q where q: "mq_heap S p = Some q" "gq_list (mq_heap S) (mq_next q) ids" "gq_head S = Some p"
    using assms by (auto simp: gq_rep_def split: option.splits)
  have nx: "mq_next q = None \<longleftrightarrow> ids = []" using q(2) by (cases ids) auto
  let ?h = "(mq_heap S)(p \<mapsto> q\<lparr>mq_next := None\<rparr>)"
  let ?S' = "S\<lparr>gq_head := mq_next q, gq_tail := (if ids = [] then None else gq_tail S), mq_heap := ?h\<rparr>"
  have pop: "skynet_globalmq_pop S = Some (Some p, ?S')"
    using assms q nx by (auto simp: skynet_globalmq_pop_def gq_rep_def Let_def)
  have "gq_list ?h (mq_next q) ids = gq_list (mq_heap S) (mq_next q) ids"
    by (rule gq_list_cong) (use assms in \<open>auto simp: gq_rep_def\<close>)
  with q(2) have "gq_list ?h (mq_next q) ids" by simp
  moreover have "\<forall>y q'. ?h y = Some q' \<longrightarrow> mq_next q' \<noteq> None \<longrightarrow> y \<in> set ids"
    using assms by (auto simp: gq_rep_def simp del: gq_list.simps)
  ultimately have "gq_rep ?S' ids"
    using assms by (simp add: gq_rep_def del: fun_upd_apply)
  moreover have "same_queues (mq_heap S) (mq_heap ?S')"
    using q by (simp add: same_queues_upd unlinked_def)
  ultimately show thesis using pop by (intro that)
qed

text \<open>An update of a queue that keeps its link keeps the list.\<close>

lemma gq_rep_upd:
  assumes "gq_rep S ids" and "mq_heap S p = Some q" and "mq_next q' = mq_next q"
  shows "gq_rep (S\<lparr>mq_heap := (mq_heap S)(p \<mapsto> q')\<rparr>) ids"
proof -
  have "gq_list ((mq_heap S)(p \<mapsto> q')) (gq_head S) ids = gq_list (mq_heap S) (gq_head S) ids"
    using assms by (intro gq_list_cong) auto
  with assms show ?thesis by (auto simp: gq_rep_def split: if_splits)
qed

section \<open>Dropping calls the callback on every pending message\<close>

lemma mq_pop_at_sound:
  assumes "mq_heap S p = Some q" and "mq_inv q"
  shows "mq_abs q = [] \<Longrightarrow> mq_pop_at S p = Some (1, None, S\<lparr>mq_heap := (mq_heap S)(p \<mapsto>
      q\<lparr>mq_overload_threshold := MQ_OVERLOAD, mq_in_global := False\<rparr>)\<rparr>)"
    and "mq_abs q = m # ms \<Longrightarrow> \<exists>q'. mq_pop_at S p = Some (0, Some m, S\<lparr>mq_heap := (mq_heap S)(p \<mapsto> q')\<rparr>)
      \<and> mq_abs q' = ms \<and> mq_inv q' \<and> mq_release q' = mq_release q \<and> mq_next q' = mq_next q
      \<and> mq_in_global q' = mq_in_global q"
proof -
  show "mq_pop_at S p = Some (1, None, S\<lparr>mq_heap := (mq_heap S)(p \<mapsto>
      q\<lparr>mq_overload_threshold := MQ_OVERLOAD, mq_in_global := False\<rparr>)\<rparr>)" if "mq_abs q = []"
    using assms that by (simp add: mq_pop_at_def skynet_mq_pop_empty)
next
  obtain ret r q' where r: "skynet_mq_pop q = (ret, r, q')" by (metis prod.collapse)
  show "\<exists>q'. mq_pop_at S p = Some (0, Some m, S\<lparr>mq_heap := (mq_heap S)(p \<mapsto> q')\<rparr>)
      \<and> mq_abs q' = ms \<and> mq_inv q' \<and> mq_release q' = mq_release q \<and> mq_next q' = mq_next q
      \<and> mq_in_global q' = mq_in_global q"
    if "mq_abs q = m # ms"
    using skynet_mq_pop_sound [OF assms(2) that r] assms(1) r by (auto simp: mq_pop_at_def)
qed

text \<open>
  The loop ends for any queue in good shape: the callback is applied to the pending messages,
  oldest first, provided it leaves the dropped queue itself alone. \<open>obs\<close> is any part of the
  state that does not depend on the dropped queue, \<open>g\<close> what the callback does to it.
\<close>

lemma drop_loop_total:
  assumes "mq_heap S p = Some q" and "mq_inv q" and "mq_abs q = ms" and "mq_next q = None"
    and frame: "\<And>m S. \<exists>S'. f m S = Some S' \<and> mq_heap S' p = mq_heap S p \<and> obs S' = g m (obs S)"
    and obs: "\<And>S q'. obs (S\<lparr>mq_heap := (mq_heap S)(p \<mapsto> q')\<rparr>) = obs S"
  shows "\<exists>S' q'. drop_loop f S p = Some S' \<and> mq_heap S' p = Some q' \<and> mq_abs q' = []
    \<and> mq_next q' = None \<and> obs S' = fold g ms (obs S)"
  using assms(1-4)
proof (induction ms arbitrary: S q)
  case Nil
  then show ?case
    by (subst drop_loop.simps) (simp add: mq_pop_at_sound(1) obs, simp add: mq_abs_def mq_slots_def)
next
  case (Cons m ms)
  obtain q1 where p1: "mq_pop_at S p = Some (0, Some m, S\<lparr>mq_heap := (mq_heap S)(p \<mapsto> q1)\<rparr>)"
    and q1: "mq_abs q1 = ms" "mq_inv q1" "mq_next q1 = None"
    using mq_pop_at_sound(2) [OF Cons.prems(1,2,3)] Cons.prems(4) by auto
  obtain S2 where S2: "f m (S\<lparr>mq_heap := (mq_heap S)(p \<mapsto> q1)\<rparr>) = Some S2" "mq_heap S2 p = Some q1"
    "obs S2 = g m (obs S)"
    using frame [of m "S\<lparr>mq_heap := (mq_heap S)(p \<mapsto> q1)\<rparr>"] obs by auto
  with Cons.IH [OF S2(2) q1(2,1,3)] p1 show ?case
    by (subst drop_loop.simps) simp
qed

lemma drop_queue_total:
  assumes "mq_heap S p = Some q" and "mq_inv q" and "mq_next q = None"
    and frame: "\<And>m S. \<exists>S'. f m S = Some S' \<and> mq_heap S' p = mq_heap S p \<and> obs S' = g m (obs S)"
    and obs: "\<And>S (q' :: 'm message_queue option). obs (S\<lparr>mq_heap := (mq_heap S)(p := q')\<rparr>) = obs S"
  shows "\<exists>S'. drop_queue f S p = Some S' \<and> mq_heap S' p = None \<and> obs S' = fold g (mq_abs q) (obs S)"
proof -
  obtain S' q' where "drop_loop f S p = Some S'" "mq_heap S' p = Some q'" "mq_next q' = None"
    "obs S' = fold g (mq_abs q) (obs S)"
    using drop_loop_total [where f = f and g = g and obs = obs, OF assms(1,2) refl assms(3) frame obs] by blast
  then show ?thesis using obs by (auto simp: drop_queue_def mq_free_def)
qed

section \<open>Properties\<close>

text \<open>
  C1. A message queue is a FIFO whatever the interleaving of pushes and pops, across wrap-around
  and growth of the ring: starting from a new queue, the messages popped followed by the messages
  left are the messages pushed, in order, and the ring stays well formed.
\<close>

theorem mq_fifo:
  "mq_inv (snd (fifo_run mq_enqueue (\<lambda>q. snd (skynet_mq_pop q)) (mq_new h) ops))
   \<and> fst (fifo_run mq_enqueue (\<lambda>q. snd (skynet_mq_pop q)) (mq_new h) ops)
       @ mq_abs (snd (fifo_run mq_enqueue (\<lambda>q. snd (skynet_mq_pop q)) (mq_new h) ops)) = fifo_inputs ops"
  using mqf.run_conserves [OF mq_new_inv prod.collapse [symmetric], of h ops] by (simp add: mq_new_abs)

text \<open>
  Popping: an empty queue answers 1, leaves the global list (\<open>in_global\<close> is cleared) and
  resets the overload threshold; otherwise the oldest message comes out with 0, the flags are
  untouched, the remaining length is reported as overload exactly when it exceeds the threshold,
  and the new threshold is at least the length.
\<close>

theorem mq_pop_behaviour:
  assumes "mq_inv q"
  shows "case mq_abs q of
      [] \<Rightarrow> skynet_mq_pop q = (1, None, q\<lparr>mq_overload_threshold := MQ_OVERLOAD, mq_in_global := False\<rparr>)
    | m # ms \<Rightarrow> (\<exists>q'. skynet_mq_pop q = (0, Some m, q') \<and> mq_abs q' = ms \<and> mq_inv q'
        \<and> mq_in_global q' = mq_in_global q \<and> mq_release q' = mq_release q
        \<and> mq_overload q' = (if mq_overload_threshold q < length ms then length ms else mq_overload q)
        \<and> length ms \<le> mq_overload_threshold q')"
proof (cases "mq_abs q")
  case Nil
  with assms show ?thesis by (simp add: skynet_mq_pop_empty)
next
  case (Cons m ms)
  obtain ov thr where p: "skynet_mq_pop q = (0, Some m,
      q\<lparr>mq_head := Suc (mq_head q) mod mq_cap q, mq_overload := ov, mq_overload_threshold := thr\<rparr>)"
    and sc: "overload_scan (length ms) (mq_overload q) (mq_overload_threshold q) = (ov, thr)"
    using skynet_mq_pop_nonempty [OF assms Cons] by blast
  have pos: "0 < mq_overload_threshold q" using assms by (simp add: mq_inv_def)
  show ?thesis
    using skynet_mq_pop_sound [OF assms Cons p] overload_scan_pos [OF pos sc]
      overload_scan_reports [OF pos sc] Cons p by simp
qed

theorem mq_pop_behaviour_witness:
  "mq_inv (mq_enqueue (mq_new 7) (5 :: nat)) \<and> fst (skynet_mq_pop (mq_enqueue (mq_new 7) (5 :: nat))) = 0"
  using mq_pop_behaviour [OF mq_enqueue_inv [OF mq_new_inv, of 7 "5 :: nat"]] mq_enqueue_inv [OF mq_new_inv]
  by (auto simp: mq_enqueue_abs [OF mq_new_inv] mq_new_abs)

text \<open>
  C7. Releasing a marked queue terminates: the drop callback runs on every pending message exactly
  once, oldest first, and the queue is freed. The hypotheses on the callback \<open>f\<close> say that it
  leaves the dropped queue alone and acts as \<open>g\<close> on the rest of the state, observed by \<open>obs\<close>.
\<close>

theorem mq_release_drops_all:
  fixes q :: "'m message_queue"
  assumes "mq_heap S p = Some q" and "mq_inv q" and "mq_next q = None" and "mq_release q"
    and frame: "\<And>m S. \<exists>S'. f m S = Some S' \<and> mq_heap S' p = mq_heap S p \<and> obs S' = g m (obs S)"
    and obs: "\<And>S (q' :: 'm message_queue option). obs (S\<lparr>mq_heap := (mq_heap S)(p := q')\<rparr>) = obs S"
  shows "\<exists>S'. skynet_mq_release f S p = Some S' \<and> mq_heap S' p = None \<and> obs S' = fold g (mq_abs q) (obs S)"
  using drop_queue_total [where f = f and g = g and obs = obs, OF assms(1,2,3) frame obs] assms(1,4) by (auto simp: skynet_mq_release_def)

theorem mq_release_drops_all_witness:
  "\<exists>S'. skynet_mq_release (\<lambda>m S. Some (mq_state.more_update (\<lambda>l. l @ [m]) S))
       (mq_state.extend \<lparr>mq_heap = [0 \<mapsto> (mq_enqueue (mq_enqueue (mq_new 7) 1) 2)\<lparr>mq_release := True\<rparr>],
          gq_head = None, gq_tail = None\<rparr> ([] :: nat list)) 0 = Some S'
     \<and> mq_heap S' 0 = None \<and> mq_state.more S' = [1, 2]"
proof -
  let ?a = "mq_enqueue (mq_enqueue (mq_new 7) 1) 2 :: nat message_queue"
  let ?q = "?a\<lparr>mq_release := True\<rparr>"
  let ?S = "mq_state.extend \<lparr>mq_heap = [0 \<mapsto> ?q], gq_head = None, gq_tail = None\<rparr> ([] :: nat list)"
  have inv0: "mq_inv ?a" by (intro mq_enqueue_inv mq_new_inv)
  then have inv: "mq_inv ?q" by (simp add: mq_inv_def mq_slots_def)
  have "mq_abs ?q = mq_abs ?a" by (simp add: mq_abs_def mq_slots_def)
  also have "\<dots> = [1, 2]"
    by (simp add: mq_enqueue_abs [OF mq_enqueue_inv [OF mq_new_inv]] mq_enqueue_abs [OF mq_new_inv] mq_new_abs)
  finally have ab: "mq_abs ?q = [1, 2]" .
  show ?thesis
    using mq_release_drops_all [where S = ?S and p = 0 and q = ?q and obs = mq_state.more and g = "\<lambda>m l. l @ [m]"
        and f = "\<lambda>m S. Some (mq_state.more_update (\<lambda>l. l @ [m]) S)"] inv ab
    by (simp add: mq_state.defs mq_new_def)
qed

end
