(* ===== verification/Sched.thy ===== *)
theory Sched
  imports Mq
begin

text \<open>
  How queues move between the global list and the worker threads. A worker of
  \<open>skynet_context_message_dispatch\<close> (\<open>skynet-src/skynet_server.c\<close>) holds a queue from the moment
  it pops it from the global list until it pushes it back, finds it empty or releases it; the
  set of held queues is the only state this theory adds. The steps below are the calls those
  functions make, in any interleaving of any number of threads.
\<close>

record 'm sched = "'m mq_state" +
  held :: "mqid set"

text \<open>
  The guards that are not tests of the C code say what the caller's reference on the context
  gives: a sender and a worker that pops a message hold a reference (\<open>skynet_handle_grab\<close>), and
  \<open>delete_context\<close>, the only caller of \<open>skynet_mq_mark_release\<close>, runs when no reference is left.
\<close>

inductive sched_step :: "'m sched \<Rightarrow> 'm sched \<Rightarrow> bool" where
  create: "mq_heap S p = None \<Longrightarrow>
    sched_step S ((skynet_mq_create S p h)\<lparr>held := insert p (held S)\<rparr>)"
| put_back: "p \<in> held S \<Longrightarrow> skynet_globalmq_push S p = Some S' \<Longrightarrow>
    sched_step S (S'\<lparr>held := held S - {p}\<rparr>)"
| send: "mq_heap S p = Some q \<Longrightarrow> \<not> mq_release q \<Longrightarrow> skynet_mq_push S p m = Some S' \<Longrightarrow>
    sched_step S S'"
| grab: "skynet_globalmq_pop S = Some (Some p, S') \<Longrightarrow>
    sched_step S (S'\<lparr>held := insert p (held S)\<rparr>)"
| take: "p \<in> held S \<Longrightarrow> mq_pop_at S p = Some (0, m, S') \<Longrightarrow> sched_step S S'"
| idle: "p \<in> held S \<Longrightarrow> mq_heap S p = Some q \<Longrightarrow> \<not> mq_release q \<Longrightarrow>
    mq_pop_at S p = Some (1, m, S') \<Longrightarrow> sched_step S (S'\<lparr>held := held S - {p}\<rparr>)"
| mark: "mq_heap S p = Some q \<Longrightarrow> \<not> mq_release q \<Longrightarrow> skynet_mq_mark_release S p = Some S' \<Longrightarrow>
    sched_step S S'"
| free: "p \<in> held S \<Longrightarrow> mq_heap S p = Some q \<Longrightarrow> mq_release q \<Longrightarrow>
    mq_pop_at S p = Some (1, m, S1) \<Longrightarrow> mq_free S1 p = Some S' \<Longrightarrow>
    sched_step S (S'\<lparr>held := held S - {p}\<rparr>)"

definition sched_init :: "'m sched" where
  "sched_init = \<lparr>mq_heap = Map.empty, gq_head = None, gq_tail = None, held = {}\<rparr>"

inductive sched_reach :: "'m sched \<Rightarrow> bool" where
  init: "sched_reach sched_init"
| step: "sched_reach S \<Longrightarrow> sched_step S S' \<Longrightarrow> sched_reach S'"

section \<open>The invariant\<close>

text \<open>
  A queue is on the list or held by a worker exactly when one of its flags says so, and a
  queue with pending messages always carries a flag.
\<close>

definition queues_ok :: "(mqid \<rightharpoonup> 'm message_queue) \<Rightarrow> mqid set \<Rightarrow> bool" where
  "queues_ok h A \<longleftrightarrow> A \<subseteq> dom h \<and> (\<forall>p q. h p = Some q \<longrightarrow> mq_inv q
     \<and> (p \<in> A \<longleftrightarrow> mq_in_global q \<or> mq_release q)
     \<and> (mq_abs q \<noteq> [] \<longrightarrow> mq_in_global q \<or> mq_release q))"

definition sched_ok :: "'m sched \<Rightarrow> mqid list \<Rightarrow> bool" where
  "sched_ok S ids \<longleftrightarrow> gq_rep S ids \<and> set ids \<inter> held S = {} \<and> queues_ok (mq_heap S) (set ids \<union> held S)"

definition sched_inv :: "'m sched \<Rightarrow> bool" where
  "sched_inv S \<longleftrightarrow> (\<exists>ids. sched_ok S ids)"

lemma queues_ok_same:
  assumes "queues_ok h A" and "same_queues h h'"
  shows "queues_ok h' A"
proof -
  have "A \<subseteq> dom h'" using assms same_queues_dom [OF assms(2)] unfolding queues_ok_def by blast
  moreover have "mq_inv q \<and> (p \<in> A \<longleftrightarrow> mq_in_global q \<or> mq_release q)
      \<and> (mq_abs q \<noteq> [] \<longrightarrow> mq_in_global q \<or> mq_release q)" if "h' p = Some q" for p q
  proof -
    obtain q0 where "h p = Some q0" "unlinked q0 = unlinked q"
      using same_queuesD [OF assms(2) \<open>h' p = Some q\<close>] by blast
    with assms(1) unlinked_eqD [of q0 q] show ?thesis unfolding queues_ok_def by metis
  qed
  ultimately show ?thesis by (simp add: queues_ok_def)
qed

lemma queues_ok_upd:
  assumes "queues_ok h A" and "mq_inv q'" and "p \<in> B \<longleftrightarrow> mq_in_global q' \<or> mq_release q'"
    and "mq_abs q' \<noteq> [] \<longrightarrow> mq_in_global q' \<or> mq_release q'" and "B - {p} = A - {p}"
  shows "queues_ok (h(p \<mapsto> q')) B"
  using assms unfolding queues_ok_def by (auto split: if_splits)

lemma queues_ok_free:
  "queues_ok h A \<Longrightarrow> queues_ok (h(p := None)) (A - {p})"
  unfolding queues_ok_def by (auto split: if_splits)

lemma sched_okD:
  assumes "sched_ok S ids" and "mq_heap S p = Some q"
  shows "mq_inv q" "p \<in> set ids \<union> held S \<longleftrightarrow> mq_in_global q \<or> mq_release q"
    "mq_abs q \<noteq> [] \<Longrightarrow> mq_in_global q \<or> mq_release q"
  using assms unfolding sched_ok_def queues_ok_def by blast+

lemma sched_ok_alloc: "sched_ok S ids \<Longrightarrow> p \<in> set ids \<union> held S \<Longrightarrow> \<exists>q. mq_heap S p = Some q"
  unfolding sched_ok_def queues_ok_def by blast

section \<open>Every operation succeeds and keeps the invariant\<close>

lemma held_upd_simps [simp]:
  "gq_rep (S\<lparr>held := X\<rparr>) ids = gq_rep S ids"
  by (simp add: gq_rep_def)

lemma push_held:
  "skynet_globalmq_push S p = Some S' \<Longrightarrow> held S' = held S"
  "skynet_globalmq_pop S = Some (r, S') \<Longrightarrow> held S' = held S"
  "skynet_mq_push S p m = Some S' \<Longrightarrow> held S' = held S"
  by (auto simp: skynet_globalmq_push_def skynet_globalmq_pop_def skynet_mq_push_def Let_def
      split: option.splits if_splits)

text \<open>Pushing a queue that is allocated and not on the list.\<close>

lemma globalmq_push_ok:
  assumes rep: "gq_rep S ids" and "p \<notin> set ids" and "mq_heap S p = Some q"
    and ok: "queues_ok (mq_heap S) (insert p (set ids \<union> held S))"
    and disj: "set ids \<inter> held S = {}"
  shows "\<exists>S'. skynet_globalmq_push S p = Some S' \<and> sched_ok (S'\<lparr>held := held S - {p}\<rparr>) (ids @ [p])"
proof -
  obtain S' where S': "skynet_globalmq_push S p = Some S'" "gq_rep S' (ids @ [p])"
    "same_queues (mq_heap S) (mq_heap S')"
    using skynet_globalmq_push_rep [OF assms(1-3)] by blast
  have "set (ids @ [p]) \<union> (held S - {p}) = insert p (set ids \<union> held S)" by auto
  then have "queues_ok (mq_heap S') (set (ids @ [p]) \<union> (held S - {p}))"
    using queues_ok_same [OF ok S'(3)] by simp
  with S' disj show ?thesis by (auto simp: sched_ok_def)
qed

lemma send_ok:
  assumes ok: "sched_ok S ids" and q: "mq_heap S p = Some q" and "\<not> mq_release q"
  shows "\<exists>S' ids'. skynet_mq_push S p m = Some S' \<and> sched_ok S' ids'"
proof (cases "mq_in_global q")
  case True
  let ?q = "mq_enqueue q m"
  have "skynet_mq_push S p m = Some (S\<lparr>mq_heap := (mq_heap S)(p \<mapsto> ?q)\<rparr>)"
    using q True by (simp add: skynet_mq_push_def)
  moreover have "sched_ok (S\<lparr>mq_heap := (mq_heap S)(p \<mapsto> ?q)\<rparr>) ids"
    using ok q True sched_okD [OF ok q] gq_rep_upd [of S ids p q ?q]
    by (auto simp: sched_ok_def mq_enqueue_inv intro: queues_ok_upd)
  ultimately show ?thesis by blast
next
  case False
  let ?q = "(mq_enqueue q m)\<lparr>mq_in_global := True\<rparr>"
  let ?S = "S\<lparr>mq_heap := (mq_heap S)(p \<mapsto> ?q)\<rparr>"
  have out: "p \<notin> set ids \<union> held S" using sched_okD(2) [OF ok q] False assms(3) by simp
  have inv: "mq_inv ?q"
    using mq_enqueue_inv [OF sched_okD(1) [OF ok q], of m] by (simp add: mq_inv_def mq_slots_def)
  have push: "skynet_mq_push S p m = skynet_globalmq_push ?S p"
    using q False by (simp add: skynet_mq_push_def)
  have "gq_rep ?S ids"
    using gq_rep_upd [of S ids p q ?q] ok q by (simp add: sched_ok_def)
  moreover have "queues_ok (mq_heap ?S) (insert p (set ids \<union> held ?S))"
    using ok inv queues_ok_upd [of "mq_heap S" "set ids \<union> held S" ?q p "insert p (set ids \<union> held S)"]
    by (simp add: sched_ok_def)
  ultimately obtain S' where "skynet_globalmq_push ?S p = Some S'"
    "sched_ok (S'\<lparr>held := held ?S - {p}\<rparr>) (ids @ [p])"
    using globalmq_push_ok [of ?S ids p ?q] out ok by (auto simp: sched_ok_def)
  moreover from this(1) have "S'\<lparr>held := held ?S - {p}\<rparr> = S'"
    using out push_held(1) [of ?S p S'] by (simp add: insert_absorb)
  ultimately show ?thesis using push by metis
qed

lemma mark_ok:
  assumes ok: "sched_ok S ids" and q: "mq_heap S p = Some q" and "\<not> mq_release q"
  shows "\<exists>S' ids'. skynet_mq_mark_release S p = Some S' \<and> sched_ok S' ids'"
proof -
  let ?q = "q\<lparr>mq_release := True\<rparr>"
  let ?S = "S\<lparr>mq_heap := (mq_heap S)(p \<mapsto> ?q)\<rparr>"
  have inv: "mq_inv ?q" using sched_okD(1) [OF ok q] by (simp add: mq_inv_def mq_slots_def)
  have rep: "gq_rep ?S ids" using gq_rep_upd [of S ids p q ?q] ok q by (simp add: sched_ok_def)
  show ?thesis
  proof (cases "mq_in_global q")
    case True
    then have "skynet_mq_mark_release S p = Some ?S"
      using q assms(3) by (simp add: skynet_mq_mark_release_def)
    moreover have "sched_ok ?S ids"
      using rep inv ok sched_okD(2) [OF ok q] True
      by (auto simp: sched_ok_def intro: queues_ok_upd)
    ultimately show ?thesis by blast
  next
    case False
    then have out: "p \<notin> set ids \<union> held S" using sched_okD(2) [OF ok q] assms(3) by simp
    have push: "skynet_mq_mark_release S p = skynet_globalmq_push ?S p"
      using q assms(3) False by (simp add: skynet_mq_mark_release_def)
    have "queues_ok (mq_heap ?S) (insert p (set ids \<union> held ?S))"
      using ok inv queues_ok_upd [of "mq_heap S" "set ids \<union> held S" ?q p "insert p (set ids \<union> held S)"]
      by (simp add: sched_ok_def)
    then obtain S' where S': "skynet_globalmq_push ?S p = Some S'"
      "sched_ok (S'\<lparr>held := held ?S - {p}\<rparr>) (ids @ [p])"
      using globalmq_push_ok [of ?S ids p ?q] rep out ok by (auto simp: sched_ok_def)
    moreover from this(1) have "S'\<lparr>held := held ?S - {p}\<rparr> = S'"
      using out push_held(1) [of ?S p S'] by (simp add: insert_absorb)
    ultimately show ?thesis using push by metis
  qed
qed

lemma put_back_ok:
  assumes ok: "sched_ok S ids" and "p \<in> held S"
  shows "\<exists>S'. skynet_globalmq_push S p = Some S' \<and> sched_ok (S'\<lparr>held := held S - {p}\<rparr>) (ids @ [p])"
proof -
  obtain q where "mq_heap S p = Some q" using sched_ok_alloc [OF ok] assms(2) by blast
  moreover have "insert p (set ids \<union> held S) = set ids \<union> held S" using assms(2) by blast
  ultimately show ?thesis
    using globalmq_push_ok [of S ids p q] ok assms(2) by (auto simp: sched_ok_def)
qed

lemma grab_ok:
  assumes ok: "sched_ok S (p # ids)"
  shows "\<exists>S'. skynet_globalmq_pop S = Some (Some p, S') \<and> sched_ok (S'\<lparr>held := insert p (held S)\<rparr>) ids"
proof -
  obtain S' where S': "skynet_globalmq_pop S = Some (Some p, S')" "gq_rep S' ids"
    "same_queues (mq_heap S) (mq_heap S')"
    using skynet_globalmq_pop_rep ok unfolding sched_ok_def by blast
  have "queues_ok (mq_heap S') (set (p # ids) \<union> held S)"
    using ok queues_ok_same [OF _ S'(3)] by (simp add: sched_ok_def)
  then have "queues_ok (mq_heap S') (set ids \<union> insert p (held S))" by simp
  with S' ok show ?thesis by (auto simp: sched_ok_def gq_rep_def)
qed

lemma take_ok:
  assumes ok: "sched_ok S ids" and "p \<in> held S" and "mq_pop_at S p = Some (0, m, S')"
  shows "sched_ok S' ids"
proof -
  obtain q where q: "mq_heap S p = Some q" using sched_ok_alloc [OF ok] assms(2) by blast
  note inv = sched_okD(1) [OF ok q]
  show ?thesis
  proof (cases "mq_abs q")
    case Nil
    with mq_pop_at_sound(1) [OF q inv] assms(3) show ?thesis by simp
  next
    case (Cons x xs)
    then obtain q' where q': "S' = S\<lparr>mq_heap := (mq_heap S)(p \<mapsto> q')\<rparr>" "mq_inv q'"
      "mq_release q' = mq_release q" "mq_next q' = mq_next q" "mq_in_global q' = mq_in_global q"
      using mq_pop_at_sound(2) [OF q inv Cons] assms(3) by auto
    with ok q sched_okD(2) [OF ok q] assms(2) gq_rep_upd [of S ids p q q'] show ?thesis
      by (auto simp: sched_ok_def intro: queues_ok_upd)
  qed
qed

lemma pop_empty_at:
  assumes ok: "sched_ok S ids" and q: "mq_heap S p = Some q" and "mq_pop_at S p = Some (1, m, S')"
  shows "mq_abs q = [] \<and> S' = S\<lparr>mq_heap := (mq_heap S)(p \<mapsto>
    q\<lparr>mq_overload_threshold := MQ_OVERLOAD, mq_in_global := False\<rparr>)\<rparr>"
  using mq_pop_at_sound [OF q sched_okD(1) [OF ok q]] assms(3) by (cases "mq_abs q") auto

lemma idle_ok:
  assumes ok: "sched_ok S ids" and "p \<in> held S" and q: "mq_heap S p = Some q" and "\<not> mq_release q"
    and pop: "mq_pop_at S p = Some (1, m, S')"
  shows "sched_ok (S'\<lparr>held := held S - {p}\<rparr>) ids"
proof -
  let ?q = "q\<lparr>mq_overload_threshold := MQ_OVERLOAD, mq_in_global := False\<rparr>"
  have e: "mq_abs q = []" "S' = S\<lparr>mq_heap := (mq_heap S)(p \<mapsto> ?q)\<rparr>"
    using pop_empty_at [OF ok q pop] by simp_all
  have "mq_inv ?q" "mq_abs ?q = []"
    using sched_okD(1) [OF ok q] e(1) by (simp_all add: mq_inv_def mq_slots_def mq_abs_def MQ_OVERLOAD_def)
  then have "queues_ok ((mq_heap S)(p \<mapsto> ?q)) (set ids \<union> (held S - {p}))"
    using ok assms(2,4) by (intro queues_ok_upd [where A = "set ids \<union> held S"]) (auto simp: sched_ok_def)
  with ok q e gq_rep_upd [of S ids p q ?q] show ?thesis by (auto simp: sched_ok_def)
qed

lemma free_ok:
  assumes ok: "sched_ok S ids" and "p \<in> held S" and q: "mq_heap S p = Some q"
    and pop: "mq_pop_at S p = Some (1, m, S1)"
  shows "\<exists>S'. mq_free S1 p = Some S' \<and> sched_ok (S'\<lparr>held := held S - {p}\<rparr>) ids"
proof -
  have S1: "S1 = S\<lparr>mq_heap := (mq_heap S)(p \<mapsto> q\<lparr>mq_overload_threshold := MQ_OVERLOAD, mq_in_global := False\<rparr>)\<rparr>"
    using pop_empty_at [OF ok q pop] by simp
  have out: "p \<notin> set ids" using ok assms(2) by (auto simp: sched_ok_def)
  then have nx: "mq_next q = None" using ok q unfolding sched_ok_def gq_rep_def by blast
  let ?h = "(mq_heap S)(p := None)"
  have "gq_list ?h (gq_head S) ids = gq_list (mq_heap S) (gq_head S) ids"
    using out by (intro gq_list_cong) auto
  then have "gq_rep (S\<lparr>mq_heap := ?h\<rparr>) ids"
    using ok by (auto simp: sched_ok_def gq_rep_def)
  moreover have "(set ids \<union> held S) - {p} = set ids \<union> (held S - {p})" using out by blast
  then have "queues_ok ?h (set ids \<union> (held S - {p}))"
    using ok queues_ok_free [of "mq_heap S" "set ids \<union> held S" p] by (simp add: sched_ok_def)
  ultimately show ?thesis
    using nx ok S1 by (auto simp: mq_free_def sched_ok_def)
qed

lemma create_ok:
  assumes ok: "sched_ok S ids" and "mq_heap S p = None"
  shows "sched_ok ((skynet_mq_create S p h)\<lparr>held := insert p (held S)\<rparr>) ids"
proof -
  have out: "p \<notin> set ids \<union> held S" using sched_ok_alloc [OF ok, of p] assms(2) by auto
  have "gq_list ((mq_heap S)(p \<mapsto> mq_new h)) (gq_head S) ids = gq_list (mq_heap S) (gq_head S) ids"
    using out by (intro gq_list_cong) auto
  moreover have "queues_ok ((mq_heap S)(p \<mapsto> mq_new h)) (set ids \<union> insert p (held S))"
    using ok mq_new_inv mq_new_abs out
    by (intro queues_ok_upd [where A = "set ids \<union> held S"]) (auto simp: sched_ok_def mq_new_def)
  ultimately show ?thesis
    using ok out by (auto simp: sched_ok_def gq_rep_def skynet_mq_create_def mq_new_def)
qed

lemma sched_step_inv: "sched_step S S' \<Longrightarrow> sched_inv S \<Longrightarrow> sched_inv S'"
proof (induction rule: sched_step.induct)
  case (create S p h)
  then show ?case unfolding sched_inv_def using create_ok by blast
next
  case (put_back p S S')
  then show ?case unfolding sched_inv_def using put_back_ok by (metis option.inject)
next
  case (send S p q m S')
  then show ?case unfolding sched_inv_def using send_ok by (metis option.inject)
next
  case (grab S p S')
  then obtain ids where ok: "sched_ok S ids" unfolding sched_inv_def by blast
  obtain x ids' where ids: "ids = x # ids'"
    using grab ok skynet_globalmq_pop_empty [of S] by (cases ids) (auto simp: sched_ok_def)
  with grab_ok [of S x ids'] ok grab have "sched_ok (S'\<lparr>held := insert p (held S)\<rparr>) ids'" by auto
  then show ?case unfolding sched_inv_def by blast
next
  case (take p S m S')
  then show ?case unfolding sched_inv_def using take_ok by blast
next
  case (idle p S q m S')
  then show ?case unfolding sched_inv_def using idle_ok by blast
next
  case (mark S p q S')
  then show ?case unfolding sched_inv_def using mark_ok by (metis option.inject)
next
  case (free p S q m S1 S')
  then show ?case unfolding sched_inv_def using free_ok by (metis option.inject)
qed

lemma sched_init_inv: "sched_inv sched_init"
  unfolding sched_inv_def sched_ok_def queues_ok_def gq_rep_def sched_init_def
  by (intro exI [of _ "[]"]) simp

lemma sched_reach_inv: "sched_reach S \<Longrightarrow> sched_inv S"
  by (induction rule: sched_reach.induct) (auto intro: sched_init_inv sched_step_inv)

section \<open>Properties\<close>

text \<open>
  C2. No lost wake-up and no double dispatch: in every reachable state of any interleaving of
  senders, workers, creations and releases, the linked global list spells a duplicate-free list of
  queues, none of which is at the same time held by a worker, and every queue with pending messages
  is on the list or held by a worker.
\<close>

theorem sched_no_lost_wakeup:
  assumes "sched_reach S"
  shows "\<exists>ids. gq_list (mq_heap S) (gq_head S) ids \<and> distinct ids \<and> set ids \<inter> held S = {}
     \<and> (\<forall>p q. mq_heap S p = Some q \<longrightarrow> mq_abs q \<noteq> [] \<longrightarrow> p \<in> set ids \<union> held S)"
proof -
  obtain ids where ok: "sched_ok S ids" using sched_reach_inv [OF assms] unfolding sched_inv_def by blast
  then have "p \<in> set ids \<union> held S" if "mq_heap S p = Some q" "mq_abs q \<noteq> []" for p q
    using sched_okD [OF ok that(1)] that(2) by blast
  with ok show ?thesis by (auto simp: sched_ok_def gq_rep_def)
qed

lemma reach_send_example:
  fixes S' :: "'m sched"
  assumes "skynet_mq_push ((skynet_mq_create sched_init 0 1)\<lparr>held := {0}\<rparr>) 0 m = Some S'"
  shows "sched_reach S'"
proof -
  have "sched_step sched_init ((skynet_mq_create sched_init 0 1)\<lparr>held := {0}\<rparr> :: 'm sched)"
    using sched_step.create [of "sched_init :: 'm sched" 0 1] by (simp add: sched_init_def)
  then have r: "sched_reach ((skynet_mq_create sched_init 0 1)\<lparr>held := {0}\<rparr> :: 'm sched)"
    using sched_reach.step [OF sched_reach.init] by blast
  show ?thesis
    by (rule sched_reach.step [OF r], rule sched_step.send [where p = 0 and q = "mq_new 1"])
      (use assms in \<open>simp_all add: skynet_mq_create_def mq_new_def\<close>)
qed

theorem sched_no_lost_wakeup_witness:
  "\<exists>S' :: nat sched. skynet_mq_push ((skynet_mq_create sched_init 0 1)\<lparr>held := {0}\<rparr>) 0 5 = Some S'
     \<and> sched_reach S' \<and> (\<exists>q. mq_heap S' 0 = Some q \<and> mq_abs q = [5] \<and> 0 \<in> held S')"
proof -
  let ?S = "(skynet_mq_create sched_init 0 1)\<lparr>held := {0}\<rparr> :: nat sched"
  let ?S' = "?S\<lparr>mq_heap := (mq_heap ?S)(0 \<mapsto> mq_enqueue (mq_new 1) 5)\<rparr>"
  have push: "skynet_mq_push ?S 0 5 = Some ?S'"
    by (simp add: skynet_mq_push_def skynet_mq_create_def mq_new_def)
  have q: "mq_heap ?S' 0 = Some (mq_enqueue (mq_new 1) 5)" "mq_abs (mq_enqueue (mq_new 1) (5 :: nat)) = [5]"
    by (simp_all add: mq_enqueue_abs [OF mq_new_inv] mq_new_abs)
  from reach_send_example [OF push] have r: "sched_reach ?S'" .
  obtain ids where "gq_list (mq_heap ?S') (gq_head ?S') ids"
    "\<forall>p q. mq_heap ?S' p = Some q \<longrightarrow> mq_abs q \<noteq> [] \<longrightarrow> p \<in> set ids \<union> held ?S'"
    using sched_no_lost_wakeup [OF r] by blast
  with push q r show ?thesis by (intro exI [of _ ?S'] conjI exI [of _ "mq_enqueue (mq_new 1) 5"]) simp_all
qed

text \<open>
  C5. In a reachable state no operation of the scheduler fails an assertion or touches freed
  memory: a message can be pushed to any queue that is not marked, such a queue can be marked, a
  worker can pop the global list, pop the queue it holds, put it back, and free it once it is empty.
\<close>

theorem sched_operations_succeed:
  assumes "sched_reach S"
  shows "(\<forall>p q m. mq_heap S p = Some q \<longrightarrow> \<not> mq_release q \<longrightarrow>
        skynet_mq_push S p m \<noteq> None \<and> skynet_mq_mark_release S p \<noteq> None)
     \<and> skynet_globalmq_pop S \<noteq> None
     \<and> (\<forall>p \<in> held S. skynet_globalmq_push S p \<noteq> None \<and> mq_pop_at S p \<noteq> None
          \<and> (\<forall>m S1. mq_pop_at S p = Some (1, m, S1) \<longrightarrow> mq_free S1 p \<noteq> None))"
proof -
  obtain ids where ok: "sched_ok S ids" using sched_reach_inv [OF assms] unfolding sched_inv_def by blast
  have "skynet_globalmq_pop S \<noteq> None"
  proof (cases ids)
    case Nil
    with ok skynet_globalmq_pop_empty show ?thesis by (auto simp: sched_ok_def)
  next
    case (Cons p ids')
    with ok grab_ok show ?thesis by blast
  qed
  moreover have "skynet_globalmq_push S p \<noteq> None \<and> mq_pop_at S p \<noteq> None
      \<and> (\<forall>m S1. mq_pop_at S p = Some (1, m, S1) \<longrightarrow> mq_free S1 p \<noteq> None)" if p: "p \<in> held S" for p
  proof -
    obtain q where q: "mq_heap S p = Some q" using sched_ok_alloc [OF ok] p by blast
    then have "mq_pop_at S p \<noteq> None" by (auto simp: mq_pop_at_def split: prod.splits)
    with put_back_ok [OF ok p] free_ok [OF ok p q] show ?thesis by blast
  qed
  moreover have "skynet_mq_push S p m \<noteq> None \<and> skynet_mq_mark_release S p \<noteq> None"
    if "mq_heap S p = Some q" "\<not> mq_release q" for p q m
    using send_ok [OF ok that] mark_ok [OF ok that] by blast
  ultimately show ?thesis by blast
qed

theorem sched_operations_succeed_witness:
  "\<exists>S' :: nat sched. skynet_mq_push ((skynet_mq_create sched_init 0 1)\<lparr>held := {0}\<rparr>) 0 5 = Some S'
     \<and> skynet_globalmq_pop S' \<noteq> None"
proof -
  obtain S' where "skynet_mq_push ((skynet_mq_create sched_init 0 1)\<lparr>held := {0}\<rparr>) 0 5 = Some (S' :: nat sched)"
    by (simp add: skynet_mq_push_def skynet_mq_create_def mq_new_def)
  with sched_operations_succeed [OF reach_send_example [OF this]] show ?thesis by blast
qed

end
