(* ===== verification/Timer.thy ===== *)
theory Timer
  imports Mq
begin

text \<open>
  The timing wheel of \<open>skynet-src/skynet_timer.c\<close>: 256 near slots and four levels of 64 slots,
  each a list of nodes with a 32-bit expiry time. The intrusive linked lists of the C code are
  HOL lists (\<open>link\<close> appends, \<open>link_clear\<close> takes the whole list), times are 32-bit words that
  wrap, and the spin lock makes each operation one step. The events themselves are a type
  parameter; \<open>skynet_timeout\<close>, which also pushes messages, is in \<open>Server\<close>.
\<close>

section \<open>Data\<close>

definition TIME_NEAR_MASK :: u32 where "TIME_NEAR_MASK = 0xff"
definition TIME_LEVEL_MASK :: u32 where "TIME_LEVEL_MASK = 0x3f"

record timer_event =
  te_handle :: u32
  te_session :: i32

record 'e timer_node =
  tn_expire :: u32
  tn_event :: 'e

record 'e timer =
  near :: "'e timer_node list list"
  levels :: "'e timer_node list list list"
  tm_time :: u32
  tm_current :: u32
  tm_starttime :: u32
  tm_current_point :: u64
  tm_origin_point :: u64

section \<open>Operations\<close>

function level_scan :: "u32 \<Rightarrow> u32 \<Rightarrow> u32 \<Rightarrow> nat \<Rightarrow> nat" where
  "level_scan time current_time msk i =
     (if i < 3 then
        (if (time OR (msk - 1)) = (current_time OR (msk - 1)) then i
         else level_scan time current_time (push_bit 6 msk) (Suc i))
      else i)"
  by pat_completeness auto
termination
  by (relation "measure (\<lambda>(time, current_time, msk, i). 3 - i)") auto

declare level_scan.simps [simp del]

definition add_node :: "'e timer \<Rightarrow> 'e timer_node \<Rightarrow> 'e timer" where
  "add_node T node =
     (let time = tn_expire node; current_time = tm_time T in
      if (time OR TIME_NEAR_MASK) = (current_time OR TIME_NEAR_MASK) then
        (let idx = unat (time AND TIME_NEAR_MASK) in
         T\<lparr>near := (near T)[idx := near T ! idx @ [node]]\<rparr>)
      else
        (let i = level_scan time current_time (push_bit 6 0x100) 0;
             idx = unat (drop_bit (8 + i * 6) time AND TIME_LEVEL_MASK);
             lvl = levels T ! i
         in T\<lparr>levels := (levels T)[i := lvl[idx := lvl ! idx @ [node]]]\<rparr>))"

definition timer_add :: "'e timer \<Rightarrow> 'e \<Rightarrow> i32 \<Rightarrow> 'e timer" where
  "timer_add T arg time = add_node T \<lparr>tn_expire = time + tm_time T, tn_event = arg\<rparr>"

definition move_list :: "'e timer \<Rightarrow> nat \<Rightarrow> nat \<Rightarrow> 'e timer" where
  "move_list T level idx =
     (let lvl = levels T ! level;
          current = lvl ! idx;
          T1 = T\<lparr>levels := (levels T)[level := lvl[idx := []]]\<rparr>
      in foldl add_node T1 current)"

text \<open>
  The \<open>while\<close> loop of \<open>timer_shift\<close>. It is entered with a non-zero \<open>ct\<close> and leaves at the
  latest at level 3 (\<open>timer_shift_moves\<close> below): the bound on \<open>i\<close> only makes it total.
\<close>

function shift_loop :: "'e timer \<Rightarrow> u32 \<Rightarrow> u32 \<Rightarrow> u32 \<Rightarrow> nat \<Rightarrow> 'e timer" where
  "shift_loop T ct msk time i =
     (if i < 4 \<and> (ct AND (msk - 1)) = 0 then
        (let idx = time AND TIME_LEVEL_MASK in
         if idx \<noteq> 0 then move_list T i (unat idx)
         else shift_loop T ct (push_bit 6 msk) (drop_bit 6 time) (Suc i))
      else T)"
  by pat_completeness auto
termination
  by (relation "measure (\<lambda>(T, ct, msk, time, i). 4 - i)") auto

declare shift_loop.simps [simp del]

definition timer_shift :: "'e timer \<Rightarrow> 'e timer" where
  "timer_shift T =
     (let ct = tm_time T + 1; T1 = T\<lparr>tm_time := ct\<rparr> in
      if ct = 0 then move_list T1 3 0
      else shift_loop T1 ct 0x100 (drop_bit 8 ct) 0)"

text \<open>
  \<open>timer_execute\<close> hands the list of the current slot to \<open>dispatch_list\<close>; the model returns the
  events in dispatch order. The C loop repeats while other threads refill the slot between two
  rounds; such an addition is a separate step here, executed by the next call.
\<close>

definition timer_execute :: "'e timer \<Rightarrow> 'e list \<times> 'e timer" where
  "timer_execute T =
     (let idx = unat (tm_time T AND TIME_NEAR_MASK) in
      (map tn_event (near T ! idx), T\<lparr>near := (near T)[idx := []]\<rparr>))"

definition timer_update :: "'e timer \<Rightarrow> 'e list \<times> 'e timer" where
  "timer_update T =
     (let (out1, T1) = timer_execute T;
          T2 = timer_shift T1;
          (out2, T3) = timer_execute T2
      in (out1 @ out2, T3))"

definition timer_create_timer :: "'e timer" where
  "timer_create_timer =
     \<lparr>near = replicate 256 [], levels = replicate 4 (replicate 64 []), tm_time = 0,
      tm_current = 0, tm_starttime = 0, tm_current_point = 0, tm_origin_point = 0\<rparr>"

text \<open>\<open>tv_sec\<close> and \<open>tv_nsec\<close> are what \<open>clock_gettime\<close> answers.\<close>

definition systime :: "u64 \<Rightarrow> u64 \<Rightarrow> u32 \<times> u32" where
  "systime tv_sec tv_nsec = (ucast tv_sec, ucast (tv_nsec div 10000000))"

definition gettime :: "u64 \<Rightarrow> u64 \<Rightarrow> u64" where
  "gettime tv_sec tv_nsec = tv_sec * 100 + tv_nsec div 10000000"

fun timer_ticks :: "nat \<Rightarrow> 'e timer \<Rightarrow> 'e list list \<times> 'e timer" where
  "timer_ticks 0 T = ([], T)"
| "timer_ticks (Suc n) T =
     (let (out, T1) = timer_update T; (outs, T2) = timer_ticks n T1 in (out # outs, T2))"

text \<open>\<open>cp\<close> is the answer of \<open>gettime\<close>; the flag says whether the time error is reported.\<close>

definition skynet_updatetime :: "u64 \<Rightarrow> 'e timer \<Rightarrow> bool \<times> 'e list list \<times> 'e timer" where
  "skynet_updatetime cp T =
     (if cp < tm_current_point T then (True, [], T\<lparr>tm_current_point := cp\<rparr>)
      else if cp \<noteq> tm_current_point T then
        (let diff = (ucast (cp - tm_current_point T) :: u32);
             oc = tm_current T;
             T1 = T\<lparr>tm_current_point := cp, tm_current := oc + diff\<rparr>;
             T2 = (if tm_current T1 < oc
                   then T1\<lparr>tm_starttime := tm_starttime T1 + 0xffffffff div 100\<rparr> else T1);
             (outs, T3) = timer_ticks (unat diff) T2
         in (False, outs, T3))
      else (False, [], T))"

definition skynet_gettime_fixsec :: "'e timer \<Rightarrow> u32" where
  "skynet_gettime_fixsec T = tm_starttime T"

definition skynet_gettime :: "'e timer \<Rightarrow> u32" where
  "skynet_gettime T = tm_current T"

definition skynet_timer_init :: "u64 \<times> u64 \<Rightarrow> u64 \<times> u64 \<Rightarrow> 'e timer" where
  "skynet_timer_init wall clk =
     (let (sec, cs) = systime (fst wall) (snd wall);
          point = gettime (fst clk) (snd clk)
      in timer_create_timer\<lparr>tm_starttime := sec, tm_current := cs,
           tm_current_point := point, tm_origin_point := point\<rparr>)"

section \<open>Where a node belongs\<close>

datatype place = Near nat | Far nat nat

text \<open>The place of an expiry time \<open>e\<close> at time \<open>t\<close>, in plain arithmetic.\<close>

definition far_level :: "nat \<Rightarrow> nat \<Rightarrow> nat" where
  "far_level a b =
     (if a div 64 = b div 64 then 0
      else if a div 4096 = b div 4096 then 1
      else if a div 262144 = b div 262144 then 2 else 3)"

definition place :: "u32 \<Rightarrow> u32 \<Rightarrow> place" where
  "place e t =
     (let a = unat e div 256; b = unat t div 256 in
      if a = b then Near (unat e mod 256)
      else Far (far_level a b) (a div 64 ^ far_level a b mod 64))"

definition slot :: "'e timer \<Rightarrow> place \<Rightarrow> 'e timer_node list" where
  "slot T p = (case p of Near i \<Rightarrow> near T ! i | Far i j \<Rightarrow> levels T ! i ! j)"

definition wheel_shape :: "'e timer \<Rightarrow> bool" where
  "wheel_shape T \<longleftrightarrow> length (near T) = 256 \<and> length (levels T) = 4
     \<and> (\<forall>lvl \<in> set (levels T). length lvl = 64)"

definition valid_place :: "place \<Rightarrow> bool" where
  "valid_place p = (case p of Near i \<Rightarrow> i < 256 | Far i j \<Rightarrow> i < 4 \<and> j < 64)"

lemma masks: "TIME_NEAR_MASK = mask 8" "TIME_LEVEL_MASK = mask 6"
  by (simp_all add: TIME_NEAR_MASK_def TIME_LEVEL_MASK_def mask_eq_decr_exp)

lemma near_cond: "(x OR TIME_NEAR_MASK) = (y OR TIME_NEAR_MASK) \<longleftrightarrow> unat x div 256 = unat y div 256"
  for x y :: u32
  by (simp add: masks or_mask_eq_iff drop_bit_eq_iff_div)

lemma level_cond:
  fixes x y :: u32
  shows "(x OR 0x3fff) = (y OR 0x3fff) \<longleftrightarrow> unat x div 16384 = unat y div 16384"
    and "(x OR 0xfffff) = (y OR 0xfffff) \<longleftrightarrow> unat x div 1048576 = unat y div 1048576"
    and "(x OR 0x3ffffff) = (y OR 0x3ffffff) \<longleftrightarrow> unat x div 67108864 = unat y div 67108864"
  using or_mask_eq_iff [of x 14 y] drop_bit_eq_iff_div [of 14 x y]
    or_mask_eq_iff [of x 20 y] drop_bit_eq_iff_div [of 20 x y]
    or_mask_eq_iff [of x 26 y] drop_bit_eq_iff_div [of 26 x y]
  by (simp_all add: mask_eq_decr_exp)

lemma div_digits:
  "(n::nat) div 256 div 64 = n div 16384" "n div 256 div 4096 = n div 1048576"
  "n div 256 div 262144 = n div 67108864"
  by (simp_all add: div_mult2_eq [symmetric])

lemma level_scan_eq:
  "level_scan e t (push_bit 6 0x100) 0 = far_level (unat e div 256) (unat t div 256)"
  by (simp add: far_level_def div_digits level_cond level_scan.simps [of e t "0x4000" 0]
      level_scan.simps [of e t "0x100000" "Suc 0"] level_scan.simps [of e t "0x4000000" "2"]
      level_scan.simps [of e t _ "3"] numeral_2_eq_2 [symmetric] numeral_3_eq_3 [symmetric])

lemma level_idx: "unat (drop_bit (8 + i * 6) e AND TIME_LEVEL_MASK) = unat e div 256 div 64 ^ i mod 64"
  for e :: u32
proof -
  have "(2::nat) ^ (8 + i * 6) = 256 * 64 ^ i"
    using power_mult [of "2::nat" 6 i] by (simp add: power_add mult.commute)
  then show ?thesis
    unfolding masks and_mask_unat unat_drop_bit_div by (simp add: div_mult2_eq)
qed

lemma near_idx: "unat (e AND TIME_NEAR_MASK) = unat e mod 256" for e :: u32
  by (simp add: masks and_mask_unat)

lemma far_level_less: "far_level a b < 4"
  by (simp add: far_level_def)

lemma valid_place_place [simp]: "valid_place (place e t)"
  by (simp add: place_def valid_place_def Let_def far_level_less)

lemma slot_add_node:
  assumes "wheel_shape T" and "valid_place p"
  shows "slot (add_node T n) p = (if p = place (tn_expire n) (tm_time T) then slot T p @ [n] else slot T p)"
proof (cases "unat (tn_expire n) div 256 = unat (tm_time T) div 256")
  case True
  with assms show ?thesis
    by (auto simp: add_node_def near_cond near_idx place_def slot_def wheel_shape_def valid_place_def
        Let_def nth_list_update split: place.splits)
next
  case False
  let ?a = "unat (tn_expire n) div 256" and ?b = "unat (tm_time T) div 256"
  let ?i = "far_level ?a ?b" and ?j = "?a div 64 ^ far_level ?a ?b mod 64"
  have add: "add_node T n = T\<lparr>levels := (levels T)[?i := (levels T ! ?i)[?j := levels T ! ?i ! ?j @ [n]]]\<rparr>"
    using False unfolding add_node_def Let_def near_cond level_scan_eq level_idx by simp
  have lt: "?i < length (levels T)" "?j < length (levels T ! ?i)"
    using assms(1) far_level_less [of ?a ?b] by (simp_all add: wheel_shape_def)
  have pl: "place (tn_expire n) (tm_time T) = Far ?i ?j"
    using False by (simp add: place_def Let_def)
  show ?thesis
  proof (cases p)
    case (Near k)
    then show ?thesis unfolding add pl by (simp add: slot_def)
  next
    case (Far x y)
    then have "x < length (levels T)"
      using assms by (simp add: valid_place_def wheel_shape_def)
    from nested_update [OF lt this] show ?thesis
      unfolding add pl Far slot_def by simp
  qed
qed

lemma add_node_frame [simp]: "tm_time (add_node T n) = tm_time T"
  by (simp add: add_node_def Let_def)

lemma wheel_shape_upd:
  "wheel_shape T \<Longrightarrow> i < 4 \<Longrightarrow> length lvl = 64 \<Longrightarrow> wheel_shape (T\<lparr>levels := (levels T)[i := lvl]\<rparr>)"
  "wheel_shape T \<Longrightarrow> wheel_shape (T\<lparr>near := (near T)[j := l]\<rparr>)"
  "wheel_shape T \<Longrightarrow> wheel_shape (T\<lparr>tm_time := t\<rparr>)"
  using set_update_subset_insert [of "levels T" i lvl] by (auto simp: wheel_shape_def)

lemma wheel_shape_level: "wheel_shape T \<Longrightarrow> i < 4 \<Longrightarrow> length (levels T ! i) = 64"
  by (simp add: wheel_shape_def)

lemma add_node_shape: "wheel_shape T \<Longrightarrow> wheel_shape (add_node T n)"
  unfolding add_node_def Let_def level_scan_eq
  by (auto intro!: wheel_shape_upd simp: far_level_less wheel_shape_level)

section \<open>The invariant\<close>

text \<open>
  Every node lies where \<open>add_node\<close> would put it now, and is at most \<open>2^31 - 1\<close> ticks away: the
  delay of \<open>skynet_timeout\<close> is a positive \<open>int\<close>.
\<close>

definition ticks_left :: "u32 \<Rightarrow> u32 \<Rightarrow> nat" where
  "ticks_left e t = unat (e - t)"

definition wheel_inv :: "'e timer \<Rightarrow> bool" where
  "wheel_inv T \<longleftrightarrow> wheel_shape T
     \<and> (\<forall>p. valid_place p \<longrightarrow> (\<forall>n \<in> set (slot T p).
          place (tn_expire n) (tm_time T) = p \<and> ticks_left (tn_expire n) (tm_time T) < 2 ^ 31))"

lemma wheel_invD:
  assumes "wheel_inv T" and "valid_place p" and "n \<in> set (slot T p)"
  shows "place (tn_expire n) (tm_time T) = p" and "ticks_left (tn_expire n) (tm_time T) < 2 ^ 31"
  using assms unfolding wheel_inv_def by blast+

lemma wheel_invI:
  assumes "wheel_shape T"
    and "\<And>p n. valid_place p \<Longrightarrow> n \<in> set (slot T p) \<Longrightarrow>
      place (tn_expire n) (tm_time T) = p \<and> ticks_left (tn_expire n) (tm_time T) < 2 ^ 31"
  shows "wheel_inv T"
  using assms unfolding wheel_inv_def by blast

definition no_due :: "'e timer \<Rightarrow> bool" where
  "no_due T \<longleftrightarrow> (\<forall>p. valid_place p \<longrightarrow> (\<forall>n \<in> set (slot T p). tn_expire n \<noteq> tm_time T))"

text \<open>
  The abstract view: the events that expire at \<open>e\<close>, in the order in which they will fire.
\<close>

definition pending :: "'e timer \<Rightarrow> u32 \<Rightarrow> 'e list" where
  "pending T e = map tn_event (filter (\<lambda>n. tn_expire n = e) (slot T (place e (tm_time T))))"

lemma pending_add_node:
  assumes "wheel_inv T"
  shows "pending (add_node T n) e = (if e = tn_expire n then pending T e @ [tn_event n] else pending T e)"
  using assms by (simp add: pending_def wheel_inv_def slot_add_node)

lemma wheel_inv_add_node:
  assumes "wheel_inv T" and "ticks_left (tn_expire n) (tm_time T) < 2 ^ 31"
  shows "wheel_inv (add_node T n)"
proof (rule wheel_invI)
  have shape: "wheel_shape T" using assms(1) by (simp add: wheel_inv_def)
  then show "wheel_shape (add_node T n)" by (rule add_node_shape)
  show "place (tn_expire x) (tm_time (add_node T n)) = p \<and> ticks_left (tn_expire x) (tm_time (add_node T n)) < 2 ^ 31"
    if "valid_place p" and "x \<in> set (slot (add_node T n) p)" for p x
    using that assms wheel_invD [OF assms(1) that(1), of x] shape
    by (auto simp: slot_add_node split: if_splits)
qed

lemma timer_add_sound:
  assumes "wheel_inv T" and "unat time < 2 ^ 31"
  shows "wheel_inv (timer_add T ev time)"
    and "pending (timer_add T ev time) e =
      (if e = time + tm_time T then pending T e @ [ev] else pending T e)"
  using assms by (simp_all add: timer_add_def wheel_inv_add_node pending_add_node ticks_left_def)

section \<open>Executing the current slot\<close>

lemma place_now: "place t t = Near (unat t mod 256)"
  by (simp add: place_def)

lemma near_block_eq: "unat e div 256 = unat t div 256 \<Longrightarrow> unat e mod 256 = unat t mod 256 \<Longrightarrow> e = t"
  for e t :: u32
  by (metis div_mult_mod_eq word_unat_eq_iff)

lemma place_Near_now: "place e t = Near (unat t mod 256) \<Longrightarrow> e = t"
  by (auto simp: place_def Let_def near_block_eq split: if_splits)

lemma slot_execute:
  assumes "wheel_shape T" and "valid_place p"
  shows "slot (snd (timer_execute T)) p = (if p = place (tm_time T) (tm_time T) then [] else slot T p)"
  using assms by (auto simp: timer_execute_def near_idx slot_def place_now wheel_shape_def
      valid_place_def Let_def nth_list_update split: place.splits)

lemma timer_execute_frame [simp]: "tm_time (snd (timer_execute T)) = tm_time T"
  by (simp add: timer_execute_def Let_def)

lemma timer_execute_sound:
  assumes "wheel_inv T"
  shows "fst (timer_execute T) = pending T (tm_time T)"
    and "wheel_inv (snd (timer_execute T))" and "no_due (snd (timer_execute T))"
    and "pending (snd (timer_execute T)) e = (if e = tm_time T then [] else pending T e)"
proof -
  let ?t = "tm_time T"
  have now: "n \<in> set (slot T (place ?t ?t)) \<Longrightarrow> tn_expire n = ?t" for n
    using assms place_Near_now unfolding wheel_inv_def by (metis place_now valid_place_place)
  have "filter (\<lambda>n. tn_expire n = ?t) (slot T (place ?t ?t)) = slot T (place ?t ?t)"
    using now by (simp add: filter_id_conv)
  then show "fst (timer_execute T) = pending T ?t"
    by (simp add: timer_execute_def pending_def near_idx place_now slot_def Let_def)
  show inv: "wheel_inv (snd (timer_execute T))"
    using assms unfolding wheel_inv_def
    by (auto simp: slot_execute) (simp add: timer_execute_def Let_def wheel_shape_upd)
  show "no_due (snd (timer_execute T))"
    using assms wheel_invD(1) [OF assms] unfolding no_due_def wheel_inv_def
    by (auto simp: slot_execute split: if_splits) metis
  show "pending (snd (timer_execute T)) e = (if e = ?t then [] else pending T e)"
  proof (cases "place e ?t = place ?t ?t")
    case True
    then have "e = ?t" using place_Near_now by (simp add: place_now)
    with assms show ?thesis by (simp add: pending_def slot_execute wheel_inv_def)
  next
    case False
    with assms show ?thesis by (auto simp: pending_def slot_execute wheel_inv_def)
  qed
qed

section \<open>Shifting the time\<close>

definition moved :: "nat \<Rightarrow> place option" where
  "moved ct =
     (if ct = 0 then Some (Far 3 0)
      else if ct mod 256 \<noteq> 0 then None
      else let c = ct div 256 in
        if c mod 64 \<noteq> 0 then Some (Far 0 (c mod 64))
        else if c div 64 mod 64 \<noteq> 0 then Some (Far 1 (c div 64 mod 64))
        else if c div 4096 mod 64 \<noteq> 0 then Some (Far 2 (c div 4096 mod 64))
        else Some (Far 3 (c div 262144 mod 64)))"

text \<open>The base-64 digits of consecutive numbers.\<close>

lemma digit_carry:
  assumes "c = (if P then Suc b else b)"
  shows "c div 64 = (if P \<and> c mod 64 = 0 then Suc (b div 64) else b div 64)"
  using assms div_Suc [of b 64] by (cases P) simp_all

lemma digit_eqs:
  "(n::nat) div 4096 = n div 64 div 64" "n div 262144 = n div 64 div 64 div 64"
  by (simp_all add: div_mult2_eq [symmetric])

lemma far_level_top: "a div 262144 \<noteq> b div 262144 \<Longrightarrow> far_level a b = 3 \<and> a \<noteq> b"
  by (auto simp: far_level_def digit_eqs)

lemma far_step:
  assumes "Suc b \<le> a"
  shows "(\<exists>d. moved (Suc b * 256) = Some (Far (far_level a b) d) \<and> d = a div 64 ^ far_level a b mod 64)
    \<or> (a \<noteq> Suc b \<and> far_level a (Suc b) = far_level a b)"
proof -
  define a1 b1 c1 where d1: "a1 = a div 64" "b1 = b div 64" "c1 = Suc b div 64"
  define a2 b2 c2 where d2: "a2 = a1 div 64" "b2 = b1 div 64" "c2 = c1 div 64"
  define a3 b3 c3 where d3: "a3 = a2 div 64" "b3 = b2 div 64" "c3 = c2 div 64"
  define P1 where "P1 \<longleftrightarrow> Suc b mod 64 = 0"
  define P2 where "P2 \<longleftrightarrow> P1 \<and> c1 mod 64 = 0"
  define P3 where "P3 \<longleftrightarrow> P2 \<and> c2 mod 64 = 0"
  have c1: "c1 = (if P1 then Suc b1 else b1)" unfolding d1 P1_def by (rule div_Suc)
  have c2: "c2 = (if P2 then Suc b2 else b2)" unfolding d2 P2_def by (rule digit_carry [OF c1])
  have c3: "c3 = (if P3 then Suc b3 else b3)" unfolding d3 P3_def by (rule digit_carry [OF c2])
  have ge: "c1 \<le> a1" "c2 \<le> a2" "c3 \<le> a3"
    using assms by (simp_all add: d1 d2 d3 div_le_mono)
  have lev: "far_level a b = (if a1 = b1 then 0 else if a2 = b2 then 1 else if a3 = b3 then 2 else 3)"
    "far_level a (Suc b) = (if a1 = c1 then 0 else if a2 = c2 then 1 else if a3 = c3 then 2 else 3)"
    by (simp_all add: far_level_def digit_eqs d1 d2 d3)
  have mv: "moved (Suc b * 256) = (if \<not> P1 then Some (Far 0 (Suc b mod 64))
      else if \<not> P2 then Some (Far 1 (c1 mod 64))
      else if \<not> P3 then Some (Far 2 (c2 mod 64)) else Some (Far 3 (c3 mod 64)))"
    by (simp add: moved_def Let_def digit_eqs d1 d2 d3 P1_def P2_def P3_def del: mult_Suc)
  have dig: "a div 64 ^ 0 = a" "a div 64 ^ 1 = a1" "a div 64 ^ 2 = a2" "a div 64 ^ 3 = a3"
    by (simp_all add: digit_eqs d1 d2 d3)
  have eqs: "a = Suc b \<Longrightarrow> a1 = c1" "a1 = c1 \<Longrightarrow> a2 = c2" "a2 = c2 \<Longrightarrow> a3 = c3"
    by (simp_all add: d1 d2 d3)
  have impl: "P3 \<longrightarrow> P2" "P2 \<longrightarrow> P1" by (simp_all add: P2_def P3_def)
  consider "\<not> P1" | "P1" "\<not> P2" | "P2" "\<not> P3" | "P3" by blast
  then show ?thesis
  proof cases
    case 1
    with c1 c2 c3 impl have e: "c1 = b1" "c2 = b2" "c3 = b3" by simp_all
    show ?thesis
    proof (cases "a = Suc b")
      case True
      with e eqs(1) have "far_level a b = 0" unfolding lev(1) by simp
      with mv 1 True show ?thesis by simp
    next
      case False
      with e show ?thesis by (simp add: lev)
    qed
  next
    case 2
    with c1 c2 c3 impl have e: "c1 = Suc b1" "c2 = b2" "c3 = b3" by simp_all
    show ?thesis
    proof (cases "a1 = c1")
      case True
      with e eqs(2) have "far_level a b = 1" by (simp add: lev)
      with mv 2 True dig(2) show ?thesis by simp
    next
      case False
      with e eqs(1) ge(1) show ?thesis by (auto simp: lev)
    qed
  next
    case 3
    with c1 c2 c3 impl have e: "c1 = Suc b1" "c2 = Suc b2" "c3 = b3" by simp_all
    show ?thesis
    proof (cases "a2 = c2")
      case True
      with e eqs(3) ge have "far_level a b = 2" by (simp add: lev)
      with mv 3 impl True dig(3) show ?thesis by simp
    next
      case False
      with e eqs ge show ?thesis by (auto simp: lev)
    qed
  next
    case 4
    with c1 c2 c3 impl have e: "c1 = Suc b1" "c2 = Suc b2" "c3 = Suc b3" by simp_all
    show ?thesis
    proof (cases "a3 = c3")
      case True
      with e ge have "far_level a b = 3" by (simp add: lev)
      with mv 4 impl True dig(4) show ?thesis by simp
    next
      case False
      with e eqs ge show ?thesis by (auto simp: lev)
    qed
  qed
qed

lemma ticks_cases:
  assumes "e \<noteq> t" and "ticks_left e t < 2 ^ 31"
  shows "(unat t < unat e) \<or> (unat e + 2 ^ 31 < unat t + 1)"
  using assms u32_bound [of e] u32_bound [of t] unat_sub_if' [of e t]
  by (auto simp: ticks_left_def word_unat_eq_iff not_le not_less split: if_splits)

lemma ticks_left_Suc:
  assumes "e \<noteq> t"
  shows "ticks_left e t = Suc (ticks_left e (t + 1))"
proof -
  have "e - t \<noteq> 0" using assms by simp
  then have "unat (e - t) = Suc (unat (e - t - 1))"
    by (metis Suc_pred' unat_gt_0 unat_minus_one)
  then show ?thesis by (simp add: ticks_left_def diff_diff_eq)
qed

lemma unat_Suc_time: "t + 1 \<noteq> 0 \<Longrightarrow> unat (t + 1) = Suc (unat t)" for t :: u32
  by (metis Suc_eq_plus1 add.commute unatSuc)

lemma wrapped_level:
  fixes x y :: nat
  assumes "x + 2 ^ 31 \<le> y" and "y < 2 ^ 32"
  shows "x div 256 div 262144 \<noteq> y div 256 div 262144"
  using assms by (simp add: div_digits)

text \<open>A node that is not on the list being moved is still at its place after the tick.\<close>

lemma place_shift:
  assumes "e \<noteq> t" and "ticks_left e t < 2 ^ 31"
  shows "moved (unat (t + 1)) = Some (place e t) \<or> place e (t + 1) = place e t"
proof (cases "t + 1 = 0")
  case True
  then have t: "unat t = 2 ^ 32 - 1" by (simp add: add_eq_0_iff2 unsigned_minus_1_eq_mask mask_eq_exp_minus_1)
  then have w: "unat e + 2 ^ 31 \<le> unat t"
    using ticks_cases [OF assms] u32_bound [of e] by auto
  let ?a = "unat e div 256"
  have far: "far_level ?a (unat t div 256) = 3 \<and> ?a \<noteq> unat t div 256"
    using wrapped_level [of "unat e" "unat t"] w t by (intro far_level_top) simp
  have small: "?a div 262144 < 64" using u32_bound [of e] by (simp add: div_digits)
  then have pt: "place e t = Far 3 (?a div 262144)"
    using far by (simp add: place_def Let_def)
  show ?thesis
  proof (cases "?a div 262144 = 0")
    case z: True
    with pt True show ?thesis by (simp add: moved_def)
  next
    case z: False
    then have "far_level ?a 0 = 3 \<and> ?a \<noteq> 0" by (intro far_level_top) simp
    with small pt True show ?thesis by (simp add: place_def Let_def)
  qed
next
  case False
  note ct = unat_Suc_time [OF False]
  have lt: "Suc (unat t) < 2 ^ 32" using u32_bound [of "t + 1"] ct by simp
  show ?thesis
  proof (cases "unat t < unat e")
    case True
    show ?thesis
    proof (cases "Suc (unat t) mod 256 = 0")
      case m: False
      then have "Suc (unat t) div 256 = unat t div 256" by (simp add: div_Suc)
      then show ?thesis by (simp add: place_def ct)
    next
      case m: True
      let ?a = "unat e div 256" and ?b = "unat t div 256"
      have c: "Suc (unat t) div 256 = Suc ?b" using m by (simp add: div_Suc)
      then have ctb: "unat (t + 1) = Suc ?b * 256" using m ct by (metis div_mult_mod_eq add.right_neutral)
      have le: "Suc ?b \<le> ?a" using True c by (metis Suc_leI div_le_mono)
      then have "place e t = Far (far_level ?a ?b) (?a div 64 ^ far_level ?a ?b mod 64)"
        by (simp add: place_def Let_def)
      moreover have "?a \<noteq> Suc ?b \<Longrightarrow> place e (t + 1) = Far (far_level ?a (Suc ?b)) (?a div 64 ^ far_level ?a (Suc ?b) mod 64)"
        by (simp add: place_def Let_def ct c)
      ultimately show ?thesis
        using far_step [OF le] unfolding ctb by auto
    qed
  next
    case False
    then have w: "unat e + 2 ^ 31 \<le> unat t" using ticks_cases [OF assms] by simp
    let ?a = "unat e div 256" and ?b = "unat t div 256" and ?c = "Suc (unat t) div 256"
    have "far_level ?a ?b = 3 \<and> ?a \<noteq> ?b" "far_level ?a ?c = 3 \<and> ?a \<noteq> ?c"
      using wrapped_level [of "unat e" "unat t"] wrapped_level [of "unat e" "Suc (unat t)"] w lt
      by (auto intro!: far_level_top)
    then show ?thesis by (simp add: place_def ct Let_def)
  qed
qed

definition do_move :: "'e timer \<Rightarrow> place option \<Rightarrow> 'e timer" where
  "do_move T m = (case m of Some (Far i j) \<Rightarrow> move_list T i j | _ \<Rightarrow> T)"

lemma low_bits_zero:
  fixes x :: u32
  shows "(x AND 0xff) = 0 \<longleftrightarrow> unat x mod 256 = 0"
    and "(x AND 0x3fff) = 0 \<longleftrightarrow> unat x mod 16384 = 0"
    and "(x AND 0xfffff) = 0 \<longleftrightarrow> unat x mod 1048576 = 0"
    and "(x AND 0x3ffffff) = 0 \<longleftrightarrow> unat x mod 67108864 = 0"
  using and_mask_unat [of x 8] and_mask_unat [of x 14] and_mask_unat [of x 20] and_mask_unat [of x 26]
  by (simp_all add: mask_eq_decr_exp unat_eq_0 [symmetric] del: unat_eq_0)

lemma digit_zero_gen: "n mod a = 0 \<Longrightarrow> 0 < a \<Longrightarrow> n mod (a * 64) = 0 \<longleftrightarrow> n div a mod 64 = 0" for n :: nat
  by (simp add: mod_mult2_eq)

lemma digit_zero:
  fixes n :: nat
  shows "n mod 256 = 0 \<Longrightarrow> n mod 16384 = 0 \<longleftrightarrow> n div 256 mod 64 = 0"
    and "n mod 16384 = 0 \<Longrightarrow> n mod 1048576 = 0 \<longleftrightarrow> n div 16384 mod 64 = 0"
    and "n mod 1048576 = 0 \<Longrightarrow> n mod 67108864 = 0 \<longleftrightarrow> n div 1048576 mod 64 = 0"
    and "n mod 67108864 = 0 \<Longrightarrow> n mod 4294967296 = 0 \<longleftrightarrow> n div 67108864 mod 64 = 0"
  subgoal using digit_zero_gen [of n 256] by simp
  subgoal using digit_zero_gen [of n 16384] by simp
  subgoal using digit_zero_gen [of n 1048576] by simp
  subgoal using digit_zero_gen [of n 67108864] by simp
  done

lemma level_digit:
  fixes x :: u32
  shows "unat (x AND TIME_LEVEL_MASK) = unat x mod 64"
    and "(x AND TIME_LEVEL_MASK) = 0 \<longleftrightarrow> unat x mod 64 = 0"
  by (simp_all add: masks and_mask_unat unat_eq_0 [symmetric] del: unat_eq_0)

lemma shift_step:
  "i < 4 \<Longrightarrow> shift_loop T ct m tm i =
     (if (ct AND (m - 1)) = 0 then
        (if unat tm mod 64 \<noteq> 0 then move_list T i (unat tm mod 64)
         else shift_loop T ct (push_bit 6 m) (drop_bit 6 tm) (Suc i))
      else T)"
  by (subst shift_loop.simps) (simp add: level_digit Let_def)

lemma shift_steps:
  fixes ct :: u32
  defines "n \<equiv> unat ct"
  shows "shift_loop T ct 0x100 (drop_bit 8 ct) 0 =
      (if n mod 256 = 0 then if n div 256 mod 64 \<noteq> 0 then move_list T 0 (n div 256 mod 64)
       else shift_loop T ct 0x4000 (drop_bit 14 ct) (Suc 0) else T)"
    and "shift_loop T ct 0x4000 (drop_bit 14 ct) (Suc 0) =
      (if n mod 16384 = 0 then if n div 16384 mod 64 \<noteq> 0 then move_list T (Suc 0) (n div 16384 mod 64)
       else shift_loop T ct 0x100000 (drop_bit 20 ct) (Suc (Suc 0)) else T)"
    and "shift_loop T ct 0x100000 (drop_bit 20 ct) (Suc (Suc 0)) =
      (if n mod 1048576 = 0 then if n div 1048576 mod 64 \<noteq> 0 then move_list T (Suc (Suc 0)) (n div 1048576 mod 64)
       else shift_loop T ct 0x4000000 (drop_bit 26 ct) (Suc (Suc (Suc 0))) else T)"
    and "shift_loop T ct 0x4000000 (drop_bit 26 ct) (Suc (Suc (Suc 0))) =
      (if n mod 67108864 = 0 then if n div 67108864 mod 64 \<noteq> 0 then move_list T (Suc (Suc (Suc 0))) (n div 67108864 mod 64)
       else shift_loop T ct (push_bit 6 0x4000000) (drop_bit 6 (drop_bit 26 ct)) (Suc (Suc (Suc (Suc 0)))) else T)"
  by (subst shift_step, simp,
      simp add: n_def low_bits_zero unat_drop_bit_div drop_bit_drop_bit)+

lemma shift_loop_eq:
  assumes "ct \<noteq> 0"
  shows "shift_loop T ct 0x100 (drop_bit 8 ct) 0 = do_move T (moved (unat ct))"
proof -
  let ?n = "unat ct"
  have nz: "?n \<noteq> 0" using assms by (simp add: unat_eq_0)
  then have top: "?n mod 4294967296 \<noteq> 0" using u32_bound [of ct] by simp
  have mv: "moved ?n = (if ?n mod 256 \<noteq> 0 then None
      else if ?n div 256 mod 64 \<noteq> 0 then Some (Far 0 (?n div 256 mod 64))
      else if ?n div 16384 mod 64 \<noteq> 0 then Some (Far (Suc 0) (?n div 16384 mod 64))
      else if ?n div 1048576 mod 64 \<noteq> 0 then Some (Far (Suc (Suc 0)) (?n div 1048576 mod 64))
      else Some (Far (Suc (Suc (Suc 0))) (?n div 67108864 mod 64)))"
    using nz by (simp add: moved_def Let_def div_digits numeral_2_eq_2 numeral_3_eq_3)
  note steps = shift_steps [of T ct]
  show ?thesis
  proof (cases "?n mod 256 = 0 \<and> ?n div 256 mod 64 = 0")
    case False
    then show ?thesis
      unfolding steps(1) mv do_move_def by (cases "?n mod 256 = 0") simp_all
  next
    case d0: True
    then have m1: "?n mod 16384 = 0" using d0 digit_zero(1) [of ?n] by metis
    have s1: "shift_loop T ct 0x100 (drop_bit 8 ct) 0 = shift_loop T ct 0x4000 (drop_bit 14 ct) (Suc 0)"
      using d0 by (simp add: steps(1))
    show ?thesis
    proof (cases "?n div 16384 mod 64 = 0")
      case False
      with d0 m1 s1 show ?thesis by (simp add: steps(2) mv do_move_def)
    next
      case d1: True
      then have m2: "?n mod 1048576 = 0" using d1 m1 digit_zero(2) [of ?n] by metis
      have s2: "shift_loop T ct 0x4000 (drop_bit 14 ct) (Suc 0)
          = shift_loop T ct 0x100000 (drop_bit 20 ct) (Suc (Suc 0))"
        using d1 m1 by (simp add: steps(2))
      show ?thesis
      proof (cases "?n div 1048576 mod 64 = 0")
        case False
        with d0 d1 m2 s1 s2 show ?thesis by (simp add: steps(3) mv do_move_def)
      next
        case d2: True
        then have m3: "?n mod 67108864 = 0" using d2 m2 digit_zero(3) [of ?n] by metis
        then have "?n div 67108864 mod 64 \<noteq> 0" using m3 digit_zero(4) [of ?n] top by metis
        with d0 d1 d2 m2 m3 s1 s2 show ?thesis by (simp add: steps(3,4) mv do_move_def)
      qed
    qed
  qed
qed

lemma timer_shift_moves:
  "timer_shift T = do_move (T\<lparr>tm_time := tm_time T + 1\<rparr>) (moved (unat (tm_time T + 1)))"
  by (simp add: timer_shift_def Let_def shift_loop_eq) (simp add: do_move_def moved_def)

lemma moved_valid: "moved n = Some p \<Longrightarrow> n < 2 ^ 32 \<Longrightarrow> \<exists>i j. p = Far i j \<and> i < 4 \<and> j < 64"
  by (auto simp: moved_def Let_def split: if_splits)

lemma foldl_add_node:
  assumes "wheel_shape T" and "valid_place p"
  shows "slot (foldl add_node T ns) p = slot T p @ filter (\<lambda>n. place (tn_expire n) (tm_time T) = p) ns
    \<and> wheel_shape (foldl add_node T ns) \<and> tm_time (foldl add_node T ns) = tm_time T"
  using assms by (induction ns arbitrary: T) (auto simp: add_node_shape slot_add_node)

lemma slot_clear:
  assumes "wheel_shape T" and "i < 4" and "j < 64" and "valid_place p"
  shows "slot (T\<lparr>levels := (levels T)[i := (levels T ! i)[j := []]]\<rparr>) p = (if p = Far i j then [] else slot T p)"
  using nested_update [of i "levels T" j] assms
  by (cases p) (simp_all add: slot_def valid_place_def wheel_shape_def)

lemma move_list_slot:
  assumes "wheel_shape T" and "i < 4" and "j < 64" and "valid_place p"
  shows "slot (move_list T i j) p = (if p = Far i j then [] else slot T p)
      @ filter (\<lambda>n. place (tn_expire n) (tm_time T) = p) (slot T (Far i j))"
    and "wheel_shape (move_list T i j)" and "tm_time (move_list T i j) = tm_time T"
  using foldl_add_node [of "T\<lparr>levels := (levels T)[i := (levels T ! i)[j := []]]\<rparr>" p "levels T ! i ! j"]
    slot_clear [OF assms] assms wheel_shape_upd(1) [OF assms(1,2)] wheel_shape_level [OF assms(1,2)]
  by (simp_all add: move_list_def Let_def slot_def [of T "Far i j"])

text \<open>
  One tick: the wheel stays in shape, everything is one tick closer, and each expiry time keeps
  its events in their order.
\<close>

lemma slot_shift:
  assumes "wheel_inv T" and "no_due T" and "valid_place p"
  shows "slot (timer_shift T) p =
      (if moved (unat (tm_time T + 1)) = Some p then [] else slot T p)
      @ (case moved (unat (tm_time T + 1)) of None \<Rightarrow> []
         | Some m \<Rightarrow> filter (\<lambda>n. place (tn_expire n) (tm_time T + 1) = p) (slot T m))"
    and "wheel_shape (timer_shift T)" and "tm_time (timer_shift T) = tm_time T + 1"
proof -
  let ?ct = "tm_time T + 1" and ?T = "T\<lparr>tm_time := tm_time T + 1\<rparr>"
  have sh: "wheel_shape ?T" using assms(1) by (auto simp: wheel_inv_def intro!: wheel_shape_upd)
  have sl: "slot ?T q = slot T q" for q by (cases q) (simp_all add: slot_def)
  have "slot (timer_shift T) p = (if moved (unat ?ct) = Some p then [] else slot T p)
      @ (case moved (unat ?ct) of None \<Rightarrow> []
         | Some m \<Rightarrow> filter (\<lambda>n. place (tn_expire n) ?ct = p) (slot T m))
    \<and> wheel_shape (timer_shift T) \<and> tm_time (timer_shift T) = ?ct"
  proof (cases "moved (unat ?ct)")
    case None
    then show ?thesis using sh by (simp add: timer_shift_moves do_move_def sl)
  next
    case (Some m)
    then obtain i j where m: "m = Far i j" "i < 4" "j < 64"
      using moved_valid u32_bound by blast
    have "timer_shift T = move_list ?T i j"
      using Some m by (simp add: timer_shift_moves do_move_def)
    with move_list_slot [OF sh m(2,3) assms(3)] Some m show ?thesis
      by (simp add: sl)
  qed
  then show "slot (timer_shift T) p =
      (if moved (unat (tm_time T + 1)) = Some p then [] else slot T p)
      @ (case moved (unat (tm_time T + 1)) of None \<Rightarrow> []
         | Some m \<Rightarrow> filter (\<lambda>n. place (tn_expire n) (tm_time T + 1) = p) (slot T m))"
    and "wheel_shape (timer_shift T)" and "tm_time (timer_shift T) = tm_time T + 1"
    by blast+
qed

lemma moved_valid_place: "moved (unat (ct :: u32)) = Some m \<Longrightarrow> valid_place m"
  using moved_valid [of "unat ct" m] u32_bound [of ct] by (auto simp: valid_place_def)

lemma timer_shift_inv:
  assumes inv: "wheel_inv T" and nd: "no_due T"
  shows "wheel_inv (timer_shift T)"
proof (rule wheel_invI)
  let ?t = "tm_time T"
  show "wheel_shape (timer_shift T)"
    using slot_shift(2) [OF inv nd] valid_place_place by blast
  show "place (tn_expire n) (tm_time (timer_shift T)) = p
      \<and> ticks_left (tn_expire n) (tm_time (timer_shift T)) < 2 ^ 31"
    if p: "valid_place p" and n: "n \<in> set (slot (timer_shift T) p)" for p n
  proof -
    have "\<exists>q. valid_place q \<and> n \<in> set (slot T q) \<and>
        (q = p \<and> moved (unat (?t + 1)) \<noteq> Some p \<or> place (tn_expire n) (?t + 1) = p)"
      using n p unfolding slot_shift(1) [OF inv nd p]
      by (cases "moved (unat (?t + 1))") (auto split: if_splits dest!: moved_valid_place)
    then obtain q where q: "valid_place q" "n \<in> set (slot T q)"
      "q = p \<and> moved (unat (?t + 1)) \<noteq> Some p \<or> place (tn_expire n) (?t + 1) = p" by blast
    have ne: "tn_expire n \<noteq> ?t" using nd q unfolding no_due_def by blast
    note w = wheel_invD [OF inv q(1,2)]
    have "place (tn_expire n) (?t + 1) = p"
      using place_shift [OF ne w(2)] w(1) q(3) by auto
    moreover have "ticks_left (tn_expire n) (?t + 1) < 2 ^ 31"
      using ticks_left_Suc [OF ne] w(2) by simp
    ultimately show ?thesis using slot_shift(3) [OF inv nd p] by simp
  qed
qed

lemma no_nodes:
  assumes "wheel_inv T" and "valid_place p" and "p \<noteq> place e (tm_time T)"
  shows "filter (\<lambda>n. tn_expire n = e) (slot T p) = []"
  using wheel_invD(1) [OF assms(1,2)] assms(3) by (auto simp: filter_empty_conv)

lemma filter_place: "filter (\<lambda>n. tn_expire n = e) (filter (\<lambda>n. place (tn_expire n) t = place e t) ns)
    = filter (\<lambda>n. tn_expire n = e) ns"
  by (induction ns) auto

lemma timer_shift_pending:
  assumes inv: "wheel_inv T" and nd: "no_due T"
  shows "pending (timer_shift T) e = pending T e"
proof -
  let ?t = "tm_time T"
  let ?f = "filter (\<lambda>n. tn_expire n = e)"
  let ?P = "place e ?t" and ?Q = "place e (?t + 1)" and ?m = "moved (unat (?t + 1))"
  have sl: "?f (slot (timer_shift T) ?Q) = ?f (if ?m = Some ?Q then [] else slot T ?Q)
      @ (case ?m of None \<Rightarrow> [] | Some m \<Rightarrow> ?f (slot T m))"
    unfolding slot_shift(1) [OF inv nd valid_place_place] by (cases ?m) (simp_all add: filter_place del: filter_filter)
  have "?f (slot (timer_shift T) ?Q) = ?f (slot T ?P)"
  proof (cases "?m = Some ?P")
    case True
    then show ?thesis
      using sl no_nodes [OF inv, of ?Q e] by (cases "?Q = ?P") simp_all
  next
    case False
    have mv: "(case ?m of None \<Rightarrow> [] | Some m \<Rightarrow> ?f (slot T m)) = []"
      using no_nodes [OF inv] moved_valid_place False by (cases ?m) auto
    show ?thesis
    proof (cases "?f (slot T ?P) = []")
      case True
      then show ?thesis using sl mv no_nodes [OF inv, of ?Q e] by (cases "?Q = ?P") simp_all
    next
      case ex: False
      then obtain n where n: "n \<in> set (slot T ?P)" "tn_expire n = e"
        by (auto simp: filter_empty_conv)
      then have "e \<noteq> ?t" using nd valid_place_place unfolding no_due_def by blast
      then have "?Q = ?P"
        using place_shift wheel_invD(2) [OF inv valid_place_place n(1)] n(2) False by blast
      with sl mv False show ?thesis by simp
    qed
  qed
  then show ?thesis by (simp add: pending_def slot_shift(3) [OF inv nd valid_place_place])
qed

section \<open>Updates fire exactly what is due\<close>

lemma timer_update_sound:
  assumes inv: "wheel_inv T"
  shows "fst (timer_update T) = pending T (tm_time T) @ pending T (tm_time T + 1)"
    and "wheel_inv (snd (timer_update T))" and "no_due (snd (timer_update T))"
    and "tm_time (snd (timer_update T)) = tm_time T + 1"
    and "pending (snd (timer_update T)) e =
      (if e = tm_time T \<or> e = tm_time T + 1 then [] else pending T e)"
proof -
  let ?T1 = "snd (timer_execute T)"
  let ?T2 = "timer_shift ?T1"
  have u: "timer_update T = (fst (timer_execute T) @ fst (timer_execute ?T2), snd (timer_execute ?T2))"
    by (simp add: timer_update_def Let_def split: prod.splits)
  note ex1 = timer_execute_sound [OF inv]
  have i2: "wheel_inv ?T2" using timer_shift_inv ex1(2,3) by blast
  note ex2 = timer_execute_sound [OF i2]
  have t2: "tm_time ?T2 = tm_time T + 1"
    using slot_shift(3) [OF ex1(2,3) valid_place_place] by simp
  show "fst (timer_update T) = pending T (tm_time T) @ pending T (tm_time T + 1)"
    using ex1(1,4) ex2(1) t2 timer_shift_pending [OF ex1(2,3)] by (simp add: u)
  show "wheel_inv (snd (timer_update T))" "no_due (snd (timer_update T))"
    "tm_time (snd (timer_update T)) = tm_time T + 1"
    using ex2 t2 by (simp_all add: u)
  show "pending (snd (timer_update T)) e =
      (if e = tm_time T \<or> e = tm_time T + 1 then [] else pending T e)"
    using ex2(4) ex1(4) t2 timer_shift_pending [OF ex1(2,3)] by (auto simp: u)
qed

lemma timer_ticks_sound:
  assumes "wheel_inv T" and "no_due T" and "n < 2 ^ 32"
  shows "length (fst (timer_ticks n T)) = n \<and> wheel_inv (snd (timer_ticks n T))
    \<and> no_due (snd (timer_ticks n T))
    \<and> tm_time (snd (timer_ticks n T)) = tm_time T + of_nat n
    \<and> (\<forall>k < n. fst (timer_ticks n T) ! k = pending T (tm_time T + 1 + of_nat k))"
  using assms
proof (induction n arbitrary: T)
  case 0
  then show ?case by simp
next
  case (Suc n)
  let ?T1 = "snd (timer_update T)" and ?t = "tm_time T"
  have nd: "pending T ?t = []"
    using Suc.prems(2) [unfolded no_due_def, rule_format, OF valid_place_place]
    by (simp add: pending_def filter_empty_conv)
  note up = timer_update_sound [OF Suc.prems(1)]
  have ih: "length (fst (timer_ticks n ?T1)) = n \<and> wheel_inv (snd (timer_ticks n ?T1))
    \<and> no_due (snd (timer_ticks n ?T1))
    \<and> tm_time (snd (timer_ticks n ?T1)) = tm_time ?T1 + of_nat n
    \<and> (\<forall>k < n. fst (timer_ticks n ?T1) ! k = pending ?T1 (tm_time ?T1 + 1 + of_nat k))"
    using Suc.IH [of ?T1] up(2,3) Suc.prems(3) by simp
  have st: "fst (timer_ticks (Suc n) T) = fst (timer_update T) # fst (timer_ticks n ?T1)"
    "snd (timer_ticks (Suc n) T) = snd (timer_ticks n ?T1)"
    by (simp_all add: Let_def split: prod.splits)
  have "fst (timer_ticks (Suc n) T) ! k = pending T (?t + 1 + of_nat k)" if k: "k < Suc n" for k
  proof (cases k)
    case 0
    then show ?thesis using up(1) nd by (simp add: st del: timer_ticks.simps)
  next
    case (Suc j)
    have less: "Suc (Suc j) < 2 ^ 32" using k Suc Suc.prems(3) by simp
    have "(of_nat (Suc j) :: u32) \<noteq> 0" "(of_nat (Suc (Suc j)) :: u32) \<noteq> 0"
      using less of_nat_neq_0_u32 [of j] of_nat_neq_0_u32 [of "Suc j"] by simp_all
    then have ne: "?t + 1 + 1 + of_nat j \<noteq> ?t \<and> ?t + 1 + 1 + of_nat j \<noteq> ?t + 1"
      by (simp add: algebra_simps)
    have "fst (timer_ticks n ?T1) ! j = pending ?T1 (?t + 1 + 1 + of_nat j)"
      using ih k Suc up(4) by simp
    with up(5) [of "?t + 1 + 1 + of_nat j"] ne Suc show ?thesis
      by (simp add: st algebra_simps del: timer_ticks.simps)
  qed
  with ih st up(4) show ?case by (simp add: algebra_simps del: timer_ticks.simps)
qed

lemma timer_create_inv: "wheel_inv (timer_create_timer :: 'e timer)" "no_due (timer_create_timer :: 'e timer)"
  "pending (timer_create_timer :: 'e timer) e = []"
proof -
  have e: "slot (timer_create_timer :: 'e timer) p = []" if "valid_place p" for p
    using that by (auto simp: slot_def timer_create_timer_def valid_place_def split: place.splits)
  have "wheel_shape (timer_create_timer :: 'e timer)" by (simp add: wheel_shape_def timer_create_timer_def)
  with e show "wheel_inv (timer_create_timer :: 'e timer)" by (intro wheel_invI) auto
  show "no_due (timer_create_timer :: 'e timer)" using e by (simp add: no_due_def)
  show "pending (timer_create_timer :: 'e timer) e = []" using e by (simp add: pending_def)
qed

section \<open>Reachable wheels\<close>

text \<open>The delays are those \<open>skynet_timeout\<close> passes on: positive \<open>int\<close>s.\<close>

inductive timer_reach :: "'e timer \<Rightarrow> bool" where
  create: "timer_reach timer_create_timer"
| clock: "timer_reach T \<Longrightarrow> timer_reach (T\<lparr>tm_current := c, tm_starttime := s,
    tm_current_point := p, tm_origin_point := q\<rparr>)"
| add: "timer_reach T \<Longrightarrow> 0 < sint d \<Longrightarrow> timer_reach (timer_add T ev d)"
| tick: "timer_reach T \<Longrightarrow> timer_reach (snd (timer_update T))"

lemma positive_int: "0 < sint (d :: i32) \<Longrightarrow> unat d < 2 ^ 31 \<and> d \<noteq> 0"
proof -
  assume d: "0 < sint d"
  have "sint d = uint d - 2 ^ 32 * of_bool (bit d 31)"
    using uint_lt2p [of d]
    by (simp add: sint_uint signed_take_bit_eq_take_bit_minus bit_uint_iff take_bit_int_eq_self)
  then have "sint d = uint d"
    using d uint_lt2p [of d] by (cases "bit d 31") simp_all
  moreover have "sint d < 2 ^ 31" using sint_lt [of d] by simp
  ultimately show ?thesis using d by (auto simp: nat_less_iff nat_uint_eq [symmetric] simp del: nat_uint_eq)
qed

lemma no_due_timer_add:
  assumes "wheel_inv T" and "no_due T" and "d \<noteq> 0"
  shows "no_due (timer_add T ev d)"
  unfolding no_due_def
proof (intro allI impI ballI)
  fix p n assume p: "valid_place p" and n: "n \<in> set (slot (timer_add T ev d) p)"
  have shape: "wheel_shape T" using assms(1) by (simp add: wheel_inv_def)
  from n have "n \<in> set (slot T p) \<or> tn_expire n = d + tm_time T"
    by (auto simp: timer_add_def slot_add_node [OF shape p] split: if_splits)
  then show "tn_expire n \<noteq> tm_time (timer_add T ev d)"
    using assms(2,3) p unfolding no_due_def by (auto simp: timer_add_def)
qed

lemma wheel_frame:
  fixes T :: "'e timer" and c s :: u32 and p o' :: u64
  defines "T' \<equiv> T\<lparr>tm_current := c, tm_starttime := s, tm_current_point := p, tm_origin_point := o'\<rparr>"
  shows "wheel_inv T' = wheel_inv T" "no_due T' = no_due T" "pending T' e = pending T e"
proof -
  have sl: "slot T' q = slot T q" for q by (simp add: slot_def T'_def split: place.splits)
  have tm: "tm_time T' = tm_time T" "wheel_shape T' = wheel_shape T"
    by (simp_all add: T'_def wheel_shape_def)
  show "wheel_inv T' = wheel_inv T" "no_due T' = no_due T" "pending T' e = pending T e"
    by (simp_all add: wheel_inv_def no_due_def pending_def sl tm)
qed

lemma timer_reach_inv: "timer_reach T \<Longrightarrow> wheel_inv T \<and> no_due T"
proof (induction rule: timer_reach.induct)
  case (add T d ev)
  have "unat d < 2 ^ 31" "d \<noteq> 0" using positive_int [OF add.hyps(2)] by simp_all
  with add.IH show ?case by (simp add: timer_add_sound(1) no_due_timer_add)
next
  case (tick T)
  then show ?case by (simp add: timer_update_sound(2,3))
qed (simp_all add: timer_create_inv wheel_frame)

definition clock_of :: "'e timer \<Rightarrow> u32 \<times> u32 \<times> u64 \<times> u64" where
  "clock_of T = (tm_current T, tm_starttime T, tm_current_point T, tm_origin_point T)"

lemma clock_of_add_node [simp]: "clock_of (add_node T n) = clock_of T"
  by (simp add: add_node_def Let_def clock_of_def)

lemma clock_of_move_list [simp]: "clock_of (move_list T i j) = clock_of T"
proof -
  have "clock_of (foldl add_node T' ns) = clock_of T'" for T' :: "'a timer" and ns
    by (induction ns arbitrary: T') simp_all
  then show ?thesis by (simp add: move_list_def Let_def) (simp add: clock_of_def)
qed

lemma clock_of_shift_loop [simp]: "clock_of (shift_loop T ct msk time i) = clock_of T"
proof (induction T ct msk time i rule: shift_loop.induct)
  case (1 T ct msk time i)
  then show ?case by (subst shift_loop.simps) (auto simp: Let_def)
qed

lemma clock_of_timer_update [simp]: "clock_of (snd (timer_update T)) = clock_of T"
proof -
  have ex: "clock_of (snd (timer_execute T')) = clock_of T'" for T' :: "'a timer"
    by (simp add: timer_execute_def Let_def clock_of_def)
  have "clock_of (timer_shift T') = clock_of T'" for T' :: "'a timer"
    by (simp add: timer_shift_def Let_def) (simp add: clock_of_def)
  then show ?thesis by (simp add: timer_update_def case_prod_beta Let_def ex)
qed

lemma timer_ticks_reach: "timer_reach T \<Longrightarrow> timer_reach (snd (timer_ticks n T)) \<and> clock_of (snd (timer_ticks n T)) = clock_of T"
proof (induction n arbitrary: T)
  case (Suc n)
  from Suc.IH [OF timer_reach.tick [OF Suc.prems]] show ?case by (simp add: case_prod_beta Let_def)
qed simp

section \<open>Properties\<close>

text \<open>
  C3. A timer fires exactly on time: in a reachable wheel, an event added with a positive delay
  \<open>d\<close> is delivered by the \<open>d\<close>-th tick from then on, after the events that were already due at
  that tick, and the \<open>d - 1\<close> ticks before deliver what they would have delivered without it. The
  32-bit clock may wrap in between.
\<close>

theorem timer_fires_on_time:
  assumes "timer_reach T" and "0 < sint d"
  shows "let outs = fst (timer_ticks (unat d) (timer_add T ev d)) in
     length outs = unat d \<and> outs ! (unat d - 1) = pending T (tm_time T + d) @ [ev]
     \<and> (\<forall>k < unat d - 1. outs ! k = pending T (tm_time T + 1 + of_nat k))"
proof -
  have inv: "wheel_inv T" "no_due T" using timer_reach_inv [OF assms(1)] by simp_all
  have d: "unat d < 2 ^ 31" "d \<noteq> 0" using positive_int [OF assms(2)] by simp_all
  let ?T = "timer_add T ev d"
  have t: "tm_time ?T = tm_time T" by (simp add: timer_add_def)
  have pos: "0 < unat d" using d(2) by (simp add: unat_gt_0)
  note run = timer_ticks_sound [OF timer_add_sound(1) [OF inv(1) d(1)] no_due_timer_add [OF inv d(2)], of "unat d"]
  have nth: "fst (timer_ticks (unat d) ?T) ! k = pending ?T (tm_time T + 1 + of_nat k)" if "k < unat d" for k
    using run that d(1) t by simp
  have arg: "tm_time T + 1 + of_nat (unat d - 1) = d + tm_time T"
    using pos by (simp add: of_nat_diff)
  have other: "tm_time T + 1 + of_nat k \<noteq> d + tm_time T" if "k < unat d - 1" for k
  proof
    assume "tm_time T + 1 + of_nat k = d + tm_time T"
    then have "of_nat (Suc k) = d" by (simp add: algebra_simps)
    then have "unat (of_nat (Suc k) :: u32) = unat d" by simp
    moreover have "unat (of_nat (Suc k) :: u32) = Suc k"
      unfolding unat_of_nat using that d(1) by (intro mod_less) simp
    ultimately show False using that by simp
  qed
  show ?thesis
    using run d(1) nth [of "unat d - 1"] nth pos timer_add_sound(2) [OF inv(1) d(1)] arg other
    by (auto simp: Let_def add.commute [of _ d])
qed

lemma timer_create_clock: "tm_time timer_create_timer = 0" "clock_of timer_create_timer = (0, 0, 0, 0)"
  by (simp_all add: timer_create_timer_def clock_of_def)

lemma clock_of_timer_add: "clock_of (timer_add T ev d) = clock_of T" "tm_time (timer_add T ev d) = tm_time T"
  by (simp_all add: timer_add_def)

lemma timer_ticks_deliver_aux:
  assumes "timer_reach T" and "n < 2 ^ 32"
  shows "length (fst (timer_ticks n T)) = n \<and> tm_time (snd (timer_ticks n T)) = tm_time T + of_nat n
    \<and> (\<forall>k < n. fst (timer_ticks n T) ! k = pending T (tm_time T + 1 + of_nat k))"
  using timer_ticks_sound [OF _ _ assms(2)] timer_reach_inv [OF assms(1)] by blast

text \<open>
  C8. Ticking delivers everything exactly once and in order of addition: \<open>n\<close> ticks of a reachable
  wheel return \<open>n\<close> lists, the \<open>k\<close>-th of which holds the events pending for that time in the order
  they were added, and the clock has advanced by \<open>n\<close>.
\<close>

theorem timer_ticks_deliver:
  assumes "timer_reach T" and "n < 2 ^ 32"
  shows "length (fst (timer_ticks n T)) = n \<and> tm_time (snd (timer_ticks n T)) = tm_time T + of_nat n
    \<and> (\<forall>k < n. fst (timer_ticks n T) ! k = pending T (tm_time T + 1 + of_nat k))"
  using timer_ticks_sound [OF _ _ assms(2)] timer_reach_inv [OF assms(1)] by blast


theorem timer_fires_on_time_witness:
  "0 < sint (3 :: i32) \<and> fst (timer_ticks (unat (3 :: i32)) (timer_add timer_create_timer (7 :: nat) 3)) ! 2 = [7]"
  using timer_fires_on_time [OF timer_reach.create, of 3 "7 :: nat"]
  by (simp add: timer_create_inv Let_def)

theorem timer_ticks_deliver_witness:
  "fst (timer_ticks 2 (timer_add (timer_add timer_create_timer (7 :: nat) 2) 8 2)) ! 1 = [7, 8]"
proof -
  have r: "timer_reach (timer_add (timer_create_timer :: nat timer) 7 2)"
    by (rule timer_reach.add [OF timer_reach.create]) simp
  then have r2: "timer_reach (timer_add (timer_add (timer_create_timer :: nat timer) 7 2) 8 2)"
    by (intro timer_reach.add [OF r]) simp
  have w: "wheel_inv (timer_create_timer :: nat timer)" "wheel_inv (timer_add (timer_create_timer :: nat timer) 7 2)"
    using timer_reach_inv [OF r] by (simp_all add: timer_create_inv)
  have t: "tm_time (timer_add T ev d) = tm_time T" for T :: "nat timer" and ev d by (simp add: timer_add_def)
  from timer_ticks_deliver [OF r2, of 2] show ?thesis
    by (simp add: t timer_add_sound(2) w timer_create_inv timer_create_clock)
qed



end
