(* ===== verification/Handle.thy ===== *)
theory Handle
  imports Prelude
begin

text \<open>
  The handle storage of \<open>skynet-src/skynet_handle.c\<close>: a hash table of contexts indexed by the low
  bits of their handle, and an array of names sorted for binary search. The readers-writer lock
  makes each function one step. \<open>'c\<close> is the type of context pointers and \<open>hof\<close> reads the handle
  field of a context (\<open>skynet_context_handle\<close>); the parts of \<open>skynet_handle_retire\<close>,
  \<open>skynet_handle_retireall\<close> and \<open>skynet_handle_grab\<close> that work on contexts are in \<open>Server\<close>.
\<close>

section \<open>C strings\<close>

text \<open>\<open>strcmp\<close> compares bytes as unsigned characters; the strings hold no NUL.\<close>

fun strcmp :: "string \<Rightarrow> string \<Rightarrow> int" where
  "strcmp [] [] = 0"
| "strcmp [] (y # ys) = -1"
| "strcmp (x # xs) [] = 1"
| "strcmp (x # xs) (y # ys) =
     (if (of_char x :: nat) < of_char y then -1
      else if (of_char y :: nat) < of_char x then 1 else strcmp xs ys)"

lemma strcmp_0_iff [simp]: "strcmp a b = 0 \<longleftrightarrow> a = b"
  by (induction a b rule: strcmp.induct) auto

lemma strcmp_less_greater: "strcmp a b < 0 \<longleftrightarrow> 0 < strcmp b a"
  by (induction a b rule: strcmp.induct) auto

lemma strcmp_trans: "strcmp a b < 0 \<Longrightarrow> strcmp b c < 0 \<Longrightarrow> strcmp a c < 0"
proof (induction a b arbitrary: c rule: strcmp.induct)
  case (2 y ys)
  then show ?case by (cases c) simp_all
next
  case (4 x xs y ys)
  show ?case
  proof (cases c)
    case Nil
    with "4.prems" show ?thesis by simp
  next
    case (Cons z zs)
    let ?n = "\<lambda>a :: char. of_char a :: nat"
    have "strcmp (y # ys) (z # zs) < 0" using "4.prems"(2) Cons by simp
    then consider "?n y < ?n z" | "?n y = ?n z" "strcmp ys zs < 0"
      by (simp split: if_splits)
    moreover from "4.prems"(1) consider "?n x < ?n y" | "?n x = ?n y" "strcmp xs ys < 0"
      by (simp split: if_splits)
    ultimately consider "?n x < ?n z" | "?n x = ?n y" "?n y = ?n z" "strcmp xs ys < 0" "strcmp ys zs < 0"
      by (metis order.strict_trans)
    then show ?thesis
    proof cases
      case 1
      then show ?thesis using Cons by simp
    next
      case 2
      then have "strcmp xs zs < 0" using "4.IH" by simp
      with 2 show ?thesis using Cons by simp
    qed
  qed
qed simp_all

lemma strcmp_refl [simp]: "strcmp a a = 0"
  by simp

section \<open>Data\<close>

definition HANDLE_MASK :: u32 where "HANDLE_MASK = 0xffffff"
definition HANDLE_REMOTE_SHIFT :: nat where "HANDLE_REMOTE_SHIFT = 24"
definition DEFAULT_SLOT_SIZE :: nat where "DEFAULT_SLOT_SIZE = 4"
definition MAX_SLOT_SIZE :: nat where "MAX_SLOT_SIZE = 0x40000000"

record handle_name =
  hn_name :: string
  hn_handle :: u32

record 'c handle_storage =
  hs_harbor :: u32
  hs_handle_index :: u32
  hs_slot_size :: nat
  hs_slot :: "'c option list"
  hs_name_cap :: nat
  hs_name_count :: nat
  hs_name :: "handle_name option list"

section \<open>Slots\<close>

definition hs_mask :: "nat \<Rightarrow> u32" where
  "hs_mask slot_size = of_nat slot_size - 1"

text \<open>The inner loop of \<open>skynet_handle_register\<close> from index \<open>i\<close> on.\<close>

function register_scan :: "'c handle_storage \<Rightarrow> 'c \<Rightarrow> nat \<Rightarrow> (u32 \<times> 'c handle_storage) option" where
  "register_scan s ctx i =
     (if i < hs_slot_size s then
        (let handle = (of_nat i + hs_handle_index s) AND HANDLE_MASK;
             hash = unat (handle AND hs_mask (hs_slot_size s))
         in if hs_slot s ! hash = None
            then Some (handle OR hs_harbor s,
                       s\<lparr>hs_slot := (hs_slot s)[hash := Some ctx], hs_handle_index := handle + 1\<rparr>)
            else register_scan s ctx (Suc i))
      else None)"
  by pat_completeness auto
termination
  by (relation "measure (\<lambda>(s, ctx, i). hs_slot_size s - i)") auto

declare register_scan.simps [simp del]

text \<open>
  The rehash loop: an empty old slot would be dereferenced and an occupied new slot fails the
  assertion, both are \<open>None\<close>.
\<close>

fun rehash :: "('c \<Rightarrow> u32) \<Rightarrow> u32 \<Rightarrow> 'c option list \<Rightarrow> 'c option list \<Rightarrow> 'c option list option" where
  "rehash hof msk new [] = Some new"
| "rehash hof msk new (None # cs) = None"
| "rehash hof msk new (Some c # cs) =
     (let hash = unat (hof c AND msk) in
      if new ! hash \<noteq> None then None else rehash hof msk (new[hash := Some c]) cs)"

definition hs_expand :: "('c \<Rightarrow> u32) \<Rightarrow> 'c handle_storage \<Rightarrow> 'c handle_storage option" where
  "hs_expand hof s =
     (if hs_slot_size s * 2 - 1 \<le> unat HANDLE_MASK then
        map_option (\<lambda>new. s\<lparr>hs_slot := new, hs_slot_size := hs_slot_size s * 2\<rparr>)
          (rehash hof (hs_mask (hs_slot_size s * 2)) (replicate (hs_slot_size s * 2) None)
             (take (hs_slot_size s) (hs_slot s)))
      else None)"

partial_function (option) skynet_handle_register ::
  "('c \<Rightarrow> u32) \<Rightarrow> 'c handle_storage \<Rightarrow> 'c \<Rightarrow> (u32 \<times> 'c handle_storage) option" where
  "skynet_handle_register hof s ctx =
     (case register_scan s ctx 0 of
        Some r \<Rightarrow> Some r
      | None \<Rightarrow> Option.bind (hs_expand hof s) (\<lambda>s'. skynet_handle_register hof s' ctx))"

definition hs_lookup :: "('c \<Rightarrow> u32) \<Rightarrow> 'c handle_storage \<Rightarrow> u32 \<Rightarrow> 'c option" where
  "hs_lookup hof s handle =
     (let hash = unat (handle AND hs_mask (hs_slot_size s)) in
      case hs_slot s ! hash of
        None \<Rightarrow> None
      | Some ctx \<Rightarrow> if hof ctx = handle then Some ctx else None)"

section \<open>Names\<close>

text \<open>The compaction loop of \<open>skynet_handle_retire\<close>: \<open>i\<close> reads, \<open>j\<close> writes.\<close>

function name_compact ::
  "handle_name option list \<Rightarrow> u32 \<Rightarrow> nat \<Rightarrow> nat \<Rightarrow> nat \<Rightarrow> handle_name option list \<times> nat" where
  "name_compact names handle i j n =
     (if i < n then
        (if map_option hn_handle (names ! i) = Some handle
         then name_compact names handle (Suc i) j n
         else if i \<noteq> j then name_compact (names[j := names ! i]) handle (Suc i) (Suc j) n
         else name_compact names handle (Suc i) (Suc j) n)
      else (names, j))"
  by pat_completeness auto
termination
  by (relation "measure (\<lambda>(names, handle, i, j, n). n - i)") auto

declare name_compact.simps [simp del]

text \<open>The storage part of \<open>skynet_handle_retire\<close>: the context to release, if any.\<close>

definition hs_retire :: "('c \<Rightarrow> u32) \<Rightarrow> 'c handle_storage \<Rightarrow> u32 \<Rightarrow> 'c option \<times> 'c handle_storage" where
  "hs_retire hof s handle =
     (let hash = unat (handle AND hs_mask (hs_slot_size s)) in
      case hs_slot s ! hash of
        None \<Rightarrow> (None, s)
      | Some ctx \<Rightarrow>
          if hof ctx = handle then
            (let (names, j) = name_compact (hs_name s) handle 0 0 (hs_name_count s) in
             (Some ctx, s\<lparr>hs_slot := (hs_slot s)[hash := None], hs_name := names, hs_name_count := j\<rparr>))
          else (None, s))"

text \<open>The binary search, shared by \<open>findname\<close> and \<open>_insert_name\<close>: the index of the name, or where
  it would go. \<open>begin\<close> and \<open>end\<close> are C \<open>int\<close>s and \<open>end\<close> starts at \<open>-1\<close> for an empty array.\<close>

function name_search :: "handle_name option list \<Rightarrow> string \<Rightarrow> int \<Rightarrow> int \<Rightarrow> nat + nat" where
  "name_search names name bg en =
     (if bg \<le> en then
        (let mid = (bg + en) div 2;
             c = strcmp (case names ! nat mid of None \<Rightarrow> [] | Some n \<Rightarrow> hn_name n) name
         in if c = 0 then Inl (nat mid)
            else if c < 0 then name_search names name (mid + 1) en
            else name_search names name bg (mid - 1))
      else Inr (nat bg))"
  by pat_completeness auto
termination
  by (relation "measure (\<lambda>(names, name, bg, en). nat (en - bg + 1))") auto

declare name_search.simps [simp del]

definition skynet_handle_findname :: "'c handle_storage \<Rightarrow> string \<Rightarrow> u32" where
  "skynet_handle_findname s name =
     (case name_search (hs_name s) name 0 (int (hs_name_count s) - 1) of
        Inl i \<Rightarrow> (case hs_name s ! i of None \<Rightarrow> 0 | Some n \<Rightarrow> hn_handle n)
      | Inr _ \<Rightarrow> 0)"

function name_shift_up :: "handle_name option list \<Rightarrow> nat \<Rightarrow> nat \<Rightarrow> handle_name option list" where
  "name_shift_up names i before =
     (if before < i then name_shift_up (names[i := names ! (i - 1)]) (i - 1) before else names)"
  by pat_completeness auto
termination
  by (relation "measure (\<lambda>(names, i, before). i)") auto

declare name_shift_up.simps [simp del]

definition insert_name_before ::
  "'c handle_storage \<Rightarrow> string \<Rightarrow> u32 \<Rightarrow> nat \<Rightarrow> 'c handle_storage option" where
  "insert_name_before s name handle before =
     (let entry = Some \<lparr>hn_name = name, hn_handle = handle\<rparr> in
      if hs_name_cap s \<le> hs_name_count s then
        (let cap = hs_name_cap s * 2 in
         if MAX_SLOT_SIZE < cap then None
         else (let n = map (\<lambda>i. if i < before then hs_name s ! i
                               else if i = before then None
                               else if i \<le> hs_name_count s then hs_name s ! (i - 1) else None)
                         [0..<cap]
               in Some (s\<lparr>hs_name_cap := cap, hs_name := n[before := entry],
                          hs_name_count := Suc (hs_name_count s)\<rparr>)))
      else
        Some (s\<lparr>hs_name := (name_shift_up (hs_name s) (hs_name_count s) before)[before := entry],
                hs_name_count := Suc (hs_name_count s)\<rparr>))"

text \<open>The inner option is the returned pointer: \<open>None\<close> when the name is taken.\<close>

definition insert_name ::
  "'c handle_storage \<Rightarrow> string \<Rightarrow> u32 \<Rightarrow> (string option \<times> 'c handle_storage) option" where
  "insert_name s name handle =
     (case name_search (hs_name s) name 0 (int (hs_name_count s) - 1) of
        Inl _ \<Rightarrow> Some (None, s)
      | Inr before \<Rightarrow> map_option (Pair (Some name)) (insert_name_before s name handle before))"

definition skynet_handle_namehandle ::
  "'c handle_storage \<Rightarrow> u32 \<Rightarrow> string \<Rightarrow> (string option \<times> 'c handle_storage) option" where
  "skynet_handle_namehandle s handle name = insert_name s name handle"

definition skynet_handle_init :: "i32 \<Rightarrow> 'c handle_storage" where
  "skynet_handle_init harbor =
     \<lparr>hs_harbor = push_bit HANDLE_REMOTE_SHIFT (harbor AND 0xff), hs_handle_index = 1,
      hs_slot_size = DEFAULT_SLOT_SIZE, hs_slot = replicate DEFAULT_SLOT_SIZE None,
      hs_name_cap = 2, hs_name_count = 0, hs_name = replicate 2 None\<rparr>"

section \<open>The slot invariant\<close>

definition slots_inv :: "('c \<Rightarrow> u32) \<Rightarrow> 'c handle_storage \<Rightarrow> bool" where
  "slots_inv hof s \<longleftrightarrow> (\<exists>k. hs_slot_size s = 2 ^ k \<and> k \<le> 24) \<and> length (hs_slot s) = hs_slot_size s
     \<and> hs_harbor s AND HANDLE_MASK = 0
     \<and> (\<forall>i < hs_slot_size s. \<forall>c. hs_slot s ! i = Some c \<longrightarrow>
          unat (hof c AND hs_mask (hs_slot_size s)) = i \<and> hof c AND NOT HANDLE_MASK = hs_harbor s)"

definition registered :: "'c handle_storage \<Rightarrow> 'c set" where
  "registered s = {c. Some c \<in> set (hs_slot s)}"

lemma HANDLE_MASK_mask: "HANDLE_MASK = mask 24"
  by (simp add: HANDLE_MASK_def mask_eq_decr_exp)

lemma mask_and_mask_eq: "k \<le> n \<Longrightarrow> (mask n AND mask k :: u32) = mask k"
  by (rule bit_word_eqI) (auto simp: bit_simps)

lemma hs_mask_pow: "hs_mask (2 ^ k) = mask k"
  by (simp add: hs_mask_def mask_eq_decr_exp)

lemma hs_mask_less: "hs_slot_size s = 2 ^ k \<Longrightarrow> unat (h AND hs_mask (hs_slot_size s)) < hs_slot_size s"
  by (simp add: hs_mask_pow and_mask_unat)

lemma slots_invD:
  assumes "slots_inv hof s" and "hs_slot s ! i = Some c" and "i < hs_slot_size s"
  shows "unat (hof c AND hs_mask (hs_slot_size s)) = i" and "hof c AND NOT HANDLE_MASK = hs_harbor s"
  using assms unfolding slots_inv_def by blast+

lemma slots_inv_len: "slots_inv hof s \<Longrightarrow> length (hs_slot s) = hs_slot_size s"
  by (simp add: slots_inv_def)

lemma registered_iff:
  "slots_inv hof s \<Longrightarrow> c \<in> registered s \<longleftrightarrow> (\<exists>i < hs_slot_size s. hs_slot s ! i = Some c)"
  by (auto simp: registered_def in_set_conv_nth slots_inv_len)

lemma slots_inv_hash_less:
  assumes "slots_inv hof s"
  shows "unat (h AND hs_mask (hs_slot_size s)) < hs_slot_size s"
  using assms hs_mask_less unfolding slots_inv_def by blast

lemma lookup_iff:
  assumes inv: "slots_inv hof s"
  shows "hs_lookup hof s h = Some c \<longleftrightarrow> c \<in> registered s \<and> hof c = h"
proof
  show "c \<in> registered s \<and> hof c = h" if "hs_lookup hof s h = Some c"
    using that slots_inv_hash_less [OF inv, of h]
    by (auto simp: hs_lookup_def Let_def registered_iff [OF inv] split: option.splits if_splits)
  show "hs_lookup hof s h = Some c" if c: "c \<in> registered s \<and> hof c = h"
  proof -
    obtain i where "i < hs_slot_size s" "hs_slot s ! i = Some c"
      using c registered_iff [OF inv] by blast
    with slots_invD [OF inv] c show ?thesis by (auto simp: hs_lookup_def Let_def)
  qed
qed

lemma registered_inj: "slots_inv hof s \<Longrightarrow> c \<in> registered s \<Longrightarrow> d \<in> registered s \<Longrightarrow> hof c = hof d \<Longrightarrow> c = d"
  using lookup_iff by (metis option.inject)

section \<open>Registration\<close>

text \<open>The handle and the slot tried at index \<open>j\<close> of the scan.\<close>

abbreviation scan_handle :: "'c handle_storage \<Rightarrow> nat \<Rightarrow> u32" where
  "scan_handle s j \<equiv> (of_nat j + hs_handle_index s) AND HANDLE_MASK"

abbreviation scan_slot :: "'c handle_storage \<Rightarrow> nat \<Rightarrow> nat" where
  "scan_slot s j \<equiv> unat (scan_handle s j AND hs_mask (hs_slot_size s))"

lemma register_scan_Some:
  "register_scan s ctx i = Some (h, s') \<Longrightarrow>
     \<exists>j. i \<le> j \<and> j < hs_slot_size s \<and> hs_slot s ! scan_slot s j = None
       \<and> h = scan_handle s j OR hs_harbor s
       \<and> s' = s\<lparr>hs_slot := (hs_slot s)[scan_slot s j := Some ctx], hs_handle_index := scan_handle s j + 1\<rparr>"
proof (induction s ctx i rule: register_scan.induct)
  case (1 s ctx i)
  from "1.prems" have i: "i < hs_slot_size s"
    by (subst (asm) register_scan.simps) (auto split: if_splits)
  show ?case
  proof (cases "hs_slot s ! scan_slot s i = None")
    case True
    with "1.prems" i show ?thesis
      by (subst (asm) register_scan.simps) (auto simp: Let_def)
  next
    case False
    with "1.prems" i have "register_scan s ctx (Suc i) = Some (h, s')"
      by (subst (asm) register_scan.simps) (auto simp: Let_def)
    with "1.IH" [OF i refl refl False] show ?thesis by (meson Suc_leD)
  qed
qed

lemma register_scan_None:
  "register_scan s ctx i = None \<Longrightarrow> i \<le> j \<Longrightarrow> j < hs_slot_size s \<Longrightarrow> hs_slot s ! scan_slot s j \<noteq> None"
proof (induction s ctx i rule: register_scan.induct)
  case (1 s ctx i)
  then have i: "i < hs_slot_size s" by simp
  with "1.prems"(1) have occ: "hs_slot s ! scan_slot s i \<noteq> None"
    and nxt: "register_scan s ctx (Suc i) = None"
    by (subst (asm) register_scan.simps, simp add: Let_def split: if_splits)+
  show ?case
  proof (cases "j = i")
    case True
    with occ show ?thesis by simp
  next
    case False
    with "1.IH" [OF i refl refl occ nxt] "1.prems" show ?thesis by simp
  qed
qed

text \<open>The scan visits every slot: the handles of one round are all the residues.\<close>

lemma scan_slot_mod:
  assumes "hs_slot_size s = 2 ^ k" and "k \<le> 24"
  shows "scan_slot s j = (j + unat (hs_handle_index s)) mod 2 ^ k"
proof -
  have "scan_slot s j = unat ((of_nat j + hs_handle_index s) AND mask k)"
    using assms by (simp add: HANDLE_MASK_mask hs_mask_pow and.assoc mask_and_mask_eq)
  also have "\<dots> = unat (of_nat j + hs_handle_index s) mod 2 ^ k"
    by (rule and_mask_unat)
  also have "\<dots> = (j + unat (hs_handle_index s)) mod 2 ^ k"
  proof -
    have "(2::nat) ^ k dvd 2 ^ 32" using assms by (intro le_imp_power_dvd) simp
    then show ?thesis
      by (simp add: unat_word_ariths unat_of_nat mod_mod_cancel mod_simps)
  qed
  finally show ?thesis .
qed

lemma scan_slot_surj:
  assumes "hs_slot_size s = 2 ^ k" and "k \<le> 24" and "m < 2 ^ k"
  shows "\<exists>j < hs_slot_size s. scan_slot s j = m"
proof -
  let ?j = "(m + 2 ^ k - unat (hs_handle_index s) mod 2 ^ k) mod 2 ^ k"
  have lt: "unat (hs_handle_index s) mod 2 ^ k < (2::nat) ^ k" by simp
  have "(?j + unat (hs_handle_index s)) mod 2 ^ k
      = (m + 2 ^ k - unat (hs_handle_index s) mod 2 ^ k + unat (hs_handle_index s) mod 2 ^ k) mod 2 ^ k"
    by (simp only: mod_simps)
  also have "\<dots> = m"
    using le_add_diff_inverse2 [OF trans_le_add2 [OF less_imp_le [OF lt]], of m] assms(3) by simp
  finally have "scan_slot s ?j = m" using scan_slot_mod [OF assms(1,2)] by simp
  moreover have "?j < hs_slot_size s" using assms(1) by simp
  ultimately show ?thesis by blast
qed

lemma register_scan_None_full:
  assumes "slots_inv hof s" and "register_scan s ctx 0 = None" and "m < hs_slot_size s"
  shows "hs_slot s ! m \<noteq> None"
proof -
  obtain k where "hs_slot_size s = 2 ^ k" "k \<le> 24" using assms(1) unfolding slots_inv_def by blast
  from scan_slot_surj [OF this] assms(3) this(1) obtain j where "j < hs_slot_size s" "scan_slot s j = m"
    by auto
  with register_scan_None [OF assms(2)] show ?thesis by auto
qed

text \<open>Rehashing distinct residues into an empty table keeps every context at its residue.\<close>

lemma rehash_total:
  assumes "None \<notin> set cs" and "distinct (map (\<lambda>c. unat (hof (the c) AND msk)) cs)"
    and "\<forall>c \<in> set cs. unat (hof (the c) AND msk) < length new \<and> new ! unat (hof (the c) AND msk) = None"
  shows "\<exists>new'. rehash hof msk new cs = Some new' \<and> length new' = length new
    \<and> (\<forall>i < length new. \<forall>c. new' ! i = Some c \<longleftrightarrow>
         new ! i = Some c \<or> Some c \<in> set cs \<and> unat (hof c AND msk) = i)"
  using assms
proof (induction hof msk new cs rule: rehash.induct)
  case (3 hof msk new c cs)
  let ?h = "\<lambda>c. unat (hof c AND msk)"
  have free: "?h c < length new" "new ! ?h c = None" using "3.prems"(3) by auto
  have rest: "\<forall>d \<in> set cs. ?h (the d) < length (new[?h c := Some c])
      \<and> new[?h c := Some c] ! ?h (the d) = None"
  proof
    fix d assume d: "d \<in> set cs"
    with "3.prems"(2) have "?h (the d) \<noteq> ?h c" by (auto intro: rev_image_eqI)
    with d "3.prems"(3) show "?h (the d) < length (new[?h c := Some c])
      \<and> new[?h c := Some c] ! ?h (the d) = None" by auto
  qed
  have "\<exists>new'. rehash hof msk (new[?h c := Some c]) cs = Some new'
      \<and> length new' = length (new[?h c := Some c])
      \<and> (\<forall>i < length (new[?h c := Some c]). \<forall>d. new' ! i = Some d \<longleftrightarrow>
           new[?h c := Some c] ! i = Some d \<or> Some d \<in> set cs \<and> ?h d = i)"
    by (rule "3.IH" [OF refl _ _ _ rest]) (use "3.prems" free in auto)
  then obtain new' where r: "rehash hof msk (new[?h c := Some c]) cs = Some new'"
    and len: "length new' = length new"
    and eq: "\<forall>i < length new. \<forall>d. new' ! i = Some d \<longleftrightarrow>
           new[?h c := Some c] ! i = Some d \<or> Some d \<in> set cs \<and> ?h d = i"
    by auto
  have "\<forall>i < length new. \<forall>d. new' ! i = Some d \<longleftrightarrow>
         new ! i = Some d \<or> Some d \<in> set (Some c # cs) \<and> ?h d = i"
  proof (intro allI impI)
    fix i d assume i: "i < length new"
    have "new[?h c := Some c] ! i = Some d \<longleftrightarrow> new ! i = Some d \<or> d = c \<and> ?h d = i"
      using i free by (cases "i = ?h c") (auto simp: nth_list_update)
    with eq i show "new' ! i = Some d \<longleftrightarrow>
         new ! i = Some d \<or> Some d \<in> set (Some c # cs) \<and> ?h d = i" by auto
  qed
  moreover have "rehash hof msk new (Some c # cs) = Some new'"
    using r free by (simp add: Let_def)
  ultimately show ?case using len by blast
qed auto

lemma hs_expand_sound:
  assumes inv: "slots_inv hof s" and full: "\<forall>m < hs_slot_size s. hs_slot s ! m \<noteq> None"
    and room: "hs_slot_size s < 2 ^ 24"
  shows "\<exists>s'. hs_expand hof s = Some s' \<and> slots_inv hof s' \<and> registered s' = registered s
    \<and> hs_slot_size s' = 2 * hs_slot_size s \<and> hs_harbor s' = hs_harbor s
    \<and> hs_handle_index s' = hs_handle_index s"
proof -
  obtain k where k: "hs_slot_size s = 2 ^ k" using inv unfolding slots_inv_def by blast
  have "(2::nat) ^ k < 2 ^ 24" using room k by simp
  then have k24: "k < 24" by (rule power_less_imp_less_exp [rotated]) simp
  have len: "length (hs_slot s) = 2 ^ k" using slots_inv_len [OF inv] k by simp
  let ?msk = "hs_mask (hs_slot_size s * 2)"
  let ?h = "\<lambda>c. unat (hof c AND ?msk)"
  have msk: "?msk = mask (Suc k)" using hs_mask_pow [of "Suc k"] k by (simp add: mult.commute)
  have h: "?h c = unat (hof c) mod 2 ^ Suc k" for c by (simp only: msk and_mask_unat)
  have pos: "unat (hof (the (hs_slot s ! i))) mod 2 ^ k = i" if i: "i < 2 ^ k" for i
  proof -
    obtain c where c: "hs_slot s ! i = Some c" using full [rule_format, of i] i k by auto
    with slots_invD(1) [OF inv c] i k have "unat (hof c AND mask k) = i" by (simp add: hs_mask_pow)
    with c show ?thesis by (simp add: and_mask_unat)
  qed
  have "inj_on (\<lambda>i. ?h (the (hs_slot s ! i))) {0..<2 ^ k}"
  proof (rule inj_onI)
    fix i j assume ij: "i \<in> {0..<2 ^ k}" "j \<in> {0..<2 ^ k}"
      and eq: "?h (the (hs_slot s ! i)) = ?h (the (hs_slot s ! j))"
    have dv: "(2::nat) ^ k dvd 2 ^ Suc k" by simp
    from eq have "unat (hof (the (hs_slot s ! i))) mod 2 ^ k = unat (hof (the (hs_slot s ! j))) mod 2 ^ k"
      unfolding h by (metis mod_mod_cancel [OF dv])
    with pos ij show "i = j" by simp
  qed
  then have dist: "distinct (map (\<lambda>c. ?h (the c)) (hs_slot s))"
    using len by (auto simp: distinct_conv_nth inj_on_def)
  have none: "None \<notin> set (hs_slot s)" using full slots_inv_len [OF inv] by (auto simp: in_set_conv_nth)
  have "\<exists>new'. rehash hof ?msk (replicate (hs_slot_size s * 2) None) (hs_slot s) = Some new'
    \<and> length new' = length (replicate (hs_slot_size s * 2) (None :: 'a option))
    \<and> (\<forall>i < length (replicate (hs_slot_size s * 2) (None :: 'a option)). \<forall>c. new' ! i = Some c \<longleftrightarrow>
         replicate (hs_slot_size s * 2) None ! i = Some c \<or> Some c \<in> set (hs_slot s) \<and> ?h c = i)"
    by (rule rehash_total [OF none dist]) (use h k in \<open>simp add: mult.commute\<close>)
  then obtain new where r: "rehash hof ?msk (replicate (hs_slot_size s * 2) None) (hs_slot s) = Some new"
    and ln: "length new = hs_slot_size s * 2"
    and eq: "\<And>i c. i < hs_slot_size s * 2 \<Longrightarrow> new ! i = Some c \<longleftrightarrow> Some c \<in> set (hs_slot s) \<and> ?h c = i"
    by auto
  define s' where "s' = s\<lparr>hs_slot := new, hs_slot_size := hs_slot_size s * 2\<rparr>"
  have le: "hs_slot_size s * 2 - 1 \<le> unat HANDLE_MASK"
    using power_increasing [of "Suc k" 24 "2::nat"] k24 k by (simp add: HANDLE_MASK_def)
  then have ex: "hs_expand hof s = Some s'"
    using r slots_inv_len [OF inv] by (simp add: hs_expand_def s'_def)
  have reg: "registered s' = registered s"
  proof -
    have "Some c \<in> set new \<longleftrightarrow> Some c \<in> set (hs_slot s)" for c
    proof
      assume "Some c \<in> set (hs_slot s)"
      moreover have "?h c < hs_slot_size s * 2" using h k by (simp add: mult.commute)
      ultimately show "Some c \<in> set new" using eq [of "?h c" c] ln by (metis nth_mem)
    qed (use eq ln in \<open>auto simp: in_set_conv_nth\<close>)
    then show ?thesis by (simp add: registered_def s'_def)
  qed
  have "slots_inv hof s'"
    unfolding slots_inv_def
  proof (intro conjI allI impI)
    show "\<exists>k. hs_slot_size s' = 2 ^ k \<and> k \<le> 24"
      using k k24 by (intro exI [of _ "Suc k"]) (simp add: s'_def)
    show "length (hs_slot s') = hs_slot_size s'" by (simp add: s'_def ln)
    show "hs_harbor s' AND HANDLE_MASK = 0" using inv by (simp add: s'_def slots_inv_def)
    fix i c assume i: "i < hs_slot_size s'" and c: "hs_slot s' ! i = Some c"
    then have c': "Some c \<in> set (hs_slot s)" "?h c = i" using eq [of i c] by (simp_all add: s'_def)
    then show "unat (hof c AND hs_mask (hs_slot_size s')) = i" by (simp add: s'_def)
    from c' obtain j where "j < hs_slot_size s" "hs_slot s ! j = Some c"
      using slots_inv_len [OF inv] by (metis in_set_conv_nth)
    with slots_invD(2) [OF inv] show "hof c AND NOT HANDLE_MASK = hs_harbor s'" by (simp add: s'_def)
  qed
  with ex reg show ?thesis by (auto simp: s'_def)
qed

text \<open>
  What a registration gives: a handle no registered context has, with the harbor in its top byte,
  and the context at that handle. \<open>hof(c := h)\<close> is the assignment of the returned handle to the
  context by the caller.
\<close>

definition registered_as ::
  "('c \<Rightarrow> u32) \<Rightarrow> 'c handle_storage \<Rightarrow> 'c \<Rightarrow> u32 \<Rightarrow> 'c handle_storage \<Rightarrow> bool" where
  "registered_as hof s c h s' \<longleftrightarrow> slots_inv (hof(c := h)) s' \<and> registered s' = insert c (registered s)
     \<and> (\<forall>d \<in> registered s. hof d \<noteq> h) \<and> h AND NOT HANDLE_MASK = hs_harbor s
     \<and> hs_harbor s' = hs_harbor s \<and> hs_handle_index s' = (h AND HANDLE_MASK) + 1"

lemma scan_registers:
  assumes inv: "slots_inv hof s" and c: "c \<notin> registered s"
    and r: "register_scan s c 0 = Some (h, s')"
  shows "registered_as hof s c h s'"
proof -
  obtain j where j: "j < hs_slot_size s" and free: "hs_slot s ! scan_slot s j = None"
    and h: "h = scan_handle s j OR hs_harbor s"
    and s': "s' = s\<lparr>hs_slot := (hs_slot s)[scan_slot s j := Some c], hs_handle_index := scan_handle s j + 1\<rparr>"
    using register_scan_Some [OF r] by blast
  obtain k where k: "hs_slot_size s = 2 ^ k" "k \<le> 24" using inv unfolding slots_inv_def by blast
  have hb: "hs_harbor s AND mask 24 = 0" using inv by (simp add: slots_inv_def HANDLE_MASK_mask)
  have low: "h AND mask 24 = scan_handle s j"
    using hb by (simp add: h HANDLE_MASK_mask bit.conj_disj_distrib2 and.assoc)
  have m24: "mask 24 AND hs_mask (hs_slot_size s) = hs_mask (hs_slot_size s)"
    using k by (simp add: hs_mask_pow mask_and_mask_eq)
  have "h AND hs_mask (hs_slot_size s) = (h AND mask 24) AND hs_mask (hs_slot_size s)"
    by (simp only: and.assoc m24)
  then have slot: "unat (h AND hs_mask (hs_slot_size s)) = scan_slot s j" by (simp only: low)
  have top: "h AND NOT HANDLE_MASK = hs_harbor s"
  proof (rule bit_word_eqI)
    fix i :: nat assume "i < LENGTH(32)"
    have "bit (hs_harbor s AND mask 24) i = False" using hb by simp
    then show "bit (h AND NOT HANDLE_MASK) i = bit (hs_harbor s) i"
      using \<open>i < LENGTH(32)\<close> by (auto simp: h HANDLE_MASK_mask bit_simps)
  qed
  have lt: "scan_slot s j < hs_slot_size s" by (rule slots_inv_hash_less [OF inv])
  note len = slots_inv_len [OF inv]
  have fresh: "hof d \<noteq> h" if "d \<in> registered s" for d
  proof
    assume "hof d = h"
    with that lookup_iff [OF inv] have "hs_lookup hof s h = Some d" by simp
    then show False by (simp add: hs_lookup_def Let_def slot free)
  qed
  have reg: "registered s' = insert c (registered s)"
  proof -
    have "Some d \<in> set ((hs_slot s)[scan_slot s j := Some c]) \<longleftrightarrow> d = c \<or> Some d \<in> set (hs_slot s)" for d
      using in_set_update_other [of "scan_slot s j" "hs_slot s" "Some d" "Some c"] lt len free by auto
    then show ?thesis by (auto simp: registered_def s')
  qed
  have "slots_inv (hof(c := h)) s'"
    unfolding slots_inv_def
  proof (intro conjI allI impI)
    show "\<exists>k. hs_slot_size s' = 2 ^ k \<and> k \<le> 24" using k by (auto simp: s')
    show "length (hs_slot s') = hs_slot_size s'" by (simp add: s' len)
    show "hs_harbor s' AND HANDLE_MASK = 0" using inv by (simp add: s' slots_inv_def)
    fix i d assume i: "i < hs_slot_size s'" and d: "hs_slot s' ! i = Some d"
    consider "i = scan_slot s j" "d = c" | "i \<noteq> scan_slot s j" "hs_slot s ! i = Some d" "d \<noteq> c"
    proof (cases "i = scan_slot s j")
      case True
      with d lt len have "d = c" by (simp add: s')
      with True show ?thesis by (rule that(1))
    next
      case False
      with d have sd: "hs_slot s ! i = Some d" by (simp add: s')
      moreover have "d \<in> registered s" using sd i registered_iff [OF inv] by (auto simp: s')
      ultimately show ?thesis using False c by (intro that(2)) auto
    qed
    then have "unat ((hof(c := h)) d AND hs_mask (hs_slot_size s)) = i
        \<and> (hof(c := h)) d AND NOT HANDLE_MASK = hs_harbor s"
    proof cases
      case 1
      with slot top show ?thesis by simp
    next
      case 2
      with slots_invD [OF inv 2(2)] i show ?thesis by (simp add: s')
    qed
    then show "unat ((hof(c := h)) d AND hs_mask (hs_slot_size s')) = i"
      and "(hof(c := h)) d AND NOT HANDLE_MASK = hs_harbor s'" by (simp_all add: s')
  qed
  with reg fresh top low show ?thesis by (simp add: registered_as_def s' HANDLE_MASK_mask)
qed

lemma scan_Some_if_free:
  assumes "slots_inv hof s" and "m < hs_slot_size s" and "hs_slot s ! m = None"
  shows "\<exists>h s'. register_scan s c 0 = Some (h, s')"
  using register_scan_None_full [OF assms(1) _ assms(2)] assms(3)
  by (metis option.exhaust surj_pair)

lemma registered_card_full:
  assumes inv: "slots_inv hof s" and full: "\<forall>m < hs_slot_size s. hs_slot s ! m \<noteq> None"
  shows "card (registered s) = hs_slot_size s"
proof -
  have "registered s = (\<lambda>m. the (hs_slot s ! m)) ` {0..<hs_slot_size s}"
  proof (rule set_eqI)
    fix c
    show "c \<in> registered s \<longleftrightarrow> c \<in> (\<lambda>m. the (hs_slot s ! m)) ` {0..<hs_slot_size s}"
      using full by (force simp: registered_iff [OF inv] image_iff)
  qed
  moreover have "inj_on (\<lambda>m. the (hs_slot s ! m)) {0..<hs_slot_size s}"
  proof (rule inj_onI)
    fix i j assume ij: "i \<in> {0..<hs_slot_size s}" "j \<in> {0..<hs_slot_size s}"
      and eq: "the (hs_slot s ! i) = the (hs_slot s ! j)"
    then obtain c where "hs_slot s ! i = Some c" "hs_slot s ! j = Some c"
      using full by (metis atLeastLessThan_iff option.collapse)
    with slots_invD(1) [OF inv] ij show "i = j" by (metis atLeastLessThan_iff)
  qed
  ultimately show ?thesis by (simp add: card_image)
qed

lemma register_total:
  assumes inv: "slots_inv hof s" and c: "c \<notin> registered s" and room: "card (registered s) < 2 ^ 24"
  shows "\<exists>h s'. skynet_handle_register hof s c = Some (h, s') \<and> registered_as hof s c h s'"
proof (cases "register_scan s c 0")
  case (Some r)
  with scan_registers [OF inv c] show ?thesis
    by (cases r) (auto simp: skynet_handle_register.simps)
next
  case None
  then have full: "\<forall>m < hs_slot_size s. hs_slot s ! m \<noteq> None"
    using register_scan_None_full [OF inv] by blast
  with registered_card_full [OF inv] room have "hs_slot_size s < 2 ^ 24" by simp
  from hs_expand_sound [OF inv full this] obtain s1 where s1: "hs_expand hof s = Some s1"
    "slots_inv hof s1" "registered s1 = registered s" "hs_slot_size s1 = 2 * hs_slot_size s"
    "hs_harbor s1 = hs_harbor s" "hs_handle_index s1 = hs_handle_index s" by blast
  have "\<exists>m < hs_slot_size s1. hs_slot s1 ! m = None"
  proof (rule ccontr)
    assume "\<not> ?thesis"
    then have "card (registered s1) = hs_slot_size s1"
      by (intro registered_card_full [OF s1(2)]) auto
    with s1 registered_card_full [OF inv full] have "hs_slot_size s = 0" by simp
    then show False using inv by (auto simp: slots_inv_def)
  qed
  then obtain h s' where r: "register_scan s1 c 0 = Some (h, s')"
    using scan_Some_if_free [OF s1(2)] by blast
  have "registered_as hof s1 c h s'" using scan_registers [OF s1(2) _ r] c s1(3) by simp
  then have "registered_as hof s c h s'" using s1 by (simp add: registered_as_def)
  moreover have "skynet_handle_register hof s c = Some (h, s')"
    by (subst skynet_handle_register.simps, subst skynet_handle_register.simps)
      (simp add: None s1(1) r)
  ultimately show ?thesis by blast
qed

section \<open>Retirement\<close>

lemma retire_slots:
  assumes inv: "slots_inv hof s"
  shows "slots_inv hof (snd (hs_retire hof s h))"
    and "registered (snd (hs_retire hof s h)) = {c \<in> registered s. hof c \<noteq> h}"
    and "fst (hs_retire hof s h) = hs_lookup hof s h"
proof -
  let ?i = "unat (h AND hs_mask (hs_slot_size s))"
  note len = slots_inv_len [OF inv]
  have i: "?i < hs_slot_size s" by (rule slots_inv_hash_less [OF inv])
  show "fst (hs_retire hof s h) = hs_lookup hof s h"
    by (auto simp: hs_retire_def hs_lookup_def Let_def split: option.splits prod.splits)
  have "slots_inv hof (snd (hs_retire hof s h))
    \<and> registered (snd (hs_retire hof s h)) = {c \<in> registered s. hof c \<noteq> h}"
  proof (cases "hs_lookup hof s h")
    case None
    then have "snd (hs_retire hof s h) = s"
      by (auto simp: hs_retire_def hs_lookup_def Let_def split: option.splits)
    moreover have "hof c \<noteq> h" if "c \<in> registered s" for c using None lookup_iff [OF inv] that by (metis option.distinct(1))
    ultimately show ?thesis using inv by auto
  next
    case (Some c)
    then have c: "hs_slot s ! ?i = Some c" "hof c = h"
      by (auto simp: hs_lookup_def Let_def split: option.splits if_splits)
    define s' where "s' = snd (hs_retire hof s h)"
    have slot: "hs_slot s' = (hs_slot s)[?i := None]" "hs_slot_size s' = hs_slot_size s"
      "hs_harbor s' = hs_harbor s"
      using c by (auto simp: s'_def hs_retire_def Let_def split: prod.splits)
    have nth: "hs_slot s' ! m = (if m = ?i then None else hs_slot s ! m)" if "m < hs_slot_size s" for m
      using that len by (simp add: slot nth_list_update)
    have inv': "slots_inv hof s'"
      using inv nth unfolding slots_inv_def slot by (auto split: if_splits)
    moreover have "registered s' = {d \<in> registered s. hof d \<noteq> h}"
    proof (rule set_eqI)
      fix d
      have "m \<noteq> ?i" if "m < hs_slot_size s" "hs_slot s ! m = Some d" "hof d \<noteq> h" for m
        using that c by auto
      moreover have "hof d \<noteq> h" if "m < hs_slot_size s" "hs_slot s ! m = Some d" "m \<noteq> ?i" for m
        using slots_invD(1) [OF inv that(2,1)] that(3) by auto
      ultimately show "d \<in> registered s' \<longleftrightarrow> d \<in> {d \<in> registered s. hof d \<noteq> h}"
        unfolding registered_iff [OF inv'] slot(2) mem_Collect_eq registered_iff [OF inv]
        using nth by (metis option.distinct(1))
    qed
    ultimately show ?thesis by (simp add: s'_def)
  qed
  then show "slots_inv hof (snd (hs_retire hof s h))"
    and "registered (snd (hs_retire hof s h)) = {c \<in> registered s. hof c \<noteq> h}" by blast+
qed

section \<open>The name array\<close>

definition names :: "'c handle_storage \<Rightarrow> handle_name list" where
  "names s = map the (take (hs_name_count s) (hs_name s))"

definition name_less :: "handle_name \<Rightarrow> handle_name \<Rightarrow> bool" where
  "name_less a b \<longleftrightarrow> strcmp (hn_name a) (hn_name b) < 0"

definition names_inv :: "'c handle_storage \<Rightarrow> bool" where
  "names_inv s \<longleftrightarrow> hs_name_count s \<le> hs_name_cap s \<and> length (hs_name s) = hs_name_cap s
     \<and> 0 < hs_name_cap s \<and> None \<notin> set (take (hs_name_count s) (hs_name s)) \<and> sorted_wrt name_less (names s)"

text \<open>The mapping from names to handles that the array stands for.\<close>

definition name_map :: "'c handle_storage \<Rightarrow> string \<rightharpoonup> u32" where
  "name_map s = map_of (map (\<lambda>n. (hn_name n, hn_handle n)) (names s))"

lemma names_length: "names_inv s \<Longrightarrow> length (names s) = hs_name_count s"
  by (simp add: names_def names_inv_def)

lemma names_nth:
  assumes "names_inv s" and "i < hs_name_count s"
  shows "hs_name s ! i = Some (names s ! i)"
proof -
  have "take (hs_name_count s) (hs_name s) ! i \<noteq> None"
    using assms unfolding names_inv_def by (metis length_take_le nth_mem)
  then show ?thesis using assms by (auto simp: names_def names_inv_def)
qed

lemma names_eqI:
  assumes "\<forall>i < n. xs ! i = Some (ns ! i)" and "length ns = n" and "n \<le> length xs"
  shows "take n xs = map Some ns"
  using assms by (simp add: list_eq_iff_nth_eq)

lemma names_inv_take: "names_inv s \<Longrightarrow> take (hs_name_count s) (hs_name s) = map Some (names s)"
  by (rule names_eqI) (auto simp: names_nth names_length names_inv_def)

lemma names_of_take: "take (hs_name_count s) (hs_name s) = map Some ns \<Longrightarrow> names s = ns"
  by (simp add: names_def comp_def)

lemma sorted_names_distinct: "sorted_wrt name_less ns \<Longrightarrow> distinct (map hn_name ns)"
proof (induction ns)
  case (Cons a ns)
  then show ?case by (force simp: name_less_def)
qed simp

lemma name_map_eq:
  assumes "sorted_wrt name_less (names s)"
  shows "name_map s nm = Some h \<longleftrightarrow> \<lparr>hn_name = nm, hn_handle = h\<rparr> \<in> set (names s)"
proof -
  have "distinct (map fst (map (\<lambda>n. (hn_name n, hn_handle n)) (names s)))"
    using sorted_names_distinct [OF assms] by (simp add: comp_def)
  then have "name_map s nm = Some h \<longleftrightarrow> (nm, h) \<in> (\<lambda>n. (hn_name n, hn_handle n)) ` set (names s)"
    unfolding name_map_def by (subst map_of_eq_Some_iff) simp_all
  also have "\<dots> \<longleftrightarrow> (\<exists>n \<in> set (names s). n = \<lparr>hn_name = nm, hn_handle = h\<rparr>)"
  proof -
    have eq: "(nm = hn_name n \<and> h = hn_handle n) = (n = \<lparr>hn_name = nm, hn_handle = h\<rparr>)" for n :: handle_name
      by (cases n) auto
    show ?thesis by (simp add: image_iff eq)
  qed
  finally show ?thesis by simp
qed

text \<open>The binary search: \<open>Inl\<close> the index of the name, \<open>Inr\<close> the index that keeps the order.\<close>

lemma name_search_sound:
  assumes "\<forall>i < length ns. xs ! i = Some (ns ! i)" and "sorted_wrt name_less ns"
    and "0 \<le> bg" and "bg \<le> en + 1" and "en < int (length ns)"
    and "\<forall>i < nat bg. strcmp (hn_name (ns ! i)) nm < 0"
    and "\<forall>i < length ns. en < int i \<longrightarrow> 0 < strcmp (hn_name (ns ! i)) nm"
  shows "case name_search xs nm bg en of
      Inl i \<Rightarrow> i < length ns \<and> hn_name (ns ! i) = nm
    | Inr p \<Rightarrow> p \<le> length ns \<and> (\<forall>i < p. strcmp (hn_name (ns ! i)) nm < 0)
        \<and> (\<forall>i < length ns. p \<le> i \<longrightarrow> 0 < strcmp (hn_name (ns ! i)) nm)"
  using assms
proof (induction xs nm bg en rule: name_search.induct)
  case (1 xs nm bg en)
  show ?case
  proof (cases "bg \<le> en")
    case False
    with "1.prems" have e: "en = bg - 1" by simp
    with False "1.prems" show ?thesis by (simp add: name_search.simps)
  next
    case True
    define mid where "mid = (bg + en) div 2"
    have b: "bg \<le> mid" "mid \<le> en" using True by (auto simp: mid_def)
    with "1.prems" have m: "nat mid < length ns" "int (nat mid) = mid" by auto
    let ?c = "strcmp (hn_name (ns ! nat mid)) nm"
    have c: "strcmp (case xs ! nat mid of None \<Rightarrow> [] | Some n \<Rightarrow> hn_name n) nm = ?c"
      using "1.prems"(1) m by simp
    have mono: "strcmp (hn_name (ns ! i)) (hn_name (ns ! j)) < 0" if "i < j" "j < length ns" for i j
      using sorted_wrt_nth_less [OF "1.prems"(2) that] by (simp add: name_less_def)
    consider "?c = 0" | "?c < 0" | "0 < ?c" by linarith
    then show ?thesis
    proof cases
      case 1
      with True c m show ?thesis
        by (subst name_search.simps) (simp add: Let_def mid_def [symmetric])
    next
      case 2
      have "\<forall>i < nat (mid + 1). strcmp (hn_name (ns ! i)) nm < 0"
      proof (intro allI impI)
        fix i assume "i < nat (mid + 1)"
        then consider "i = nat mid" | "i < nat mid" using b "1.prems"(3) by linarith
        then show "strcmp (hn_name (ns ! i)) nm < 0"
          using 2 strcmp_trans [OF mono [OF _ m(1)] 2] by cases auto
      qed
      moreover have "name_search xs nm bg en = name_search xs nm (mid + 1) en"
        using True c 2 by (subst name_search.simps) (simp del: strcmp_0_iff add: Let_def mid_def [symmetric])
      ultimately show ?thesis
        using "1.IH"(1) [OF True mid_def refl] c 2 "1.prems" b by (simp del: strcmp_0_iff)
    next
      case 3
      have "\<forall>i < length ns. mid - 1 < int i \<longrightarrow> 0 < strcmp (hn_name (ns ! i)) nm"
      proof (intro allI impI)
        fix i assume i: "i < length ns" "mid - 1 < int i"
        then consider "i = nat mid" | "nat mid < i" using b "1.prems"(3) by linarith
        then show "0 < strcmp (hn_name (ns ! i)) nm"
          using 3 strcmp_trans mono [OF _ i(1)] by cases (auto simp: strcmp_less_greater [symmetric])
      qed
      moreover have "name_search xs nm bg en = name_search xs nm bg (mid - 1)"
        using True c 3 by (subst name_search.simps) (simp del: strcmp_0_iff add: Let_def mid_def [symmetric])
      ultimately show ?thesis
        using "1.IH"(2) [OF True mid_def refl] c 3 "1.prems" b by (simp del: strcmp_0_iff)
    qed
  qed
qed

definition search_result :: "handle_name list \<Rightarrow> string \<Rightarrow> nat + nat \<Rightarrow> bool" where
  "search_result ns nm r \<longleftrightarrow> (case r of
      Inl i \<Rightarrow> i < length ns \<and> hn_name (ns ! i) = nm
    | Inr p \<Rightarrow> p \<le> length ns \<and> (\<forall>i < p. strcmp (hn_name (ns ! i)) nm < 0)
        \<and> (\<forall>i < length ns. p \<le> i \<longrightarrow> 0 < strcmp (hn_name (ns ! i)) nm))"

lemma names_search:
  assumes "names_inv s"
  shows "search_result (names s) nm (name_search (hs_name s) nm 0 (int (hs_name_count s) - 1))"
  unfolding search_result_def
  by (rule name_search_sound)
    (use assms in \<open>auto simp: names_nth names_length names_inv_def\<close>)

lemma search_Inl: "search_result ns nm (Inl i) \<Longrightarrow> i < length ns \<and> hn_name (ns ! i) = nm"
  by (simp add: search_result_def)

lemma search_Inr_absent:
  assumes "search_result ns nm (Inr p)" and "n \<in> set ns"
  shows "hn_name n \<noteq> nm"
proof -
  obtain i where "i < length ns" "n = ns ! i" using assms(2) by (metis in_set_conv_nth)
  with assms(1) show ?thesis
    unfolding search_result_def by (cases "i < p") fastforce+
qed

lemma findname_sound:
  assumes inv: "names_inv s"
  shows "skynet_handle_findname s nm = (case name_map s nm of None \<Rightarrow> 0 | Some h \<Rightarrow> h)"
proof -
  have srt: "sorted_wrt name_less (names s)" using inv by (simp add: names_inv_def)
  note res = names_search [OF inv, of nm]
  show ?thesis
  proof (cases "name_search (hs_name s) nm 0 (int (hs_name_count s) - 1)")
    case (Inl i)
    with res have i: "i < length (names s)" "hn_name (names s ! i) = nm"
      using search_Inl by auto
    then have "\<lparr>hn_name = nm, hn_handle = hn_handle (names s ! i)\<rparr> \<in> set (names s)"
      by (metis handle_name.surjective nth_mem old.unit.exhaust)
    then have "name_map s nm = Some (hn_handle (names s ! i))" by (simp add: name_map_eq [OF srt])
    with Inl i show ?thesis
      using names_nth [OF inv] by (simp add: skynet_handle_findname_def names_length [OF inv])
  next
    case (Inr p)
    with res have "search_result (names s) nm (Inr p)" by simp
    then have "name_map s nm = None"
      using search_Inr_absent by (fastforce simp: name_map_def map_of_eq_None_iff)
    with Inr show ?thesis by (simp add: skynet_handle_findname_def)
  qed
qed

lemma name_shift_up_eq:
  "before \<le> i \<Longrightarrow> i < length xs \<Longrightarrow>
     (name_shift_up xs i before)[before := v] = take before xs @ [v] @ drop before (take i xs) @ drop (Suc i) xs"
proof (induction xs i before rule: name_shift_up.induct)
  case (1 xs i before)
  show ?case
  proof (cases "before < i")
    case False
    with "1.prems" show ?thesis
      by (subst name_shift_up.simps) (simp add: upd_conv_take_nth_drop)
  next
    case True
    let ?xs = "xs[i := xs ! (i - 1)]"
    have "(name_shift_up xs i before)[before := v] = (name_shift_up ?xs (i - 1) before)[before := v]"
      using True by (subst name_shift_up.simps) simp
    also have "\<dots> = take before ?xs @ [v] @ drop before (take (i - 1) ?xs) @ drop (Suc (i - 1)) ?xs"
      using True "1.prems" by (intro "1.IH") simp_all
    also have "\<dots> = take before xs @ [v] @ drop before (take i xs) @ drop (Suc i) xs"
    proof -
      have d: "drop (Suc (i - 1)) ?xs = xs ! (i - 1) # drop (Suc i) xs"
        using True "1.prems" by (simp add: drop_update_swap Cons_nth_drop_Suc [symmetric])
      have t: "take i xs = take (i - 1) xs @ [xs ! (i - 1)]"
        using True "1.prems" take_Suc_conv_app_nth [of "i - 1" xs] by simp
      have "drop before (take i xs) = drop before (take (i - 1) xs) @ [xs ! (i - 1)]"
        using True "1.prems" unfolding t by simp
      with d True show ?thesis by simp
    qed
    finally show ?thesis .
  qed
qed

lemma insert_name_before_names:
  assumes inv: "names_inv s" and p: "p \<le> hs_name_count s" and ok: "insert_name_before s nm h p = Some s'"
  shows "take (hs_name_count s') (hs_name s')
      = map Some (take p (names s) @ [\<lparr>hn_name = nm, hn_handle = h\<rparr>] @ drop p (names s))"
    and "hs_name_count s' = Suc (hs_name_count s)" and "hs_name_count s' \<le> hs_name_cap s'"
    and "length (hs_name s') = hs_name_cap s'" and "0 < hs_name_cap s'"
proof -
  let ?e = "\<lparr>hn_name = nm, hn_handle = h\<rparr>"
  let ?new = "take p (names s) @ [?e] @ drop p (names s)"
  have len: "length (hs_name s) = hs_name_cap s" and cnt: "hs_name_count s \<le> hs_name_cap s"
    and pos: "0 < hs_name_cap s" using inv by (simp_all add: names_inv_def)
  note nlen = names_length [OF inv]
  have "take (hs_name_count s') (hs_name s') = map Some ?new \<and> hs_name_count s' = Suc (hs_name_count s)
    \<and> hs_name_count s' \<le> hs_name_cap s' \<and> length (hs_name s') = hs_name_cap s' \<and> 0 < hs_name_cap s'"
  proof (cases "hs_name_cap s \<le> hs_name_count s")
    case True
    with cnt have eq: "hs_name_count s = hs_name_cap s" by simp
    from ok True obtain n where n: "hs_name s' = n[p := Some ?e]" "hs_name_cap s' = hs_name_cap s * 2"
      "hs_name_count s' = Suc (hs_name_count s)"
      and nd: "n = map (\<lambda>i. if i < p then hs_name s ! i else if i = p then None
                 else if i \<le> hs_name_count s then hs_name s ! (i - 1) else None) [0..<hs_name_cap s * 2]"
      by (auto simp: insert_name_before_def Let_def split: if_splits)
    have "hs_name s' ! i = Some (?new ! i)" if "i < Suc (hs_name_count s)" for i
      using that p eq pos nlen names_nth [OF inv]
      by (auto simp: n(1) nd nth_list_update nth_append nth_Cons' min_def)
    then have "take (Suc (hs_name_count s)) (hs_name s') = map Some ?new"
      by (intro names_eqI) (use n nd nlen p pos eq in auto)
    then show ?thesis using n nd eq pos by simp
  next
    case False
    with ok have s': "hs_name s' = (name_shift_up (hs_name s) (hs_name_count s) p)[p := Some ?e]"
      "hs_name_cap s' = hs_name_cap s" "hs_name_count s' = Suc (hs_name_count s)"
      by (auto simp: insert_name_before_def Let_def)
    have xs: "hs_name s' = take p (hs_name s) @ [Some ?e] @ drop p (take (hs_name_count s) (hs_name s))
        @ drop (Suc (hs_name_count s)) (hs_name s)"
      unfolding s'(1) using False len p by (intro name_shift_up_eq) simp_all
    have tp: "take p (hs_name s) = map Some (take p (names s))"
      using names_inv_take [OF inv] p by (metis min.absorb1 take_map take_take)
    have "hs_name s' = map Some ?new @ drop (Suc (hs_name_count s)) (hs_name s)"
      unfolding xs names_inv_take [OF inv] tp by (simp add: drop_map)
    moreover have "length (map Some ?new) = Suc (hs_name_count s)" using p nlen by simp
    ultimately show ?thesis using s' False len pos p
      by (metis Suc_leI append_eq_conv_conj le_add_diff_inverse length_append length_drop not_le)
  qed
  then show "take (hs_name_count s') (hs_name s') = map Some ?new"
    and "hs_name_count s' = Suc (hs_name_count s)" and "hs_name_count s' \<le> hs_name_cap s'"
    and "length (hs_name s') = hs_name_cap s'" and "0 < hs_name_cap s'" by blast+
qed

lemma sorted_insert_at:
  assumes srt: "sorted_wrt name_less ns" and res: "search_result ns (hn_name e) (Inr p)"
  shows "sorted_wrt name_less (take p ns @ [e] @ drop p ns)"
proof -
  have p: "p \<le> length ns" and lo: "\<forall>i < p. strcmp (hn_name (ns ! i)) (hn_name e) < 0"
    and hi: "\<forall>i < length ns. p \<le> i \<longrightarrow> 0 < strcmp (hn_name (ns ! i)) (hn_name e)"
    using res by (simp_all add: search_result_def)
  have before: "name_less a e" if "a \<in> set (take p ns)" for a
    using that lo p by (auto simp: in_set_conv_nth name_less_def)
  have after: "name_less e b" if "b \<in> set (drop p ns)" for b
    using that hi p by (auto simp: in_set_conv_nth name_less_def strcmp_less_greater)
  have "name_less a b" if "a \<in> set (take p ns)" "b \<in> set (drop p ns)" for a b
    using before [OF that(1)] after [OF that(2)] strcmp_trans unfolding name_less_def by blast
  then show ?thesis
    using srt before after by (auto simp: sorted_wrt_append sorted_wrt_take sorted_wrt_drop)
qed

lemma insert_name_taken:
  assumes inv: "names_inv s" and "name_map s nm = Some x"
  shows "insert_name s nm h = Some (None, s)"
proof -
  have srt: "sorted_wrt name_less (names s)" using inv by (simp add: names_inv_def)
  have "\<lparr>hn_name = nm, hn_handle = x\<rparr> \<in> set (names s)"
    using assms(2) by (simp add: name_map_eq [OF srt])
  then have "\<not> search_result (names s) nm (Inr p)" for p
    using search_Inr_absent by fastforce
  then obtain i where "name_search (hs_name s) nm 0 (int (hs_name_count s) - 1) = Inl i"
    using names_search [OF inv, of nm] by (metis sum.exhaust)
  then show ?thesis by (simp add: insert_name_def)
qed

lemma insert_name_fresh:
  assumes inv: "names_inv s" and free: "name_map s nm = None"
    and room: "hs_name_count s < hs_name_cap s \<or> hs_name_cap s * 2 \<le> MAX_SLOT_SIZE"
  shows "\<exists>s'. insert_name s nm h = Some (Some nm, s') \<and> names_inv s' \<and> name_map s' = (name_map s)(nm \<mapsto> h)
    \<and> hs_slot s' = hs_slot s \<and> hs_slot_size s' = hs_slot_size s \<and> hs_harbor s' = hs_harbor s"
proof -
  have srt: "sorted_wrt name_less (names s)" using inv by (simp add: names_inv_def)
  have "\<not> search_result (names s) nm (Inl i)" for i
    using free search_Inl [of "names s" nm i]
    by (auto simp: name_map_def map_of_eq_None_iff image_image)
  then obtain p where sr: "name_search (hs_name s) nm 0 (int (hs_name_count s) - 1) = Inr p"
    using names_search [OF inv, of nm] by (metis sum.exhaust)
  with names_search [OF inv, of nm] have res: "search_result (names s) nm (Inr p)" by simp
  then have p: "p \<le> hs_name_count s" using names_length [OF inv] by (simp add: search_result_def)
  have "insert_name_before s nm h p \<noteq> None"
    using room by (auto simp: insert_name_before_def Let_def)
  then obtain s' where ok: "insert_name_before s nm h p = Some s'" by blast
  let ?e = "\<lparr>hn_name = nm, hn_handle = h\<rparr>"
  have ns: "names s' = take p (names s) @ [?e] @ drop p (names s)"
    by (rule names_of_take, rule insert_name_before_names(1) [OF inv p ok])
  have srt': "sorted_wrt name_less (names s')"
    unfolding ns by (rule sorted_insert_at) (use srt res in simp_all)
  have inv': "names_inv s'"
    unfolding names_inv_def using insert_name_before_names [OF inv p ok] srt' by auto
  have set_ns: "set (names s') = insert ?e (set (names s))"
    unfolding ns using set_append [of "take p (names s)" "drop p (names s)"] by auto
  have "name_map s' = (name_map s)(nm \<mapsto> h)"
  proof (rule ext)
    fix k
    have kk: "name_map s' k = Some v \<longleftrightarrow> ((name_map s)(nm \<mapsto> h)) k = Some v" for v
    proof (cases "k = nm")
      case True
      then have "\<lparr>hn_name = nm, hn_handle = v\<rparr> \<notin> set (names s)" using free name_map_eq [OF srt] by force
      with True show ?thesis by (auto simp: name_map_eq [OF srt'] set_ns)
    next
      case False
      then show ?thesis by (auto simp: name_map_eq [OF srt'] name_map_eq [OF srt] set_ns)
    qed
    show "name_map s' k = ((name_map s)(nm \<mapsto> h)) k"
      by (metis (no_types) kk not_Some_eq)
  qed
  moreover have "hs_slot s' = hs_slot s \<and> hs_slot_size s' = hs_slot_size s \<and> hs_harbor s' = hs_harbor s"
    using ok by (auto simp: insert_name_before_def Let_def split: if_splits)
  ultimately show ?thesis using sr ok inv' by (auto simp: insert_name_def)
qed

lemma name_compact_eq:
  "name_compact arr h i j n = (arr', j') \<Longrightarrow> j \<le> i \<Longrightarrow> i \<le> n \<Longrightarrow> n \<le> length arr \<Longrightarrow>
     length arr' = length arr \<and> j' \<le> n \<and>
     take j' arr' = take j arr @ filter (\<lambda>e. map_option hn_handle e \<noteq> Some h) (drop i (take n arr))"
proof (induction arr h i j n arbitrary: arr' j' rule: name_compact.induct)
  case (1 arr h i j n)
  show ?case
  proof (cases "i < n")
    case False
    with "1.prems" show ?thesis by (subst (asm) name_compact.simps) auto
  next
    case True
    have dr: "drop i (take n arr) = arr ! i # drop (Suc i) (take n arr)"
      using True "1.prems" by (simp add: Cons_nth_drop_Suc [symmetric])
    consider (gone) "map_option hn_handle (arr ! i) = Some h"
      | (move) "map_option hn_handle (arr ! i) \<noteq> Some h" "i \<noteq> j"
      | (keep) "map_option hn_handle (arr ! i) \<noteq> Some h" "i = j" by blast
    then show ?thesis
    proof cases
      case gone
      with True "1.prems"(1) have "name_compact arr h (Suc i) j n = (arr', j')"
        by (subst (asm) name_compact.simps) (simp del: map_option_eq_Some)
      from "1.IH"(1) [OF True gone this] "1.prems" True gone show ?thesis
        unfolding dr by (simp del: map_option_eq_Some)
    next
      case move
      let ?arr = "arr[j := arr ! i]"
      from move True "1.prems"(1) have "name_compact ?arr h (Suc i) (Suc j) n = (arr', j')"
        by (subst (asm) name_compact.simps) (simp del: map_option_eq_Some)
      from "1.IH"(2) [OF True move this] "1.prems" True
      have "length arr' = length arr \<and> j' \<le> n \<and> take j' arr' =
          take (Suc j) ?arr @ filter (\<lambda>e. map_option hn_handle e \<noteq> Some h) (drop (Suc i) (take n ?arr))"
        by simp
      moreover have "take (Suc j) ?arr = take j arr @ [arr ! i]"
        using "1.prems" True by (simp add: take_Suc_conv_app_nth)
      moreover have "drop (Suc i) (take n ?arr) = drop (Suc i) (take n arr)"
        using "1.prems" by (simp add: take_update_swap)
      ultimately show ?thesis using move(1) unfolding dr by simp
    next
      case keep
      with True "1.prems"(1) have "name_compact arr h (Suc i) (Suc j) n = (arr', j')"
        by (subst (asm) name_compact.simps) (simp del: map_option_eq_Some)
      from "1.IH"(3) [OF True keep(1) _ this] keep(2) "1.prems" True
      have "length arr' = length arr \<and> j' \<le> n \<and> take j' arr' =
          take (Suc j) arr @ filter (\<lambda>e. map_option hn_handle e \<noteq> Some h) (drop (Suc i) (take n arr))"
        by simp
      then show ?thesis
        using keep "1.prems" True unfolding dr by (simp add: take_Suc_conv_app_nth)
    qed
  qed
qed

lemma retire_names:
  assumes inv: "names_inv s" and found: "hs_lookup hof s h \<noteq> None"
  shows "names_inv (snd (hs_retire hof s h))"
    and "name_map (snd (hs_retire hof s h)) nm = (if name_map s nm = Some h then None else name_map s nm)"
proof -
  define s' where "s' = snd (hs_retire hof s h)"
  obtain ns' j where c: "name_compact (hs_name s) h 0 0 (hs_name_count s) = (ns', j)" by force
  have s': "hs_name s' = ns'" "hs_name_count s' = j" "hs_name_cap s' = hs_name_cap s"
    using found c
    by (auto simp: s'_def hs_retire_def hs_lookup_def Let_def split: option.splits if_splits)
  have len: "hs_name_count s \<le> length (hs_name s)" using inv by (simp add: names_inv_def)
  let ?ns = "filter (\<lambda>n. hn_handle n \<noteq> h) (names s)"
  have k: "length ns' = length (hs_name s)" "j \<le> hs_name_count s" "take j ns' = map Some ?ns"
    using name_compact_eq [OF c _ _ len] names_inv_take [OF inv] by (simp_all add: filter_map_comm)
  have ns: "names s' = ?ns" by (rule names_of_take) (simp add: s' k(3))
  have srt: "sorted_wrt name_less (names s)" using inv by (simp add: names_inv_def)
  then have srt': "sorted_wrt name_less (names s')" unfolding ns by (rule sorted_wrt_filter)
  show "names_inv s'"
    using inv k srt' by (auto simp: names_inv_def s')
  have kk: "name_map s' nm = Some v \<longleftrightarrow> name_map s nm = Some v \<and> v \<noteq> h" for v
    unfolding name_map_eq [OF srt] name_map_eq [OF srt'] ns by auto
  show "name_map s' nm = (if name_map s nm = Some h then None else name_map s nm)"
    unfolding s'_def [symmetric] using kk by (metis (no_types) not_Some_eq)
qed

section \<open>The start\<close>

lemma init_slots_inv: "slots_inv hof (skynet_handle_init harbor)"
proof -
  have "push_bit 24 (harbor AND 0xff) AND mask 24 = (0 :: u32)"
    by (rule bit_word_eqI) (auto simp: bit_simps)
  then show ?thesis
    unfolding slots_inv_def
    by (intro conjI exI [of _ 2])
      (simp_all add: skynet_handle_init_def DEFAULT_SLOT_SIZE_def HANDLE_REMOTE_SHIFT_def HANDLE_MASK_mask
        less_Suc_eq_0_disj)
qed

lemma init_registered: "registered (skynet_handle_init harbor) = {}"
  by (simp add: registered_def skynet_handle_init_def)

lemma init_names_inv: "names_inv (skynet_handle_init harbor)" "name_map (skynet_handle_init harbor) = Map.empty"
  by (simp_all add: names_inv_def name_map_def names_def skynet_handle_init_def)

lemma expand_names:
  "hs_expand hof s = Some s' \<Longrightarrow>
     hs_name s' = hs_name s \<and> hs_name_count s' = hs_name_count s \<and> hs_name_cap s' = hs_name_cap s"
  by (auto simp: hs_expand_def split: if_splits)

lemma scan_names:
  "register_scan s c i = Some (h, s') \<Longrightarrow>
     hs_name s' = hs_name s \<and> hs_name_count s' = hs_name_count s \<and> hs_name_cap s' = hs_name_cap s"
  by (drule register_scan_Some) auto

lemma register_names:
  "skynet_handle_register hof s c = Some r \<Longrightarrow> hs_name (snd r) = hs_name s
     \<and> hs_name_count (snd r) = hs_name_count s \<and> hs_name_cap (snd r) = hs_name_cap s"
proof (induction rule: skynet_handle_register.raw_induct [rotated, consumes 1, case_names step])
  case (step reg hof s c r)
  show ?case
  proof (cases "register_scan s c 0")
    case (Some r')
    with step(2) have "register_scan s c 0 = Some (fst r, snd r)" by simp
    then show ?thesis by (rule scan_names)
  next
    case None
    then obtain s1 where "hs_expand hof s = Some s1" "reg hof s1 c = Some r"
      using step(2) by (auto simp: bind_eq_Some_conv)
    with step(1) [of hof s1 c] expand_names [of hof s s1] show ?thesis by simp
  qed
qed

lemma register_names_map:
  "skynet_handle_register hof s c = Some (h, s') \<Longrightarrow> name_map s' = name_map s \<and> names_inv s' = names_inv s"
  by (drule register_names) (simp add: name_map_def names_def names_inv_def)

section \<open>Reachable storages\<close>

lemma register_sound:
  "skynet_handle_register hof s c = Some r \<Longrightarrow> slots_inv hof s \<Longrightarrow> c \<notin> registered s \<Longrightarrow>
     registered_as hof s c (fst r) (snd r)"
proof (induction rule: skynet_handle_register.raw_induct [rotated, consumes 1, case_names step])
  case (step reg hof s c r)
  show ?case
  proof (cases "register_scan s c 0")
    case (Some r')
    with step(2) have "register_scan s c 0 = Some (fst r, snd r)" by simp
    then show ?thesis by (rule scan_registers [OF step(3,4)])
  next
    case None
    have full: "\<forall>m < hs_slot_size s. hs_slot s ! m \<noteq> None"
      using register_scan_None_full [OF step(3) None] by blast
    from None obtain s1 where s1: "hs_expand hof s = Some s1" "reg hof s1 c = Some r"
      using step(2) by (auto simp: bind_eq_Some_conv)
    from s1(1) have "hs_slot_size s < 2 ^ 24"
      by (auto simp: hs_expand_def HANDLE_MASK_def split: if_splits)
    from hs_expand_sound [OF step(3) full this] s1(1) have e: "slots_inv hof s1" "registered s1 = registered s"
      "hs_harbor s1 = hs_harbor s" by auto
    then have "registered_as hof s1 c (fst r) (snd r)" using step(1) [OF s1(2)] step(4) by simp
    with e show ?thesis by (simp add: registered_as_def)
  qed
qed

text \<open>The storage together with the handle fields of the contexts.\<close>

inductive handle_reach :: "('c \<Rightarrow> u32) \<Rightarrow> 'c handle_storage \<Rightarrow> bool" where
  init: "handle_reach hof (skynet_handle_init harbor)"
| register: "handle_reach hof s \<Longrightarrow> c \<notin> registered s \<Longrightarrow>
    skynet_handle_register hof s c = Some (h, s') \<Longrightarrow> handle_reach (hof(c := h)) s'"
| retire: "handle_reach hof s \<Longrightarrow> handle_reach hof (snd (hs_retire hof s h))"
| namehandle: "handle_reach hof s \<Longrightarrow> skynet_handle_namehandle s h nm = Some (r, s') \<Longrightarrow> handle_reach hof s'"

lemma insert_before_cap:
  assumes "insert_name_before s nm h p = Some s'"
  shows "hs_name_count s < hs_name_cap s \<or> hs_name_cap s * 2 \<le> MAX_SLOT_SIZE"
  using assms by (auto simp: insert_name_before_def Let_def split: if_splits)

lemma namehandle_sound:
  assumes inv: "names_inv s" and ok: "skynet_handle_namehandle s h nm = Some (r, s')"
  shows "names_inv s' \<and> hs_slot s' = hs_slot s \<and> hs_slot_size s' = hs_slot_size s \<and> hs_harbor s' = hs_harbor s
    \<and> (case name_map s nm of
         Some x \<Rightarrow> r = None \<and> s' = s
       | None \<Rightarrow> r = Some nm \<and> name_map s' = (name_map s)(nm \<mapsto> h))"
proof (cases "name_map s nm")
  case (Some x)
  with ok inv insert_name_taken [OF inv Some] show ?thesis by (simp add: skynet_handle_namehandle_def)
next
  case None
  have "hs_name_count s < hs_name_cap s \<or> hs_name_cap s * 2 \<le> MAX_SLOT_SIZE \<or>
      (\<exists>i. name_search (hs_name s) nm 0 (int (hs_name_count s) - 1) = Inl i)"
    using ok insert_before_cap
    by (fastforce simp: skynet_handle_namehandle_def insert_name_def split: sum.splits)
  moreover have "\<not> search_result (names s) nm (Inl i)" for i
    using None search_Inl [of "names s" nm i]
    by (auto simp: name_map_def map_of_eq_None_iff image_image)
  ultimately have "hs_name_count s < hs_name_cap s \<or> hs_name_cap s * 2 \<le> MAX_SLOT_SIZE"
    using names_search [OF inv, of nm] by metis
  from insert_name_fresh [OF inv None this, of h] ok None show ?thesis
    by (auto simp: skynet_handle_namehandle_def)
qed

lemma slots_inv_frame:
  "hs_slot s' = hs_slot s \<Longrightarrow> hs_slot_size s' = hs_slot_size s \<Longrightarrow> hs_harbor s' = hs_harbor s \<Longrightarrow>
     slots_inv hof s' = slots_inv hof s \<and> registered s' = registered s"
  by (simp add: slots_inv_def registered_def)

lemma retire_missing: "hs_lookup hof s h = None \<Longrightarrow> hs_retire hof s h = (None, s)"
  by (auto simp: hs_retire_def hs_lookup_def Let_def split: option.splits)

lemma handle_reach_inv: "handle_reach hof s \<Longrightarrow> slots_inv hof s \<and> names_inv s"
proof (induction rule: handle_reach.induct)
  case (init hof harbor)
  then show ?case by (simp add: init_slots_inv init_names_inv)
next
  case (register hof s c h s')
  with register_sound [OF register.hyps(3)] register_names_map [OF register.hyps(3)] register.IH register.hyps(2)
  show ?case by (auto simp only: registered_as_def fst_conv snd_conv)
next
  case (retire hof s h)
  then show ?case
    by (cases "hs_lookup hof s h") (simp_all add: retire_slots(1) retire_names(1) retire_missing)
next
  case (namehandle hof s h nm r s')
  with namehandle_sound [OF _ namehandle.hyps(2)] slots_inv_frame show ?case by metis
qed

lemma init_room: "hs_name_count (skynet_handle_init harbor) < hs_name_cap (skynet_handle_init harbor)"
  by (simp add: skynet_handle_init_def)

lemma register_example:
  obtains h s' where "skynet_handle_register (\<lambda>c :: nat. 0) (skynet_handle_init 3) 5 = Some (h, s')"
    and "handle_reach ((\<lambda>c. 0)(5 := h)) s'" and "hs_lookup ((\<lambda>c. 0)(5 := h)) s' h = Some 5"
    and "name_map s' = Map.empty" and "names_inv s'"
proof -
  obtain h s' where r: "skynet_handle_register (\<lambda>c :: nat. 0) (skynet_handle_init 3) 5 = Some (h, s')"
    "registered_as (\<lambda>c. 0) (skynet_handle_init 3) 5 h s'"
    using register_total [OF init_slots_inv, of 5 3 "\<lambda>c. 0"] by (auto simp: init_registered)
  have "handle_reach ((\<lambda>c. 0)(5 := h)) s'"
    by (rule handle_reach.register [OF handle_reach.init _ r(1)]) (simp add: init_registered)
  moreover have "hs_lookup ((\<lambda>c. 0)(5 := h)) s' h = Some 5"
    using r(2) lookup_iff [of "(\<lambda>c. 0)(5 := h)" s'] unfolding registered_as_def by simp
  moreover have "name_map s' = Map.empty \<and> names_inv s'"
    using register_names_map [OF r(1)] by (simp add: init_names_inv)
  ultimately show ?thesis using r(1) that by blast
qed

section \<open>Properties\<close>

text \<open>
  C4. Registration always succeeds while fewer than \<open>2^24\<close> contexts are registered: no assertion of
  the expansion fails, the handle returned is carried by no registered context and has the harbor
  in its top byte, and afterwards it finds the new context while every older handle still finds its
  own.
\<close>

theorem handle_register_fresh:
  assumes "handle_reach hof s" and "c \<notin> registered s" and "card (registered s) < 2 ^ 24"
  shows "\<exists>h s'. skynet_handle_register hof s c = Some (h, s') \<and> h AND NOT HANDLE_MASK = hs_harbor s
     \<and> (\<forall>d \<in> registered s. hof d \<noteq> h) \<and> hs_lookup (hof(c := h)) s' h = Some c
     \<and> (\<forall>d \<in> registered s. hs_lookup (hof(c := h)) s' (hof d) = Some d)"
proof -
  have inv: "slots_inv hof s" using handle_reach_inv [OF assms(1)] by simp
  obtain h s' where r: "skynet_handle_register hof s c = Some (h, s')" "registered_as hof s c h s'"
    using register_total [OF inv assms(2,3)] by blast
  then have l: "hs_lookup (hof(c := h)) s' g = Some d \<longleftrightarrow> d \<in> insert c (registered s) \<and> (hof(c := h)) d = g" for g d
    using lookup_iff [of "hof(c := h)" s'] unfolding registered_as_def by simp
  show ?thesis
  proof (intro exI conjI ballI)
    fix d assume d: "d \<in> registered s"
    then show "hof d \<noteq> h" using r(2) by (simp add: registered_as_def)
    from d assms(2) have "d \<noteq> c" by blast
    with d show "hs_lookup (hof(c := h)) s' (hof d) = Some d" by (simp add: l)
  qed (use r l in \<open>simp_all add: registered_as_def\<close>)
qed

theorem handle_register_fresh_witness:
  "\<exists>h s'. skynet_handle_register (\<lambda>c :: nat. 0) (skynet_handle_init 3) 5 = Some (h, s')
     \<and> hs_lookup ((\<lambda>c. 0)(5 := h)) s' h = Some 5"
  using handle_register_fresh [OF handle_reach.init, of 5 3 "\<lambda>c. 0"] by (auto simp: init_registered)

text \<open>
  C9. Retiring a handle removes exactly the context that carries it: the call hands out the context
  the handle found, the handle then finds nothing, and all other handles are unaffected.
\<close>

theorem handle_retire_exact:
  assumes "handle_reach hof s"
  shows "fst (hs_retire hof s h) = hs_lookup hof s h
     \<and> hs_lookup hof (snd (hs_retire hof s h)) g = (if g = h then None else hs_lookup hof s g)"
proof -
  have inv: "slots_inv hof s" using handle_reach_inv [OF assms] by simp
  have "hs_lookup hof (snd (hs_retire hof s h)) g = Some d \<longleftrightarrow> hs_lookup hof s g = Some d \<and> g \<noteq> h" for d
    using retire_slots(2) [OF inv, of h] by (auto simp: lookup_iff [OF inv] lookup_iff [OF retire_slots(1) [OF inv]])
  then have "hs_lookup hof (snd (hs_retire hof s h)) g = (if g = h then None else hs_lookup hof s g)"
    by (metis (no_types) not_Some_eq)
  with retire_slots(3) [OF inv] show ?thesis by simp
qed

theorem handle_retire_exact_witness:
  "\<exists>h s'. skynet_handle_register (\<lambda>c :: nat. 0) (skynet_handle_init 3) 5 = Some (h, s')
     \<and> fst (hs_retire ((\<lambda>c. 0)(5 := h)) s' h) = Some 5
     \<and> hs_lookup ((\<lambda>c. 0)(5 := h)) (snd (hs_retire ((\<lambda>c. 0)(5 := h)) s' h)) h = None"
proof -
  obtain h s' where r: "skynet_handle_register (\<lambda>c :: nat. 0) (skynet_handle_init 3) 5 = Some (h, s')"
    "handle_reach ((\<lambda>c. 0)(5 := h)) s'" "hs_lookup ((\<lambda>c. 0)(5 := h)) s' h = Some 5"
    by (rule register_example)
  have "fst (hs_retire ((\<lambda>c. 0)(5 := h)) s' h) = Some 5"
    "hs_lookup ((\<lambda>c. 0)(5 := h)) (snd (hs_retire ((\<lambda>c. 0)(5 := h)) s' h)) h = None"
    using handle_retire_exact [OF r(2), of h h] r(3) by (simp_all only: if_True simp_thms)
  with r(1) show ?thesis by blast
qed

text \<open>
  C6. The sorted name array implements a map: the binary search of \<open>findname\<close> answers the handle the
  map holds (0 for none), and \<open>namehandle\<close> refuses a name in use without a change and otherwise adds
  exactly that binding, whether or not the array has to grow.
\<close>

theorem handle_names_map:
  assumes "handle_reach hof s"
  shows "skynet_handle_findname s nm = (case name_map s nm of None \<Rightarrow> 0 | Some h \<Rightarrow> h)
     \<and> (\<forall>r s'. skynet_handle_namehandle s h nm = Some (r, s') \<longrightarrow>
          (case name_map s nm of
             Some x \<Rightarrow> r = None \<and> s' = s
           | None \<Rightarrow> r = Some nm \<and> name_map s' = (name_map s)(nm \<mapsto> h) \<and> skynet_handle_findname s' nm = h))"
proof -
  have inv: "names_inv s" using handle_reach_inv [OF assms] by simp
  have "case name_map s nm of
             Some x \<Rightarrow> r = None \<and> s' = s
           | None \<Rightarrow> r = Some nm \<and> name_map s' = (name_map s)(nm \<mapsto> h) \<and> skynet_handle_findname s' nm = h"
    if "skynet_handle_namehandle s h nm = Some (r, s')" for r s'
    using namehandle_sound [OF inv that] findname_sound [of s' nm] by (cases "name_map s nm") simp_all
  with findname_sound [OF inv] show ?thesis by blast
qed

theorem handle_names_map_witness:
  "\<exists>s'. skynet_handle_namehandle (skynet_handle_init 0 :: nat handle_storage) 9 ''launcher'' = Some (Some ''launcher'', s')
     \<and> skynet_handle_findname s' ''launcher'' = 9"
proof -
  obtain s' :: "nat handle_storage" where
    "skynet_handle_namehandle (skynet_handle_init 0) 9 ''launcher'' = Some (Some ''launcher'', s')"
    using insert_name_fresh [OF init_names_inv(1), of 0 "''launcher''" 9] init_room
    by (auto simp: skynet_handle_namehandle_def init_names_inv)
  with handle_names_map [OF handle_reach.init, of 0 "''launcher''" 9] show ?thesis
    by (auto simp: init_names_inv)
qed

text \<open>
  Retiring a handle that is in use removes exactly the names bound to it.
\<close>

theorem handle_retire_names:
  assumes "handle_reach hof s" and "hs_lookup hof s h \<noteq> None"
  shows "skynet_handle_findname (snd (hs_retire hof s h)) nm
     = (case name_map s nm of None \<Rightarrow> 0 | Some g \<Rightarrow> if g = h then 0 else g)"
proof -
  have inv: "names_inv s" using handle_reach_inv [OF assms(1)] by simp
  show ?thesis
    using findname_sound [OF retire_names(1) [OF inv assms(2)], of nm] retire_names(2) [OF inv assms(2), of nm]
    by (auto split: option.splits if_splits)
qed

theorem handle_retire_names_witness:
  "\<exists>h s' s''. skynet_handle_register (\<lambda>c :: nat. 0) (skynet_handle_init 3) 5 = Some (h, s')
     \<and> skynet_handle_namehandle s' h ''gate'' = Some (Some ''gate'', s'')
     \<and> skynet_handle_findname (snd (hs_retire ((\<lambda>c. 0)(5 := h)) s'' h)) ''gate'' = 0"
proof -
  obtain h s' where r: "skynet_handle_register (\<lambda>c :: nat. 0) (skynet_handle_init 3) 5 = Some (h, s')"
    "handle_reach ((\<lambda>c. 0)(5 := h)) s'" "hs_lookup ((\<lambda>c. 0)(5 := h)) s' h = Some 5"
    "name_map s' = Map.empty" "names_inv s'"
    by (rule register_example)
  have cap: "hs_name_count s' < hs_name_cap s'"
    using register_names [OF r(1)] by (simp add: skynet_handle_init_def)
  obtain s'' where nm: "skynet_handle_namehandle s' h ''gate'' = Some (Some ''gate'', s'')"
    using insert_name_fresh [OF r(5), of "''gate''" h] cap r(4) by (auto simp: skynet_handle_namehandle_def)
  have s'': "hs_slot s'' = hs_slot s'" "hs_slot_size s'' = hs_slot_size s'" "name_map s'' ''gate'' = Some h"
    using namehandle_sound [OF r(5) nm] r(4) by simp_all
  have "handle_reach ((\<lambda>c. 0)(5 := h)) s''" by (rule handle_reach.namehandle [OF r(2) nm])
  moreover have "hs_lookup ((\<lambda>c. 0)(5 := h)) s'' h \<noteq> None" using r(3) s'' by (simp add: hs_lookup_def)
  ultimately have "skynet_handle_findname (snd (hs_retire ((\<lambda>c. 0)(5 := h)) s'' h)) ''gate'' = 0"
    using handle_retire_names [of "(\<lambda>c. 0)(5 := h)" s'' h "''gate''"] s''(3) by simp
  with r(1) nm show ?thesis by blast
qed

end
