(* ===== verification/Module.thy ===== *)
theory Module
  imports Prelude
begin

text \<open>
  The module table of \<open>skynet-src/skynet_module.c\<close>: the search path with its \<open>?\<close> patterns, the
  symbols of a module, the bounded table and its double-checked query. \<open>dlopen\<close> and \<open>dlsym\<close> are
  parameters; a library handle and a function pointer are numbers.
\<close>

section \<open>Data\<close>

definition MAX_MODULE_TYPE :: nat where "MAX_MODULE_TYPE = 32"

record skynet_module =
  mod_name :: string
  mod_module :: nat
  mod_create :: "nat option"
  mod_init :: "nat option"
  mod_release :: "nat option"
  mod_signal :: "nat option"

text \<open>The array \<open>m\<close> with its \<open>count\<close> is the list of the first \<open>count\<close> entries.\<close>

record modules =
  mods_path :: string
  mods_m :: "skynet_module list"

section \<open>Operations\<close>

text \<open>
  One round of the search loop on a path that does not start with \<open>;\<close>: the text up to the next
  \<open>;\<close>, and what follows it.
\<close>

definition path_segment :: "string \<Rightarrow> string \<times> string" where
  "path_segment path = (takeWhile (\<lambda>c. c \<noteq> CHR '';'') path, dropWhile (\<lambda>c. c \<noteq> CHR '';'') path)"

text \<open>The name replaces the first \<open>?\<close> of the segment; a segment without one ends the process.\<close>

definition path_expand :: "string \<Rightarrow> string \<Rightarrow> string option" where
  "path_expand seg name =
     (let pre = takeWhile (\<lambda>c. c \<noteq> CHR ''?'') seg;
          rest = dropWhile (\<lambda>c. c \<noteq> CHR ''?'') seg
      in if rest = [] then None else Some (pre @ name @ tl rest))"

text \<open>\<open>None\<close> is \<open>exit(1)\<close>; the inner option is the library handle.\<close>

function try_open :: "(string \<Rightarrow> nat option) \<Rightarrow> string \<Rightarrow> string \<Rightarrow> nat option option" where
  "try_open dlopen path name =
     (let path = dropWhile (\<lambda>c. c = CHR '';'') path in
      if path = [] then Some None
      else case path_expand (fst (path_segment path)) name of
             None \<Rightarrow> None
           | Some tmp \<Rightarrow> (case dlopen tmp of
                 Some dl \<Rightarrow> Some (Some dl)
               | None \<Rightarrow> try_open dlopen (snd (path_segment path)) name))"
  by pat_completeness auto
termination
proof (relation "measure (\<lambda>(dlopen, path, name). length path)", goal_cases)
  case (2 dlopen path name p tmp)
  then have "p \<noteq> []" by simp
  then obtain c cs where p: "p = c # cs" by (cases p) simp_all
  with 2 have c: "c \<noteq> CHR '';''" using hd_dropWhile_Cons [of "\<lambda>c. c = CHR '';''" path c cs] by simp
  have "length (snd (path_segment p)) < length p"
    using length_dropWhile_le [of "\<lambda>c. c \<noteq> CHR '';''" cs] p c by (simp add: path_segment_def)
  also have "length p \<le> length path" using 2 length_dropWhile_le by simp
  finally show ?case by simp
qed simp

declare try_open.simps [simp del]

fun module_find :: "skynet_module list \<Rightarrow> string \<Rightarrow> skynet_module option" where
  "module_find [] name = None"
| "module_find (m # ms) name = (if mod_name m = name then Some m else module_find ms name)"

definition open_sym :: "(nat \<Rightarrow> string \<Rightarrow> nat option) \<Rightarrow> skynet_module \<Rightarrow> skynet_module option" where
  "open_sym dlsym m =
     (let m' = m\<lparr>mod_create := dlsym (mod_module m) (mod_name m @ ''_create''),
                 mod_init := dlsym (mod_module m) (mod_name m @ ''_init''),
                 mod_release := dlsym (mod_module m) (mod_name m @ ''_release''),
                 mod_signal := dlsym (mod_module m) (mod_name m @ ''_signal'')\<rparr>
      in if mod_init m' = None then None else Some m')"

text \<open>The outer option is \<open>None\<close> when the process exits; the inner one is the returned pointer.\<close>

definition skynet_module_query ::
  "(string \<Rightarrow> nat option) \<Rightarrow> (nat \<Rightarrow> string \<Rightarrow> nat option) \<Rightarrow> modules \<Rightarrow> string \<Rightarrow>
     (skynet_module option \<times> modules) option" where
  "skynet_module_query dlopen dlsym M name =
     (case module_find (mods_m M) name of
        Some m \<Rightarrow> Some (Some m, M)
      | None \<Rightarrow>
          if length (mods_m M) < MAX_MODULE_TYPE then
            (case try_open dlopen (mods_path M) name of
               None \<Rightarrow> None
             | Some None \<Rightarrow> Some (None, M)
             | Some (Some dl) \<Rightarrow>
                 (case open_sym dlsym \<lparr>mod_name = name, mod_module = dl, mod_create = None,
                         mod_init = None, mod_release = None, mod_signal = None\<rparr> of
                    None \<Rightarrow> Some (None, M)
                  | Some m \<Rightarrow> Some (Some m, M\<lparr>mods_m := mods_m M @ [m]\<rparr>)))
          else Some (None, M))"

definition skynet_module_insert :: "modules \<Rightarrow> skynet_module \<Rightarrow> modules option" where
  "skynet_module_insert M m =
     (if module_find (mods_m M) (mod_name m) = None \<and> length (mods_m M) < MAX_MODULE_TYPE
      then Some (M\<lparr>mods_m := mods_m M @ [m]\<rparr>) else None)"

definition skynet_module_init :: "string \<Rightarrow> modules" where
  "skynet_module_init path = \<lparr>mods_path = path, mods_m = []\<rparr>"

section \<open>The table\<close>

definition modules_inv :: "modules \<Rightarrow> bool" where
  "modules_inv M \<longleftrightarrow> distinct (map mod_name (mods_m M)) \<and> length (mods_m M) \<le> MAX_MODULE_TYPE"

lemma module_find_iff:
  "distinct (map mod_name ms) \<Longrightarrow> module_find ms name = Some m \<longleftrightarrow> m \<in> set ms \<and> mod_name m = name"
  by (induction ms) (auto simp: rev_image_eqI)

lemma module_find_None: "module_find ms name = None \<longleftrightarrow> name \<notin> mod_name ` set ms"
  by (induction ms) auto

lemma append_not_self: "M\<lparr>mods_m := mods_m M @ [m]\<rparr> \<noteq> M"
proof
  assume "M\<lparr>mods_m := mods_m M @ [m]\<rparr> = M"
  then have "mods_m (M\<lparr>mods_m := mods_m M @ [m]\<rparr>) = mods_m M" by (rule arg_cong)
  then show False by simp
qed

lemma module_find_append:
  "module_find (ms @ ms') name = (case module_find ms name of None \<Rightarrow> module_find ms' name | Some m \<Rightarrow> Some m)"
  by (induction ms) auto

lemma open_sym_Some:
  "open_sym dlsym m = Some m' \<Longrightarrow> mod_name m' = mod_name m \<and> mod_module m' = mod_module m
     \<and> mod_init m' = dlsym (mod_module m) (mod_name m @ ''_init'') \<and> mod_init m' \<noteq> None"
  by (auto simp: open_sym_def Let_def split: if_splits)

lemma query_inv:
  assumes "modules_inv M" and "skynet_module_query dlopen dlsym M name = Some (r, M')"
  shows "modules_inv M' \<and> r = module_find (mods_m M') name
    \<and> (\<forall>n m. module_find (mods_m M) n = Some m \<longrightarrow> module_find (mods_m M') n = Some m)"
proof (cases "module_find (mods_m M) name")
  case (Some m)
  with assms show ?thesis by (auto simp: skynet_module_query_def)
next
  case None
  show ?thesis
  proof (cases "M' = M")
    case True
    with assms None show ?thesis
      by (auto simp: skynet_module_query_def append_not_self split: if_splits option.splits)
  next
    case False
    with assms(2) None obtain m dl where M': "M' = M\<lparr>mods_m := mods_m M @ [m]\<rparr>" and r: "r = Some m"
      and lt: "length (mods_m M) < MAX_MODULE_TYPE"
      and os: "open_sym dlsym \<lparr>mod_name = name, mod_module = dl, mod_create = None,
                         mod_init = None, mod_release = None, mod_signal = None\<rparr> = Some m"
      by (auto simp: skynet_module_query_def split: if_splits option.splits)
    have "mod_name m = name" using open_sym_Some [OF os] by simp
    moreover have "module_find (mods_m M') n = (case module_find (mods_m M) n of
        None \<Rightarrow> if mod_name m = n then Some m else None | Some x \<Rightarrow> Some x)" for n
      by (simp add: M' module_find_append split: option.split)
    moreover have "name \<notin> mod_name ` set (mods_m M)" using None by (simp add: module_find_None)
    ultimately show ?thesis
      using assms(1) None r lt by (auto simp: modules_inv_def M')
  qed
qed

section \<open>The search path\<close>

text \<open>The path as the list of its non-empty segments.\<close>

fun path_split :: "string \<Rightarrow> string \<Rightarrow> string list" where
  "path_split acc [] = (if acc = [] then [] else [acc])"
| "path_split acc (c # cs) =
     (if c = CHR '';'' then (if acc = [] then path_split [] cs else acc # path_split [] cs)
      else path_split (acc @ [c]) cs)"

lemma path_split_acc:
  "\<forall>c \<in> set pre. c \<noteq> CHR '';'' \<Longrightarrow> path_split acc (pre @ rest) = path_split (acc @ pre) rest"
  by (induction pre arbitrary: acc) auto

lemma path_split_skip: "path_split [] (dropWhile (\<lambda>c. c = CHR '';'') path) = path_split [] path"
  by (induction path) auto

lemma path_split_sep:
  "acc \<noteq> [] \<Longrightarrow> (rest \<noteq> [] \<Longrightarrow> hd rest = CHR '';'') \<Longrightarrow> path_split acc rest = acc # path_split [] rest"
  by (cases rest) auto

lemma path_split_segment:
  assumes "path = c # cs" and "c \<noteq> CHR '';''"
  shows "path_split [] path = fst (path_segment path) # path_split [] (snd (path_segment path))"
proof -
  let ?pre = "takeWhile (\<lambda>c. c \<noteq> CHR '';'') path" and ?rest = "dropWhile (\<lambda>c. c \<noteq> CHR '';'') path"
  have ne: "?pre \<noteq> []" using assms by simp
  have "path_split [] path = path_split [] (?pre @ ?rest)" by simp
  also have "\<dots> = path_split ?pre ?rest"
    by (subst path_split_acc) (auto dest: set_takeWhileD)
  also have "\<dots> = ?pre # path_split [] ?rest"
    by (rule path_split_sep [OF ne]) (use hd_dropWhile_Cons in \<open>metis (mono_tags, lifting) list.exhaust_sel\<close>)
  finally show ?thesis by (simp add: path_segment_def)
qed

text \<open>What the loop computes: the first library that opens among the expanded segments.\<close>

fun first_open :: "(string \<Rightarrow> nat option) \<Rightarrow> string list \<Rightarrow> string \<Rightarrow> nat option option" where
  "first_open dlopen [] name = Some None"
| "first_open dlopen (seg # segs) name =
     (case path_expand seg name of
        None \<Rightarrow> None
      | Some tmp \<Rightarrow> (case dlopen tmp of Some dl \<Rightarrow> Some (Some dl) | None \<Rightarrow> first_open dlopen segs name))"

lemma try_open_eq: "try_open dlopen path name = first_open dlopen (path_split [] path) name"
proof (induction dlopen path name rule: try_open.induct)
  case (1 dlopen path name)
  let ?p = "dropWhile (\<lambda>c. c = CHR '';'') path"
  show ?case
  proof (cases ?p)
    case Nil
    have "path_split [] path = path_split [] ?p" by (rule path_split_skip [symmetric])
    also have "\<dots> = []" unfolding Nil by simp
    finally have "path_split [] path = []" .
    then show ?thesis by (subst try_open.simps) (simp add: Nil)
  next
    case (Cons c cs)
    have c: "c \<noteq> CHR '';''" by (rule hd_dropWhile_Cons [OF Cons])
    have seg: "path_split [] path = fst (path_segment ?p) # path_split [] (snd (path_segment ?p))"
      by (rule trans [OF path_split_skip [symmetric] path_split_segment [OF Cons c]])
    have ne: "?p \<noteq> []" using Cons by simp
    have ih: "try_open dlopen (snd (path_segment ?p)) name = first_open dlopen (path_split [] (snd (path_segment ?p))) name"
      if "path_expand (fst (path_segment ?p)) name = Some tmp" "dlopen tmp = None" for tmp
      by (rule 1 [OF refl ne that])
    have "try_open dlopen path name = (case path_expand (fst (path_segment ?p)) name of
        None \<Rightarrow> None
      | Some tmp \<Rightarrow> (case dlopen tmp of Some dl \<Rightarrow> Some (Some dl)
          | None \<Rightarrow> try_open dlopen (snd (path_segment ?p)) name))"
      unfolding try_open.simps [of dlopen path] Let_def using ne by (rule if_not_P)
    then show ?thesis
      unfolding seg first_open.simps using ih
      by (cases "path_expand (fst (path_segment ?p)) name") (simp_all split: option.split)
  qed
qed

section \<open>Properties\<close>

text \<open>
  C17. The search loop over the module path tries exactly the non-empty segments between semicolons,
  in order, each with its first question mark replaced by the name, and returns the first library
  that opens; a segment without a question mark reached before that ends the process.
\<close>

theorem module_path_search: "try_open dlopen path name = first_open dlopen (path_split [] path) name"
  by (rule try_open_eq)

text \<open>
  The module table never holds two modules of one name nor more than 32, a query answers what
  the table then holds under that name, and modules already loaded keep their entry.
\<close>

theorem module_query_table:
  assumes "modules_inv M" and "skynet_module_query dlopen dlsym M name = Some (r, M')"
  shows "modules_inv M' \<and> r = module_find (mods_m M') name
    \<and> (\<forall>n m. module_find (mods_m M) n = Some m \<longrightarrow> module_find (mods_m M') n = Some m)"
  by (rule query_inv [OF assms])

theorem module_query_table_witness:
  "\<exists>m M'. skynet_module_query (\<lambda>f. if f = ''./gate.so'' then Some 3 else None) (\<lambda>dl s. Some 9)
      (skynet_module_init ''/x/?.so;./?.so'') ''gate'' = Some (Some m, M') \<and> modules_inv M'"
proof -
  let ?m = "\<lparr>mod_name = ''gate'', mod_module = 3, mod_create = Some 9, mod_init = Some 9,
      mod_release = Some 9, mod_signal = Some 9\<rparr>"
  let ?M = "skynet_module_init ''/x/?.so;./?.so''"
  have q: "skynet_module_query (\<lambda>f. if f = ''./gate.so'' then Some 3 else None) (\<lambda>dl s. Some 9) ?M ''gate''
      = Some (Some ?m, ?M\<lparr>mods_m := [?m]\<rparr>)"
    by (simp add: skynet_module_query_def skynet_module_init_def MAX_MODULE_TYPE_def try_open_eq
        path_expand_def open_sym_def)
  have "modules_inv ?M" by (simp add: modules_inv_def skynet_module_init_def)
  from module_query_table [OF this q] q show ?thesis by blast
qed

end
