(* ===== verification/CText.thy ===== *)
theory CText
  imports Prelude
begin

text \<open>
  The conversions of the C library that the commands of \<open>skynet-src/skynet_server.c\<close> and the text
  protocols of the services use: \<open>sprintf\<close> with \<open>%d\<close>, \<open>%u\<close>, \<open>%x\<close> and \<open>%08x\<close>, \<open>strtol\<close>, \<open>strtoul\<close>
  and \<open>id_to_hex\<close>, with the round trips between them. A C string is the list of its characters
  before the terminating NUL.
\<close>

section \<open>Printing\<close>

definition lower_digits :: string where "lower_digits = ''0123456789abcdef''"
definition upper_digits :: string where "upper_digits = ''0123456789ABCDEF''"

function digits :: "nat \<Rightarrow> nat \<Rightarrow> nat list" where
  "digits base n = (if base \<le> 1 \<or> n < base then [n] else digits base (n div base) @ [n mod base])"
  by pat_completeness auto
termination
proof (relation "measure snd", goal_cases)
  case (2 base n)
  then have "1 < base" "0 < n" by auto
  then show ?case by (simp add: div_less_dividend)
qed simp

declare digits.simps [simp del]

definition print_u :: "nat \<Rightarrow> string" where
  "print_u n = map (\<lambda>d. lower_digits ! d) (digits 10 n)"

definition print_d :: "int \<Rightarrow> string" where
  "print_d i = (if i < 0 then CHR ''-'' # print_u (nat (- i)) else print_u (nat i))"

definition print_x :: "u32 \<Rightarrow> string" where
  "print_x w = map (\<lambda>d. lower_digits ! d) (digits 16 (unat w))"

definition print_08x :: "u32 \<Rightarrow> string" where
  "print_08x w = replicate (8 - length (print_x w)) (CHR ''0'') @ print_x w"

text \<open>\<open>str[0 .. 8]\<close>; the terminating NUL is implicit.\<close>

definition id_to_hex :: "u32 \<Rightarrow> string" where
  "id_to_hex h = CHR '':'' #
     map (\<lambda>i. upper_digits ! unat (drop_bit ((7 - i) * 4) h AND 0xf)) [0..<8]"

section \<open>Parsing\<close>

definition isspace :: "char \<Rightarrow> bool" where
  "isspace c \<longleftrightarrow> c \<in> {CHR '' '', CHR 0x09, CHR 0x0A, CHR 0x0B, CHR 0x0C, CHR 0x0D}"

definition digit_val :: "char \<Rightarrow> nat" where
  "digit_val c =
     (let n = of_char c in
      if 48 \<le> n \<and> n \<le> 57 then n - 48
      else if 97 \<le> n \<and> n \<le> 122 then n - 87
      else if 65 \<le> n \<and> n \<le> 90 then n - 55 else 255)"

fun parse_digits :: "nat \<Rightarrow> nat \<Rightarrow> string \<Rightarrow> nat \<times> string" where
  "parse_digits base acc [] = (acc, [])"
| "parse_digits base acc (c # cs) =
     (if digit_val c < base then parse_digits base (acc * base + digit_val c) cs else (acc, c # cs))"

definition parse_sign :: "string \<Rightarrow> bool \<times> string" where
  "parse_sign s = (case s of
       [] \<Rightarrow> (False, [])
     | c # cs \<Rightarrow> if c = CHR ''-'' then (True, cs) else if c = CHR ''+'' then (False, cs) else (False, s))"

text \<open>\<open>0x\<close> is a prefix only when a hexadecimal digit follows.\<close>

definition parse_base :: "nat \<Rightarrow> string \<Rightarrow> nat \<times> string" where
  "parse_base base s = (case s of
       z # x # d # cs \<Rightarrow>
         if (base = 0 \<or> base = 16) \<and> z = CHR ''0'' \<and> (x = CHR ''x'' \<or> x = CHR ''X'') \<and> digit_val d < 16
         then (16, d # cs)
         else (if base = 0 then if z = CHR ''0'' then 8 else 10 else base, s)
     | z # cs \<Rightarrow> (if base = 0 then if z = CHR ''0'' then 8 else 10 else base, s)
     | [] \<Rightarrow> (if base = 0 then 10 else base, s))"

definition scan_number :: "nat \<Rightarrow> string \<Rightarrow> bool \<times> nat \<times> string" where
  "scan_number base s =
     (let (neg, s1) = parse_sign (dropWhile isspace s);
          (b, s2) = parse_base base s1;
          (v, rest) = parse_digits b 0 s2
      in (neg, v, rest))"

definition strtoul :: "string \<Rightarrow> nat \<Rightarrow> u64" where
  "strtoul s base =
     (case scan_number base s of (neg, v, _) \<Rightarrow>
        if 2 ^ 64 \<le> v then - 1 else if neg then - of_nat v else of_nat v)"

definition strtol :: "string \<Rightarrow> nat \<Rightarrow> i64" where
  "strtol s base =
     (case scan_number base s of (neg, v, _) \<Rightarrow>
        if neg then (if 2 ^ 63 \<le> v then 2 ^ 63 else - of_nat v)
        else (if 2 ^ 63 \<le> v then 2 ^ 63 - 1 else of_nat v))"

text \<open>The conversion \<open>%d\<close> of \<open>sscanf\<close>, \<open>None\<close> when there is no number.\<close>

definition scan_int :: "string \<Rightarrow> i32 option \<times> string" where
  "scan_int s =
     (let t = snd (parse_sign (dropWhile isspace s)) in
      if t = [] \<or> 10 \<le> digit_val (hd t) then (None, s)
      else (Some (ucast (strtol s 10)), snd (snd (scan_number 10 s))))"

section \<open>Printing and parsing agree\<close>

lemma digits_bound: "1 < base \<Longrightarrow> d \<in> set (digits base n) \<Longrightarrow> d < base"
proof (induction base n rule: digits.induct)
  case (1 base n)
  show ?case
  proof (cases "n < base")
    case True
    with 1 show ?thesis by (subst (asm) (2) digits.simps) simp
  next
    case False
    with 1 have "d \<in> set (digits base (n div base)) \<or> d = n mod base"
      by (subst (asm) (2) digits.simps) auto
    with 1 False show ?thesis by auto
  qed
qed

lemma digits_not_Nil [simp]: "digits base n \<noteq> []"
  by (subst digits.simps) simp

lemma digits_value: "1 < base \<Longrightarrow> foldl (\<lambda>a d. a * base + d) 0 (digits base n) = n"
proof (induction base n rule: digits.induct)
  case (1 base n)
  then show ?case by (cases "n < base") (subst digits.simps, simp)+
qed

lemma digits_hd: "1 < base \<Longrightarrow> 0 < n \<Longrightarrow> hd (digits base n) \<noteq> 0"
proof (induction base n rule: digits.induct)
  case (1 base n)
  show ?case
  proof (cases "n < base")
    case True
    with 1 show ?thesis by (subst digits.simps) simp
  next
    case False
    with 1 have "hd (digits base (n div base)) \<noteq> 0" by (simp add: div_greater_zero_iff)
    with False "1.prems" show ?thesis by (subst digits.simps) (auto simp: hd_append)
  qed
qed

lemma parse_digits_eq:
  "\<forall>c \<in> set ds. digit_val c < base \<Longrightarrow>
     parse_digits base acc (ds @ rest) = parse_digits base (foldl (\<lambda>a d. a * base + d) acc (map digit_val ds)) rest"
  by (induction ds arbitrary: acc) auto

lemma hex_digits_val: "d < 16 \<Longrightarrow> digit_val (lower_digits ! d) = d \<and> digit_val (upper_digits ! d) = d"
proof -
  have "\<forall>d \<in> set [0..<16]. digit_val (lower_digits ! d) = d \<and> digit_val (upper_digits ! d) = d"
    by code_simp
  then show "d < 16 \<Longrightarrow> ?thesis" by simp
qed

lemma print_digits_val:
  assumes "1 < base" and "base \<le> 16"
  shows "map digit_val (map (\<lambda>d. lower_digits ! d) (digits base n)) = digits base n"
    and "\<forall>c \<in> set (map (\<lambda>d. lower_digits ! d) (digits base n)). digit_val c < base"
proof -
  have "d < 16 \<and> digit_val (lower_digits ! d) = d" if "d \<in> set (digits base n)" for d
    using digits_bound [OF assms(1) that] assms(2) hex_digits_val [of d] by simp
  then show "map digit_val (map (\<lambda>d. lower_digits ! d) (digits base n)) = digits base n"
    "\<forall>c \<in> set (map (\<lambda>d. lower_digits ! d) (digits base n)). digit_val c < base"
    using digits_bound [OF assms(1)] by (auto simp: comp_def intro: map_idI)
qed

lemma parse_printed:
  assumes "1 < base" and "base \<le> 16"
  shows "parse_digits base 0 (map (\<lambda>d. lower_digits ! d) (digits base n) @ rest) = parse_digits base n rest"
  using parse_digits_eq [OF print_digits_val(2) [OF assms]] print_digits_val(1) [OF assms]
    digits_value [OF assms(1)] by (simp only:)

lemma digit_first_char:
  assumes "digit_val c < 16"
  shows "\<not> isspace c" and "c \<noteq> CHR ''-''" and "c \<noteq> CHR ''+''" and "c \<noteq> CHR ''x''" and "c \<noteq> CHR ''X''"
  using assms by (auto simp: isspace_def digit_val_def)

lemma scan_digits:
  assumes dig: "\<forall>c \<in> set s. digit_val c < base" and base: "base = 10 \<or> base = 16"
  shows "scan_number base s = (False, foldl (\<lambda>a d. a * base + d) 0 (map digit_val s), [])"
proof -
  have d16: "digit_val c < 16" if "c \<in> set s" for c using dig base that by force
  have sp: "dropWhile isspace s = s"
    using digit_first_char(1) [OF d16] by (cases s) auto
  have sg: "parse_sign s = (False, s)"
    using digit_first_char(2,3) [OF d16] by (cases s) (auto simp: parse_sign_def)
  have bs: "parse_base base s = (base, s)"
    using digit_first_char(4,5) [OF d16] base by (auto simp: parse_base_def split: list.splits)
  have "parse_digits base 0 s = (foldl (\<lambda>a d. a * base + d) 0 (map digit_val s), [])"
    using parse_digits_eq [OF dig, of 0 "[]"] by simp
  then show ?thesis by (simp add: scan_number_def sp sg bs)
qed

lemma scan_minus:
  assumes dig: "\<forall>c \<in> set s. digit_val c < 10"
  shows "scan_number 10 (CHR ''-'' # s) = (True, foldl (\<lambda>a d. a * 10 + d) 0 (map digit_val s), [])"
proof -
  have bs: "parse_base 10 s = (10, s)" by (simp add: parse_base_def split: list.split)
  have "parse_digits 10 0 s = (foldl (\<lambda>a d. a * 10 + d) 0 (map digit_val s), [])"
    using parse_digits_eq [OF dig, of 0 "[]"] by simp
  then show ?thesis by (simp add: scan_number_def isspace_def parse_sign_def bs)
qed

lemma scan_print_u: "scan_number 10 (print_u n) = (False, n, [])"
  using scan_digits [OF print_digits_val(2), of 10 n] print_digits_val(1) [of 10 n] digits_value [of 10 n]
  by (simp add: print_u_def)

lemma scan_print_minus: "scan_number 10 (CHR ''-'' # print_u n) = (True, n, [])"
  using scan_minus [OF print_digits_val(2), of n] print_digits_val(1) [of 10 n] digits_value [of 10 n]
  by (simp add: print_u_def)

lemma strtol_print_d:
  assumes "- (2 ^ 63) \<le> i" and "i < 2 ^ 63"
  shows "strtol (print_d i) 10 = word_of_int i"
proof (cases "i < 0")
  case True
  then have "strtol (print_d i) 10 = (if 2 ^ 63 \<le> nat (- i) then 2 ^ 63 else - of_nat (nat (- i)))"
    by (simp add: strtol_def print_d_def scan_print_minus)
  also have "\<dots> = word_of_int i"
  proof (cases "2 ^ 63 \<le> nat (- i)")
    case True
    then have "2 ^ 63 \<le> - i" using \<open>i < 0\<close> by (simp add: le_nat_iff)
    with assms have "i = - (2 ^ 63)" by simp
    then show ?thesis by simp
  next
    case False
    have "of_nat (nat (- i)) = (word_of_int (- i) :: 64 word)" using \<open>i < 0\<close> by simp
    with False show ?thesis by simp
  qed
  finally show ?thesis .
next
  case False
  then have "\<not> 2 ^ 63 \<le> nat i" using assms by (simp add: le_nat_iff)
  with False show ?thesis by (simp add: strtol_def print_d_def scan_print_u)
qed

lemma of_nat_unat_ucast: "(of_nat (unat w) :: u64) = ucast w" for w :: u32
  by (rule word_unat_eq_iff [THEN iffD2])
    (simp add: unat_of_nat unsigned_ucast_eq take_bit_nat_def)

lemma strtoul_print_x: "strtoul (print_x h) 16 = ucast h"
proof -
  have "scan_number 16 (print_x h) = (False, unat h, [])"
    using scan_digits [OF print_digits_val(2), of 16 "unat h"] print_digits_val(1) [of 16 "unat h"]
      digits_value [of 16 "unat h"]
    by (simp add: print_x_def)
  then show ?thesis using u32_bound [of h] by (simp add: strtoul_def of_nat_unat_ucast)
qed

lemma nibbles_value:
  "foldl (\<lambda>a d. a * 16 + d) 0 (map (\<lambda>i. n div 16 ^ (k - Suc i) mod 16) [0..<k]) = n mod (16 :: nat) ^ k"
proof (induction k arbitrary: n)
  case (Suc k)
  have eq: "map (\<lambda>i. n div 16 ^ (Suc k - Suc i) mod 16) [0..<k] = map (\<lambda>i. n div 16 div 16 ^ (k - Suc i) mod 16) [0..<k]"
  proof (rule map_cong [OF refl])
    fix i assume "i \<in> set [0..<k]"
    then have "Suc k - Suc i = Suc (k - Suc i)" by simp
    then show "n div 16 ^ (Suc k - Suc i) mod 16 = n div 16 div 16 ^ (k - Suc i) mod 16"
      by (simp only: power_Suc div_mult2_eq)
  qed
  have "foldl (\<lambda>a d. a * 16 + d) 0 (map (\<lambda>i. n div 16 ^ (Suc k - Suc i) mod 16) [0..<Suc k])
      = n div 16 mod 16 ^ k * 16 + n mod 16"
    by (simp only: upt_Suc le0 if_True map_append eq list.map foldl_append foldl.simps Suc.IH) simp
  also have "\<dots> = n mod 16 ^ Suc k" using mod_mult2_eq [of n 16 "16 ^ k"] by simp
  finally show ?case .
qed simp

lemma nibble_unat: "unat (drop_bit (m * 4) h AND 0xf) = unat h div 16 ^ m mod 16" for h :: u32
proof -
  have "(0xf :: u32) = mask 4" by (simp add: mask_eq_decr_exp)
  moreover have "(2::nat) ^ (m * 4) = 16 ^ m" using power_mult [of "2::nat" 4 m] by (simp add: mult.commute)
  ultimately show ?thesis using and_mask_unat [of "drop_bit (m * 4) h" 4] unat_drop_bit_div [of "m * 4" h] by simp
qed

lemma strtoul_id_to_hex: "strtoul (tl (id_to_hex h)) 16 = ucast h"
proof -
  let ?ds = "map (\<lambda>i. unat h div 16 ^ (7 - i) mod 16) [0..<8]"
  have s: "tl (id_to_hex h) = map (\<lambda>d. upper_digits ! d) ?ds"
    unfolding id_to_hex_def nibble_unat by (simp add: comp_def)
  have v: "map digit_val (tl (id_to_hex h)) = ?ds"
    unfolding s map_map comp_def using hex_digits_val by simp
  have lt: "\<forall>c \<in> set (tl (id_to_hex h)). digit_val c < 16"
    unfolding s using hex_digits_val by auto
  have "foldl (\<lambda>a d. a * 16 + d) 0 ?ds = unat h mod 16 ^ 8"
    using nibbles_value [of "unat h" 8] by (simp add: Suc_diff_Suc [symmetric])
  also have "\<dots> = unat h" using u32_bound [of h] by simp
  finally have "scan_number 16 (tl (id_to_hex h)) = (False, unat h, [])"
    using scan_digits [OF lt] v by simp
  then show ?thesis using u32_bound [of h] by (simp add: strtoul_def of_nat_unat_ucast)
qed

lemma id_to_hex_colon: "id_to_hex h = CHR '':'' # tl (id_to_hex h)"
  by (simp add: id_to_hex_def)

end
