(* ===== verification/Context.thy ===== *)
theory Context
  imports Sched Timer Handle Module CText
begin

text \<open>
  The contexts (services) of \<open>skynet-src/skynet_server.c\<close> and the sending of messages between them:
  sessions, reference counts, \<open>skynet_context_push\<close>, \<open>skynet_send\<close>, \<open>skynet_sendname\<close>, with
  \<open>skynet-src/skynet_harbor.c\<close>, \<open>skynet-src/skynet_error.c\<close> and \<open>skynet_timeout\<close>. The state is one
  record; \<open>'w\<close> is the state of the services' own code and of the system, which the functions of
  the record \<open>externals\<close> change. A failed assertion, a NULL dereference and a use of freed memory
  are \<open>None\<close>.
\<close>

section \<open>Data\<close>

definition PTYPE_TEXT :: nat where "PTYPE_TEXT = 0"
definition PTYPE_RESPONSE :: nat where "PTYPE_RESPONSE = 1"
definition PTYPE_CLIENT :: nat where "PTYPE_CLIENT = 3"
definition PTYPE_SYSTEM :: nat where "PTYPE_SYSTEM = 4"
definition PTYPE_HARBOR :: nat where "PTYPE_HARBOR = 5"
definition PTYPE_SOCKET :: nat where "PTYPE_SOCKET = 6"
definition PTYPE_ERROR :: nat where "PTYPE_ERROR = 7"
definition PTYPE_TAG_DONTCOPY :: i32 where "PTYPE_TAG_DONTCOPY = 0x10000"
definition PTYPE_TAG_ALLOCSESSION :: i32 where "PTYPE_TAG_ALLOCSESSION = 0x20000"
definition GLOBALNAME_LENGTH :: nat where "GLOBALNAME_LENGTH = 16"

type_synonym addr = nat

record skynet_message =
  msg_source :: u32
  msg_session :: i32
  msg_data :: "addr option"
  msg_sz :: u64

record remote_message =
  rm_name :: string
  rm_handle :: u32
  rm_message :: "addr option"
  rm_sz :: u64

text \<open>The socket message of \<open>skynet_socket.h\<close>, with the bytes placed after the structure.\<close>

record skynet_socket_message =
  ssm_type :: i32
  ssm_id :: i32
  ssm_ud :: i32
  ssm_buffer :: "addr option"
  ssm_tail :: bytes

text \<open>What an allocated block holds.\<close>

datatype blob = Bytes bytes | Remote remote_message | Socket skynet_socket_message

text \<open>\<open>cb\<close> stands for the pair of the callback and its \<open>ud\<close>; \<open>logfile\<close> for the \<open>FILE\<close>.\<close>

record 'cb skynet_context =
  ctx_instance :: nat
  ctx_mod :: skynet_module
  ctx_cb :: "'cb option"
  ctx_queue :: mqid
  ctx_logfile :: "nat option"
  ctx_handle :: u32
  ctx_session_id :: i32
  ctx_ref :: nat
  ctx_init :: bool
  ctx_endless :: bool

text \<open>
  The globals of the process: the queues, the contexts by address, the handle storage \<open>H\<close>, the
  timer \<open>TI\<close>, the heap of message data with the next free address, \<open>G_NODE\<close>, \<open>REMOTE\<close>,
  \<open>HARBOR\<close>, the cached handle of the logger, the module table \<open>M\<close> and the environment \<open>E\<close>.
\<close>

record ('cb, 'w) server = "skynet_message mq_state" +
  sv_ctx :: "addr \<rightharpoonup> 'cb skynet_context"
  sv_handles :: "addr handle_storage"
  sv_timer :: "timer_event timer"
  sv_mem :: "addr \<rightharpoonup> blob"
  sv_brk :: addr
  sv_total :: int
  sv_monitor_exit :: u32
  sv_remote :: "addr option"
  sv_harbor :: u32
  sv_logger :: u32
  sv_modules :: modules
  sv_env :: "string \<rightharpoonup> string"
  sv_world :: 'w

text \<open>
  The code outside the program: the functions of the loaded modules, called through their
  pointers, the callbacks, the dynamic loader and the log files.
\<close>

record ('cb, 'w) externals =
  x_dlopen :: "string \<Rightarrow> nat option"
  x_dlsym :: "nat \<Rightarrow> string \<Rightarrow> nat option"
  x_create :: "nat \<Rightarrow> 'w \<Rightarrow> nat option \<times> 'w"
  x_init :: "nat \<Rightarrow> nat \<Rightarrow> addr \<Rightarrow> string option \<Rightarrow> ('cb, 'w) server \<Rightarrow> (i32 \<times> ('cb, 'w) server) option"
  x_release :: "nat \<Rightarrow> nat \<Rightarrow> ('cb, 'w) server \<Rightarrow> ('cb, 'w) server option"
  x_signal :: "nat \<Rightarrow> nat \<Rightarrow> i32 \<Rightarrow> ('cb, 'w) server \<Rightarrow> ('cb, 'w) server option"
  x_callback :: "'cb \<Rightarrow> addr \<Rightarrow> i32 \<Rightarrow> i32 \<Rightarrow> u32 \<Rightarrow> addr option \<Rightarrow> u64 \<Rightarrow> ('cb, 'w) server \<Rightarrow>
     (bool \<times> ('cb, 'w) server) option"
  x_fopen :: "string \<Rightarrow> 'w \<Rightarrow> nat option \<times> 'w"
  x_fwrite :: "nat \<Rightarrow> string \<Rightarrow> 'w \<Rightarrow> 'w"
  x_fclose :: "nat \<Rightarrow> 'w \<Rightarrow> 'w"
  x_ctime :: "u64 \<Rightarrow> string"

section \<open>Memory\<close>

definition skynet_malloc :: "('cb, 'w) server \<Rightarrow> blob \<Rightarrow> addr \<times> ('cb, 'w) server" where
  "skynet_malloc S b = (sv_brk S, S\<lparr>sv_mem := (sv_mem S)(sv_brk S \<mapsto> b), sv_brk := Suc (sv_brk S)\<rparr>)"

definition skynet_free :: "('cb, 'w) server \<Rightarrow> addr option \<Rightarrow> ('cb, 'w) server option" where
  "skynet_free S p =
     (case p of
        None \<Rightarrow> Some S
      | Some a \<Rightarrow> if sv_mem S a = None then None else Some (S\<lparr>sv_mem := (sv_mem S)(a := None)\<rparr>))"

text \<open>The bytes of a C string with its NUL.\<close>

definition c_string :: "string \<Rightarrow> bytes" where
  "c_string s = map of_char s @ [0]"

section \<open>Contexts\<close>

definition hof :: "('cb, 'w) server \<Rightarrow> addr \<Rightarrow> u32" where
  "hof S c = (case sv_ctx S c of None \<Rightarrow> 0 | Some x \<Rightarrow> ctx_handle x)"

definition upd_ctx ::
  "('cb, 'w) server \<Rightarrow> addr \<Rightarrow> ('cb skynet_context \<Rightarrow> 'cb skynet_context) \<Rightarrow> ('cb, 'w) server option" where
  "upd_ctx S c f =
     (case sv_ctx S c of None \<Rightarrow> None | Some x \<Rightarrow> Some (S\<lparr>sv_ctx := (sv_ctx S)(c \<mapsto> f x)\<rparr>))"

definition skynet_context_newsession :: "('cb, 'w) server \<Rightarrow> addr \<Rightarrow> (i32 \<times> ('cb, 'w) server) option" where
  "skynet_context_newsession S c =
     (case sv_ctx S c of
        None \<Rightarrow> None
      | Some x \<Rightarrow>
          (let session = ctx_session_id x + 1;
               session' = (if sint session \<le> 0 then 1 else session)
           in Some (session', S\<lparr>sv_ctx := (sv_ctx S)(c \<mapsto> x\<lparr>ctx_session_id := session'\<rparr>)\<rparr>)))"

definition skynet_context_grab :: "('cb, 'w) server \<Rightarrow> addr \<Rightarrow> ('cb, 'w) server option" where
  "skynet_context_grab S c = upd_ctx S c (\<lambda>x. x\<lparr>ctx_ref := Suc (ctx_ref x)\<rparr>)"

definition skynet_context_reserve :: "('cb, 'w) server \<Rightarrow> addr \<Rightarrow> ('cb, 'w) server option" where
  "skynet_context_reserve S c =
     map_option (\<lambda>S1. S1\<lparr>sv_total := sv_total S1 - 1\<rparr>) (skynet_context_grab S c)"

definition skynet_module_instance_release ::
  "('cb, 'w) externals \<Rightarrow> skynet_module \<Rightarrow> nat \<Rightarrow> ('cb, 'w) server \<Rightarrow> ('cb, 'w) server option" where
  "skynet_module_instance_release X m inst S =
     (case mod_release m of None \<Rightarrow> Some S | Some f \<Rightarrow> x_release X f inst S)"

definition delete_context ::
  "('cb, 'w) externals \<Rightarrow> ('cb, 'w) server \<Rightarrow> addr \<Rightarrow> ('cb, 'w) server option" where
  "delete_context X S c =
     (case sv_ctx S c of
        None \<Rightarrow> None
      | Some x \<Rightarrow>
          (let S1 = (case ctx_logfile x of None \<Rightarrow> S | Some f \<Rightarrow> S\<lparr>sv_world := x_fclose X f (sv_world S)\<rparr>) in
           Option.bind (skynet_module_instance_release X (ctx_mod x) (ctx_instance x) S1)
             (\<lambda>S2. Option.bind (skynet_mq_mark_release S2 (ctx_queue x))
                (\<lambda>S3. Some (S3\<lparr>sv_ctx := (sv_ctx S3)(c := None), sv_total := sv_total S3 - 1\<rparr>)))))"

text \<open>\<open>True\<close> when the context is still alive, that is, when the returned pointer is not NULL.\<close>

definition skynet_context_release ::
  "('cb, 'w) externals \<Rightarrow> ('cb, 'w) server \<Rightarrow> addr \<Rightarrow> (bool \<times> ('cb, 'w) server) option" where
  "skynet_context_release X S c =
     (case sv_ctx S c of
        None \<Rightarrow> None
      | Some x \<Rightarrow>
          (if ctx_ref x = 0 then None
           else let S1 = S\<lparr>sv_ctx := (sv_ctx S)(c \<mapsto> x\<lparr>ctx_ref := ctx_ref x - 1\<rparr>)\<rparr> in
                if ctx_ref x - 1 = 0 then map_option (Pair False) (delete_context X S1 c)
                else Some (True, S1)))"

definition skynet_handle_grab :: "('cb, 'w) server \<Rightarrow> u32 \<Rightarrow> (addr option \<times> ('cb, 'w) server) option" where
  "skynet_handle_grab S handle =
     (case hs_lookup (hof S) (sv_handles S) handle of
        None \<Rightarrow> Some (None, S)
      | Some c \<Rightarrow> map_option (Pair (Some c)) (skynet_context_grab S c))"

definition skynet_handle_retire ::
  "('cb, 'w) externals \<Rightarrow> ('cb, 'w) server \<Rightarrow> u32 \<Rightarrow> (bool \<times> ('cb, 'w) server) option" where
  "skynet_handle_retire X S handle =
     (case hs_retire (hof S) (sv_handles S) handle of
        (None, H) \<Rightarrow> Some (False, S)
      | (Some c, H) \<Rightarrow>
          map_option (\<lambda>(alive, S1). (True, S1)) (skynet_context_release X (S\<lparr>sv_handles := H\<rparr>) c))"

section \<open>Pushing a message\<close>

text \<open>The outer option is a crash; the Boolean is false for the result \<open>-1\<close>.\<close>

definition skynet_context_push ::
  "('cb, 'w) externals \<Rightarrow> ('cb, 'w) server \<Rightarrow> u32 \<Rightarrow> skynet_message \<Rightarrow> (bool \<times> ('cb, 'w) server) option" where
  "skynet_context_push X S handle message =
     Option.bind (skynet_handle_grab S handle)
       (\<lambda>(ctx, S1). case ctx of
          None \<Rightarrow> Some (False, S1)
        | Some c \<Rightarrow>
            Option.bind (sv_ctx S1 c)
              (\<lambda>x. Option.bind (skynet_mq_push S1 (ctx_queue x) message)
                 (\<lambda>S2. map_option (\<lambda>(alive, S3). (True, S3)) (skynet_context_release X S2 c))))"

definition skynet_context_send ::
  "('cb, 'w) server \<Rightarrow> addr \<Rightarrow> addr option \<Rightarrow> u64 \<Rightarrow> u32 \<Rightarrow> i32 \<Rightarrow> i32 \<Rightarrow> ('cb, 'w) server option" where
  "skynet_context_send S c msg sz source type session =
     Option.bind (sv_ctx S c)
       (\<lambda>x. skynet_mq_push S (ctx_queue x)
          \<lparr>msg_source = source, msg_session = session, msg_data = msg,
           msg_sz = sz OR scast (push_bit HANDLE_REMOTE_SHIFT type)\<rparr>)"

text \<open>
  \<open>skynet_error\<close>: \<open>text\<close> is the formatted message. The two ways of formatting it, in the buffer
  on the stack or in a doubling one, give the same copy.
\<close>

definition skynet_error ::
  "('cb, 'w) externals \<Rightarrow> ('cb, 'w) server \<Rightarrow> addr option \<Rightarrow> string \<Rightarrow> ('cb, 'w) server option" where
  "skynet_error X S context text =
     (let S0 = (if sv_logger S = 0
                then S\<lparr>sv_logger := skynet_handle_findname (sv_handles S) ''logger''\<rparr> else S) in
      if sv_logger S0 = 0 then Some S0
      else
        (let (data, S1) = skynet_malloc S0 (Bytes (c_string text)) in
         Option.bind (case context of None \<Rightarrow> Some 0 | Some c \<Rightarrow> map_option ctx_handle (sv_ctx S1 c))
           (\<lambda>source. map_option snd
              (skynet_context_push X S1 (sv_logger S1)
                 \<lparr>msg_source = source, msg_session = 0, msg_data = Some data,
                  msg_sz = scast (of_nat (List.length text) OR push_bit HANDLE_REMOTE_SHIFT (of_nat PTYPE_TEXT) :: i32)\<rparr>))))"

section \<open>Harbor\<close>

text \<open>\<open>None\<close> when the harbor is not initialised (\<open>HARBOR\<close> is \<open>~0\<close>).\<close>

definition skynet_harbor_message_isremote :: "('cb, 'w) server \<Rightarrow> u32 \<Rightarrow> bool option" where
  "skynet_harbor_message_isremote S handle =
     (if sv_harbor S = - 1 then None
      else let h = handle AND NOT HANDLE_MASK in Some (h \<noteq> sv_harbor S \<and> h \<noteq> 0))"

definition skynet_isremote :: "('cb, 'w) server \<Rightarrow> u32 \<Rightarrow> (bool \<times> i32) option" where
  "skynet_isremote S handle =
     map_option (\<lambda>r. (r, drop_bit HANDLE_REMOTE_SHIFT handle)) (skynet_harbor_message_isremote S handle)"

definition skynet_harbor_send ::
  "('cb, 'w) server \<Rightarrow> remote_message \<Rightarrow> u32 \<Rightarrow> i32 \<Rightarrow> ('cb, 'w) server option" where
  "skynet_harbor_send S rmsg source session =
     (let type = ucast (drop_bit HANDLE_REMOTE_SHIFT (rm_sz rmsg)) :: i32;
          rmsg' = rmsg\<lparr>rm_sz := rm_sz rmsg AND ucast HANDLE_MASK\<rparr>
      in if type = of_nat PTYPE_SYSTEM \<or> type = of_nat PTYPE_HARBOR then None
         else Option.bind (sv_remote S)
           (\<lambda>c. case skynet_malloc S (Remote rmsg') of
              (a, S1) \<Rightarrow> skynet_context_send S1 c (Some a) 40 source type session))"

definition skynet_harbor_init :: "('cb, 'w) server \<Rightarrow> i32 \<Rightarrow> ('cb, 'w) server" where
  "skynet_harbor_init S harbor = S\<lparr>sv_harbor := push_bit HANDLE_REMOTE_SHIFT harbor\<rparr>"

definition skynet_harbor_start :: "('cb, 'w) server \<Rightarrow> addr \<Rightarrow> ('cb, 'w) server option" where
  "skynet_harbor_start S c = map_option (\<lambda>S1. S1\<lparr>sv_remote := Some c\<rparr>) (skynet_context_reserve S c)"

definition skynet_harbor_exit :: "('cb, 'w) externals \<Rightarrow> ('cb, 'w) server \<Rightarrow> ('cb, 'w) server option" where
  "skynet_harbor_exit X S =
     (case sv_remote S of
        None \<Rightarrow> Some S
      | Some c \<Rightarrow> map_option snd (skynet_context_release X (S\<lparr>sv_remote := None\<rparr>) c))"

section \<open>Sending\<close>

text \<open>\<open>_filter_args\<close>; the copy of \<open>*sz\<close> bytes needs a block of bytes that long.\<close>

definition filter_args ::
  "('cb, 'w) server \<Rightarrow> addr option \<Rightarrow> i32 \<Rightarrow> i32 \<Rightarrow> addr option \<Rightarrow> u64 \<Rightarrow>
     (i32 \<times> addr option \<times> u64 \<times> ('cb, 'w) server) option" where
  "filter_args S context type session data sz =
     (let needcopy = (type AND PTYPE_TAG_DONTCOPY = 0);
          allocsession = (type AND PTYPE_TAG_ALLOCSESSION \<noteq> 0);
          type' = type AND 0xff;
          sz' = sz OR scast (push_bit HANDLE_REMOTE_SHIFT type')
      in Option.bind
           (if allocsession
            then if session \<noteq> 0 then None else Option.bind context (skynet_context_newsession S)
            else Some (session, S))
           (\<lambda>(session', S1).
              if needcopy then
                (case data of
                   None \<Rightarrow> Some (session', None, sz', S1)
                 | Some a \<Rightarrow>
                     (case sv_mem S1 a of
                        Some (Bytes bs) \<Rightarrow>
                          if unat sz \<le> List.length bs then
                            (case skynet_malloc S1 (Bytes (take (unat sz) bs @ [0])) of
                               (b, S2) \<Rightarrow> Some (session', Some b, sz', S2))
                          else None
                      | _ \<Rightarrow> None))
              else Some (session', data, sz', S1)))"

definition skynet_send ::
  "('cb, 'w) externals \<Rightarrow> ('cb, 'w) server \<Rightarrow> addr option \<Rightarrow> u32 \<Rightarrow> u32 \<Rightarrow> i32 \<Rightarrow> i32 \<Rightarrow>
     addr option \<Rightarrow> u64 \<Rightarrow> (i32 \<times> ('cb, 'w) server) option" where
  "skynet_send X S context source destination type session data sz =
     (if sz AND ucast HANDLE_MASK \<noteq> sz then
        Option.bind (skynet_error X S context
            (''The message to '' @ print_x destination @ '' is too large (sz = '' @ print_u (unat sz) @ '')''))
          (\<lambda>S1. map_option (Pair (- 1)) (skynet_free S1 data))
      else Option.bind (filter_args S context type session data sz)
        (\<lambda>(session', data', sz', S1).
           Option.bind (if source = 0 then Option.bind context (\<lambda>c. map_option ctx_handle (sv_ctx S1 c))
                        else Some source)
             (\<lambda>source'.
                if destination = 0 then Some (session', S1)
                else Option.bind (skynet_harbor_message_isremote S1 destination)
                  (\<lambda>remote.
                     if remote then
                       map_option (Pair session')
                         (skynet_harbor_send S1
                            \<lparr>rm_name = [], rm_handle = destination, rm_message = data', rm_sz = sz'\<rparr>
                            source' session')
                     else Option.bind
                       (skynet_context_push X S1 destination
                          \<lparr>msg_source = source', msg_session = session', msg_data = data', msg_sz = sz'\<rparr>)
                       (\<lambda>(ok, S2). if ok then Some (session', S2)
                                  else map_option (Pair (- 1)) (skynet_free S2 data'))))))"

text \<open>\<open>name[0 .. 15]\<close>: at most 16 characters, padded with NULs, which the model drops.\<close>

definition copy_name :: "string \<Rightarrow> string" where
  "copy_name a = take GLOBALNAME_LENGTH a"

definition skynet_sendname ::
  "('cb, 'w) externals \<Rightarrow> ('cb, 'w) server \<Rightarrow> addr option \<Rightarrow> u32 \<Rightarrow> string \<Rightarrow> i32 \<Rightarrow> i32 \<Rightarrow>
     addr option \<Rightarrow> u64 \<Rightarrow> (i32 \<times> ('cb, 'w) server) option" where
  "skynet_sendname X S context source a type session data sz =
     Option.bind (if source = 0 then Option.bind context (\<lambda>c. map_option ctx_handle (sv_ctx S c))
                  else Some source)
       (\<lambda>source'.
          case a of
            CHR '':'' # s \<Rightarrow>
              skynet_send X S context source' (ucast (strtoul s 16)) type session data sz
          | CHR ''.'' # s \<Rightarrow>
              (let des = skynet_handle_findname (sv_handles S) s in
               if des = 0 then
                 (if type AND PTYPE_TAG_DONTCOPY \<noteq> 0 then map_option (Pair (- 1)) (skynet_free S data)
                  else Some (- 1, S))
               else skynet_send X S context source' des type session data sz)
          | _ \<Rightarrow>
              Option.bind (filter_args S context type session data sz)
                (\<lambda>(session', data', sz', S1).
                   map_option (Pair session')
                     (skynet_harbor_send S1
                        \<lparr>rm_name = copy_name a, rm_handle = 0, rm_message = data', rm_sz = sz'\<rparr>
                        source' session')))"

section \<open>Timeouts\<close>

definition skynet_timeout ::
  "('cb, 'w) externals \<Rightarrow> ('cb, 'w) server \<Rightarrow> u32 \<Rightarrow> i32 \<Rightarrow> i32 \<Rightarrow> (i32 \<times> ('cb, 'w) server) option" where
  "skynet_timeout X S handle time session =
     (if time = 0 then
        map_option (\<lambda>(ok, S1). (if ok then session else - 1, S1))
          (skynet_context_push X S handle
             \<lparr>msg_source = 0, msg_session = session, msg_data = None,
              msg_sz = scast (push_bit HANDLE_REMOTE_SHIFT (of_nat PTYPE_RESPONSE) :: i32)\<rparr>)
      else Some (session, S\<lparr>sv_timer := timer_add (sv_timer S) \<lparr>te_handle = handle, te_session = session\<rparr> time\<rparr>))"

section \<open>Creation\<close>

text \<open>
  The state after the initialisations of \<open>skynet_start\<close> and \<open>skynet_globalinit\<close>: \<open>harbor\<close> and
  \<open>path\<close> come from the configuration, \<open>wall\<close> and \<open>clk\<close> from the clocks.
\<close>

definition skynet_boot ::
  "i32 \<Rightarrow> string \<Rightarrow> u64 \<times> u64 \<Rightarrow> u64 \<times> u64 \<Rightarrow> (string \<rightharpoonup> string) \<Rightarrow> 'w \<Rightarrow> ('cb, 'w) server" where
  "skynet_boot harbor path wall clk env w = skynet_harbor_init
     \<lparr>mq_heap = Map.empty, gq_head = None, gq_tail = None, sv_ctx = Map.empty,
      sv_handles = skynet_handle_init harbor, sv_timer = skynet_timer_init wall clk,
      sv_mem = Map.empty, sv_brk = 0, sv_total = 0, sv_monitor_exit = 0, sv_remote = None,
      sv_harbor = - 1, sv_logger = 0, sv_modules = skynet_module_init path, sv_env = env, sv_world = w\<rparr> harbor"

text \<open>The part of \<open>skynet_context_new\<close> between the module's \<open>create\<close> and its \<open>init\<close>.\<close>

definition context_alloc :: "('cb, 'w) server \<Rightarrow> skynet_module \<Rightarrow> nat \<Rightarrow> (addr \<times> ('cb, 'w) server) option" where
  "context_alloc S m inst =
     (let c = sv_brk S; q = Suc c;
          ctx = \<lparr>ctx_instance = inst, ctx_mod = m, ctx_cb = None, ctx_queue = q, ctx_logfile = None,
                 ctx_handle = 0, ctx_session_id = 0, ctx_ref = 2, ctx_init = False, ctx_endless = False\<rparr>;
          S1 = S\<lparr>sv_ctx := (sv_ctx S)(c \<mapsto> ctx), sv_brk := Suc q\<rparr>
      in Option.bind (skynet_handle_register (hof S1) (sv_handles S1) c)
           (\<lambda>(h, H). let S2 = S1\<lparr>sv_handles := H, sv_ctx := (sv_ctx S1)(c \<mapsto> ctx\<lparr>ctx_handle := h\<rparr>)\<rparr>;
                         S3 = skynet_mq_create S2 q h
                     in Some (c, S3\<lparr>sv_total := sv_total S3 + 1\<rparr>)))"

section \<open>What a push does\<close>

text \<open>The queue operations change nothing of the state but the queues.\<close>

definition queue_frame :: "('m, 'z) mq_state_scheme \<Rightarrow> ('m, 'z) mq_state_scheme \<Rightarrow> bool" where
  "queue_frame S S' \<longleftrightarrow> S' = S\<lparr>mq_heap := mq_heap S', gq_head := gq_head S', gq_tail := gq_tail S'\<rparr>"

lemma queue_frame_refl [simp]: "queue_frame S S"
  by (simp add: queue_frame_def)

lemma globalmq_push_frame: "skynet_globalmq_push S p = Some S' \<Longrightarrow> queue_frame S S'"
  by (auto simp: skynet_globalmq_push_def queue_frame_def Let_def split: option.splits if_splits)

lemma mq_push_frame: "skynet_mq_push S p m = Some S' \<Longrightarrow> queue_frame S S'"
  by (auto simp: skynet_mq_push_def skynet_globalmq_push_def queue_frame_def Let_def
      split: option.splits if_splits)

lemma mq_mark_frame: "skynet_mq_mark_release S p = Some S' \<Longrightarrow> queue_frame S S'"
  by (auto simp: skynet_mq_mark_release_def skynet_globalmq_push_def queue_frame_def Let_def
      split: option.splits if_splits)

lemma queue_frame_sv:
  fixes S S' :: "('cb, 'w) server"
  assumes "queue_frame S S'"
  shows "sv_ctx S' = sv_ctx S" "sv_handles S' = sv_handles S" "sv_timer S' = sv_timer S" "sv_mem S' = sv_mem S"
    "sv_brk S' = sv_brk S" "sv_total S' = sv_total S" "sv_monitor_exit S' = sv_monitor_exit S"
    "sv_remote S' = sv_remote S" "sv_harbor S' = sv_harbor S" "sv_logger S' = sv_logger S"
    "sv_modules S' = sv_modules S" "sv_env S' = sv_env S" "sv_world S' = sv_world S"
proof -
  obtain h hd tl where "S' = S\<lparr>mq_heap := h, gq_head := hd, gq_tail := tl\<rparr>"
    using assms unfolding queue_frame_def by blast
  then show "sv_ctx S' = sv_ctx S" "sv_handles S' = sv_handles S" "sv_timer S' = sv_timer S" "sv_mem S' = sv_mem S"
    "sv_brk S' = sv_brk S" "sv_total S' = sv_total S" "sv_monitor_exit S' = sv_monitor_exit S"
    "sv_remote S' = sv_remote S" "sv_harbor S' = sv_harbor S" "sv_logger S' = sv_logger S"
    "sv_modules S' = sv_modules S" "sv_env S' = sv_env S" "sv_world S' = sv_world S" by simp_all
qed

lemma globalmq_push_same: "skynet_globalmq_push S p = Some S' \<Longrightarrow> same_queues (mq_heap S) (mq_heap S')"
  by (auto simp: skynet_globalmq_push_def same_queues_def unlinked_def Let_def split: option.splits if_splits)

lemma mq_push_content:
  assumes "skynet_mq_push S p m = Some S'" and q: "mq_heap S p = Some q" and inv: "mq_inv q"
  shows "\<exists>q'. mq_heap S' p = Some q' \<and> mq_abs q' = mq_abs q @ [m] \<and> mq_inv q'
      \<and> mq_release q' = mq_release q \<and> mq_handle q' = mq_handle q"
    and "\<forall>y. y \<noteq> p \<longrightarrow> map_option unlinked (mq_heap S' y) = map_option unlinked (mq_heap S y)"
proof -
  let ?q = "mq_enqueue q m"
  have e: "mq_abs ?q = mq_abs q @ [m]" "mq_inv ?q" using inv by (simp_all add: mq_enqueue_abs mq_enqueue_inv)
  have "(\<exists>q'. mq_heap S' p = Some q' \<and> mq_abs q' = mq_abs q @ [m] \<and> mq_inv q'
      \<and> mq_release q' = mq_release q \<and> mq_handle q' = mq_handle q)
    \<and> (\<forall>y. y \<noteq> p \<longrightarrow> map_option unlinked (mq_heap S' y) = map_option unlinked (mq_heap S y))"
  proof (cases "mq_in_global q")
    case True
    with assms(1) q e show ?thesis by (auto simp: skynet_mq_push_def)
  next
    case False
    let ?g = "?q\<lparr>mq_in_global := True\<rparr>"
    let ?S = "S\<lparr>mq_heap := (mq_heap S)(p \<mapsto> ?g)\<rparr>"
    have g: "mq_abs ?g = mq_abs ?q" "mq_inv ?g = mq_inv ?q" by (simp_all add: mq_abs_def mq_inv_def mq_slots_def)
    have "skynet_globalmq_push ?S p = Some S'" using assms(1) q False by (simp add: skynet_mq_push_def)
    then have same: "same_queues (mq_heap ?S) (mq_heap S')" by (rule globalmq_push_same)
    then have "map_option unlinked (mq_heap S' p) = Some (unlinked ?g)"
      unfolding same_queues_def by (metis fun_upd_same mq_state.select_convs(1) mq_state.simps(4) mq_state.surjective mq_state.update_convs(1) option.simps(9))
    then obtain q' where q': "mq_heap S' p = Some q'" "unlinked q' = unlinked ?g" by auto
    have "map_option unlinked (mq_heap S' y) = map_option unlinked (mq_heap S y)" if "y \<noteq> p" for y
    proof -
      have "map_option unlinked (mq_heap ?S y) = map_option unlinked (mq_heap S' y)"
        using same unfolding same_queues_def by blast
      with that show ?thesis by simp
    qed
    with q' unlinked_eqD [OF q'(2)] g e show ?thesis by auto
  qed
  then show "\<exists>q'. mq_heap S' p = Some q' \<and> mq_abs q' = mq_abs q @ [m] \<and> mq_inv q'
      \<and> mq_release q' = mq_release q \<and> mq_handle q' = mq_handle q"
    and "\<forall>y. y \<noteq> p \<longrightarrow> map_option unlinked (mq_heap S' y) = map_option unlinked (mq_heap S y)" by blast+
qed

lemma mq_push_dom:
  assumes "skynet_mq_push S p m = Some S'" and "mq_heap S p = Some q" and "mq_inv q"
  shows "dom (mq_heap S') = dom (mq_heap S)"
proof (rule set_eqI)
  fix y
  have "y \<noteq> p \<Longrightarrow> (mq_heap S' y = None) = (mq_heap S y = None)"
    using mq_push_content(2) [OF assms] by (metis option.map_disc_iff)
  then show "y \<in> dom (mq_heap S') \<longleftrightarrow> y \<in> dom (mq_heap S)"
    using mq_push_content(1) [OF assms] assms(2) by (cases "y = p") auto
qed

section \<open>The invariant of the server\<close>

text \<open>
  \<open>sched_of S A\<close> is the scheduler's view of the state, \<open>A\<close> the queues the workers hold.
\<close>

definition sched_of :: "('m, 'z) mq_state_scheme \<Rightarrow> mqid set \<Rightarrow> 'm sched" where
  "sched_of S A = \<lparr>mq_heap = mq_heap S, gq_head = gq_head S, gq_tail = gq_tail S, held = A\<rparr>"

lemma sched_of_globalmq_push:
  "skynet_globalmq_push (sched_of S A) p = map_option (\<lambda>S'. sched_of S' A) (skynet_globalmq_push S p)"
  by (auto simp: skynet_globalmq_push_def sched_of_def Let_def split: option.splits)

lemma sched_of_mq_push:
  "skynet_mq_push (sched_of S A) p m = map_option (\<lambda>S'. sched_of S' A) (skynet_mq_push S p m)"
  by (auto simp: skynet_mq_push_def skynet_globalmq_push_def sched_of_def Let_def split: option.splits)

lemma sched_of_mq_mark:
  "skynet_mq_mark_release (sched_of S A) p = map_option (\<lambda>S'. sched_of S' A) (skynet_mq_mark_release S p)"
  by (auto simp: skynet_mq_mark_release_def skynet_globalmq_push_def sched_of_def Let_def split: option.splits)

text \<open>
  Every registered context is allocated and referenced, its queue is allocated and not marked, and
  the block counter lies above every address in use.
\<close>

definition contexts_ok :: "('cb, 'w) server \<Rightarrow> bool" where
  "contexts_ok S \<longleftrightarrow> (\<forall>c \<in> registered (sv_handles S). \<exists>x q. sv_ctx S c = Some x \<and> 0 < ctx_ref x
     \<and> mq_heap S (ctx_queue x) = Some q \<and> \<not> mq_release q \<and> mq_handle q = ctx_handle x)"

definition mem_ok :: "('cb, 'w) server \<Rightarrow> bool" where
  "mem_ok S \<longleftrightarrow> dom (sv_mem S) \<subseteq> {..<sv_brk S} \<and> dom (sv_ctx S) \<subseteq> {..<sv_brk S} \<and> dom (mq_heap S) \<subseteq> {..<sv_brk S}"

definition server_inv :: "('cb, 'w) server \<Rightarrow> mqid set \<Rightarrow> bool" where
  "server_inv S A \<longleftrightarrow> sched_inv (sched_of S A) \<and> slots_inv (hof S) (sv_handles S)
     \<and> names_inv (sv_handles S) \<and> contexts_ok S \<and> mem_ok S"

lemma server_inv_lookup:
  assumes "server_inv S A" and "hs_lookup (hof S) (sv_handles S) h = Some c"
  obtains x q where "sv_ctx S c = Some x" "0 < ctx_ref x" "mq_heap S (ctx_queue x) = Some q"
    "\<not> mq_release q" "mq_inv q" "ctx_handle x = h" "mq_handle q = h"
proof -
  have inv: "slots_inv (hof S) (sv_handles S)" "contexts_ok S" "sched_inv (sched_of S A)"
    using assms(1) by (simp_all add: server_inv_def)
  have c: "c \<in> registered (sv_handles S)" "hof S c = h"
    using assms(2) by (simp_all add: lookup_iff [OF inv(1)])
  then obtain x q where x: "sv_ctx S c = Some x" "0 < ctx_ref x" "mq_heap S (ctx_queue x) = Some q" "\<not> mq_release q"
    "mq_handle q = ctx_handle x"
    using inv(2) unfolding contexts_ok_def by blast
  obtain ids where "sched_ok (sched_of S A) ids" using inv(3) unfolding sched_inv_def by blast
  then have "mq_inv q" by (rule sched_okD(1) [where p = "ctx_queue x"]) (simp add: sched_of_def x)
  with x c that show thesis by (simp add: hof_def)
qed

lemma mq_push_server_inv:
  assumes inv: "server_inv S A" and q: "mq_heap S p = Some q" "\<not> mq_release q"
  shows "\<exists>S'. skynet_mq_push S p m = Some S' \<and> server_inv S' A"
proof -
  obtain ids where ok: "sched_ok (sched_of S A) ids" using inv unfolding server_inv_def sched_inv_def by blast
  have q': "mq_heap (sched_of S A) p = Some q" by (simp add: sched_of_def q)
  then have qi: "mq_inv q" by (rule sched_okD(1) [OF ok])
  obtain T ids' where "skynet_mq_push (sched_of S A) p m = Some T" "sched_ok T ids'"
    using send_ok [OF ok q' q(2)] by blast
  then obtain S' where S': "skynet_mq_push S p m = Some S'" "sched_ok (sched_of S' A) ids'"
    unfolding sched_of_mq_push by auto
  note fr = queue_frame_sv [OF mq_push_frame [OF S'(1)]]
  have hof: "hof S' = hof S" by (simp add: hof_def fr fun_eq_iff)
  have "\<exists>q'. mq_heap S' y = Some q' \<and> \<not> mq_release q' \<and> mq_handle q' = mq_handle q0"
    if "mq_heap S y = Some q0" "\<not> mq_release q0" for y q0
  proof (cases "y = p")
    case True
    with mq_push_content(1) [OF S'(1) q(1) qi] that q show ?thesis by auto
  next
    case False
    with mq_push_content(2) [OF S'(1) q(1) qi] that have "map_option unlinked (mq_heap S' y) = Some (unlinked q0)" by simp
    then obtain q1 where "mq_heap S' y = Some q1" "unlinked q1 = unlinked q0" by auto
    with that unlinked_eqD(4,5) show ?thesis by metis
  qed
  then have "contexts_ok S'"
    using inv unfolding server_inv_def contexts_ok_def fr by (metis (no_types, lifting))
  then have "server_inv S' A"
    using inv S'(2) mq_push_dom [OF S'(1) q(1) qi]
    unfolding server_inv_def sched_inv_def mem_ok_def hof fr by auto
  with S'(1) show ?thesis by blast
qed

lemma mem_ok_ctx:
  "mem_ok S \<Longrightarrow> sv_ctx S c = Some x \<Longrightarrow> mem_ok (S\<lparr>sv_ctx := (sv_ctx S)(c \<mapsto> y)\<rparr>)"
  by (auto simp: mem_ok_def)

lemma server_inv_ctx:
  assumes inv: "server_inv S A" and x: "sv_ctx S c = Some x" and r: "0 < ctx_ref y"
    and same: "ctx_queue y = ctx_queue x" "ctx_handle y = ctx_handle x"
  shows "server_inv (S\<lparr>sv_ctx := (sv_ctx S)(c \<mapsto> y)\<rparr>) A"
proof -
  let ?S = "S\<lparr>sv_ctx := (sv_ctx S)(c \<mapsto> y)\<rparr>"
  have hof: "hof ?S = hof S" using x same by (auto simp: hof_def fun_eq_iff)
  have "contexts_ok ?S" using inv x r same by (auto simp: server_inv_def contexts_ok_def)
  moreover have "sched_of ?S A = sched_of S A" by (simp add: sched_of_def)
  ultimately show ?thesis using inv mem_ok_ctx [OF _ x] by (simp add: server_inv_def hof)
qed

lemma server_inv_ref:
  assumes "server_inv S A" and "sv_ctx S c = Some x" and "0 < r"
  shows "server_inv (S\<lparr>sv_ctx := (sv_ctx S)(c \<mapsto> x\<lparr>ctx_ref := r\<rparr>)\<rparr>) A"
  using assms(3) by (intro server_inv_ctx [OF assms(1,2)]) simp_all

text \<open>
  \<open>m\<close> was appended to the queue of context \<open>c\<close> and nothing else changed but links of the global
  list.
\<close>

definition delivered :: "('cb, 'w) server \<Rightarrow> ('cb, 'w) server \<Rightarrow> addr \<Rightarrow> skynet_message \<Rightarrow> bool" where
  "delivered S S' c m \<longleftrightarrow> queue_frame S S' \<and>
     (\<exists>x q q'. sv_ctx S c = Some x \<and> mq_heap S (ctx_queue x) = Some q \<and> mq_heap S' (ctx_queue x) = Some q'
        \<and> mq_abs q' = mq_abs q @ [m]
        \<and> (\<forall>y. y \<noteq> ctx_queue x \<longrightarrow> map_option mq_abs (mq_heap S' y) = map_option mq_abs (mq_heap S y)))"

lemma map_option_unlinked_abs:
  "map_option unlinked a = map_option unlinked b \<Longrightarrow> map_option mq_abs a = map_option mq_abs b"
  by (cases a; cases b) (auto dest: unlinked_eqD(1))

lemma context_push_found:
  assumes inv: "server_inv S A" and look: "hs_lookup (hof S) (sv_handles S) h = Some c"
  shows "\<exists>S'. skynet_context_push X S h m = Some (True, S') \<and> delivered S S' c m \<and> server_inv S' A"
proof -
  obtain x q where x: "sv_ctx S c = Some x" "0 < ctx_ref x" and q: "mq_heap S (ctx_queue x) = Some q"
    "\<not> mq_release q" "mq_inv q"
    using server_inv_lookup [OF inv look] by metis
  let ?x = "x\<lparr>ctx_ref := Suc (ctx_ref x)\<rparr>"
  define S1 where "S1 = S\<lparr>sv_ctx := (sv_ctx S)(c \<mapsto> ?x)\<rparr>"
  have inv1: "server_inv S1 A" unfolding S1_def by (rule server_inv_ref [OF inv x(1)]) simp
  have q1: "mq_heap S1 (ctx_queue x) = Some q" by (simp add: S1_def q)
  obtain S2 where S2: "skynet_mq_push S1 (ctx_queue x) m = Some S2" "server_inv S2 A"
    using mq_push_server_inv [OF inv1 q1 q(2)] by blast
  note fr = queue_frame_sv [OF mq_push_frame [OF S2(1)]]
  define S3 where "S3 = S2\<lparr>sv_ctx := (sv_ctx S2)(c \<mapsto> x)\<rparr>"
  have c2: "sv_ctx S2 c = Some ?x" by (simp add: fr S1_def)
  have "x = ?x\<lparr>ctx_ref := ctx_ref x\<rparr>" by simp
  then have inv3: "server_inv S3 A"
    using server_inv_ref [OF S2(2) c2 x(2)] by (simp add: S3_def)
  have push: "skynet_context_push X S h m = Some (True, S3)"
    using x S2(1) c2
    by (simp add: skynet_context_push_def skynet_handle_grab_def look skynet_context_grab_def upd_ctx_def
        S1_def [symmetric] skynet_context_release_def S3_def Let_def) (simp add: S1_def)
  obtain hp hd tl where s2: "S2 = S1\<lparr>mq_heap := hp, gq_head := hd, gq_tail := tl\<rparr>"
    using mq_push_frame [OF S2(1)] unfolding queue_frame_def by blast
  have "(sv_ctx S)(c \<mapsto> x) = sv_ctx S" using x(1) by (simp add: map_upd_triv)
  then have s3: "S3 = S\<lparr>mq_heap := hp, gq_head := hd, gq_tail := tl\<rparr>"
    by (simp add: S3_def s2 S1_def)
  have "queue_frame S S3" by (simp add: queue_frame_def s3)
  moreover have "mq_heap S3 = mq_heap S2" "mq_heap S1 = mq_heap S" by (simp_all add: S3_def S1_def)
  ultimately have "delivered S S3 c m"
    using mq_push_content [OF S2(1) q1 q(3)] x q map_option_unlinked_abs unfolding delivered_def by metis
  with inv3 push show ?thesis by blast
qed

lemma context_push_missing:
  "hs_lookup (hof S) (sv_handles S) h = None \<Longrightarrow> skynet_context_push X S h m = Some (False, S)"
  by (simp add: skynet_context_push_def skynet_handle_grab_def)

section \<open>Timer dispatch\<close>

definition response :: "timer_event \<Rightarrow> skynet_message" where
  "response ev = \<lparr>msg_source = 0, msg_session = te_session ev, msg_data = None,
     msg_sz = scast (push_bit HANDLE_REMOTE_SHIFT (of_nat PTYPE_RESPONSE) :: i32)\<rparr>"

fun dispatch_list :: "('cb, 'w) externals \<Rightarrow> ('cb, 'w) server \<Rightarrow> timer_event list \<Rightarrow> ('cb, 'w) server option" where
  "dispatch_list X S [] = Some S"
| "dispatch_list X S (ev # evs) =
     Option.bind (skynet_context_push X S (te_handle ev) (response ev)) (\<lambda>(ok, S1). dispatch_list X S1 evs)"

text \<open>\<open>timer_update\<close> on the whole state: each executed list is dispatched before the next step.\<close>

definition server_timer_update :: "('cb, 'w) externals \<Rightarrow> ('cb, 'w) server \<Rightarrow> ('cb, 'w) server option" where
  "server_timer_update X S =
     (let (out1, T1) = timer_execute (sv_timer S) in
      Option.bind (dispatch_list X (S\<lparr>sv_timer := T1\<rparr>) out1)
        (\<lambda>S1. let (out2, T2) = timer_execute (timer_shift (sv_timer S1)) in
              dispatch_list X (S1\<lparr>sv_timer := T2\<rparr>) out2))"

text \<open>The content of a queue and the queue a handle stands for.\<close>

definition queue_msgs :: "('cb, 'w) server \<Rightarrow> mqid \<Rightarrow> skynet_message list option" where
  "queue_msgs S p = map_option mq_abs (mq_heap S p)"

definition target :: "('cb, 'w) server \<Rightarrow> u32 \<Rightarrow> mqid option" where
  "target S h = Option.bind (hs_lookup (hof S) (sv_handles S) h) (\<lambda>c. map_option ctx_queue (sv_ctx S c))"

definition for_queue :: "('cb, 'w) server \<Rightarrow> mqid \<Rightarrow> timer_event list \<Rightarrow> skynet_message list" where
  "for_queue S p evs = map response (filter (\<lambda>ev. target S (te_handle ev) = Some p) evs)"

lemma hof_cong: "sv_ctx S' = sv_ctx S \<Longrightarrow> hof S' = hof S"
  by (simp add: hof_def fun_eq_iff)

lemma queue_frame_target:
  "queue_frame S S' \<Longrightarrow> hof S' = hof S \<and> target S' h = target S h \<and> for_queue S' p evs = for_queue S p evs"
  for S S' :: "('cb, 'w) server"
  using hof_cong [OF queue_frame_sv(1), of S S'] by (simp add: target_def for_queue_def queue_frame_sv)

lemma queue_frame_trans: "queue_frame S S' \<Longrightarrow> queue_frame S' S'' \<Longrightarrow> queue_frame S S''"
proof -
  assume a: "queue_frame S S'" "queue_frame S' S''"
  obtain h hd tl where s': "S' = S\<lparr>mq_heap := h, gq_head := hd, gq_tail := tl\<rparr>"
    using a(1) unfolding queue_frame_def by blast
  obtain h hd tl where "S'' = S'\<lparr>mq_heap := h, gq_head := hd, gq_tail := tl\<rparr>"
    using a(2) unfolding queue_frame_def by blast
  then show ?thesis by (simp add: s' queue_frame_def)
qed

lemma push_queue_msgs:
  assumes inv: "server_inv S A"
  shows "\<exists>ok S'. skynet_context_push X S h m = Some (ok, S') \<and> ok = (target S h \<noteq> None) \<and> server_inv S' A
    \<and> queue_frame S S'
    \<and> (\<forall>p. queue_msgs S' p = (if target S h = Some p then map_option (\<lambda>l. l @ [m]) (queue_msgs S p) else queue_msgs S p))"
proof (cases "hs_lookup (hof S) (sv_handles S) h")
  case None
  with inv show ?thesis
    using context_push_missing [OF None] by (auto simp: target_def)
next
  case (Some c)
  obtain S' where S': "skynet_context_push X S h m = Some (True, S')" "delivered S S' c m" "server_inv S' A"
    using context_push_found [OF inv Some] by blast
  from S'(2) obtain x q q' where x: "sv_ctx S c = Some x" and q: "mq_heap S (ctx_queue x) = Some q"
    "mq_heap S' (ctx_queue x) = Some q'" "mq_abs q' = mq_abs q @ [m]"
    and other: "\<forall>y. y \<noteq> ctx_queue x \<longrightarrow> map_option mq_abs (mq_heap S' y) = map_option mq_abs (mq_heap S y)"
    and fr: "queue_frame S S'"
    unfolding delivered_def by blast
  have t: "target S h = Some (ctx_queue x)" by (simp add: target_def Some x)
  have "queue_msgs S' p = (if target S h = Some p then map_option (\<lambda>l. l @ [m]) (queue_msgs S p) else queue_msgs S p)" for p
    using q other by (cases "p = ctx_queue x") (simp_all add: t queue_msgs_def)
  with S' t fr show ?thesis by auto
qed

lemma dispatch_list_sound:
  "server_inv S A \<Longrightarrow> \<exists>S'. dispatch_list X S evs = Some S' \<and> server_inv S' A \<and> queue_frame S S'
     \<and> (\<forall>p. queue_msgs S' p = map_option (\<lambda>l. l @ for_queue S p evs) (queue_msgs S p))"
proof (induction evs arbitrary: S)
  case Nil
  then show ?case by (simp add: for_queue_def option.map_ident)
next
  case (Cons ev evs)
  obtain ok S1 where S1: "skynet_context_push X S (te_handle ev) (response ev) = Some (ok, S1)" "server_inv S1 A"
    "queue_frame S S1" "\<forall>p. queue_msgs S1 p = (if target S (te_handle ev) = Some p
       then map_option (\<lambda>l. l @ [response ev]) (queue_msgs S p) else queue_msgs S p)"
    using push_queue_msgs [OF Cons.prems] by blast
  obtain S' where S': "dispatch_list X S1 evs = Some S'" "server_inv S' A" "queue_frame S1 S'"
    "\<forall>p. queue_msgs S' p = map_option (\<lambda>l. l @ for_queue S1 p evs) (queue_msgs S1 p)"
    using Cons.IH [OF S1(2)] by blast
  have "queue_msgs S' p = map_option (\<lambda>l. l @ for_queue S p (ev # evs)) (queue_msgs S p)" for p
    using S'(4) S1(4) queue_frame_target [OF S1(3)]
    by (simp add: for_queue_def option.map_comp comp_def)
  with S1 S' queue_frame_trans [OF S1(3) S'(3)] show ?case by simp
qed

lemma server_inv_timer: "server_inv (S\<lparr>sv_timer := T\<rparr>) A = server_inv S A"
proof -
  have "hof (S\<lparr>sv_timer := T\<rparr>) = hof S" by (simp add: hof_def fun_eq_iff)
  then show ?thesis by (simp add: server_inv_def contexts_ok_def mem_ok_def sched_of_def)
qed

lemma timer_fields:
  "target (S\<lparr>sv_timer := T\<rparr>) h = target S h" "queue_msgs (S\<lparr>sv_timer := T\<rparr>) p = queue_msgs S p"
  "for_queue (S\<lparr>sv_timer := T\<rparr>) p evs = for_queue S p evs"
  using hof_cong [of "S\<lparr>sv_timer := T\<rparr>" S] by (simp_all add: target_def queue_msgs_def for_queue_def)

lemma server_timer_update_sound:
  assumes inv: "server_inv S A"
  shows "\<exists>S'. server_timer_update X S = Some S' \<and> server_inv S' A \<and> sv_timer S' = snd (timer_update (sv_timer S))
    \<and> (\<forall>p. queue_msgs S' p = map_option (\<lambda>l. l @ for_queue S p (fst (timer_update (sv_timer S)))) (queue_msgs S p))"
proof -
  obtain out1 T1 where e1: "timer_execute (sv_timer S) = (out1, T1)" by force
  let ?S = "S\<lparr>sv_timer := T1\<rparr>"
  have "server_inv ?S A" using inv by (simp add: server_inv_timer)
  from dispatch_list_sound [OF this, of X out1] obtain S1 where S1: "dispatch_list X ?S out1 = Some S1" "server_inv S1 A"
    "queue_frame ?S S1" "\<forall>p. queue_msgs S1 p = map_option (\<lambda>l. l @ for_queue S p out1) (queue_msgs S p)"
    unfolding timer_fields by blast
  have t1: "sv_timer S1 = T1" using queue_frame_sv(3) [OF S1(3)] by simp
  obtain out2 T2 where e2: "timer_execute (timer_shift T1) = (out2, T2)" by force
  let ?S1 = "S1\<lparr>sv_timer := T2\<rparr>"
  have "server_inv ?S1 A" using S1(2) by (simp add: server_inv_timer)
  from dispatch_list_sound [OF this, of X out2] obtain S2 where S2: "dispatch_list X ?S1 out2 = Some S2" "server_inv S2 A"
    "queue_frame ?S1 S2" "\<forall>p. queue_msgs S2 p = map_option (\<lambda>l. l @ for_queue S1 p out2) (queue_msgs S1 p)"
    unfolding timer_fields by blast
  have f1: "for_queue S1 p out2 = for_queue S p out2" for p
    using queue_frame_target [OF S1(3)] by (simp add: timer_fields)
  have u: "timer_update (sv_timer S) = (out1 @ out2, T2)"
    by (simp add: timer_update_def e1 e2)
  have "for_queue S p (out1 @ out2) = for_queue S p out1 @ for_queue S p out2" for p
    by (simp add: for_queue_def)
  then have "queue_msgs S2 p = map_option (\<lambda>l. l @ for_queue S p (out1 @ out2)) (queue_msgs S p)" for p
    using S2(4) S1(4) f1 by (simp add: option.map_comp comp_def)
  moreover have "server_timer_update X S = Some S2" by (simp add: server_timer_update_def e1 S1(1) t1 e2 S2(1))
  moreover have "sv_timer S2 = T2" using queue_frame_sv(3) [OF S2(3)] by simp
  ultimately show ?thesis using S2(2) u by auto
qed

section \<open>Type and size in one word\<close>

lemma and_mask_bit: "x AND mask n = x \<Longrightarrow> bit x i \<Longrightarrow> i < n" for x :: "'a::len word"
  by (metis bit_and_iff bit_mask_iff)

lemma sz_encode:
  fixes sz :: u64 and t :: i32
  assumes "sz AND mask 24 = sz"
  shows "(sz OR scast (push_bit 24 t)) AND mask 24 = sz"
    and "t AND mask 7 = t \<Longrightarrow> (ucast (drop_bit 24 (sz OR scast (push_bit 24 t))) :: i32) = t"
proof -
  note bs = and_mask_bit [OF assms(1)] and_mask_bit [of t 7]
  show "(sz OR scast (push_bit 24 t)) AND mask 24 = sz"
  proof (rule bit_word_eqI)
    fix n :: nat assume "n < LENGTH(64)"
    then show "bit ((sz OR scast (push_bit 24 t)) AND mask 24) n = bit sz n"
      using bs(1) [of n] by (cases "n < 24") (auto simp: bit_simps min_def)
  qed
  show "(ucast (drop_bit 24 (sz OR scast (push_bit 24 t))) :: i32) = t" if "t AND mask 7 = t"
  proof (rule bit_word_eqI)
    fix n :: nat assume "n < LENGTH(32)"
    then show "bit (ucast (drop_bit 24 (sz OR scast (push_bit 24 t))) :: i32) n = bit t n"
      using bs(1) [of "24 + n"] bs(2) [OF that, of n] bs(2) [OF that, of 7] by (cases "n < 7") (auto simp: bit_simps min_def)
  qed
qed

lemma handle_mask_u64: "(ucast HANDLE_MASK :: u64) = mask 24"
  by (simp add: HANDLE_MASK_def mask_eq_decr_exp)

lemma malloc_simps:
  "sv_mem (snd (skynet_malloc S b)) = (sv_mem S)(sv_brk S \<mapsto> b)" "fst (skynet_malloc S b) = sv_brk S"
  by (simp_all add: skynet_malloc_def)

lemma mem_ok_fresh:
  assumes "mem_ok S" and "sv_brk S \<le> a"
  shows "sv_mem S a = None" and "sv_ctx S a = None" and "mq_heap S a = None"
  using assms unfolding mem_ok_def by (auto simp: subset_eq dom_def)

lemma server_inv_mem:
  "server_inv S A \<Longrightarrow> mem_ok S' \<Longrightarrow> sv_ctx S' = sv_ctx S \<Longrightarrow> sv_handles S' = sv_handles S \<Longrightarrow>
     sched_of S' A = sched_of S A \<Longrightarrow> server_inv S' A"
  using hof_cong [of S' S] by (auto simp: server_inv_def contexts_ok_def sched_of_def)

lemma server_inv_malloc: "server_inv S A \<Longrightarrow> server_inv (snd (skynet_malloc S b)) A"
proof (rule server_inv_mem)
  assume "server_inv S A"
  then show "mem_ok (snd (skynet_malloc S b))"
    by (auto simp: server_inv_def skynet_malloc_def mem_ok_def less_Suc_eq)
qed (simp_all add: skynet_malloc_def sched_of_def)

lemma free_fields:
  "skynet_free S p = Some S' \<Longrightarrow> S' = S\<lparr>sv_mem := sv_mem S'\<rparr> \<and> (mem_ok S \<longrightarrow> mem_ok S')"
  by (auto simp: skynet_free_def mem_ok_def subset_eq dom_def split: option.splits if_splits)

lemma server_inv_mem_upd: "server_inv S A \<Longrightarrow> mem_ok (S\<lparr>sv_mem := m\<rparr>) \<Longrightarrow> server_inv (S\<lparr>sv_mem := m\<rparr>) A"
  by (erule server_inv_mem) (simp_all add: sched_of_def)

lemma server_inv_free:
  assumes "server_inv S A" and "skynet_free S p = Some S'"
  shows "server_inv S' A"
proof -
  from free_fields [OF assms(2)] assms(1) have "S' = S\<lparr>sv_mem := sv_mem S'\<rparr>" "mem_ok S'"
    by (auto simp: server_inv_def)
  with server_inv_mem_upd [OF assms(1), of "sv_mem S'"] show ?thesis by metis
qed

lemma server_inv_session:
  assumes inv: "server_inv S A" and x: "sv_ctx S c = Some x"
  shows "server_inv (S\<lparr>sv_ctx := (sv_ctx S)(c \<mapsto> x\<lparr>ctx_session_id := s\<rparr>)\<rparr>) A"
proof -
  let ?S = "S\<lparr>sv_ctx := (sv_ctx S)(c \<mapsto> x\<lparr>ctx_session_id := s\<rparr>)\<rparr>"
  have hof: "hof ?S = hof S" using x by (auto simp: hof_def fun_eq_iff)
  have "contexts_ok ?S" using inv x by (auto simp: server_inv_def contexts_ok_def)
  moreover have "sched_of ?S A = sched_of S A" by (simp add: sched_of_def)
  ultimately show ?thesis using inv mem_ok_ctx [OF _ x] by (simp add: server_inv_def hof)
qed

lemma newsession_step:
  assumes "sv_ctx S c = Some x"
  shows "\<exists>s. skynet_context_newsession S c = Some (s, S\<lparr>sv_ctx := (sv_ctx S)(c \<mapsto> x\<lparr>ctx_session_id := s\<rparr>)\<rparr>)
    \<and> 0 < sint s \<and> (0 < sint (ctx_session_id x + 1) \<longrightarrow> s = ctx_session_id x + 1)"
  using assms by (auto simp: skynet_context_newsession_def Let_def)

lemma newsession_inv:
  assumes "server_inv S A" and "skynet_context_newsession S c = Some (s, S')"
  shows "server_inv S' A"
proof -
  obtain x where x: "sv_ctx S c = Some x"
    using assms(2) by (auto simp: skynet_context_newsession_def split: option.splits)
  from newsession_step [OF x] assms(2) server_inv_session [OF assms(1) x] show ?thesis by auto
qed

lemma filter_args_inv:
  assumes "server_inv S A" and "filter_args S ctx type session data sz = Some (session', data', sz', S1)"
  shows "server_inv S1 A"
proof -
  obtain s0 S0 where s0: "(if type AND PTYPE_TAG_ALLOCSESSION \<noteq> 0
            then if session \<noteq> 0 then None else Option.bind ctx (skynet_context_newsession S)
            else Some (session, S)) = Some (s0, S0)"
    using assms(2) unfolding filter_args_def Let_def by (auto simp: bind_eq_Some_conv simp del: split_paired_Ex)
  have inv0: "server_inv S0 A"
    using s0 assms(1) newsession_inv by (auto simp: bind_eq_Some_conv split: if_splits)
  have "S1 = S0 \<or> (\<exists>b. S1 = snd (skynet_malloc S0 b))"
    using assms(2) unfolding filter_args_def Let_def s0
    by (auto split: if_splits option.splits blob.splits prod.splits) (metis snd_conv)+
  with inv0 server_inv_malloc show ?thesis by metis
qed

section \<open>A new context\<close>

lemma boot_inv: "server_inv (skynet_boot harbor path wall clk env w) {}"
proof -
  let ?S = "skynet_boot harbor path wall clk env w"
  have "sched_ok (sched_of ?S {}) []"
    by (simp add: sched_ok_def gq_rep_def queues_ok_def sched_of_def skynet_boot_def skynet_harbor_init_def)
  then show ?thesis
    unfolding server_inv_def sched_inv_def
    by (auto simp: skynet_boot_def skynet_harbor_init_def init_slots_inv init_names_inv contexts_ok_def
        init_registered mem_ok_def)
qed

lemma context_alloc_inv:
  assumes inv: "server_inv S A" and room: "card (registered (sv_handles S)) < 2 ^ 24"
  shows "\<exists>c x S'. context_alloc S m inst = Some (c, S') \<and> server_inv S' (insert (ctx_queue x) A)
    \<and> sv_ctx S' c = Some x \<and> ctx_ref x = 2 \<and> ctx_cb x = None \<and> ctx_init x = False \<and> ctx_session_id x = 0
    \<and> hs_lookup (hof S') (sv_handles S') (ctx_handle x) = Some c \<and> queue_msgs S' (ctx_queue x) = Some []
    \<and> registered (sv_handles S') = insert c (registered (sv_handles S)) \<and> c \<notin> registered (sv_handles S)
    \<and> ctx_handle x AND NOT HANDLE_MASK = hs_harbor (sv_handles S) \<and> sv_mem S' = sv_mem S
    \<and> sv_harbor S' = sv_harbor S \<and> sv_timer S' = sv_timer S \<and> sv_remote S' = sv_remote S"
proof -
  let ?c = "sv_brk S" and ?q = "Suc (sv_brk S)"
  define ctx :: "'a skynet_context" where "ctx = \<lparr>ctx_instance = inst, ctx_mod = m, ctx_cb = None, ctx_queue = ?q,
     ctx_logfile = None, ctx_handle = 0, ctx_session_id = 0, ctx_ref = 2, ctx_init = False, ctx_endless = False\<rparr>"
  have mem: "mem_ok S" and cok: "contexts_ok S" and sl: "slots_inv (hof S) (sv_handles S)"
    and ns: "names_inv (sv_handles S)" using inv by (simp_all add: server_inv_def)
  have fresh: "sv_ctx S ?c = None" "mq_heap S ?q = None" using mem_ok_fresh [OF mem] by simp_all
  have unreg: "?c \<notin> registered (sv_handles S)" using cok fresh(1) unfolding contexts_ok_def by force
  define S1 where "S1 = S\<lparr>sv_ctx := (sv_ctx S)(?c \<mapsto> ctx), sv_brk := Suc ?q\<rparr>"
  have hof1: "hof S1 = hof S" using fresh(1) by (auto simp: hof_def S1_def ctx_def fun_eq_iff)
  have "sv_handles S1 = sv_handles S" by (simp add: S1_def)
  then obtain h H where reg: "skynet_handle_register (hof S1) (sv_handles S1) ?c = Some (h, H)"
    and ra: "registered_as (hof S) (sv_handles S) ?c h H"
    using register_total [OF sl unreg room] hof1 by auto
  define x where "x = ctx\<lparr>ctx_handle := h\<rparr>"
  define S' where "S' = S\<lparr>sv_brk := Suc ?q, sv_handles := H, sv_ctx := (sv_ctx S)(?c \<mapsto> x),
     mq_heap := (mq_heap S)(?q \<mapsto> mq_new h), sv_total := sv_total S + 1\<rparr>"
  have al: "context_alloc S m inst = Some (?c, S')"
    using reg by (simp add: context_alloc_def Let_def ctx_def [symmetric] S1_def [symmetric])
      (simp add: S1_def S'_def x_def skynet_mq_create_def ctx_def)
  have hof': "hof S' = (hof S)(?c := h)" using fresh(1) by (auto simp: hof_def S'_def x_def fun_eq_iff)
  have q: "ctx_queue x = ?q" by (simp add: x_def ctx_def)
  obtain ids where ok: "sched_ok (sched_of S A) ids" using inv unfolding server_inv_def sched_inv_def by blast
  have "sched_ok ((skynet_mq_create (sched_of S A) ?q h)\<lparr>held := insert ?q (held (sched_of S A))\<rparr>) ids"
    by (rule create_ok [OF ok]) (simp add: sched_of_def fresh(2))
  moreover have "(skynet_mq_create (sched_of S A) ?q h)\<lparr>held := insert ?q (held (sched_of S A))\<rparr> = sched_of S' (insert ?q A)"
    by (simp add: sched_of_def skynet_mq_create_def S'_def)
  ultimately have sch: "sched_inv (sched_of S' (insert ?q A))" unfolding sched_inv_def by auto
  have H: "slots_inv ((hof S)(?c := h)) H" "registered H = insert ?c (registered (sv_handles S))"
    "h AND NOT HANDLE_MASK = hs_harbor (sv_handles S)" using ra unfolding registered_as_def by blast+
  have "contexts_ok S'"
    unfolding contexts_ok_def
  proof
    fix d assume "d \<in> registered (sv_handles S')"
    then consider "d = ?c" | "d \<in> registered (sv_handles S)" "d \<noteq> ?c" using H(2) by (auto simp: S'_def)
    then show "\<exists>y qu. sv_ctx S' d = Some y \<and> 0 < ctx_ref y \<and> mq_heap S' (ctx_queue y) = Some qu \<and> \<not> mq_release qu
        \<and> mq_handle qu = ctx_handle y"
    proof cases
      case 1
      then show ?thesis by (simp add: S'_def x_def ctx_def mq_new_def)
    next
      case 2
      then obtain y qu where y: "sv_ctx S d = Some y" "0 < ctx_ref y" "mq_heap S (ctx_queue y) = Some qu" "\<not> mq_release qu"
        "mq_handle qu = ctx_handle y"
        using cok unfolding contexts_ok_def by blast
      with fresh(2) have "ctx_queue y \<noteq> ?q" by auto
      with y 2 show ?thesis by (simp add: S'_def)
    qed
  qed
  moreover have "names_inv H" using register_names_map [OF reg] ns by (simp add: S1_def)
  moreover have "mem_ok S'" using mem by (auto simp: mem_ok_def S'_def)
  ultimately have inv': "server_inv S' (insert ?q A)"
    using sch H(1) by (simp add: server_inv_def hof') (simp add: S'_def)
  have "hs_lookup (hof S') (sv_handles S') h = Some ?c"
    using lookup_iff [OF H(1), of h ?c] H(2) by (simp add: hof') (simp add: S'_def)
  moreover have "queue_msgs S' ?q = Some []" by (simp add: queue_msgs_def S'_def mq_new_abs)
  moreover have "ctx_handle x = h" "ctx_ref x = 2" "ctx_cb x = None" "\<not> ctx_init x" "ctx_session_id x = 0"
    by (simp_all add: x_def ctx_def)
  ultimately show ?thesis
    using al inv' q H unreg by (intro exI [of _ ?c] exI [of _ x] exI [of _ S']) (simp add: S'_def)
qed

section \<open>Sending\<close>

definition same_places :: "('cb, 'w) server \<Rightarrow> ('cb, 'w) server \<Rightarrow> bool" where
  "same_places S S' \<longleftrightarrow> sv_handles S' = sv_handles S \<and> hof S' = hof S \<and> sv_harbor S' = sv_harbor S
     \<and> sv_remote S' = sv_remote S \<and> mq_heap S' = mq_heap S
     \<and> (\<forall>c. map_option ctx_queue (sv_ctx S' c) = map_option ctx_queue (sv_ctx S c))
     \<and> (\<forall>c. map_option ctx_handle (sv_ctx S' c) = map_option ctx_handle (sv_ctx S c))"

lemma same_places_refl: "same_places S S"
  by (simp add: same_places_def)

lemma same_places_trans: "same_places S S' \<Longrightarrow> same_places S' S'' \<Longrightarrow> same_places S S''"
  by (simp add: same_places_def)

lemma same_placesD:
  assumes "same_places S S'"
  shows "target S' h = target S h" "queue_msgs S' p = queue_msgs S p"
    "skynet_harbor_message_isremote S' h = skynet_harbor_message_isremote S h"
  using assms by (simp_all add: same_places_def target_def queue_msgs_def skynet_harbor_message_isremote_def)

lemma malloc_places: "same_places S (snd (skynet_malloc S b))"
  using hof_cong [of "snd (skynet_malloc S b)" S] by (simp add: same_places_def skynet_malloc_def)

lemma newsession_places:
  assumes "skynet_context_newsession S c = Some (s, S')"
  shows "same_places S S' \<and> sv_mem S' = sv_mem S \<and> sv_brk S' = sv_brk S \<and> 0 < sint s"
proof -
  obtain x where x: "sv_ctx S c = Some x"
    using assms by (auto simp: skynet_context_newsession_def split: option.splits)
  from newsession_step [OF x] assms obtain s' where
    S': "S' = S\<lparr>sv_ctx := (sv_ctx S)(c \<mapsto> x\<lparr>ctx_session_id := s'\<rparr>)\<rparr>" and s': "s = s'" "0 < sint s'" by auto
  have "hof S' = hof S" using x by (auto simp: hof_def S' fun_eq_iff)
  with x s' show ?thesis by (auto simp: same_places_def S')
qed

lemma filter_args_cases:
  assumes "filter_args S ctx type session data sz = Some (session', data', sz', S1)"
  obtains S0 where "(if type AND PTYPE_TAG_ALLOCSESSION \<noteq> 0
        then session = 0 \<and> Option.bind ctx (skynet_context_newsession S) = Some (session', S0)
        else session' = session \<and> S0 = S)"
    and "sz' = sz OR scast (push_bit HANDLE_REMOTE_SHIFT (type AND 0xff))"
    and "if type AND PTYPE_TAG_DONTCOPY \<noteq> 0 \<or> data = None then data' = data \<and> S1 = S0
      else \<exists>a bs. data = Some a \<and> sv_mem S0 a = Some (Bytes bs) \<and> unat sz \<le> length bs
        \<and> data' = Some (sv_brk S0) \<and> S1 = snd (skynet_malloc S0 (Bytes (take (unat sz) bs @ [0])))"
proof -
  obtain s0 S0 where s0: "(if type AND PTYPE_TAG_ALLOCSESSION \<noteq> 0
            then if session \<noteq> 0 then None else Option.bind ctx (skynet_context_newsession S)
            else Some (session, S)) = Some (s0, S0)"
    using assms unfolding filter_args_def Let_def by (auto simp: bind_eq_Some_conv simp del: split_paired_Ex)
  have e: "session' = s0" "sz' = sz OR scast (push_bit HANDLE_REMOTE_SHIFT (type AND 0xff))"
    using assms unfolding filter_args_def Let_def s0
    by (auto split: if_splits option.splits blob.splits prod.splits)
  have "if type AND PTYPE_TAG_DONTCOPY \<noteq> 0 \<or> data = None then data' = data \<and> S1 = S0
      else \<exists>a bs. data = Some a \<and> sv_mem S0 a = Some (Bytes bs) \<and> unat sz \<le> length bs
        \<and> data' = Some (sv_brk S0) \<and> S1 = snd (skynet_malloc S0 (Bytes (take (unat sz) bs @ [0])))"
    using assms unfolding filter_args_def Let_def s0
    by (auto simp: skynet_malloc_def split: if_splits option.splits blob.splits prod.splits)
  with e s0 that show thesis by (cases "type AND PTYPE_TAG_ALLOCSESSION \<noteq> 0") (auto split: if_splits)
qed

lemma filter_args_places:
  assumes "filter_args S ctx type session data sz = Some (session', data', sz', S1)"
  shows "same_places S S1"
proof -
  obtain S0 where a: "(if type AND PTYPE_TAG_ALLOCSESSION \<noteq> 0
        then session = 0 \<and> Option.bind ctx (skynet_context_newsession S) = Some (session', S0)
        else session' = session \<and> S0 = S)"
    and b: "if type AND PTYPE_TAG_DONTCOPY \<noteq> 0 \<or> data = None then data' = data \<and> S1 = S0
      else \<exists>a bs. data = Some a \<and> sv_mem S0 a = Some (Bytes bs) \<and> unat sz \<le> length bs
        \<and> data' = Some (sv_brk S0) \<and> S1 = snd (skynet_malloc S0 (Bytes (take (unat sz) bs @ [0])))"
    using filter_args_cases [OF assms] by metis
  have "same_places S S0"
    using a newsession_places same_places_refl by (auto simp: bind_eq_Some_conv split: if_splits)
  moreover have "same_places S0 S1" using b malloc_places same_places_refl by (auto split: if_splits)
  ultimately show ?thesis by (rule same_places_trans)
qed

lemma send_local:
  assumes inv: "server_inv S A" and sz: "sz AND ucast HANDLE_MASK = sz"
    and args: "filter_args S (Some c) type session data sz = Some (session', data', sz', S1)"
    and x: "sv_ctx S c = Some x" and dest: "dest \<noteq> 0" "skynet_harbor_message_isremote S dest = Some False"
  shows "\<exists>ok S2. skynet_context_push X S1 dest \<lparr>msg_source = (if source = 0 then ctx_handle x else source),
       msg_session = session', msg_data = data', msg_sz = sz'\<rparr> = Some (ok, S2) \<and> ok = (target S dest \<noteq> None)
    \<and> skynet_send X S (Some c) source dest type session data sz
        = (if ok then Some (session', S2) else map_option (Pair (- 1)) (skynet_free S2 data'))
    \<and> server_inv S2 A \<and> sv_mem S2 = sv_mem S1
    \<and> (\<forall>q. queue_msgs S2 q = (if target S dest = Some q
         then map_option (\<lambda>l. l @ [\<lparr>msg_source = (if source = 0 then ctx_handle x else source),
           msg_session = session', msg_data = data', msg_sz = sz'\<rparr>]) (queue_msgs S q) else queue_msgs S q))"
proof -
  let ?m = "\<lparr>msg_source = (if source = 0 then ctx_handle x else source),
       msg_session = session', msg_data = data', msg_sz = sz'\<rparr>"
  note pl = filter_args_places [OF args]
  obtain ok S2 where p: "skynet_context_push X S1 dest ?m = Some (ok, S2)" "ok = (target S1 dest \<noteq> None)"
    "server_inv S2 A" "queue_frame S1 S2"
    "\<forall>q. queue_msgs S2 q = (if target S1 dest = Some q then map_option (\<lambda>l. l @ [?m]) (queue_msgs S1 q) else queue_msgs S1 q)"
    using push_queue_msgs [OF filter_args_inv [OF inv args]] by blast
  have src: "(if source = 0 then Option.bind (Some c) (\<lambda>c. map_option ctx_handle (sv_ctx S1 c)) else Some source)
      = Some (if source = 0 then ctx_handle x else source)"
    using pl x by (simp add: same_places_def)
  have "skynet_send X S (Some c) source dest type session data sz
      = (if ok then Some (session', S2) else map_option (Pair (- 1)) (skynet_free S2 data'))"
    unfolding skynet_send_def args using sz dest src p(1) same_placesD(3) [OF pl] by simp
  with p same_placesD(1,2) [OF pl] queue_frame_sv(4) [OF p(4)] show ?thesis by auto
qed

lemma type_and_masks: "type AND 0x80 = 0 \<Longrightarrow> (type AND 0xff) AND mask 7 = type AND 0xff" for type :: i32
proof -
  assume a: "type AND 0x80 = 0"
  have m: "(0xff :: i32) = mask 8" by (simp add: mask_eq_decr_exp)
  have b: "bit (0x80 :: i32) 7" by simp
  have "\<not> bit type 7"
  proof
    assume "bit type 7"
    with b have "bit (type AND 0x80) 7" by (simp add: bit_and_iff)
    with a show False by simp
  qed
  then have "n < 8 \<Longrightarrow> bit type n \<Longrightarrow> n < 7" for n by (cases "n = 7") auto
  then show ?thesis unfolding m by (intro bit_word_eqI) (auto simp: bit_simps)
qed

lemma filter_args_sz:
  assumes "filter_args S ctx type session data sz = Some (session', data', sz', S1)" and "sz AND ucast HANDLE_MASK = sz"
  shows "sz' AND ucast HANDLE_MASK = sz"
    and "type AND 0x80 = 0 \<Longrightarrow> (ucast (drop_bit HANDLE_REMOTE_SHIFT sz') :: i32) = type AND 0xff"
proof -
  have s: "sz' = sz OR scast (push_bit HANDLE_REMOTE_SHIFT (type AND 0xff))"
    using filter_args_cases [OF assms(1)] by metis
  note e = sz_encode [of sz "type AND 0xff"]
  have sz: "sz AND mask 24 = sz" using assms(2) by (simp only: handle_mask_u64)
  show "sz' AND ucast HANDLE_MASK = sz"
    using e(1) [OF sz] by (simp only: s handle_mask_u64 HANDLE_REMOTE_SHIFT_def)
  show "type AND 0x80 = 0 \<Longrightarrow> (ucast (drop_bit HANDLE_REMOTE_SHIFT sz') :: i32) = type AND 0xff"
    using e(2) [OF sz type_and_masks] by (simp only: s HANDLE_REMOTE_SHIFT_def)
qed

lemma context_send_sound:
  assumes inv: "server_inv S A" and y: "sv_ctx S r = Some y" and q: "mq_heap S (ctx_queue y) = Some q" "\<not> mq_release q"
  shows "\<exists>S'. skynet_context_send S r a sz source type session = Some S' \<and> server_inv S' A \<and> queue_frame S S'
    \<and> (\<forall>p. queue_msgs S' p = (if p = ctx_queue y
         then map_option (\<lambda>l. l @ [\<lparr>msg_source = source, msg_session = session, msg_data = a,
           msg_sz = sz OR scast (push_bit HANDLE_REMOTE_SHIFT type)\<rparr>]) (queue_msgs S p) else queue_msgs S p))"
proof -
  let ?m = "\<lparr>msg_source = source, msg_session = session, msg_data = a,
           msg_sz = sz OR scast (push_bit HANDLE_REMOTE_SHIFT type)\<rparr>"
  obtain S' where S': "skynet_mq_push S (ctx_queue y) ?m = Some S'" "server_inv S' A"
    using mq_push_server_inv [OF inv q] by blast
  obtain ids where "sched_ok (sched_of S A) ids" using inv unfolding server_inv_def sched_inv_def by blast
  then have "mq_inv q" by (rule sched_okD(1) [where p = "ctx_queue y"]) (simp add: sched_of_def q)
  note con = mq_push_content [OF S'(1) q(1) this]
  have "queue_msgs S' p = (if p = ctx_queue y then map_option (\<lambda>l. l @ [?m]) (queue_msgs S p) else queue_msgs S p)" for p
    using con q(1) by (cases "p = ctx_queue y") (auto simp: queue_msgs_def intro: map_option_unlinked_abs)
  with S' y mq_push_frame [OF S'(1)] show ?thesis by (auto simp: skynet_context_send_def)
qed

lemma send_remote:
  assumes inv: "server_inv S A" and sz: "sz AND ucast HANDLE_MASK = sz"
    and args: "filter_args S (Some c) type session data sz = Some (session', data', sz', S1)"
    and x: "sv_ctx S c = Some x" and dest: "dest \<noteq> 0" "skynet_harbor_message_isremote S dest = Some True"
    and r: "sv_remote S = Some r" "sv_ctx S r = Some y" "mq_heap S (ctx_queue y) = Some q" "\<not> mq_release q"
    and type: "type AND 0x80 = 0" "type AND 0xff \<noteq> of_nat PTYPE_SYSTEM" "type AND 0xff \<noteq> of_nat PTYPE_HARBOR"
  shows "\<exists>S2 b. skynet_send X S (Some c) source dest type session data sz = Some (session', S2) \<and> server_inv S2 A
    \<and> sv_mem S2 = (sv_mem S1)(b \<mapsto> Remote \<lparr>rm_name = [], rm_handle = dest, rm_message = data', rm_sz = sz\<rparr>)
    \<and> sv_mem S1 b = None
    \<and> (\<forall>p. queue_msgs S2 p = (if p = ctx_queue y
         then map_option (\<lambda>l. l @ [\<lparr>msg_source = (if source = 0 then ctx_handle x else source), msg_session = session',
           msg_data = Some b, msg_sz = 40 OR scast (push_bit HANDLE_REMOTE_SHIFT (type AND 0xff))\<rparr>]) (queue_msgs S p)
         else queue_msgs S p))"
proof -
  let ?src = "if source = 0 then ctx_handle x else source"
  let ?rm = "\<lparr>rm_name = [], rm_handle = dest, rm_message = data', rm_sz = sz\<rparr>"
  note pl = filter_args_places [OF args]
  note fs = filter_args_sz [OF args sz]
  have inv1: "server_inv S1 A" by (rule filter_args_inv [OF inv args])
  define S2 where "S2 = snd (skynet_malloc S1 (Remote ?rm))"
  have m: "skynet_malloc S1 (Remote ?rm) = (sv_brk S1, S2)" by (simp add: S2_def skynet_malloc_def)
  have pl2: "same_places S S2" unfolding S2_def by (rule same_places_trans [OF pl malloc_places])
  have inv2: "server_inv S2 A" unfolding S2_def by (rule server_inv_malloc [OF inv1])
  obtain y2 where y2: "sv_ctx S2 r = Some y2" "ctx_queue y2 = ctx_queue y"
    using pl2 r(2) unfolding same_places_def by (metis map_option_eq_Some)
  have "mq_heap S2 (ctx_queue y2) = Some q" using pl2 r(3) y2 by (simp add: same_places_def)
  from context_send_sound [OF inv2 y2(1) this r(4), of "Some (sv_brk S1)" 40 ?src "type AND 0xff" session']
  obtain S3 where S3: "skynet_context_send S2 r (Some (sv_brk S1)) 40 ?src (type AND 0xff) session' = Some S3"
    "server_inv S3 A" "queue_frame S2 S3"
    "\<forall>p. queue_msgs S3 p = (if p = ctx_queue y
         then map_option (\<lambda>l. l @ [\<lparr>msg_source = ?src, msg_session = session', msg_data = Some (sv_brk S1),
           msg_sz = 40 OR scast (push_bit HANDLE_REMOTE_SHIFT (type AND 0xff))\<rparr>]) (queue_msgs S2 p) else queue_msgs S2 p)"
    unfolding y2(2) by blast
  have hs: "skynet_harbor_send S1 \<lparr>rm_name = [], rm_handle = dest, rm_message = data', rm_sz = sz'\<rparr> ?src session' = Some S3"
    using fs(1) fs(2) [OF type(1)] type(2,3) r(1) pl S3(1)
    by (simp add: skynet_harbor_send_def same_places_def m Let_def)
  have src: "(if source = 0 then Option.bind (Some c) (\<lambda>c. map_option ctx_handle (sv_ctx S1 c)) else Some source) = Some ?src"
    using pl x by (simp add: same_places_def)
  have "skynet_send X S (Some c) source dest type session data sz = Some (session', S3)"
    unfolding skynet_send_def args using sz dest src hs same_placesD(3) [OF pl] by simp
  moreover have "sv_mem S3 = (sv_mem S1)(sv_brk S1 \<mapsto> Remote ?rm)"
    using queue_frame_sv(4) [OF S3(3)] by (simp add: S2_def malloc_simps)
  moreover have "sv_mem S1 (sv_brk S1) = None"
    using inv1 mem_ok_fresh(1) [of S1 "sv_brk S1"] by (simp add: server_inv_def)
  ultimately show ?thesis using S3(2,4) same_placesD(2) [OF pl2] by auto
qed

lemma filter_args_effect_aux:
  assumes "mem_ok S" and "filter_args S ctx type session data sz = Some (session', data', sz', S1)"
    and "sz AND ucast HANDLE_MASK = sz"
  shows "sz' AND ucast HANDLE_MASK = sz
    \<and> (type AND 0x80 = 0 \<longrightarrow> (ucast (drop_bit HANDLE_REMOTE_SHIFT sz') :: i32) = type AND 0xff)
    \<and> (if type AND PTYPE_TAG_ALLOCSESSION \<noteq> 0 then session = 0 \<and> 0 < sint session' else session' = session)
    \<and> (if type AND PTYPE_TAG_DONTCOPY \<noteq> 0 \<or> data = None then data' = data \<and> sv_mem S1 = sv_mem S
       else \<exists>a b bs. data = Some a \<and> sv_mem S a = Some (Bytes bs) \<and> data' = Some b \<and> sv_mem S b = None
         \<and> sv_mem S1 = (sv_mem S)(b \<mapsto> Bytes (take (unat sz) bs @ [0])))"
proof -
  obtain S0 where a: "(if type AND PTYPE_TAG_ALLOCSESSION \<noteq> 0
        then session = 0 \<and> Option.bind ctx (skynet_context_newsession S) = Some (session', S0)
        else session' = session \<and> S0 = S)"
    and b: "if type AND PTYPE_TAG_DONTCOPY \<noteq> 0 \<or> data = None then data' = data \<and> S1 = S0
      else \<exists>a bs. data = Some a \<and> sv_mem S0 a = Some (Bytes bs) \<and> unat sz \<le> length bs
        \<and> data' = Some (sv_brk S0) \<and> S1 = snd (skynet_malloc S0 (Bytes (take (unat sz) bs @ [0])))"
    using filter_args_cases [OF assms(2)] by metis
  have s0: "sv_mem S0 = sv_mem S" "sv_brk S0 = sv_brk S"
    and ss: "if type AND PTYPE_TAG_ALLOCSESSION \<noteq> 0 then session = 0 \<and> 0 < sint session' else session' = session"
    using a newsession_places by (auto simp: bind_eq_Some_conv split: if_splits)
  have "if type AND PTYPE_TAG_DONTCOPY \<noteq> 0 \<or> data = None then data' = data \<and> sv_mem S1 = sv_mem S
       else \<exists>a b bs. data = Some a \<and> sv_mem S a = Some (Bytes bs) \<and> data' = Some b \<and> sv_mem S b = None
         \<and> sv_mem S1 = (sv_mem S)(b \<mapsto> Bytes (take (unat sz) bs @ [0]))"
    using b s0 mem_ok_fresh(1) [OF assms(1) order_refl] by (auto simp: malloc_simps split: if_splits)
  with ss filter_args_sz [OF assms(2,3)] show ?thesis by blast
qed

section \<open>An example state\<close>

text \<open>The services of the examples do nothing.\<close>

definition idle_module :: skynet_module where
  "idle_module = \<lparr>mod_name = ''idle'', mod_module = 0, mod_create = None, mod_init = None,
     mod_release = None, mod_signal = None\<rparr>"

text \<open>Module functions that succeed and change nothing, for the concrete examples.\<close>

definition example_externals :: "(nat, unit) externals" where
  "example_externals = \<lparr>x_dlopen = (\<lambda>path. if path = ''./svc.so'' then Some 1 else None),
     x_dlsym = (\<lambda>lib sym. if sym = ''svc_init'' then Some 2 else None),
     x_create = (\<lambda>f w. (Some 3, w)), x_init = (\<lambda>f inst c args S. Some (0, S)),
     x_release = (\<lambda>f inst S. Some S), x_signal = (\<lambda>f inst n S. Some S),
     x_callback = (\<lambda>cb c type session source msg sz S. Some (False, S)),
     x_fopen = (\<lambda>name w. (Some 4, w)), x_fwrite = (\<lambda>f t w. w), x_fclose = (\<lambda>f w. w), x_ctime = (\<lambda>t. [])\<rparr>"

definition example_boot :: "(nat, unit) server" where
  "example_boot = skynet_boot 1 [] (0, 0) (0, 0) Map.empty ()"

lemma harbor_local: "h AND NOT HANDLE_MASK = 0x1000000 \<Longrightarrow> sv_harbor S = 0x1000000 \<Longrightarrow>
    skynet_harbor_message_isremote S h = Some False \<and> h \<noteq> 0"
  by (auto simp: skynet_harbor_message_isremote_def)

lemma example_server:
  obtains S c x A where "server_inv (S :: (nat, unit) server) A" "sv_ctx S c = Some x"
    "target S (ctx_handle x) = Some (ctx_queue x)" "queue_msgs S (ctx_queue x) = Some []"
    "skynet_harbor_message_isremote S (ctx_handle x) = Some False" "ctx_handle x \<noteq> 0"
    "sv_mem S = Map.empty" "sv_timer S = skynet_timer_init (0, 0) (0, 0)" "ctx_session_id x = 0"
    "sv_harbor S = 0x1000000" "\<forall>h. h \<noteq> ctx_handle x \<longrightarrow> target S h = None"
proof -
  have b: "sv_handles example_boot = skynet_handle_init 1" "sv_mem example_boot = Map.empty"
    "sv_harbor example_boot = 0x1000000" "sv_timer example_boot = skynet_timer_init (0, 0) (0, 0)"
    by (simp_all add: example_boot_def skynet_boot_def skynet_harbor_init_def HANDLE_REMOTE_SHIFT_def)
  have inv: "server_inv example_boot {}" unfolding example_boot_def by (rule boot_inv)
  have room: "card (registered (sv_handles example_boot)) < 2 ^ 24" by (simp add: b init_registered)
  have hb: "hs_harbor (sv_handles example_boot) = 0x1000000"
    by (simp add: b skynet_handle_init_def HANDLE_REMOTE_SHIFT_def)
  obtain c x and S :: "(nat, unit) server" where S: "server_inv S (insert (ctx_queue x) {})" "sv_ctx S c = Some x"
    "hs_lookup (hof S) (sv_handles S) (ctx_handle x) = Some c" "queue_msgs S (ctx_queue x) = Some []"
    "ctx_handle x AND NOT HANDLE_MASK = 0x1000000" "sv_mem S = Map.empty" "sv_harbor S = 0x1000000"
    "sv_timer S = skynet_timer_init (0, 0) (0, 0)" "ctx_session_id x = 0"
    "registered (sv_handles S) = insert c (registered (sv_handles example_boot))"
    using context_alloc_inv [OF inv room, of idle_module 0] unfolding b(2-4) hb by (elim exE conjE) (rule that)
  have "hs_lookup (hof S) (sv_handles S) h = None" if "h \<noteq> ctx_handle x" for h
  proof (rule ccontr)
    assume "hs_lookup (hof S) (sv_handles S) h \<noteq> None"
    then obtain d where "hs_lookup (hof S) (sv_handles S) h = Some d" by blast
    moreover have sl: "slots_inv (hof S) (sv_handles S)" using S(1) by (simp add: server_inv_def)
    ultimately have "d \<in> registered (sv_handles S)" "hof S d = h"
      using lookup_iff [OF sl, of h d] by simp_all
    moreover from this S(10) have "d = c" by (simp add: b(1) init_registered)
    moreover have "hof S c = ctx_handle x" by (simp add: hof_def S(2))
    ultimately show False using that by simp
  qed
  then show thesis
    using S harbor_local [OF S(5,7)] by (intro that [of S "{ctx_queue x}" c x]) (simp_all add: target_def)
qed

lemma timer_init_reach: "timer_reach (skynet_timer_init wall clk :: 'e timer)"
proof -
  obtain c s p o' where e: "(skynet_timer_init wall clk :: 'e timer)
      = timer_create_timer\<lparr>tm_current := c, tm_starttime := s, tm_current_point := p, tm_origin_point := o'\<rparr>"
    by (simp add: skynet_timer_init_def systime_def Let_def timer_create_timer_def)
  show ?thesis unfolding e by (rule timer_reach.clock [OF timer_reach.create])
qed

section \<open>Properties\<close>



text \<open>
  C11. A message to a local service: with arguments that pass the preparation, a size below
  \<open>2^24\<close> and a destination that stands for a queue, \<open>skynet_send\<close> returns the session and appends
  exactly one message to exactly that queue, with the sender's handle filled in for source 0; the
  invariant of the server is kept and no reference count, name or block changes.
\<close>

theorem send_local_delivers:
  assumes "server_inv S A" and "sz AND ucast HANDLE_MASK = sz"
    and "filter_args S (Some c) type session data sz = Some (session', data', sz', S1)"
    and "sv_ctx S c = Some x" and "dest \<noteq> 0" and "skynet_harbor_message_isremote S dest = Some False"
    and "target S dest = Some p"
  shows "\<exists>S2. skynet_send X S (Some c) source dest type session data sz = Some (session', S2)
    \<and> server_inv S2 A \<and> sv_mem S2 = sv_mem S1
    \<and> (\<forall>q. queue_msgs S2 q = (if q = p
         then map_option (\<lambda>l. l @ [\<lparr>msg_source = (if source = 0 then ctx_handle x else source),
           msg_session = session', msg_data = data', msg_sz = sz'\<rparr>]) (queue_msgs S q) else queue_msgs S q))"
  using send_local [OF assms(1-6), of X source] assms(7) by auto

theorem send_local_delivers_witness:
  "\<exists>(S :: (nat, unit) server) c x S2. sv_ctx S c = Some x
     \<and> skynet_send example_externals S (Some c) 0 (ctx_handle x) 0x20001 0 None 0 = Some (1, S2)
     \<and> queue_msgs S2 (ctx_queue x) = Some [\<lparr>msg_source = ctx_handle x, msg_session = 1, msg_data = None, msg_sz = 0x1000000\<rparr>]"
proof -
  obtain S :: "(nat, unit) server" and c x A where ex: "server_inv S A" "sv_ctx S c = Some x"
    "target S (ctx_handle x) = Some (ctx_queue x)" "queue_msgs S (ctx_queue x) = Some []"
    "skynet_harbor_message_isremote S (ctx_handle x) = Some False" "ctx_handle x \<noteq> 0" "ctx_session_id x = 0"
    using example_server by metis
  obtain S1 where f: "filter_args S (Some c) 0x20001 0 None 0 = Some (1, None, 0x1000000, S1)"
    by (simp add: filter_args_def PTYPE_TAG_DONTCOPY_def PTYPE_TAG_ALLOCSESSION_def HANDLE_REMOTE_SHIFT_def
        Let_def skynet_context_newsession_def ex(2,7))
  from send_local_delivers [OF ex(1) _ f ex(2,6,5,3), of example_externals 0] ex(4)
  have "\<exists>S2. skynet_send example_externals S (Some c) 0 (ctx_handle x) 0x20001 0 None 0 = Some (1, S2)
     \<and> queue_msgs S2 (ctx_queue x) = Some [\<lparr>msg_source = ctx_handle x, msg_session = 1, msg_data = None, msg_sz = 0x1000000\<rparr>]"
    by (auto simp: HANDLE_MASK_def)
  with ex(2) show ?thesis by blast
qed

text \<open>
  C13. A message to a local handle nobody has: \<open>skynet_send\<close> answers -1, no queue changes, and the
  data it was to hand over is freed: after a copying send the blocks are those of before, after a
  DONTCOPY send the caller's block is gone.
\<close>

theorem send_dead_frees:
  assumes inv: "server_inv S A" and sz: "sz AND ucast HANDLE_MASK = sz"
    and args: "filter_args S (Some c) type session data sz = Some (session', data', sz', S1)"
    and "sv_ctx S c = Some x" and "dest \<noteq> 0" and "skynet_harbor_message_isremote S dest = Some False"
    and "target S dest = None" and data: "\<forall>a. data = Some a \<longrightarrow> sv_mem S a \<noteq> None"
  shows "\<exists>S2. skynet_send X S (Some c) source dest type session data sz = Some (- 1, S2)
    \<and> server_inv S2 A \<and> (\<forall>q. queue_msgs S2 q = queue_msgs S q)
    \<and> sv_mem S2 = (case data of
         Some a \<Rightarrow> if type AND PTYPE_TAG_DONTCOPY \<noteq> 0 then (sv_mem S)(a := None) else sv_mem S
       | None \<Rightarrow> sv_mem S)"
proof -
  obtain S2 where p: "skynet_send X S (Some c) source dest type session data sz = map_option (Pair (- 1)) (skynet_free S2 data')"
    "server_inv S2 A" "sv_mem S2 = sv_mem S1" "\<forall>q. queue_msgs S2 q = queue_msgs S q"
    using send_local [OF assms(1-6), of X source] assms(7) by auto
  have mem: "mem_ok S" using inv by (simp add: server_inv_def)
  note eff = filter_args_effect_aux [OF mem args sz, THEN conjunct2, THEN conjunct2, THEN conjunct2]
  have "\<exists>m. skynet_free S2 data' = Some (S2\<lparr>sv_mem := m\<rparr>) \<and> m = (case data of
         Some a \<Rightarrow> if type AND PTYPE_TAG_DONTCOPY \<noteq> 0 then (sv_mem S)(a := None) else sv_mem S
       | None \<Rightarrow> sv_mem S)"
    using eff data p(3) by (cases data) (auto simp: skynet_free_def fun_upd_idem split: if_splits)
  then obtain S3 where S3: "skynet_free S2 data' = Some S3" "sv_mem S3 = (case data of
         Some a \<Rightarrow> if type AND PTYPE_TAG_DONTCOPY \<noteq> 0 then (sv_mem S)(a := None) else sv_mem S
       | None \<Rightarrow> sv_mem S)" "S3 = S2\<lparr>sv_mem := sv_mem S3\<rparr>" by auto
  have "queue_msgs S3 q = queue_msgs S2 q" for q by (subst S3(3)) (simp add: queue_msgs_def)
  with p S3 server_inv_free [OF p(2) S3(1)] show ?thesis by auto
qed

theorem send_dead_frees_witness:
  "\<exists>(S :: (nat, unit) server) c dest S2. skynet_send example_externals S (Some c) 0 dest 1 5 None 0 = Some (- 1, S2) \<and> sv_mem S2 = sv_mem S"
proof -
  obtain S :: "(nat, unit) server" and c x A where ex: "server_inv S A" "sv_ctx S c = Some x" "sv_harbor S = 0x1000000"
    "\<forall>h. h \<noteq> ctx_handle x \<longrightarrow> target S h = None"
    using example_server by metis
  define dest :: u32 where "dest = (if ctx_handle x = 0x1000005 then 0x1000006 else 0x1000005)"
  have d: "dest \<noteq> ctx_handle x" "dest \<in> {0x1000005, 0x1000006}" by (simp_all add: dest_def)
  then have l: "skynet_harbor_message_isremote S dest = Some False" "dest \<noteq> 0"
    using ex(3) by (auto simp: skynet_harbor_message_isremote_def HANDLE_MASK_def)
  have f: "filter_args S (Some c) 1 5 None 0 = Some (5, None, 0x1000000, S)"
    by (simp add: filter_args_def PTYPE_TAG_DONTCOPY_def PTYPE_TAG_ALLOCSESSION_def HANDLE_REMOTE_SHIFT_def Let_def)
  from send_dead_frees [OF ex(1) _ f ex(2) l(2,1) ex(4) [rule_format, OF d(1)], of example_externals 0] show ?thesis
    by (auto simp: HANDLE_MASK_def)
qed

text \<open>
  C14. A message to another harbor goes to the queue of the harbor service as one message that
  points to a fresh remote message with the destination, the data and the size; the type moves to
  the size word of the outer message, whose own size is that of the structure.
\<close>

theorem send_remote_delivers:
  assumes "server_inv S A" and "sz AND ucast HANDLE_MASK = sz"
    and "filter_args S (Some c) type session data sz = Some (session', data', sz', S1)"
    and "sv_ctx S c = Some x" and "dest \<noteq> 0" and "skynet_harbor_message_isremote S dest = Some True"
    and "sv_remote S = Some r" and "sv_ctx S r = Some y" and "mq_heap S (ctx_queue y) = Some q" and "\<not> mq_release q"
    and "type AND 0x80 = 0" and "type AND 0xff \<noteq> of_nat PTYPE_SYSTEM" and "type AND 0xff \<noteq> of_nat PTYPE_HARBOR"
  shows "\<exists>S2 b. skynet_send X S (Some c) source dest type session data sz = Some (session', S2) \<and> server_inv S2 A
    \<and> sv_mem S2 = (sv_mem S1)(b \<mapsto> Remote \<lparr>rm_name = [], rm_handle = dest, rm_message = data', rm_sz = sz\<rparr>)
    \<and> sv_mem S1 b = None
    \<and> (\<forall>p. queue_msgs S2 p = (if p = ctx_queue y
         then map_option (\<lambda>l. l @ [\<lparr>msg_source = (if source = 0 then ctx_handle x else source), msg_session = session',
           msg_data = Some b, msg_sz = 40 OR scast (push_bit HANDLE_REMOTE_SHIFT (type AND 0xff))\<rparr>]) (queue_msgs S p)
         else queue_msgs S p))"
  by (rule send_remote [OF assms])

lemma example_remote:
  assumes "server_inv S A" and "sv_ctx S c = Some x"
  shows "server_inv (S\<lparr>sv_remote := Some c\<rparr>) A"
  using assms hof_cong [of "S\<lparr>sv_remote := Some c\<rparr>" S]
  by (simp add: server_inv_def contexts_ok_def mem_ok_def sched_of_def)

theorem send_remote_delivers_witness:
  "\<exists>(S :: (nat, unit) server) c S2 b. skynet_send example_externals S (Some c) 9 0x2000001 1 5 None 0 = Some (5, S2)
     \<and> sv_mem S2 b = Some (Remote \<lparr>rm_name = [], rm_handle = 0x2000001, rm_message = None, rm_sz = 0\<rparr>)"
proof -
  obtain S0 :: "(nat, unit) server" and c x A where ex: "server_inv S0 A" "sv_ctx S0 c = Some x" "sv_harbor S0 = 0x1000000"
    "target S0 (ctx_handle x) = Some (ctx_queue x)"
    using example_server by metis
  let ?S = "S0\<lparr>sv_remote := Some c\<rparr>"
  have inv: "server_inv ?S A" by (rule example_remote [OF ex(1,2)])
  obtain d where "hs_lookup (hof S0) (sv_handles S0) (ctx_handle x) = Some d" "map_option ctx_queue (sv_ctx S0 d) = Some (ctx_queue x)"
    using ex(4) by (auto simp: target_def bind_eq_Some_conv)
  from server_inv_lookup [OF ex(1) this(1)] this(2) obtain q where q: "mq_heap S0 (ctx_queue x) = Some q" "\<not> mq_release q"
    by (metis map_option_eq_Some option.inject)
  have f: "filter_args ?S (Some c) 1 5 None 0 = Some (5, None, 0x1000000, ?S)"
    by (simp add: filter_args_def PTYPE_TAG_DONTCOPY_def PTYPE_TAG_ALLOCSESSION_def HANDLE_REMOTE_SHIFT_def Let_def)
  have r: "skynet_harbor_message_isremote ?S 0x2000001 = Some True"
    using ex(3) by (simp add: skynet_harbor_message_isremote_def HANDLE_MASK_def)
  have sz: "(0 :: u64) AND ucast HANDLE_MASK = 0" "(0x2000001 :: u32) \<noteq> 0" by simp_all
  have t: "(1 :: i32) AND 0x80 = 0" "(1 :: i32) AND 0xff \<noteq> of_nat PTYPE_SYSTEM" "(1 :: i32) AND 0xff \<noteq> of_nat PTYPE_HARBOR"
    by (simp_all add: PTYPE_SYSTEM_def PTYPE_HARBOR_def)
  have c: "sv_ctx ?S c = Some x" "sv_remote ?S = Some c" "mq_heap ?S (ctx_queue x) = Some q"
    using ex(2) q(1) by simp_all
  obtain S2 b where "skynet_send example_externals ?S (Some c) 9 0x2000001 1 5 None 0 = Some (5, S2)"
    "sv_mem S2 = (sv_mem ?S)(b \<mapsto> Remote \<lparr>rm_name = [], rm_handle = 0x2000001, rm_message = None, rm_sz = 0\<rparr>)"
    using send_remote_delivers [where X = example_externals and source = 9, OF inv sz(1) f c(1) sz(2) r c(2,1,3) q(2) t] by blast
  then have "skynet_send example_externals ?S (Some c) 9 0x2000001 1 5 None 0 = Some (5, S2)
     \<and> sv_mem S2 b = Some (Remote \<lparr>rm_name = [], rm_handle = 0x2000001, rm_message = None, rm_sz = 0\<rparr>)" by simp
  then show ?thesis by blast
qed

text \<open>
  C12. One tick of the timer on the whole server: every event pending for the new time reaches the
  queue its handle stands for as a response message, in order; events for handles nobody has
  disappear, no other queue content changes, and the invariants hold again.
\<close>

theorem timer_tick_delivers:
  assumes "server_inv S A" and "timer_reach (sv_timer S)"
  shows "\<exists>S'. server_timer_update X S = Some S' \<and> server_inv S' A \<and> timer_reach (sv_timer S')
    \<and> tm_time (sv_timer S') = tm_time (sv_timer S) + 1
    \<and> (\<forall>p. queue_msgs S' p
         = map_option (\<lambda>l. l @ for_queue S p (pending (sv_timer S) (tm_time (sv_timer S) + 1))) (queue_msgs S p))"
proof -
  have w: "wheel_inv (sv_timer S)" "no_due (sv_timer S)" using timer_reach_inv [OF assms(2)] by simp_all
  have "pending (sv_timer S) (tm_time (sv_timer S)) = []"
    using w(2) [unfolded no_due_def, rule_format, OF valid_place_place] by (simp add: pending_def filter_empty_conv)
  with timer_update_sound [OF w(1)] server_timer_update_sound [OF assms(1), of X] timer_reach.tick [OF assms(2)]
  show ?thesis by auto
qed

theorem timer_tick_delivers_witness:
  "\<exists>(S :: (nat, unit) server) h p S'. server_timer_update example_externals (S\<lparr>sv_timer := timer_add (sv_timer S) \<lparr>te_handle = h, te_session = 3\<rparr> 1\<rparr>) = Some S'
     \<and> queue_msgs S' p = Some [\<lparr>msg_source = 0, msg_session = 3, msg_data = None, msg_sz = 0x1000000\<rparr>]"
proof -
  obtain S :: "(nat, unit) server" and c x A where ex: "server_inv S A" "sv_ctx S c = Some x"
    "target S (ctx_handle x) = Some (ctx_queue x)" "queue_msgs S (ctx_queue x) = Some []"
    "sv_timer S = skynet_timer_init (0, 0) (0, 0)"
    using example_server by metis
  let ?ev = "\<lparr>te_handle = ctx_handle x, te_session = 3\<rparr>"
  let ?S = "S\<lparr>sv_timer := timer_add (sv_timer S) ?ev 1\<rparr>"
  have r0: "timer_reach (sv_timer S)" unfolding ex(5) by (rule timer_init_reach)
  have r: "timer_reach (sv_timer ?S)" using timer_reach.add [OF r0, of 1 ?ev] by simp
  have inv: "server_inv ?S A" using ex(1) by (simp add: server_inv_timer)
  have p0: "pending (sv_timer S) e = []" for e
  proof -
    obtain c s p o' where "sv_timer S = timer_create_timer\<lparr>tm_current := c, tm_starttime := s, tm_current_point := p, tm_origin_point := o'\<rparr>"
      unfolding ex(5) by (simp add: skynet_timer_init_def systime_def Let_def timer_create_timer_def)
    then show ?thesis by (simp add: wheel_frame timer_create_inv)
  qed
  have pd: "pending (sv_timer ?S) (tm_time (sv_timer ?S) + 1) = [?ev]"
    using timer_add_sound(2) [of "sv_timer S" 1 ?ev] timer_reach_inv [OF r0] p0
    by (simp add: clock_of_timer_add)
  have fq: "for_queue ?S (ctx_queue x) [?ev] = [response ?ev]" using ex(3) by (simp add: for_queue_def timer_fields)
  obtain S' where S': "server_timer_update example_externals ?S = Some S'" "queue_msgs S' (ctx_queue x)
      = map_option (\<lambda>l. l @ for_queue ?S (ctx_queue x) (pending (sv_timer ?S) (tm_time (sv_timer ?S) + 1))) (queue_msgs ?S (ctx_queue x))"
    using timer_tick_delivers [OF inv r, of example_externals] by blast
  from S'(2) have "queue_msgs S' (ctx_queue x) = Some [response ?ev]"
    unfolding pd fq by (simp add: timer_fields ex(4))
  with S'(1) show ?thesis
    by (auto simp: response_def PTYPE_RESPONSE_def HANDLE_REMOTE_SHIFT_def)
qed

text \<open>
  C16. Session numbers are always positive: the counter goes up by one and falls back to 1 after the
  largest \<open>int\<close>.
\<close>

theorem newsession_positive:
  assumes "sv_ctx S c = Some x" and "0 \<le> sint (ctx_session_id x)"
  shows "\<exists>s. skynet_context_newsession S c = Some (s, S\<lparr>sv_ctx := (sv_ctx S)(c \<mapsto> x\<lparr>ctx_session_id := s\<rparr>)\<rparr>)
    \<and> 0 < sint s \<and> sint s = (if sint (ctx_session_id x) = 2 ^ 31 - 1 then 1 else sint (ctx_session_id x) + 1)"
proof -
  let ?i = "ctx_session_id x"
  note u = sint_nonneg [OF assms(2)]
  show ?thesis
  proof (cases "uint ?i = 2 ^ 31 - 1")
    case True
    have "?i = word_of_int (uint ?i)" by simp
    then have "?i = 0x7fffffff" unfolding True by simp
    then show ?thesis using assms(1) by (simp add: skynet_context_newsession_def Let_def)
  next
    case False
    with u(1) have lt: "uint ?i + 1 < 2 ^ 31" by simp
    have nx: "sint (?i + 1) = uint ?i + 1"
      using sint_small [of "?i + 1"] uint_succ [OF u(1)] lt by simp
    have pos: "0 < sint (?i + 1)" unfolding nx using uint_ge_0 [of ?i] by linarith
    obtain s where s: "skynet_context_newsession S c = Some (s, S\<lparr>sv_ctx := (sv_ctx S)(c \<mapsto> x\<lparr>ctx_session_id := s\<rparr>)\<rparr>)"
      "s = ?i + 1" using newsession_step [OF assms(1)] pos by auto
    show ?thesis
    proof (intro exI conjI)
      show "0 < sint s" unfolding s(2) by (rule pos)
      show "sint s = (if sint ?i = 2 ^ 31 - 1 then 1 else sint ?i + 1)"
        unfolding s(2) nx u(2) using False by simp
    qed (rule s(1))
  qed
qed

theorem newsession_positive_witness:
  "\<exists>(S :: (nat, unit) server) c S'. skynet_context_newsession S c = Some (1, S')"
proof -
  obtain S :: "(nat, unit) server" and c x A where ex: "server_inv S A" "sv_ctx S c = Some x" "ctx_session_id x = 0"
    using example_server by metis
  then obtain s where s: "skynet_context_newsession S c = Some (s, S\<lparr>sv_ctx := (sv_ctx S)(c \<mapsto> x\<lparr>ctx_session_id := s\<rparr>)\<rparr>)"
    "sint s = 1"
    using newsession_positive [OF ex(2)] by auto
  have "s = word_of_int (sint s)" by simp
  then have "s = 1" unfolding s(2) by simp
  with s(1) show ?thesis by blast
qed

end
