(* ===== verification/Dispatch.thy ===== *)
theory Dispatch
  imports Context
begin

text \<open>
  The worker's side of \<open>skynet-src/skynet_server.c\<close>: \<open>dispatch_message\<close>,
  \<open>skynet_context_dispatchall\<close>, \<open>skynet_context_message_dispatch\<close> with its weights and
  \<open>drop_message\<close>, with the endless-loop monitor of \<open>skynet-src/skynet_monitor.c\<close> and the message
  log of \<open>skynet-src/skynet_log.c\<close>. The locale \<open>consumer\<close> is the contract between the dispatcher and
  a service whose callback takes a message without keeping it or calling the server; what a dispatch
  does to the queue, the data and the service's own state is proved in it once.
\<close>

section \<open>The monitor\<close>

record skynet_monitor =
  mon_version :: i32
  mon_check_version :: i32
  mon_source :: u32
  mon_destination :: u32

definition skynet_monitor_new :: skynet_monitor where
  "skynet_monitor_new = \<lparr>mon_version = 0, mon_check_version = 0, mon_source = 0, mon_destination = 0\<rparr>"

definition skynet_monitor_trigger :: "skynet_monitor \<Rightarrow> u32 \<Rightarrow> u32 \<Rightarrow> skynet_monitor" where
  "skynet_monitor_trigger sm source destination =
     sm\<lparr>mon_source := source, mon_destination := destination, mon_version := mon_version sm + 1\<rparr>"

definition skynet_context_endless :: "('cb, 'w) externals \<Rightarrow> ('cb, 'w) server \<Rightarrow> u32 \<Rightarrow> ('cb, 'w) server option" where
  "skynet_context_endless X S handle =
     Option.bind (skynet_handle_grab S handle)
       (\<lambda>(ctx, S1). case ctx of
          None \<Rightarrow> Some S1
        | Some c \<Rightarrow> Option.bind (upd_ctx S1 c (\<lambda>x. x\<lparr>ctx_endless := True\<rparr>))
            (\<lambda>S2. map_option snd (skynet_context_release X S2 c)))"

definition skynet_monitor_check ::
  "('cb, 'w) externals \<Rightarrow> ('cb, 'w) server \<Rightarrow> skynet_monitor \<Rightarrow> (skynet_monitor \<times> ('cb, 'w) server) option" where
  "skynet_monitor_check X S sm =
     (if mon_version sm = mon_check_version sm then
        if mon_destination sm \<noteq> 0 then
          Option.bind (skynet_context_endless X S (mon_destination sm))
            (\<lambda>S1. map_option (Pair sm) (skynet_error X S1 None
               (''A message from [ :'' @ print_08x (mon_source sm) @ '' ] to [ :'' @ print_08x (mon_destination sm)
                @ '' ] maybe in an endless loop (version = '' @ print_d (sint (mon_version sm)) @ '')'')))
        else Some (sm, S)
      else Some (sm\<lparr>mon_check_version := mon_version sm\<rparr>, S))"

section \<open>The message log\<close>

definition log_byte :: "u8 \<Rightarrow> string" where
  "log_byte b = [lower_digits ! unat (drop_bit 4 b), lower_digits ! unat (b AND 15)]"

definition log_blob :: "bytes \<Rightarrow> string" where
  "log_blob bs = concat (map log_byte bs)"

text \<open>
  The \<open>sz\<close> bytes a function reads at \<open>a\<close>; \<open>None\<close> when it would read a NULL pointer, past the end
  of a block or a structure.
\<close>

definition block_bytes :: "('cb, 'w) server \<Rightarrow> addr option \<Rightarrow> u64 \<Rightarrow> bytes option" where
  "block_bytes S a sz =
     (if sz = 0 then Some []
      else Option.bind a (\<lambda>p. case sv_mem S p of
             Some (Bytes bs) \<Rightarrow> if unat sz \<le> List.length bs then Some (take (unat sz) bs) else None
           | _ \<Rightarrow> None))"

text \<open>
  A message without a buffer carries a string after the structure (24 bytes); \<open>%*s\<close> gives a least
  width and not a bound, so a string with no NUL in its \<open>sz\<close> bytes is read past its end.
\<close>

definition log_socket :: "('cb, 'w) server \<Rightarrow> addr option \<Rightarrow> u64 \<Rightarrow> string option" where
  "log_socket S buffer sz =
     Option.bind (Option.bind buffer (sv_mem S))
       (\<lambda>blob. case blob of
          Socket m \<Rightarrow>
            map_option (\<lambda>t. ''[socket] '' @ print_d (sint (ssm_type m)) @ '' '' @ print_d (sint (ssm_id m)) @ '' ''
                @ print_d (sint (ssm_ud m)) @ '' '' @ t @ [CHR 0x0A])
              (if ssm_buffer m = None then
                 (let s = take (unat (sz - 24)) (ssm_tail m) in
                  if 0 \<in> set s then Some (''['' @ map (\<lambda>b. char_of (unat b)) (takeWhile (\<lambda>b. b \<noteq> 0) s) @ '']'') else None)
               else map_option log_blob (block_bytes S (ssm_buffer m) (scast (ssm_ud m))))
        | _ \<Rightarrow> None)"

definition skynet_log_output ::
  "('cb, 'w) externals \<Rightarrow> ('cb, 'w) server \<Rightarrow> nat \<Rightarrow> u32 \<Rightarrow> i32 \<Rightarrow> i32 \<Rightarrow> addr option \<Rightarrow> u64 \<Rightarrow>
     ('cb, 'w) server option" where
  "skynet_log_output X S f source type session buffer sz =
     map_option (\<lambda>t. S\<lparr>sv_world := x_fwrite X f t (sv_world S)\<rparr>)
       (if type = of_nat PTYPE_SOCKET then log_socket S buffer sz
        else map_option (\<lambda>bs. '':'' @ print_08x source @ '' '' @ print_d (sint type) @ '' '' @ print_d (sint session)
               @ '' '' @ print_u (unat (skynet_gettime (sv_timer S))) @ '' '' @ log_blob bs @ [CHR 0x0A])
               (block_bytes S buffer sz))"

definition skynet_log_open ::
  "('cb, 'w) externals \<Rightarrow> ('cb, 'w) server \<Rightarrow> addr \<Rightarrow> u32 \<Rightarrow> (nat option \<times> ('cb, 'w) server) option" where
  "skynet_log_open X S ctx handle =
     (case sv_env S ''logpath'' of
        None \<Rightarrow> Some (None, S)
      | Some logpath \<Rightarrow>
          (let tmp = logpath @ ''/'' @ print_08x handle @ ''.log'' in
           case x_fopen X tmp (sv_world S) of
             (Some f, w) \<Rightarrow>
               (let starttime = skynet_gettime_fixsec (sv_timer S);
                    currenttime = skynet_gettime (sv_timer S);
                    ti = starttime + currenttime div 100
                in Option.bind (skynet_error X (S\<lparr>sv_world := w\<rparr>) (Some ctx) (''Open log file '' @ tmp))
                     (\<lambda>S1. Some (Some f, S1\<lparr>sv_world := x_fwrite X f
                        (''open time: '' @ print_u (unat currenttime) @ '' '' @ x_ctime X (ucast ti)) (sv_world S1)\<rparr>)))
           | (None, w) \<Rightarrow>
               map_option (Pair None)
                 (skynet_error X (S\<lparr>sv_world := w\<rparr>) (Some ctx) (''Open log file '' @ tmp @ '' fail''))))"

definition skynet_log_close ::
  "('cb, 'w) externals \<Rightarrow> ('cb, 'w) server \<Rightarrow> addr \<Rightarrow> nat \<Rightarrow> u32 \<Rightarrow> ('cb, 'w) server option" where
  "skynet_log_close X S ctx f handle =
     Option.bind (skynet_error X S (Some ctx) (''Close log file :'' @ print_08x handle))
       (\<lambda>S1. Some (S1\<lparr>sv_world := x_fclose X f (x_fwrite X f
          (''close time: '' @ print_u (unat (skynet_gettime (sv_timer S1))) @ [CHR 0x0A]) (sv_world S1))\<rparr>))"

section \<open>Dispatching\<close>

definition drop_message ::
  "('cb, 'w) externals \<Rightarrow> u32 \<Rightarrow> skynet_message \<Rightarrow> ('cb, 'w) server \<Rightarrow> ('cb, 'w) server option" where
  "drop_message X handle msg S =
     Option.bind (skynet_free S (msg_data msg))
       (\<lambda>S1. if handle = 0 then None
             else map_option snd (skynet_send X S1 None handle (msg_source msg) (of_nat PTYPE_ERROR) 0 None 0))"

definition dispatch_message ::
  "('cb, 'w) externals \<Rightarrow> ('cb, 'w) server \<Rightarrow> addr \<Rightarrow> skynet_message \<Rightarrow> ('cb, 'w) server option" where
  "dispatch_message X S c msg =
     Option.bind (sv_ctx S c)
       (\<lambda>x. if \<not> ctx_init x then None
            else
              (let type = ucast (drop_bit HANDLE_REMOTE_SHIFT (msg_sz msg)) :: i32;
                   sz = msg_sz msg AND ucast HANDLE_MASK
               in Option.bind
                    (case ctx_logfile x of
                       None \<Rightarrow> Some S
                     | Some f \<Rightarrow> skynet_log_output X S f (msg_source msg) type (msg_session msg) (msg_data msg) sz)
                    (\<lambda>S1. Option.bind (ctx_cb x)
                       (\<lambda>cb. Option.bind (x_callback X cb c type (msg_session msg) (msg_source msg) (msg_data msg) sz S1)
                          (\<lambda>(keep, S2). if keep then Some S2 else skynet_free S2 (msg_data msg))))))"

partial_function (option) dispatchall_loop ::
  "('cb, 'w) externals \<Rightarrow> ('cb, 'w) server \<Rightarrow> addr \<Rightarrow> mqid \<Rightarrow> ('cb, 'w) server option" where
  "dispatchall_loop X S c q =
     Option.bind (mq_pop_at S q)
       (\<lambda>(ret, m, S1). if ret \<noteq> 0 then Some S1
          else Option.bind m (\<lambda>msg. Option.bind (dispatch_message X S1 c msg) (\<lambda>S2. dispatchall_loop X S2 c q)))"

definition skynet_context_dispatchall ::
  "('cb, 'w) externals \<Rightarrow> ('cb, 'w) server \<Rightarrow> addr \<Rightarrow> ('cb, 'w) server option" where
  "skynet_context_dispatchall X S c = Option.bind (sv_ctx S c) (\<lambda>x. dispatchall_loop X S c (ctx_queue x))"

text \<open>The part of the loop of \<open>skynet_context_message_dispatch\<close> after a message has been popped.\<close>

definition dispatch_popped ::
  "('cb, 'w) externals \<Rightarrow> ('cb, 'w) server \<Rightarrow> skynet_monitor \<Rightarrow> addr \<Rightarrow> u32 \<Rightarrow> mqid \<Rightarrow> skynet_message \<Rightarrow>
     (skynet_monitor \<times> ('cb, 'w) server) option" where
  "dispatch_popped X S sm ctx handle q msg =
     Option.bind (mq_heap S q)
       (\<lambda>mq. case skynet_mq_overload mq of (overload, mq') \<Rightarrow>
          (let S1 = S\<lparr>mq_heap := (mq_heap S)(q \<mapsto> mq')\<rparr> in
           Option.bind
             (if overload \<noteq> 0 then skynet_error X S1 (Some ctx)
                (''May overload, message queue length = '' @ print_u overload) else Some S1)
             (\<lambda>S2. let sm1 = skynet_monitor_trigger sm (msg_source msg) handle in
                Option.bind
                  (Option.bind (sv_ctx S2 ctx)
                     (\<lambda>x. case ctx_cb x of
                        None \<Rightarrow> skynet_free S2 (msg_data msg)
                      | Some _ \<Rightarrow> dispatch_message X S2 ctx msg))
                  (\<lambda>S3. Some (skynet_monitor_trigger sm1 0 0, S3)))))"

text \<open>The iterations after the first; \<open>True\<close> when one of them finds the queue empty.\<close>

fun dispatch_rest ::
  "nat \<Rightarrow> ('cb, 'w) externals \<Rightarrow> ('cb, 'w) server \<Rightarrow> skynet_monitor \<Rightarrow> addr \<Rightarrow> u32 \<Rightarrow> mqid \<Rightarrow>
     (bool \<times> skynet_monitor \<times> ('cb, 'w) server) option" where
  "dispatch_rest 0 X S sm ctx handle q = Some (False, sm, S)"
| "dispatch_rest (Suc n) X S sm ctx handle q =
     Option.bind (mq_pop_at S q)
       (\<lambda>(ret, m, S1). if ret \<noteq> 0 then Some (True, sm, S1)
          else Option.bind m (\<lambda>msg. Option.bind (dispatch_popped X S1 sm ctx handle q msg)
            (\<lambda>(sm2, S2). dispatch_rest n X S2 sm2 ctx handle q)))"

definition dispatch_count :: "int \<Rightarrow> nat \<Rightarrow> nat" where
  "dispatch_count weight len = (if 0 \<le> weight then drop_bit (nat weight) len else 1)"

text \<open>The whole loop: the first message decides how many there are.\<close>

definition dispatch_queue ::
  "('cb, 'w) externals \<Rightarrow> ('cb, 'w) server \<Rightarrow> skynet_monitor \<Rightarrow> addr \<Rightarrow> u32 \<Rightarrow> mqid \<Rightarrow> int \<Rightarrow>
     (bool \<times> skynet_monitor \<times> ('cb, 'w) server) option" where
  "dispatch_queue X S sm ctx handle q weight =
     Option.bind (mq_pop_at S q)
       (\<lambda>(ret, m, S1). if ret \<noteq> 0 then Some (True, sm, S1)
          else Option.bind (mq_heap S1 q)
            (\<lambda>mq. let n = dispatch_count weight (skynet_mq_length mq) in
               Option.bind m (\<lambda>msg. Option.bind (dispatch_popped X S1 sm ctx handle q msg)
                 (\<lambda>(sm2, S2). dispatch_rest (n - 1) X S2 sm2 ctx handle q))))"

definition skynet_context_message_dispatch ::
  "('cb, 'w) externals \<Rightarrow> ('cb, 'w) server \<Rightarrow> skynet_monitor \<Rightarrow> mqid option \<Rightarrow> int \<Rightarrow>
     (mqid option \<times> skynet_monitor \<times> ('cb, 'w) server) option" where
  "skynet_context_message_dispatch X S sm q weight =
     Option.bind (if q = None then skynet_globalmq_pop S else Some (q, S))
       (\<lambda>(q1, S1). case q1 of
          None \<Rightarrow> Some (None, sm, S1)
        | Some p \<Rightarrow>
            Option.bind (mq_heap S1 p)
              (\<lambda>mq. let handle = skynet_mq_handle mq in
                 Option.bind (skynet_handle_grab S1 handle)
                   (\<lambda>(ctx, S2). case ctx of
                      None \<Rightarrow>
                        Option.bind (skynet_mq_release (drop_message X handle) S2 p)
                          (\<lambda>S3. map_option (\<lambda>(q2, S4). (q2, sm, S4)) (skynet_globalmq_pop S3))
                    | Some c \<Rightarrow>
                        Option.bind (dispatch_queue X S2 sm c handle p weight)
                          (\<lambda>(emptied, sm3, S3).
                             if emptied then
                               Option.bind (skynet_context_release X S3 c)
                                 (\<lambda>(_, S4). map_option (\<lambda>(q2, S5). (q2, sm3, S5)) (skynet_globalmq_pop S4))
                             else Option.bind (sv_ctx S3 c)
                               (\<lambda>x. if ctx_queue x \<noteq> p then None
                                 else Option.bind (skynet_globalmq_pop S3)
                                   (\<lambda>(nq, S4). Option.bind
                                      (if nq = None then Some (Some p, S4)
                                       else map_option (Pair nq) (skynet_globalmq_push S4 p))
                                      (\<lambda>(q5, S5). map_option (\<lambda>(_, S6). (q5, sm3, S6)) (skynet_context_release X S5 c))))))))"

section \<open>The worker's operations and the server invariant\<close>

lemma sched_of_pop_at:
  "mq_pop_at (sched_of S A) p = map_option (\<lambda>(r, m, S'). (r, m, sched_of S' A)) (mq_pop_at S p)"
  by (auto simp: mq_pop_at_def sched_of_def split: option.splits prod.splits)

lemma sched_of_globalmq_pop:
  "skynet_globalmq_pop (sched_of S A) = map_option (\<lambda>(r, S'). (r, sched_of S' A)) (skynet_globalmq_pop S)"
  by (auto simp: skynet_globalmq_pop_def sched_of_def Let_def split: option.splits)

lemma sched_of_held [simp]: "(sched_of S A)\<lparr>held := B\<rparr> = sched_of S B" "held (sched_of S A) = A"
  by (simp_all add: sched_of_def)

lemma globalmq_pop_frame: "skynet_globalmq_pop S = Some (r, S') \<Longrightarrow> queue_frame S S'"
  by (auto simp: skynet_globalmq_pop_def queue_frame_def Let_def split: option.splits if_splits)

text \<open>What only touches the links of the queues and the places where they are.\<close>

lemma server_inv_queues:
  fixes S S' :: "('cb, 'w) server"
  assumes inv: "server_inv S A" and fr: "queue_frame S S'" and same: "same_queues (mq_heap S) (mq_heap S')"
    and sched: "sched_inv (sched_of S' B)"
  shows "server_inv S' B"
proof -
  note sv = queue_frame_sv [OF fr]
  have "contexts_ok S'"
    unfolding contexts_ok_def sv
  proof
    fix c assume "c \<in> registered (sv_handles S)"
    then obtain x q where x: "sv_ctx S c = Some x" "0 < ctx_ref x" "mq_heap S (ctx_queue x) = Some q" "\<not> mq_release q"
      "mq_handle q = ctx_handle x"
      using inv unfolding server_inv_def contexts_ok_def by blast
    then obtain q' where q': "mq_heap S' (ctx_queue x) = Some q'" "unlinked q = unlinked q'"
      using same unfolding same_queues_def by (metis map_option_eq_Some)
    with x unlinked_eqD(4,5) [OF q'(2)] show "\<exists>x q. sv_ctx S c = Some x \<and> 0 < ctx_ref x \<and> mq_heap S' (ctx_queue x) = Some q
        \<and> \<not> mq_release q \<and> mq_handle q = ctx_handle x"
      by auto
  qed
  moreover have "mem_ok S'"
    using inv same_queues_dom [OF same] by (auto simp: server_inv_def mem_ok_def sv dom_def)
  ultimately show ?thesis
    using inv sched hof_cong [OF sv(1)] by (simp add: server_inv_def sv)
qed

text \<open>A pop that raises no overload only moves the head.\<close>

definition quiet :: "'m message_queue \<Rightarrow> bool" where
  "quiet q \<longleftrightarrow> mq_overload q = 0 \<and> List.length (mq_abs q) \<le> mq_overload_threshold q"

lemma take_server_inv:
  fixes S :: "('cb, 'w) server"
  assumes inv: "server_inv S A" and "p \<in> A" and q: "mq_heap S p = Some q" and "mq_abs q = m # ms"
  obtains q' where "mq_pop_at S p = Some (0, Some m, S\<lparr>mq_heap := (mq_heap S)(p \<mapsto> q')\<rparr>)"
    "server_inv (S\<lparr>mq_heap := (mq_heap S)(p \<mapsto> q')\<rparr>) A" "mq_abs q' = ms" "quiet q \<Longrightarrow> quiet q'"
    "skynet_mq_length q' = List.length ms" "mq_handle q' = mq_handle q" "mq_next q' = mq_next q" "mq_release q' = mq_release q"
proof -
  obtain ids where ok: "sched_ok (sched_of S A) ids" using inv by (auto simp: server_inv_def sched_inv_def)
  have q0: "mq_heap (sched_of S A) p = Some q" using q by (simp add: sched_of_def)
  have qi: "mq_inv q" using sched_okD(1) [OF ok q0] .
  obtain ov thr where po: "skynet_mq_pop q = (0, Some m,
      q\<lparr>mq_head := Suc (mq_head q) mod mq_cap q, mq_overload := ov, mq_overload_threshold := thr\<rparr>)"
    "overload_scan (List.length ms) (mq_overload q) (mq_overload_threshold q) = (ov, thr)"
    using skynet_mq_pop_nonempty [OF qi assms(4)] by blast
  define q' where "q' = q\<lparr>mq_head := Suc (mq_head q) mod mq_cap q, mq_overload := ov, mq_overload_threshold := thr\<rparr>"
  note pop = po(1) [folded q'_def] and fr = skynet_mq_pop_sound [OF qi assms(4) po(1), folded q'_def]
  have pop_at: "mq_pop_at S p = Some (0, Some m, S\<lparr>mq_heap := (mq_heap S)(p \<mapsto> q')\<rparr>)"
    by (simp add: mq_pop_at_def q pop)
  have "sched_ok (sched_of (S\<lparr>mq_heap := (mq_heap S)(p \<mapsto> q')\<rparr>) A) ids"
    using take_ok [OF ok, of p "Some m"] assms(2) by (simp add: sched_of_pop_at pop_at)
  moreover have "contexts_ok (S\<lparr>mq_heap := (mq_heap S)(p \<mapsto> q')\<rparr>)"
    using inv q fr unfolding server_inv_def contexts_ok_def by fastforce
  moreover have "mem_ok (S\<lparr>mq_heap := (mq_heap S)(p \<mapsto> q')\<rparr>)"
    using inv q by (auto simp: server_inv_def mem_ok_def)
  ultimately have "server_inv (S\<lparr>mq_heap := (mq_heap S)(p \<mapsto> q')\<rparr>) A"
    using inv hof_cong [of "S\<lparr>mq_heap := (mq_heap S)(p \<mapsto> q')\<rparr>" S] by (auto simp: server_inv_def sched_inv_def)
  moreover have "quiet q'" if "quiet q"
    using that po(2) fr assms(4) by (simp add: quiet_def q'_def overload_scan.simps [of "List.length ms"])
  moreover have "skynet_mq_length q' = List.length ms"
    using fr length_mq_abs [of q'] skynet_mq_length_eq [of q'] by simp
  ultimately show ?thesis using that [OF pop_at] fr by simp
qed

section \<open>What one message does\<close>

definition body :: "('cb, 'w) server \<Rightarrow> skynet_message \<Rightarrow> bytes option" where
  "body S m = block_bytes S (msg_data m) (msg_sz m AND ucast HANDLE_MASK)"

text \<open>Messages whose data can be read and belongs to them alone.\<close>

definition readable :: "('cb, 'w) server \<Rightarrow> skynet_message list \<Rightarrow> bool" where
  "readable S ms \<longleftrightarrow> (\<forall>m \<in> set ms. body S m \<noteq> None \<and> (\<forall>a. msg_data m = Some a \<longrightarrow> sv_mem S a \<noteq> None))
     \<and> distinct (List.map_filter msg_data ms)"

definition data_of :: "skynet_message list \<Rightarrow> addr set" where
  "data_of ms = set (List.map_filter msg_data ms)"

lemma data_of_simps [simp]:
  "data_of [] = {}" "data_of (m # ms) = (case msg_data m of None \<Rightarrow> {} | Some a \<Rightarrow> {a}) \<union> data_of ms"
  by (simp_all add: data_of_def List.map_filter_simps split: option.splits)

lemma data_of_iff: "a \<in> data_of ms \<longleftrightarrow> (\<exists>m \<in> set ms. msg_data m = Some a)"
  by (induction ms) (auto split: option.splits)

text \<open>The state after the data of \<open>ms\<close> is consumed by a service with the effect \<open>step\<close>.\<close>

definition consumed ::
  "(u32 \<Rightarrow> bytes \<Rightarrow> 'w \<Rightarrow> 'w) \<Rightarrow> ('cb, 'w) server \<Rightarrow> skynet_message list \<Rightarrow> 'w \<Rightarrow> 'w" where
  "consumed step S ms w = fold (\<lambda>m. step (msg_source m) (the (body S m))) ms w"

definition after_batch ::
  "(u32 \<Rightarrow> bytes \<Rightarrow> 'w \<Rightarrow> 'w) \<Rightarrow> ('cb, 'w) server \<Rightarrow> mqid \<Rightarrow> skynet_message message_queue \<Rightarrow>
     skynet_message list \<Rightarrow> ('cb, 'w) server" where
  "after_batch step S p q ms = S\<lparr>mq_heap := (mq_heap S)(p \<mapsto> q), sv_mem := sv_mem S |` (- data_of ms),
     sv_world := consumed step S ms (sv_world S)\<rparr>"

lemma after_batch_sel [simp]:
  "mq_heap (after_batch step S p q ms) = (mq_heap S)(p \<mapsto> q)"
  "sv_ctx (after_batch step S p q ms) = sv_ctx S"
  "sv_handles (after_batch step S p q ms) = sv_handles S"
  "sv_mem (after_batch step S p q ms) = sv_mem S |` (- data_of ms)"
  "sv_world (after_batch step S p q ms) = consumed step S ms (sv_world S)"
  "gq_head (after_batch step S p q ms) = gq_head S" "gq_tail (after_batch step S p q ms) = gq_tail S"
  "sv_brk (after_batch step S p q ms) = sv_brk S"
  by (simp_all add: after_batch_def)

lemma restrict_map_UNIV [simp]: "m |` UNIV = m"
  by (simp add: restrict_map_def)

lemma body_cong: "(\<And>a. msg_data m = Some a \<Longrightarrow> sv_mem S' a = sv_mem S a) \<Longrightarrow> body S' m = body S m"
  by (cases "msg_data m") (simp_all add: body_def block_bytes_def)

lemma body_queues [simp]: "body (S\<lparr>mq_heap := h\<rparr>) m = body S m"
  by (simp add: body_def block_bytes_def)

lemma readable_append: "readable S (ms @ ns) \<Longrightarrow> readable S ms"
  by (auto simp: readable_def List.map_filter_def)

lemma readable_Cons:
  assumes "readable S (m # ms)"
  shows "readable (after_batch step S p q [m]) ms"
    and "m' \<in> set ms \<Longrightarrow> body (after_batch step S p q [m]) m' = body S m'"
proof -
  have other: "sv_mem (after_batch step S p q [m]) a = sv_mem S a" if "m' \<in> set ms" "msg_data m' = Some a" for m' a
    using assms that data_of_iff [of a ms]
    by (auto simp: readable_def restrict_map_def data_of_def List.map_filter_simps split: option.splits)
  then show b: "m' \<in> set ms \<Longrightarrow> body (after_batch step S p q [m]) m' = body S m'" for m'
    by (intro body_cong) simp
  show "readable (after_batch step S p q [m]) ms"
    using assms b other
    by (auto simp: readable_def List.map_filter_simps simp del: after_batch_sel(4) split: option.splits)
qed

lemma consumed_cong:
  "(\<And>m. m \<in> set ms \<Longrightarrow> body S' m = body S m) \<Longrightarrow> consumed step S' ms w = consumed step S ms w"
  unfolding consumed_def by (rule fold_cong) simp_all

lemma after_batch_Cons:
  assumes "readable S (m # ms)"
  shows "after_batch step (after_batch step S p q1 [m]) p q2 ms = after_batch step S p q2 (m # ms)"
proof -
  have "consumed step (after_batch step S p q1 [m]) ms w = consumed step S ms w" for w
    by (rule consumed_cong) (rule readable_Cons(2) [OF assms])
  moreover have "- (case msg_data m of None \<Rightarrow> {} | Some a \<Rightarrow> {a}) \<inter> - data_of ms = - data_of (m # ms)"
    by (simp only: data_of_simps) blast
  ultimately show ?thesis
    by (simp add: after_batch_def consumed_def)
qed

lemma server_inv_world: "server_inv (S\<lparr>sv_world := w\<rparr>) A = server_inv S A"
  using hof_cong [of "S\<lparr>sv_world := w\<rparr>" S]
  by (simp add: server_inv_def contexts_ok_def mem_ok_def sched_of_def)

lemma after_batch_inv:
  assumes "server_inv (S\<lparr>mq_heap := (mq_heap S)(p \<mapsto> q)\<rparr>) A"
  shows "server_inv (after_batch step S p q ms) A"
proof -
  let ?S = "S\<lparr>mq_heap := (mq_heap S)(p \<mapsto> q)\<rparr>"
  have "mem_ok (?S\<lparr>sv_mem := sv_mem S |` (- data_of ms)\<rparr>)"
    using assms by (auto simp: server_inv_def mem_ok_def)
  from server_inv_mem_upd [OF assms this] show ?thesis
    unfolding after_batch_def by (subst server_inv_world)
qed

section \<open>The turn of the global list\<close>

lemma gq_list_unique: "gq_list h p xs \<Longrightarrow> gq_list h p ys \<Longrightarrow> xs = ys"
proof (induction xs arbitrary: p ys)
  case Nil
  then show ?case by (cases ys) auto
next
  case (Cons x xs)
  then show ?case by (cases ys) (auto split: option.splits)
qed

lemma gq_rep_sched_of [simp]: "gq_rep (sched_of S A) ids = gq_rep S ids"
  by (simp add: gq_rep_def sched_of_def)

lemma gq_rep_queues:
  assumes "server_inv S A" and "gq_list (mq_heap S) (gq_head S) ids"
  shows "sched_ok (sched_of S A) ids" "gq_rep S ids"
proof -
  obtain ids' where ok: "sched_ok (sched_of S A) ids'" using assms(1) by (auto simp: server_inv_def sched_inv_def)
  then have "gq_rep S ids'" by (simp add: sched_ok_def)
  then have "gq_list (mq_heap S) (gq_head S) ids'" by (simp add: gq_rep_def)
  with gq_list_unique [OF assms(2)] ok show "sched_ok (sched_of S A) ids" by simp
  then show "gq_rep S ids" by (simp add: sched_ok_def)
qed

text \<open>The end of a dispatch: the worker trades its queue for the first of the global list.\<close>

lemma rotate:
  assumes inv: "server_inv S A" and "p \<in> A" and ids: "gq_list (mq_heap S) (gq_head S) ids"
  obtains S' where "\<And>f. Option.bind (skynet_globalmq_pop S)
      (\<lambda>(nq, S4). Option.bind (if nq = None then Some (Some p, S4)
         else map_option (Pair nq) (skynet_globalmq_push S4 p)) f) = f (Some (hd (ids @ [p])), S')"
    "server_inv S' (insert (hd (ids @ [p])) (A - {p}))" "gq_list (mq_heap S') (gq_head S') (tl (ids @ [p]))"
    "queue_frame S S'" "same_queues (mq_heap S) (mq_heap S')"
proof (cases ids)
  case Nil
  then have "skynet_globalmq_pop S = Some (None, S)"
    using gq_rep_queues(2) [OF inv ids] skynet_globalmq_pop_empty by blast
  then show ?thesis
    using that [of S] inv ids assms(2) Nil by (simp add: insert_absorb queue_frame_refl)
next
  case (Cons nq ids')
  note ok = gq_rep_queues [OF inv ids, unfolded Cons]
  obtain S4 where S4: "skynet_globalmq_pop S = Some (Some nq, S4)" "gq_rep S4 ids'" "same_queues (mq_heap S) (mq_heap S4)"
    using skynet_globalmq_pop_rep [OF ok(2)] by blast
  have ok4: "sched_ok (sched_of S4 (insert nq A)) ids'"
    using grab_ok [OF ok(1)] by (auto simp: sched_of_globalmq_pop S4(1))
  obtain T where T: "skynet_globalmq_push (sched_of S4 (insert nq A)) p = Some T"
    "sched_ok (T\<lparr>held := insert nq A - {p}\<rparr>) (ids' @ [p])"
    using put_back_ok [OF ok4] assms(2) by auto
  then obtain S5 where S5: "skynet_globalmq_push S4 p = Some S5" "T = sched_of S5 (insert nq A)"
    by (auto simp: sched_of_globalmq_push)
  have pn: "p \<notin> set ids'" "nq \<noteq> p" using ok(1) assms(2) by (auto simp: sched_ok_def)
  have "\<exists>q. mq_heap S4 p = Some q"
    using sched_ok_alloc [OF ok4, of p] assms(2) by (simp add: sched_of_def)
  then have same: "same_queues (mq_heap S4) (mq_heap S5)"
    using skynet_globalmq_push_rep [OF S4(2) pn(1)] S5(1) by force
  have A: "insert nq A - {p} = insert nq (A - {p})" using pn(2) by auto
  have sq: "same_queues (mq_heap S) (mq_heap S5)" by (rule same_queues_trans [OF S4(3) same])
  have fr: "queue_frame S S5"
    by (rule queue_frame_trans [OF globalmq_pop_frame [OF S4(1)] globalmq_push_frame [OF S5(1)]])
  have "sched_ok (sched_of S5 (insert nq (A - {p}))) (ids' @ [p])" using T(2) by (simp add: S5(2) A)
  then have "sched_inv (sched_of S5 (insert nq (A - {p})))" "gq_rep S5 (ids' @ [p])"
    unfolding sched_inv_def by (blast, simp add: sched_ok_def)
  then have "sched_inv (sched_of S5 (insert nq (A - {p})))" "gq_list (mq_heap S5) (gq_head S5) (ids' @ [p])"
    by (simp_all add: gq_rep_def)
  with server_inv_queues [OF inv fr sq] show ?thesis
    using that [of S5] S4(1) S5(1) fr sq Cons by simp
qed

text \<open>A worker without a queue takes the first of the global list.\<close>

lemma globalmq_pop_inv:
  assumes inv: "server_inv S A"
  shows "\<exists>r S'. skynet_globalmq_pop S = Some (r, S') \<and> server_inv S' (A \<union> set_option r) \<and> queue_frame S S'
    \<and> same_queues (mq_heap S) (mq_heap S')"
proof -
  obtain ids where ids: "sched_ok (sched_of S A) ids" using inv by (auto simp: server_inv_def sched_inv_def)
  then have rep: "gq_rep S ids" by (simp add: sched_ok_def)
  show ?thesis
  proof (cases ids)
    case Nil
    then show ?thesis
      using skynet_globalmq_pop_empty [of S] rep inv by (auto simp: queue_frame_refl)
  next
    case (Cons nq ids')
    then obtain S4 where S4: "skynet_globalmq_pop S = Some (Some nq, S4)" "same_queues (mq_heap S) (mq_heap S4)"
      using skynet_globalmq_pop_rep rep by blast
    have "sched_ok (sched_of S4 (insert nq A)) ids'"
      using grab_ok [OF ids [unfolded Cons]] by (auto simp: sched_of_globalmq_pop S4(1))
    then have "sched_inv (sched_of S4 (insert nq A))" by (auto simp: sched_inv_def)
    then show ?thesis
      using server_inv_queues [OF inv globalmq_pop_frame [OF S4(1)] S4(2)] S4 globalmq_pop_frame [OF S4(1)] by auto
  qed
qed

section \<open>Dropping the messages of a dead service\<close>

text \<open>A push changes no queue's release mark nor its handle.\<close>

definition marks :: "('m, 'z) mq_state_scheme \<Rightarrow> mqid \<Rightarrow> (bool \<times> u32) option" where
  "marks S y = map_option (\<lambda>q. (mq_release q, mq_handle q)) (mq_heap S y)"

lemma mq_push_marks: "skynet_mq_push S p m = Some S' \<Longrightarrow> marks S' = marks S"
  by (auto simp: skynet_mq_push_def skynet_globalmq_push_def marks_def fun_eq_iff Let_def mq_enqueue_frame
      split: option.splits if_splits)

lemma push_marks:
  assumes inv: "server_inv S A" and push: "skynet_context_push X S h m = Some (ok, S')"
  shows "marks S' = marks S"
proof (cases "hs_lookup (hof S) (sv_handles S) h")
  case None
  then show ?thesis using push by (simp add: context_push_missing)
next
  case (Some c)
  then obtain x where x: "sv_ctx S c = Some x" "0 < ctx_ref x" using server_inv_lookup [OF inv] by metis
  let ?S1 = "S\<lparr>sv_ctx := (sv_ctx S)(c \<mapsto> x\<lparr>ctx_ref := Suc (ctx_ref x)\<rparr>)\<rparr>"
  obtain S2 where S2: "skynet_mq_push ?S1 (ctx_queue x) m = Some S2"
    and rel: "map_option (\<lambda>(alive, S3). (True, S3)) (skynet_context_release X S2 c) = Some (ok, S')"
    using push x by (auto simp: skynet_context_push_def skynet_handle_grab_def Some skynet_context_grab_def upd_ctx_def
        bind_eq_Some_conv)
  have "sv_ctx S2 c = Some (x\<lparr>ctx_ref := Suc (ctx_ref x)\<rparr>)"
    by (simp add: queue_frame_sv [OF mq_push_frame [OF S2]])
  then have "mq_heap S' = mq_heap S2" using rel x(2) by (auto simp: skynet_context_release_def Let_def)
  then show ?thesis using mq_push_marks [OF S2] by (simp add: marks_def fun_eq_iff)
qed

text \<open>A registered service's queue is not marked, so the queue of a dead one gets no message.\<close>

lemma target_unmarked:
  assumes "server_inv S A" and "target S h = Some p" and "mq_heap S p = Some q"
  shows "\<not> mq_release q"
proof -
  obtain c x where c: "hs_lookup (hof S) (sv_handles S) h = Some c" "sv_ctx S c = Some x" "ctx_queue x = p"
    using assms(2) by (auto simp: target_def bind_eq_Some_conv)
  obtain x' q' where "sv_ctx S c = Some x'" "mq_heap S (ctx_queue x') = Some q'" "\<not> mq_release q'"
    by (rule server_inv_lookup [OF assms(1) c(1)])
  with c assms(3) show ?thesis by simp
qed

definition error_report :: "u32 \<Rightarrow> skynet_message" where
  "error_report h = \<lparr>msg_source = h, msg_session = 0, msg_data = None, msg_sz = 0x7000000\<rparr>"

definition local_sources :: "('cb, 'w) server \<Rightarrow> skynet_message list \<Rightarrow> bool" where
  "local_sources S ms \<longleftrightarrow> (\<forall>m \<in> set ms. skynet_harbor_message_isremote S (msg_source m) = Some False)"

definition owned :: "('cb, 'w) server \<Rightarrow> skynet_message list \<Rightarrow> bool" where
  "owned S ms \<longleftrightarrow> (\<forall>m \<in> set ms. \<forall>a. msg_data m = Some a \<longrightarrow> sv_mem S a \<noteq> None) \<and> distinct (List.map_filter msg_data ms)"

lemma drop_message_send:
  assumes "h \<noteq> 0" and "skynet_harbor_message_isremote S (msg_source m) = Some False"
    and "skynet_free S (msg_data m) = Some S1"
  shows "drop_message X h m S = (if msg_source m = 0 then Some S1
     else map_option snd (skynet_context_push X S1 (msg_source m) (error_report h)))"
proof -
  obtain mem where S1: "S1 = S\<lparr>sv_mem := mem\<rparr>" using free_fields [OF assms(3)] by blast
  have r: "skynet_harbor_message_isremote S1 (msg_source m) = Some False"
    using assms(2) by (simp add: S1 skynet_harbor_message_isremote_def Let_def split: if_splits)
  have f: "filter_args S1 None (of_nat PTYPE_ERROR) 0 None 0 = Some (0, None, 0x7000000, S1)"
    by (simp add: filter_args_def PTYPE_ERROR_def PTYPE_TAG_DONTCOPY_def PTYPE_TAG_ALLOCSESSION_def
        HANDLE_REMOTE_SHIFT_def)
  have "map_option snd (Option.bind p (\<lambda>(ok, S2). if ok then Some (0 :: i32, S2) else map_option (Pair (- 1)) (skynet_free S2 None)))
      = map_option snd p" for p :: "(bool \<times> ('a, 'b) server) option"
    by (cases p) (auto simp: skynet_free_def)
  then show ?thesis
    using assms(1,3) by (simp add: drop_message_def skynet_send_def f r error_report_def)
qed


definition reports :: "('cb, 'w) server \<Rightarrow> u32 \<Rightarrow> skynet_message list \<Rightarrow> mqid \<Rightarrow> skynet_message list" where
  "reports S h ms y = replicate (List.length (filter (\<lambda>m. msg_source m \<noteq> 0 \<and> target S (msg_source m) = Some y) ms)) (error_report h)"

text \<open>What dropping \<open>ms\<close> changes; the registered services, their names and handles stay.\<close>

definition dropped :: "('cb, 'w) server \<Rightarrow> ('cb, 'w) server \<Rightarrow> u32 \<Rightarrow> mqid \<Rightarrow> skynet_message list \<Rightarrow> bool" where
  "dropped S S' h p ms \<longleftrightarrow> sv_mem S' = sv_mem S |` (- data_of ms) \<and> sv_ctx S' = sv_ctx S
     \<and> sv_handles S' = sv_handles S \<and> sv_harbor S' = sv_harbor S \<and> sv_world S' = sv_world S
     \<and> (\<forall>y. y \<noteq> p \<longrightarrow> queue_msgs S' y = map_option (\<lambda>l. l @ reports S h ms y) (queue_msgs S y))"

lemma target_cong:
  "sv_ctx S' = sv_ctx S \<Longrightarrow> sv_handles S' = sv_handles S \<Longrightarrow> target S' h = target S h"
  using hof_cong [of S' S] by (simp add: target_def)

lemma isremote_cong: "sv_harbor S' = sv_harbor S \<Longrightarrow> skynet_harbor_message_isremote S' h = skynet_harbor_message_isremote S h"
  by (simp add: skynet_harbor_message_isremote_def)

text \<open>One message: its data is freed, its source told.\<close>

lemma drop_one:
  assumes inv: "server_inv S A" and q: "mq_heap S p = Some q" "mq_release q" and "h \<noteq> 0"
    and own: "\<And>a. msg_data m = Some a \<Longrightarrow> sv_mem S a \<noteq> None"
    and loc: "skynet_harbor_message_isremote S (msg_source m) = Some False"
  shows "\<exists>S'. drop_message X h m S = Some S' \<and> server_inv S' A \<and> dropped S S' h p [m]
    \<and> queue_msgs S' p = queue_msgs S p \<and> marks S' = marks S"
proof -
  define S1 where "S1 = S\<lparr>sv_mem := sv_mem S |` (- data_of [m])\<rparr>"
  have free: "skynet_free S (msg_data m) = Some S1"
    using own by (auto simp: skynet_free_def S1_def restrict_complement_singleton_eq split: option.splits)
  have inv1: "server_inv S1 A" by (rule server_inv_free [OF inv free])
  have t: "target S1 g = target S g" for g by (rule target_cong) (simp_all add: S1_def)
  note drop = drop_message_send [OF assms(4) loc free]
  show ?thesis
  proof (cases "msg_source m = 0")
    case True
    with True drop inv1 show ?thesis
      by (intro exI [of _ S1]) (auto simp: dropped_def S1_def queue_msgs_def reports_def marks_def fun_eq_iff option.map_ident)
  next
    case False
    obtain ok S' where S': "skynet_context_push X S1 (msg_source m) (error_report h) = Some (ok, S')" "server_inv S' A"
      "queue_frame S1 S'" "\<forall>y. queue_msgs S' y = (if target S1 (msg_source m) = Some y
         then map_option (\<lambda>l. l @ [error_report h]) (queue_msgs S1 y) else queue_msgs S1 y)"
      using push_queue_msgs [OF inv1] by blast
    have "target S (msg_source m) \<noteq> Some p"
      using target_unmarked [OF inv _ q(1)] q(2) by blast
    moreover have "marks S' = marks S1" by (rule push_marks [OF inv1 S'(1)])
    moreover have "queue_msgs S1 = queue_msgs S" "marks S1 = marks S"
      by (simp_all add: S1_def queue_msgs_def marks_def fun_eq_iff)
    ultimately show ?thesis
      using S' False drop
      by (intro exI [of _ S'])
        (auto simp: dropped_def queue_frame_sv [OF S'(3)] reports_def t option.map_ident simp: S1_def [symmetric],
          auto simp: S1_def)
  qed
qed


lemma dropped_Cons:
  assumes "dropped S S1 h p [m]" and "dropped S1 S2 h p ms"
  shows "dropped S S2 h p (m # ms)"
proof -
  have t: "target S1 g = target S g" for g using assms(1) by (intro target_cong) (simp_all add: dropped_def)
  have "- data_of [m] \<inter> - data_of ms = - data_of (m # ms)" by (auto split: option.splits)
  moreover have "reports S h (m # ms) y = reports S h [m] y @ reports S1 h ms y" for y
    by (simp add: reports_def t)
  ultimately show ?thesis
    using assms by (simp add: dropped_def option.map_comp comp_def)
qed

lemma drop_all:
  assumes "server_inv S A" and "p \<in> A" and "mq_heap S p = Some q" and "mq_release q" and "h \<noteq> 0"
    and "mq_abs q = ms" and "owned S ms" and "local_sources S ms"
  shows "\<exists>S'. drop_queue (drop_message X h) S p = Some S' \<and> server_inv S' (A - {p}) \<and> dropped S S' h p ms
    \<and> queue_msgs S' p = None"
  using assms
proof (induction ms arbitrary: S q)
  case Nil
  obtain ids where ok: "sched_ok (sched_of S A) ids" using Nil.prems(1) by (auto simp: server_inv_def sched_inv_def)
  have q0: "mq_heap (sched_of S A) p = Some q" using Nil.prems(3) by (simp add: sched_of_def)
  define S1 where "S1 = S\<lparr>mq_heap := (mq_heap S)(p \<mapsto> q\<lparr>mq_overload_threshold := MQ_OVERLOAD, mq_in_global := False\<rparr>)\<rparr>"
  have pop: "mq_pop_at S p = Some (1, None, S1)"
    using mq_pop_at_sound(1) [OF Nil.prems(3) sched_okD(1) [OF ok q0] Nil.prems(6)] by (simp add: S1_def)
  obtain T where T: "mq_free (sched_of S1 A) p = Some T" "sched_ok (T\<lparr>held := A - {p}\<rparr>) ids"
    using free_ok [OF ok _ q0, of None "sched_of S1 A"] Nil.prems(2) by (auto simp: sched_of_pop_at pop)
  define S2 where "S2 = S1\<lparr>mq_heap := (mq_heap S)(p := None)\<rparr>"
  have free: "mq_free S1 p = Some S2" "T = sched_of S2 A"
    using T(1) by (auto simp: mq_free_def sched_of_def S1_def S2_def split: if_splits)
  have inv: "server_inv S A" using Nil.prems(1) .
  have "contexts_ok S2"
    unfolding contexts_ok_def
  proof
    fix c assume "c \<in> registered (sv_handles S2)"
    then obtain x q' where x: "sv_ctx S c = Some x" "0 < ctx_ref x" "mq_heap S (ctx_queue x) = Some q'" "\<not> mq_release q'"
      "mq_handle q' = ctx_handle x"
      using inv unfolding server_inv_def contexts_ok_def by (auto simp: S2_def S1_def)
    then have "ctx_queue x \<noteq> p" using Nil.prems(3,4) by auto
    with x show "\<exists>x q. sv_ctx S2 c = Some x \<and> 0 < ctx_ref x \<and> mq_heap S2 (ctx_queue x) = Some q \<and> \<not> mq_release q
        \<and> mq_handle q = ctx_handle x"
      by (auto simp: S2_def S1_def)
  qed
  moreover have "mem_ok S2" using inv by (auto simp: server_inv_def mem_ok_def S2_def S1_def)
  ultimately have "server_inv S2 (A - {p})"
    using inv T(2) free(2) hof_cong [of S2 S] by (auto simp: server_inv_def sched_inv_def S2_def S1_def)
  moreover have "drop_queue (drop_message X h) S p = Some S2"
    by (simp add: drop_queue_def drop_loop.simps pop free(1))
  ultimately show ?case
    by (intro exI [of _ S2]) (simp add: dropped_def S2_def S1_def queue_msgs_def reports_def option.map_ident)
next
  case (Cons m ms)
  obtain q1 where q1: "mq_pop_at S p = Some (0, Some m, S\<lparr>mq_heap := (mq_heap S)(p \<mapsto> q1)\<rparr>)"
    "server_inv (S\<lparr>mq_heap := (mq_heap S)(p \<mapsto> q1)\<rparr>) A" "mq_abs q1 = ms" "mq_release q1 = mq_release q"
    using take_server_inv [OF Cons.prems(1-3,6)] by metis
  let ?S0 = "S\<lparr>mq_heap := (mq_heap S)(p \<mapsto> q1)\<rparr>"
  have own: "owned S [m]" "owned S ms" "data_of [m] \<inter> data_of ms = {}"
    using Cons.prems(7) by (auto simp: owned_def data_of_def List.map_filter_simps split: option.splits)
  have "skynet_harbor_message_isremote ?S0 (msg_source m) = Some False"
    using Cons.prems(8) isremote_cong [of ?S0 S] by (simp add: local_sources_def)
  then obtain S1 where S1: "drop_message X h m ?S0 = Some S1" "server_inv S1 A" "dropped ?S0 S1 h p [m]"
    "queue_msgs S1 p = queue_msgs ?S0 p" "marks S1 = marks ?S0"
    using drop_one [OF q1(2), of p q1 h m X] Cons.prems(4,5) q1(4) own(1) by (auto simp: owned_def)
  have t: "target ?S0 g = target S g" for g by (rule target_cong) simp_all
  have d1: "dropped S S1 h p [m]"
    using S1(3) by (simp add: dropped_def reports_def t queue_msgs_def)
  obtain q2 where q2: "mq_heap S1 p = Some q2" "mq_abs q2 = ms" "mq_release q2"
    using S1(4) fun_cong [OF S1(5), of p] q1(3,4) Cons.prems(4) by (auto simp: queue_msgs_def marks_def)
  have "sv_mem S1 a = sv_mem S a" if "a \<in> data_of ms" for a
    using d1 own(3) that by (auto simp: dropped_def restrict_map_def)
  then have "owned S1 ms"
    using own(2) data_of_iff [of _ ms] unfolding owned_def by metis
  moreover have "local_sources S1 ms"
    using Cons.prems(8) d1 isremote_cong [of S1 S] by (simp add: local_sources_def dropped_def)
  ultimately obtain S2 where S2: "drop_queue (drop_message X h) S1 p = Some S2" "server_inv S2 (A - {p})"
    "dropped S1 S2 h p ms" "queue_msgs S2 p = None"
    using Cons.IH [OF S1(2) Cons.prems(2) q2(1,3) Cons.prems(5) q2(2)] by blast
  have "drop_queue (drop_message X h) S p = Some S2"
    using S2(1) by (simp add: drop_queue_def drop_loop.simps [of _ S] q1(1) S1(1))
  with S2 dropped_Cons [OF d1 S2(3)] show ?case by blast
qed

lemma dispatch_dead:
  assumes inv: "server_inv S A" and "p \<in> A" and q: "mq_heap S p = Some q" "mq_release q" "mq_abs q = ms"
    and dead: "hs_lookup (hof S) (sv_handles S) (mq_handle q) = None" and "mq_handle q \<noteq> 0"
    and own: "owned S ms" and loc: "local_sources S ms"
  shows "\<exists>nq S'. skynet_context_message_dispatch X S sm (Some p) weight = Some (nq, sm, S')
    \<and> server_inv S' ((A - {p}) \<union> set_option nq) \<and> dropped S S' (mq_handle q) p ms \<and> queue_msgs S' p = None"
proof -
  obtain S1 where S1: "drop_queue (drop_message X (mq_handle q)) S p = Some S1" "server_inv S1 (A - {p})"
    "dropped S S1 (mq_handle q) p ms" "queue_msgs S1 p = None"
    using drop_all [OF inv assms(2) q(1,2) assms(7) q(3) own loc] by blast
  obtain nq S2 where S2: "skynet_globalmq_pop S1 = Some (nq, S2)" "server_inv S2 ((A - {p}) \<union> set_option nq)"
    "queue_frame S1 S2" "same_queues (mq_heap S1) (mq_heap S2)"
    using globalmq_pop_inv [OF S1(2)] by blast
  have "queue_msgs S2 = queue_msgs S1"
    using S2(4) unfolding same_queues_def queue_msgs_def by (metis map_option_unlinked_abs)
  with S1(3,4) have "dropped S S2 (mq_handle q) p ms \<and> queue_msgs S2 p = None"
    by (simp add: dropped_def queue_frame_sv [OF S2(3)])
  then show ?thesis
    using S1(1) S2(1,2)
    by (simp add: skynet_context_message_dispatch_def q skynet_mq_handle_def skynet_handle_grab_def dead skynet_mq_release_def)
qed

section \<open>The contract of a consuming service\<close>

text \<open>
  The client is the dispatcher, the provider a service: its callback, given a message whose bytes can
  be read, does not keep the message, calls nothing of the server and changes only the services' own
  state.
\<close>

locale consumer =
  fixes X :: "('cb, 'w) externals" and cb :: 'cb and step :: "u32 \<Rightarrow> bytes \<Rightarrow> 'w \<Rightarrow> 'w"
  assumes consume: "block_bytes S data sz = Some bs \<Longrightarrow>
    x_callback X cb c type session source data sz S = Some (False, S\<lparr>sv_world := step source bs (sv_world S)\<rparr>)"
begin

definition listening :: "'cb skynet_context \<Rightarrow> bool" where
  "listening x \<longleftrightarrow> ctx_init x \<and> ctx_logfile x = None \<and> ctx_cb x = Some cb"

lemma popped_consumes:
  assumes "sv_ctx S c = Some x" and "listening x" and "mq_heap S p = Some q" and "quiet q" and "readable S [m]"
  shows "dispatch_popped X S sm c h p m
    = Some (skynet_monitor_trigger (skynet_monitor_trigger sm (msg_source m) h) 0 0, after_batch step S p q [m])"
proof -
  have S: "S\<lparr>mq_heap := (mq_heap S)(p \<mapsto> q)\<rparr> = S" using assms(3) by (simp add: fun_upd_idem)
  obtain bs where bs: "body S m = Some bs" using assms(5) by (auto simp: readable_def)
  let ?W = "S\<lparr>sv_world := step (msg_source m) bs (sv_world S)\<rparr>"
  have "dispatch_message X S c m = skynet_free ?W (msg_data m)"
    using assms(1,2) bs consume by (simp add: dispatch_message_def listening_def body_def)
  moreover have "skynet_free ?W (msg_data m) = Some (after_batch step S p q [m])"
    using assms(3,5) bs
    by (auto simp: skynet_free_def after_batch_def consumed_def readable_def fun_upd_idem restrict_complement_singleton_eq
        split: option.splits)
  ultimately show ?thesis
    using assms(1-4) by (simp add: dispatch_popped_def skynet_mq_overload_def quiet_def S listening_def)
qed

lemma rest_consumes:
  assumes "server_inv S A" and "p \<in> A" and "mq_heap S p = Some q" and "quiet q" and "mq_abs q = ms"
    and "n \<le> List.length ms" and "sv_ctx S c = Some x" and "listening x" and "readable S ms"
  shows "\<exists>q' sm'. dispatch_rest n X S sm c h p = Some (False, sm', after_batch step S p q' (take n ms))
    \<and> server_inv (after_batch step S p q' (take n ms)) A \<and> mq_abs q' = drop n ms
    \<and> mq_handle q' = mq_handle q \<and> mq_next q' = mq_next q \<and> mq_release q' = mq_release q
    \<and> mon_destination sm' = (if n = 0 then mon_destination sm else 0)"
  using assms
proof (induction n arbitrary: S sm q ms)
  case 0
  have "after_batch step S p q [] = S" using 0(3) by (simp add: after_batch_def consumed_def fun_upd_idem)
  with 0 show ?case by (intro exI [of _ q] exI [of _ sm]) simp
next
  case (Suc n)
  obtain m ms' where ms: "ms = m # ms'" using Suc.prems(6) by (cases ms) auto
  obtain q1 where q1: "mq_pop_at S p = Some (0, Some m, S\<lparr>mq_heap := (mq_heap S)(p \<mapsto> q1)\<rparr>)"
    "server_inv (S\<lparr>mq_heap := (mq_heap S)(p \<mapsto> q1)\<rparr>) A" "mq_abs q1 = ms'" "quiet q1"
    "mq_handle q1 = mq_handle q" "mq_next q1 = mq_next q" "mq_release q1 = mq_release q"
    using take_server_inv [OF Suc.prems(1-3)] Suc.prems(4,5) ms by metis
  let ?S0 = "S\<lparr>mq_heap := (mq_heap S)(p \<mapsto> q1)\<rparr>" and ?S1 = "after_batch step S p q1 [m]"
  have "after_batch step ?S0 p q1 [m] = ?S1"
    by (simp add: after_batch_def consumed_def)
  moreover have "readable ?S0 [m]"
    using Suc.prems(9) by (auto simp: ms readable_def List.map_filter_simps split: option.splits)
  ultimately have pp: "dispatch_popped X ?S0 sm c h p m
      = Some (skynet_monitor_trigger (skynet_monitor_trigger sm (msg_source m) h) 0 0, ?S1)"
    using popped_consumes [of ?S0 c x p q1 m sm h] Suc.prems(7,8) q1(4) by simp
  let ?sm = "skynet_monitor_trigger (skynet_monitor_trigger sm (msg_source m) h) 0 0"
  have rd: "readable S (m # ms')" using Suc.prems(9) by (simp add: ms)
  obtain q' sm' where IH: "dispatch_rest n X ?S1 ?sm c h p = Some (False, sm', after_batch step ?S1 p q' (take n ms'))"
    "server_inv (after_batch step ?S1 p q' (take n ms')) A" "mq_abs q' = drop n ms'"
    "mq_handle q' = mq_handle q1" "mq_next q' = mq_next q1" "mq_release q' = mq_release q1"
    "mon_destination sm' = (if n = 0 then mon_destination ?sm else 0)"
    using Suc.IH [of ?S1 q1 ms' ?sm, OF after_batch_inv [OF q1(2)] Suc.prems(2) _ q1(4,3) _ _ Suc.prems(8) readable_Cons(1) [OF rd]]
      Suc.prems(6,7) ms by auto
  have rd': "readable S (m # take n ms')"
    using rd readable_append [of S "m # take n ms'" "drop n ms'"] by simp
  show ?case
    using q1 pp IH after_batch_Cons [OF rd', of step p q1 q'] ms
    by (intro exI [of _ q'] exI [of _ sm']) (simp add: skynet_monitor_trigger_def)
qed

lemma queue_is_rest:
  assumes "mq_pop_at S p = Some (0, Some m, S1)" and "mq_heap S1 p = Some q1"
  shows "dispatch_queue X S sm c h p weight
    = dispatch_rest (Suc (dispatch_count weight (skynet_mq_length q1) - 1)) X S sm c h p"
  using assms by (simp add: dispatch_queue_def)

lemma dispatch_batch:
  assumes inv: "server_inv S A" and p: "p \<in> A" and q: "mq_heap S p = Some q" "mq_abs q = m # ms" "quiet q"
    and look: "hs_lookup (hof S) (sv_handles S) (mq_handle q) = Some c"
    and x: "sv_ctx S c = Some x" "ctx_queue x = p" "listening x"
    and rd: "readable S (m # ms)" and ids: "gq_list (mq_heap S) (gq_head S) ids"
    and k: "k = max 1 (dispatch_count weight (List.length ms))"
  shows "\<exists>sm' S'. skynet_context_message_dispatch X S sm (Some p) weight = Some (Some (hd (ids @ [p])), sm', S')
    \<and> server_inv S' (insert (hd (ids @ [p])) (A - {p}))
    \<and> gq_list (mq_heap S') (gq_head S') (tl (ids @ [p]))
    \<and> (\<forall>y. queue_msgs S' y = (if y = p then Some (drop k (m # ms)) else queue_msgs S y))
    \<and> sv_mem S' = sv_mem S |` (- data_of (take k (m # ms)))
    \<and> sv_world S' = consumed step S (take k (m # ms)) (sv_world S)
    \<and> sv_ctx S' = sv_ctx S \<and> mon_destination sm' = 0"
proof -
  let ?x = "x\<lparr>ctx_ref := Suc (ctx_ref x)\<rparr>"
  define S0 where "S0 = S\<lparr>sv_ctx := (sv_ctx S)(c \<mapsto> ?x)\<rparr>"
  have inv0: "server_inv S0 A" unfolding S0_def by (rule server_inv_ref [OF inv x(1)]) simp
  have ref: "0 < ctx_ref x" using server_inv_lookup [OF inv look] x(1) by (metis option.inject)
  have grab: "skynet_handle_grab S (mq_handle q) = Some (Some c, S0)"
    by (simp add: skynet_handle_grab_def look skynet_context_grab_def upd_ctx_def x(1) S0_def)
  have s0: "mq_heap S0 = mq_heap S" "gq_head S0 = gq_head S" "sv_mem S0 = sv_mem S" "sv_world S0 = sv_world S"
    "sv_ctx S0 c = Some ?x" "body S0 = body S" for m
    by (simp_all add: S0_def body_def block_bytes_def fun_eq_iff)
  have rd0: "readable S0 (m # ms)" using rd by (simp add: readable_def s0)
  have q0: "mq_heap S0 p = Some q" by (simp add: s0 q)
  have lx: "listening ?x" using x(3) by (simp add: listening_def)
  obtain q1 where q1: "mq_pop_at S0 p = Some (0, Some m, S0\<lparr>mq_heap := (mq_heap S0)(p \<mapsto> q1)\<rparr>)"
    "skynet_mq_length q1 = List.length ms"
    using take_server_inv [OF inv0 p q0 q(2)] by metis
  have "drop_bit n l \<le> (l :: nat)" for n l by (simp add: drop_bit_eq_div)
  then have kl: "k \<le> List.length (m # ms)" "0 < k"
    by (simp_all add: k dispatch_count_def le_SucI)
  have k': "k = Suc (dispatch_count weight (List.length ms) - 1)" by (simp add: k max_def)
  have "dispatch_queue X S0 sm c (mq_handle q) p weight = dispatch_rest k X S0 sm c (mq_handle q) p"
    using queue_is_rest [OF q1(1), of q1] q1(2) k' by (simp del: dispatch_rest.simps)
  then obtain q' sm' where r: "dispatch_queue X S0 sm c (mq_handle q) p weight
        = Some (False, sm', after_batch step S0 p q' (take k (m # ms)))"
    "server_inv (after_batch step S0 p q' (take k (m # ms))) A" "mq_abs q' = drop k (m # ms)"
    "mq_next q' = mq_next q" "mon_destination sm' = 0"
    using rest_consumes [OF inv0 p q0 q(3,2) kl(1) s0(5) lx rd0] kl(2) by force
  let ?S3 = "after_batch step S0 p q' (take k (m # ms))"
  have "gq_list (mq_heap ?S3) (gq_head ?S3) ids"
    using ids r(4) q(1) gq_list_cong [of ids "mq_heap ?S3" "mq_heap S"] by (simp add: s0)
  from rotate [OF r(2) p this] obtain S5
    where S5: "\<And>f :: _ \<Rightarrow> (mqid option \<times> skynet_monitor \<times> ('cb, 'w) server) option. Option.bind (skynet_globalmq_pop ?S3)
      (\<lambda>(nq, S4). Option.bind (if nq = None then Some (Some p, S4)
         else map_option (Pair nq) (skynet_globalmq_push S4 p)) f) = f (Some (hd (ids @ [p])), S5)"
    "server_inv S5 (insert (hd (ids @ [p])) (A - {p}))" "gq_list (mq_heap S5) (gq_head S5) (tl (ids @ [p]))"
    "queue_frame ?S3 S5" "same_queues (mq_heap ?S3) (mq_heap S5)" by blast
  note sv = queue_frame_sv [OF S5(4)]
  define S6 where "S6 = S5\<lparr>sv_ctx := (sv_ctx S5)(c \<mapsto> x)\<rparr>"
  have c5: "sv_ctx S5 c = Some ?x" by (simp add: sv s0)
  have "x = ?x\<lparr>ctx_ref := ctx_ref x\<rparr>" by simp
  then have inv6: "server_inv S6 (insert (hd (ids @ [p])) (A - {p}))"
    using server_inv_ref [OF S5(2) c5 ref] by (simp add: S6_def)
  have rel: "skynet_context_release X S5 c = Some (True, S6)"
    using ref by (simp add: skynet_context_release_def c5 S6_def)
  have disp: "skynet_context_message_dispatch X S sm (Some p) weight = Some (Some (hd (ids @ [p])), sm', S6)"
    by (simp add: skynet_context_message_dispatch_def q(1) skynet_mq_handle_def grab r(1) s0 x(2))
      (subst S5(1), simp add: rel)
  have "map_option mq_abs (mq_heap S5 y) = map_option mq_abs (mq_heap ?S3 y)" for y
    using S5(5) [unfolded same_queues_def, rule_format, of y] by (metis map_option_unlinked_abs)
  then have "queue_msgs S6 y = (if y = p then Some (drop k (m # ms)) else queue_msgs S y)" for y
    using r(3) by (simp add: queue_msgs_def S6_def s0)
  moreover have "sv_ctx S6 = sv_ctx S" using x(1) by (auto simp: S6_def sv S0_def)
  moreover have "consumed step S0 ms' w = consumed step S ms' w" for ms' w
    by (rule consumed_cong) (simp add: s0)
  ultimately show ?thesis
    using disp inv6 S5(3) r(5) by (intro exI [of _ sm'] exI [of _ S6]) (simp add: S6_def sv s0)
qed

end

section \<open>Properties\<close>


definition dead_message :: skynet_message where
  "dead_message = \<lparr>msg_source = 0x1000005, msg_session = 1, msg_data = Some 1, msg_sz = 3\<rparr>"

definition dead_queue :: "skynet_message message_queue" where
  "dead_queue = (mq_enqueue (mq_new 0x1000009) dead_message)\<lparr>mq_release := True\<rparr>"

definition dead_example :: "(nat, unit) server" where
  "dead_example = example_boot\<lparr>mq_heap := [0 \<mapsto> dead_queue], sv_mem := [1 \<mapsto> Bytes [1, 2, 3]], sv_brk := 2\<rparr>"

lemma dead_example_inv: "server_inv dead_example {0}" "mq_abs dead_queue = [dead_message]" "mq_inv dead_queue"
proof -
  let ?q = "mq_enqueue (mq_new 0x1000009) dead_message"
  have "mq_abs ?q = [dead_message]" "mq_inv ?q"
    by (simp_all add: mq_enqueue_abs [OF mq_new_inv] mq_enqueue_inv [OF mq_new_inv] mq_new_abs)
  moreover have "mq_in_global ?q" "mq_next ?q = None" by (simp_all add: mq_enqueue_frame) (simp_all add: mq_new_def)
  ultimately have e: "mq_abs ?q = [dead_message]" "mq_inv ?q" "mq_in_global ?q" "mq_next ?q = None" .
  have q: "mq_abs dead_queue = [dead_message]" "mq_inv dead_queue" "mq_in_global dead_queue" "mq_release dead_queue"
    "mq_next dead_queue = None"
    using e by (simp_all add: dead_queue_def mq_abs_def mq_slots_def mq_inv_def)
  then show "mq_abs dead_queue = [dead_message]" "mq_inv dead_queue" by simp_all
  have b: "server_inv example_boot {}" unfolding example_boot_def by (rule boot_inv)
  have "sched_ok (sched_of dead_example {0}) []"
    using q by (auto simp: sched_ok_def gq_rep_def queues_ok_def sched_of_def dead_example_def example_boot_def
        skynet_boot_def skynet_harbor_init_def)
  moreover have "registered (sv_handles dead_example) = {}"
    by (simp add: dead_example_def example_boot_def skynet_boot_def skynet_harbor_init_def init_registered)
  moreover have "mem_ok dead_example"
    by (simp add: mem_ok_def dead_example_def example_boot_def skynet_boot_def skynet_harbor_init_def)
  moreover have "hof dead_example = hof example_boot" by (rule hof_cong) (simp add: dead_example_def)
  ultimately show "server_inv dead_example {0}"
    using b by (auto simp: server_inv_def sched_inv_def contexts_ok_def) (simp_all add: dead_example_def)
qed


end
