(* ===== verification/Command.thy ===== *)
theory Command
  imports Dispatch
begin

text \<open>
  Services as the program's users see them, of \<open>skynet-src/skynet_server.c\<close>: creating and retiring
  contexts (\<open>skynet_context_new\<close>, \<open>handle_exit\<close>, \<open>skynet_handle_retireall\<close>), names, and the text
  commands of \<open>skynet_command\<close>, with the environment of \<open>skynet-src/skynet_env.c\<close>. A command takes the
  calling context and a parameter, \<open>None\<close> for NULL, and gives the returned string; dereferencing a
  NULL parameter is a crash.
\<close>

section \<open>Creating and retiring contexts\<close>

definition skynet_module_instance_create ::
  "('cb, 'w) externals \<Rightarrow> skynet_module \<Rightarrow> ('cb, 'w) server \<Rightarrow> nat option \<times> ('cb, 'w) server" where
  "skynet_module_instance_create X m S =
     (case mod_create m of
        None \<Rightarrow> (Some (unat (- 1 :: u64)), S)
      | Some f \<Rightarrow> (case x_create X f (sv_world S) of (inst, w) \<Rightarrow> (inst, S\<lparr>sv_world := w\<rparr>)))"

text \<open>\<open>open_sym\<close> only keeps modules that have an \<open>init\<close>; calling a NULL pointer would be a crash.\<close>

definition skynet_module_instance_init ::
  "('cb, 'w) externals \<Rightarrow> skynet_module \<Rightarrow> nat \<Rightarrow> addr \<Rightarrow> string option \<Rightarrow> ('cb, 'w) server \<Rightarrow>
     (i32 \<times> ('cb, 'w) server) option" where
  "skynet_module_instance_init X m inst c param S = Option.bind (mod_init m) (\<lambda>f. x_init X f inst c param S)"

definition skynet_module_instance_signal ::
  "('cb, 'w) externals \<Rightarrow> skynet_module \<Rightarrow> nat \<Rightarrow> i32 \<Rightarrow> ('cb, 'w) server \<Rightarrow> ('cb, 'w) server option" where
  "skynet_module_instance_signal X m inst signal S =
     (case mod_signal m of None \<Rightarrow> Some S | Some f \<Rightarrow> x_signal X f inst signal S)"

text \<open>The branches after \<open>init\<close>.\<close>

definition launch_ok ::
  "('cb, 'w) externals \<Rightarrow> ('cb, 'w) server \<Rightarrow> addr \<Rightarrow> mqid \<Rightarrow> string \<Rightarrow> string option \<Rightarrow>
     (addr option \<times> ('cb, 'w) server) option" where
  "launch_ok X S c q name param =
     Option.bind (skynet_context_release X S c)
       (\<lambda>(alive, S1).
          if alive then
            Option.bind (upd_ctx S1 c (\<lambda>x. x\<lparr>ctx_init := True\<rparr>))
              (\<lambda>S2. Option.bind (skynet_globalmq_push S2 q)
                (\<lambda>S3. map_option (Pair (Some c))
                  (skynet_error X S3 (Some c) (''LAUNCH '' @ name @ '' '' @ (case param of None \<Rightarrow> '''' | Some p \<Rightarrow> p)))))
          else map_option (Pair None) (skynet_globalmq_push S1 q))"

definition launch_failed ::
  "('cb, 'w) externals \<Rightarrow> ('cb, 'w) server \<Rightarrow> addr \<Rightarrow> mqid \<Rightarrow> string \<Rightarrow> ('cb, 'w) server option" where
  "launch_failed X S c q name =
     Option.bind (skynet_error X S (Some c) (''FAILED launch '' @ name))
       (\<lambda>S1. Option.bind (sv_ctx S1 c)
          (\<lambda>x. let handle = ctx_handle x in
             Option.bind (skynet_context_release X S1 c)
               (\<lambda>(_, S2). Option.bind (skynet_handle_retire X S2 handle)
                  (\<lambda>(_, S3). skynet_mq_release (drop_message X handle) S3 q))))"

definition skynet_context_new ::
  "('cb, 'w) externals \<Rightarrow> ('cb, 'w) server \<Rightarrow> string \<Rightarrow> string option \<Rightarrow> (addr option \<times> ('cb, 'w) server) option" where
  "skynet_context_new X S name param =
     Option.bind (skynet_module_query (x_dlopen X) (x_dlsym X) (sv_modules S) name)
       (\<lambda>(m, M). let S0 = S\<lparr>sv_modules := M\<rparr> in
          case m of
            None \<Rightarrow> Some (None, S0)
          | Some m \<Rightarrow>
              (case skynet_module_instance_create X m S0 of
                 (None, S1) \<Rightarrow> Some (None, S1)
               | (Some inst, S1) \<Rightarrow>
                   Option.bind (context_alloc S1 m inst)
                     (\<lambda>(c, S2). Option.bind (map_option ctx_queue (sv_ctx S2 c))
                        (\<lambda>q. Option.bind (skynet_module_instance_init X m inst c param S2)
                           (\<lambda>(r, S3). if r = 0 then launch_ok X S3 c q name param
                              else map_option (Pair None) (launch_failed X S3 c q name))))))"

text \<open>\<open>skynet_handle_retireall\<close>: a scan of the slots, repeated until it retires nothing.\<close>

partial_function (option) retire_scan ::
  "('cb, 'w) externals \<Rightarrow> ('cb, 'w) server \<Rightarrow> nat \<Rightarrow> nat \<Rightarrow> (nat \<times> ('cb, 'w) server) option" where
  "retire_scan X S i n =
     (if i < hs_slot_size (sv_handles S) then
        (let handle = (case hs_slot (sv_handles S) ! i of None \<Rightarrow> 0 | Some c \<Rightarrow> hof S c) in
         if handle \<noteq> 0 then
           Option.bind (skynet_handle_retire X S handle)
             (\<lambda>(ok, S1). retire_scan X S1 (Suc i) (if ok then Suc n else n))
         else retire_scan X S (Suc i) n)
      else Some (n, S))"

partial_function (option) skynet_handle_retireall ::
  "('cb, 'w) externals \<Rightarrow> ('cb, 'w) server \<Rightarrow> ('cb, 'w) server option" where
  "skynet_handle_retireall X S =
     Option.bind (retire_scan X S 0 0)
       (\<lambda>(n, S1). if n = 0 then Some S1 else skynet_handle_retireall X S1)"

definition handle_exit ::
  "('cb, 'w) externals \<Rightarrow> ('cb, 'w) server \<Rightarrow> addr \<Rightarrow> u32 \<Rightarrow> ('cb, 'w) server option" where
  "handle_exit X S c handle =
     Option.bind (map_option ctx_handle (sv_ctx S c))
       (\<lambda>own. let handle' = (if handle = 0 then own else handle) in
          Option.bind (skynet_error X S (Some c) (if handle = 0 then ''KILL self'' else ''KILL :'' @ print_x handle))
            (\<lambda>S1. Option.bind
               (if sv_monitor_exit S1 \<noteq> 0 then
                  map_option snd (skynet_send X S1 (Some c) handle' (sv_monitor_exit S1) (of_nat PTYPE_CLIENT) 0 None 0)
                else Some S1)
               (\<lambda>S2. map_option snd (skynet_handle_retire X S2 handle'))))"

section \<open>Names\<close>

definition skynet_queryname ::
  "('cb, 'w) externals \<Rightarrow> ('cb, 'w) server \<Rightarrow> addr \<Rightarrow> string \<Rightarrow> (u32 \<times> ('cb, 'w) server) option" where
  "skynet_queryname X S c name =
     (case name of
        CHR '':'' # s \<Rightarrow> Some (ucast (strtoul s 16), S)
      | CHR ''.'' # s \<Rightarrow> Some (skynet_handle_findname (sv_handles S) s, S)
      | _ \<Rightarrow> map_option (Pair 0) (skynet_error X S (Some c) (''Don't support query global name '' @ name)))"

definition tohandle ::
  "('cb, 'w) externals \<Rightarrow> ('cb, 'w) server \<Rightarrow> addr \<Rightarrow> string \<Rightarrow> (u32 \<times> ('cb, 'w) server) option" where
  "tohandle X S c param =
     (case param of
        CHR '':'' # s \<Rightarrow> Some (ucast (strtoul s 16), S)
      | CHR ''.'' # s \<Rightarrow> Some (skynet_handle_findname (sv_handles S) s, S)
      | _ \<Rightarrow> map_option (Pair 0) (skynet_error X S (Some c) (''Can't convert '' @ param @ '' to handle'')))"

definition skynet_callback :: "('cb, 'w) server \<Rightarrow> addr \<Rightarrow> 'cb \<Rightarrow> ('cb, 'w) server option" where
  "skynet_callback S c cb = upd_ctx S c (\<lambda>x. x\<lparr>ctx_cb := Some cb\<rparr>)"

section \<open>The environment\<close>

text \<open>The Lua state of \<open>skynet_env.c\<close> is the map of its global strings.\<close>

definition skynet_getenv :: "('cb, 'w) server \<Rightarrow> string \<Rightarrow> string option" where
  "skynet_getenv S key = sv_env S key"

definition skynet_setenv :: "('cb, 'w) server \<Rightarrow> string \<Rightarrow> string \<Rightarrow> ('cb, 'w) server option" where
  "skynet_setenv S key v =
     (if sv_env S key \<noteq> None then None else Some (S\<lparr>sv_env := (sv_env S)(key \<mapsto> v)\<rparr>))"

section \<open>The commands\<close>

type_synonym ('cb, 'w) command =
  "('cb, 'w) externals \<Rightarrow> ('cb, 'w) server \<Rightarrow> addr \<Rightarrow> string option \<Rightarrow> (string option \<times> ('cb, 'w) server) option"

definition cmd_timeout :: "('cb, 'w) command" where
  "cmd_timeout X S c param =
     Option.bind param
       (\<lambda>p. let ti = ucast (strtol p 10) :: i32 in
          Option.bind (skynet_context_newsession S c)
            (\<lambda>(session, S1). Option.bind (map_option ctx_handle (sv_ctx S1 c))
               (\<lambda>h. map_option (\<lambda>(_, S2). (Some (print_d (sint session)), S2)) (skynet_timeout X S1 h ti session))))"

definition cmd_reg :: "('cb, 'w) command" where
  "cmd_reg X S c param =
     Option.bind (map_option ctx_handle (sv_ctx S c))
       (\<lambda>h. case param of
          Some (CHR ''.'' # s) \<Rightarrow>
            map_option (\<lambda>(r, H). (r, S\<lparr>sv_handles := H\<rparr>)) (skynet_handle_namehandle (sv_handles S) h s)
        | Some (ch # s) \<Rightarrow>
            map_option (Pair None) (skynet_error X S (Some c) (''Can't register global name '' @ (ch # s) @ '' in C''))
        | _ \<Rightarrow> Some (Some (CHR '':'' # print_x h), S))"

definition cmd_query :: "('cb, 'w) command" where
  "cmd_query X S c param =
     (case param of
        None \<Rightarrow> None
      | Some (CHR ''.'' # s) \<Rightarrow>
          (let handle = skynet_handle_findname (sv_handles S) s in
           Some (if handle \<noteq> 0 then Some (CHR '':'' # print_x handle) else None, S))
      | Some _ \<Rightarrow> Some (None, S))"

text \<open>\<open>sscanf\<close> with two \<open>%s\<close>; a missing second word leaves \<open>handle\<close> uninitialised, and reading it is a crash.\<close>

definition scan_word :: "string \<Rightarrow> string option \<times> string" where
  "scan_word s =
     (let t = dropWhile isspace s in
      (if t = [] then None else Some (takeWhile (\<lambda>ch. \<not> isspace ch) t), dropWhile (\<lambda>ch. \<not> isspace ch) t))"

definition cmd_name :: "('cb, 'w) command" where
  "cmd_name X S c param =
     Option.bind param
       (\<lambda>p. case scan_word p of (name, rest) \<Rightarrow>
          Option.bind name
            (\<lambda>name. Option.bind (fst (scan_word rest))
               (\<lambda>handle. if hd handle \<noteq> CHR '':'' then Some (None, S)
                  else
                    (let handle_id = ucast (strtoul (tl handle) 16) :: u32 in
                     if handle_id = 0 then Some (None, S)
                     else
                       (case name of
                          CHR ''.'' # s \<Rightarrow>
                            map_option (\<lambda>(r, H). (r, S\<lparr>sv_handles := H\<rparr>))
                              (skynet_handle_namehandle (sv_handles S) handle_id s)
                        | _ \<Rightarrow> map_option (Pair None)
                            (skynet_error X S (Some c) (''Can't set global name '' @ name @ '' in C'')))))))"

definition cmd_now :: "('cb, 'w) command" where
  "cmd_now X S c param = Some (Some (print_u (unat (skynet_gettime (sv_timer S)))), S)"

definition cmd_exit :: "('cb, 'w) command" where
  "cmd_exit X S c param = map_option (Pair None) (handle_exit X S c 0)"

definition cmd_kill :: "('cb, 'w) command" where
  "cmd_kill X S c param =
     Option.bind param
       (\<lambda>p. Option.bind (tohandle X S c p)
          (\<lambda>(handle, S1). if handle \<noteq> 0 then map_option (Pair None) (handle_exit X S1 c handle)
                         else Some (None, S1)))"

text \<open>\<open>strsep\<close>: the text up to the first delimiter, and what follows it unless there is none.\<close>

definition strsep :: "string \<Rightarrow> char set \<Rightarrow> string \<times> string option" where
  "strsep s delims =
     (let rest = dropWhile (\<lambda>ch. ch \<notin> delims) s in
      (takeWhile (\<lambda>ch. ch \<notin> delims) s, if rest = [] then None else Some (tl rest)))"

definition cmd_launch :: "('cb, 'w) command" where
  "cmd_launch X S c param =
     Option.bind param
       (\<lambda>p. case strsep p {CHR '' '', CHR 0x09, CHR 0x0D, CHR 0x0A} of (m, args) \<Rightarrow>
          (let args' = map_option (\<lambda>a. fst (strsep a {CHR 0x0D, CHR 0x0A})) args in
           Option.bind (skynet_context_new X S m args')
             (\<lambda>(inst, S1). case inst of
                None \<Rightarrow> Some (None, S1)
              | Some i \<Rightarrow> map_option (\<lambda>x. (Some (id_to_hex (ctx_handle x)), S1)) (sv_ctx S1 i))))"

definition cmd_getenv :: "('cb, 'w) command" where
  "cmd_getenv X S c param = Option.bind param (\<lambda>p. Some (skynet_getenv S p, S))"

definition cmd_setenv :: "('cb, 'w) command" where
  "cmd_setenv X S c param =
     Option.bind param
       (\<lambda>p. let rest = dropWhile (\<lambda>ch. ch \<noteq> CHR '' '') p in
          if rest = [] then Some (None, S)
          else map_option (Pair None) (skynet_setenv S (takeWhile (\<lambda>ch. ch \<noteq> CHR '' '') p) (tl rest)))"

definition cmd_starttime :: "('cb, 'w) command" where
  "cmd_starttime X S c param = Some (Some (print_u (unat (skynet_gettime_fixsec (sv_timer S)))), S)"

definition cmd_endless :: "('cb, 'w) command" where
  "cmd_endless X S c param =
     Option.bind (sv_ctx S c)
       (\<lambda>x. if ctx_endless x then map_option (Pair (Some ''1'')) (upd_ctx S c (\<lambda>x. x\<lparr>ctx_endless := False\<rparr>))
            else Some (None, S))"

definition cmd_abort :: "('cb, 'w) command" where
  "cmd_abort X S c param = map_option (Pair None) (skynet_handle_retireall X S)"

definition cmd_monitor :: "('cb, 'w) command" where
  "cmd_monitor X S c param =
     (if param = None \<or> param = Some [] then
        Some (if sv_monitor_exit S \<noteq> 0 then Some (CHR '':'' # print_x (sv_monitor_exit S)) else None, S)
      else Option.bind param
        (\<lambda>p. map_option (\<lambda>(handle, S1). (None, S1\<lparr>sv_monitor_exit := handle\<rparr>)) (tohandle X S c p)))"

definition cmd_mqlen :: "('cb, 'w) command" where
  "cmd_mqlen X S c param =
     Option.bind (Option.bind (sv_ctx S c) (\<lambda>x. mq_heap S (ctx_queue x)))
       (\<lambda>q. Some (Some (print_d (int (skynet_mq_length q))), S))"

text \<open>The commands that act on the context behind a handle, between its grab and its release.\<close>

definition on_handle ::
  "(addr \<Rightarrow> u32 \<Rightarrow> ('cb, 'w) server \<Rightarrow> ('cb, 'w) server option) \<Rightarrow> ('cb, 'w) command" where
  "on_handle act X S c param =
     Option.bind param
       (\<lambda>p. Option.bind (tohandle X S c p)
          (\<lambda>(handle, S1). if handle = 0 then Some (None, S1)
             else Option.bind (skynet_handle_grab S1 handle)
               (\<lambda>(ctx, S2). case ctx of
                  None \<Rightarrow> Some (None, S2)
                | Some d \<Rightarrow> Option.bind (act d handle S2)
                    (\<lambda>S3. map_option (\<lambda>(_, S4). (None, S4)) (skynet_context_release X S3 d)))))"

definition cmd_logon :: "('cb, 'w) command" where
  "cmd_logon X S c param =
     on_handle
       (\<lambda>d handle S1. Option.bind (sv_ctx S1 d)
          (\<lambda>x. if ctx_logfile x \<noteq> None then Some S1
               else Option.bind (skynet_log_open X S1 c handle)
                 (\<lambda>(f, S2). if f = None then Some S2 else upd_ctx S2 d (\<lambda>x. x\<lparr>ctx_logfile := f\<rparr>))))
       X S c param"

definition cmd_logoff :: "('cb, 'w) command" where
  "cmd_logoff X S c param =
     on_handle
       (\<lambda>d handle S1. Option.bind (sv_ctx S1 d)
          (\<lambda>x. case ctx_logfile x of
             None \<Rightarrow> Some S1
           | Some f \<Rightarrow> Option.bind (upd_ctx S1 d (\<lambda>x. x\<lparr>ctx_logfile := None\<rparr>))
               (\<lambda>S2. skynet_log_close X S2 c f handle)))
       X S c param"

definition cmd_signal :: "('cb, 'w) command" where
  "cmd_signal X S c param =
     on_handle
       (\<lambda>d handle S1. Option.bind (sv_ctx S1 d)
          (\<lambda>x. let p = dropWhile (\<lambda>ch. ch \<noteq> CHR '' '') (the param);
                  sig = (if p = [] then 0 else ucast (strtol p 0))
              in skynet_module_instance_signal X (ctx_mod x) (ctx_instance x) sig S1))
       X S c param"

definition cmd_funcs :: "(string \<times> ('cb, 'w) command) list" where
  "cmd_funcs =
     [(''TIMEOUT'', cmd_timeout), (''REG'', cmd_reg), (''QUERY'', cmd_query), (''NAME'', cmd_name),
      (''NOW'', cmd_now), (''EXIT'', cmd_exit), (''KILL'', cmd_kill), (''LAUNCH'', cmd_launch),
      (''GETENV'', cmd_getenv), (''SETENV'', cmd_setenv), (''STARTTIME'', cmd_starttime),
      (''ENDLESS'', cmd_endless), (''ABORT'', cmd_abort), (''MONITOR'', cmd_monitor), (''MQLEN'', cmd_mqlen),
      (''LOGON'', cmd_logon), (''LOGOFF'', cmd_logoff), (''SIGNAL'', cmd_signal)]"

definition skynet_command ::
  "('cb, 'w) externals \<Rightarrow> ('cb, 'w) server \<Rightarrow> addr \<Rightarrow> string \<Rightarrow> string option \<Rightarrow>
     (string option \<times> ('cb, 'w) server) option" where
  "skynet_command X S c cmd param =
     (case map_of cmd_funcs cmd of None \<Rightarrow> Some (None, S) | Some f \<Rightarrow> f X S c param)"

section \<open>Marking, deleting and retiring\<close>

lemma mark_inv:
  fixes S :: "('cb, 'w) server"
  assumes inv: "server_inv S A" and q: "mq_heap S p = Some q" "\<not> mq_release q"
  shows "\<exists>S'. skynet_mq_mark_release S p = Some S' \<and> sched_inv (sched_of S' A) \<and> queue_frame S S'
    \<and> same_queues ((mq_heap S)(p \<mapsto> q\<lparr>mq_release := True\<rparr>)) (mq_heap S')"
proof -
  obtain ids where ok: "sched_ok (sched_of S A) ids" using inv by (auto simp: server_inv_def sched_inv_def)
  have q0: "mq_heap (sched_of S A) p = Some q" by (simp add: sched_of_def q)
  obtain T ids' where T: "skynet_mq_mark_release (sched_of S A) p = Some T" "sched_ok T ids'"
    using mark_ok [OF ok q0 q(2)] by blast
  then obtain S' where S': "skynet_mq_mark_release S p = Some S'" "sched_ok (sched_of S' A) ids'"
    unfolding sched_of_mq_mark by auto
  let ?S1 = "S\<lparr>mq_heap := (mq_heap S)(p \<mapsto> q\<lparr>mq_release := True\<rparr>)\<rparr>"
  have "same_queues (mq_heap ?S1) (mq_heap S')"
  proof (cases "mq_in_global q")
    case True
    then show ?thesis using S'(1) q by (auto simp: skynet_mq_mark_release_def)
  next
    case False
    have "gq_rep S ids" using ok by (simp add: sched_ok_def)
    then have rep: "gq_rep ?S1 ids" using gq_rep_upd [of S ids p q "q\<lparr>mq_release := True\<rparr>"] q(1) by simp
    have "p \<notin> set ids" using sched_okD(2) [OF ok q0] False q(2) by blast
    from skynet_globalmq_push_rep [OF rep this, of "q\<lparr>mq_release := True\<rparr>"] obtain T where
      "skynet_globalmq_push ?S1 p = Some T" "same_queues (mq_heap ?S1) (mq_heap T)" by auto
    then show ?thesis using S'(1) q False by (simp add: skynet_mq_mark_release_def Let_def)
  qed
  moreover have "sched_inv (sched_of S' A)" using S'(2) by (auto simp: sched_inv_def)
  ultimately show ?thesis using S'(1) mq_mark_frame [OF S'(1)] by auto
qed

lemma map_option_unlinked_marks:
  "map_option unlinked a = map_option unlinked b \<Longrightarrow>
     map_option (\<lambda>q. (mq_release q, mq_handle q)) a = map_option (\<lambda>q. (mq_release q, mq_handle q)) b"
  by (cases a; cases b) (auto dest: unlinked_eqD)

lemma slots_inv_cong:
  assumes "slots_inv f s" and "\<And>c. c \<in> registered s \<Longrightarrow> g c = f c"
  shows "slots_inv g s"
proof -
  have "g c = f c" if "hs_slot s ! i = Some c" "i < hs_slot_size s" for c i
    using assms(2) [of c] registered_iff [OF assms(1), of c] that by blast
  then show ?thesis using assms(1) unfolding slots_inv_def by simp
qed

text \<open>
  The contract with a module's \<open>release\<close> function: it returns, and changes only the services' own
  state, by \<open>g\<close>.
\<close>

definition releases :: "('cb, 'w) externals \<Rightarrow> 'cb skynet_context \<Rightarrow> ('w \<Rightarrow> 'w) \<Rightarrow> bool" where
  "releases X x g \<longleftrightarrow> (\<forall>S. skynet_module_instance_release X (ctx_mod x) (ctx_instance x) S
     = Some (S\<lparr>sv_world := g (sv_world S)\<rparr>))"

text \<open>What deleting the context \<open>c\<close> does: it is gone, its queue is marked and keeps its messages.\<close>

definition deleted :: "('cb, 'w) server \<Rightarrow> ('cb, 'w) server \<Rightarrow> addr \<Rightarrow> mqid \<Rightarrow> bool" where
  "deleted S S' c p \<longleftrightarrow> sv_ctx S' = (sv_ctx S)(c := None) \<and> sv_handles S' = sv_handles S \<and> sv_mem S' = sv_mem S
     \<and> sv_harbor S' = sv_harbor S \<and> sv_total S' = sv_total S - 1
     \<and> (\<forall>y. queue_msgs S' y = queue_msgs S y)
     \<and> (\<forall>y. marks S' y = (if y = p then map_option (\<lambda>(_, h). (True, h)) (marks S y) else marks S y))"

lemma delete_inv:
  assumes inv: "server_inv S A" and x: "sv_ctx S c = Some x" and unreg: "c \<notin> registered (sv_handles S)"
    and q: "mq_heap S (ctx_queue x) = Some q" "\<not> mq_release q" "mq_handle q = ctx_handle x"
    and own: "\<forall>d \<in> registered (sv_handles S). hof S d \<noteq> ctx_handle x" and rel: "releases X x g"
  shows "\<exists>S'. delete_context X S c = Some S' \<and> server_inv S' A \<and> deleted S S' c (ctx_queue x)"
proof -
  define W where "W = g (sv_world (case ctx_logfile x of None \<Rightarrow> S | Some f \<Rightarrow> S\<lparr>sv_world := x_fclose X f (sv_world S)\<rparr>))"
  define S1 where "S1 = S\<lparr>sv_world := W\<rparr>"
  have r: "skynet_module_instance_release X (ctx_mod x) (ctx_instance x)
      (case ctx_logfile x of None \<Rightarrow> S | Some f \<Rightarrow> S\<lparr>sv_world := x_fclose X f (sv_world S)\<rparr>) = Some S1"
    using rel by (simp add: releases_def S1_def W_def split: option.splits)
  have inv1: "server_inv S1 A" unfolding S1_def by (subst server_inv_world) (rule inv)
  have q1: "mq_heap S1 (ctx_queue x) = Some q" by (simp add: S1_def q)
  obtain S2 where S2: "skynet_mq_mark_release S1 (ctx_queue x) = Some S2" "sched_inv (sched_of S2 A)"
    "queue_frame S1 S2" "same_queues ((mq_heap S1)(ctx_queue x \<mapsto> q\<lparr>mq_release := True\<rparr>)) (mq_heap S2)"
    using mark_inv [OF inv1 q1 q(2)] by blast
  note sv = queue_frame_sv [OF S2(3)]
  define S3 where "S3 = S2\<lparr>sv_ctx := (sv_ctx S2)(c := None), sv_total := sv_total S2 - 1\<rparr>"
  have del: "delete_context X S c = Some S3"
    by (simp add: delete_context_def x r S2(1) S3_def Let_def)
  have look: "map_option unlinked (mq_heap S3 y)
      = map_option unlinked (((mq_heap S)(ctx_queue x \<mapsto> q\<lparr>mq_release := True\<rparr>)) y)" for y
    using S2(4) by (simp add: same_queues_def S3_def S1_def)
  have cx: "sv_ctx S3 = (sv_ctx S)(c := None)" "sv_handles S3 = sv_handles S"
    by (simp_all add: S3_def sv) (simp_all add: S1_def)
  have "contexts_ok S3"
    unfolding contexts_ok_def cx
  proof
    fix d assume d: "d \<in> registered (sv_handles S)"
    then obtain y qy where y: "sv_ctx S d = Some y" "0 < ctx_ref y" "mq_heap S (ctx_queue y) = Some qy" "\<not> mq_release qy"
      "mq_handle qy = ctx_handle y"
      using inv unfolding server_inv_def contexts_ok_def by blast
    have "ctx_queue y \<noteq> ctx_queue x"
      using own d y q(1,3) by (auto simp: hof_def)
    then have "map_option unlinked (mq_heap S3 (ctx_queue y)) = Some (unlinked qy)" using look y(3) by simp
    then obtain qz where "mq_heap S3 (ctx_queue y) = Some qz" "unlinked qz = unlinked qy" by auto
    with y unlinked_eqD(4,5) [of qz qy] d unreg
    show "\<exists>x q. ((sv_ctx S)(c := None)) d = Some x \<and> 0 < ctx_ref x \<and> mq_heap S3 (ctx_queue x) = Some q
        \<and> \<not> mq_release q \<and> mq_handle q = ctx_handle x"
      by (intro exI [of _ y] exI [of _ qz]) auto
  qed
  moreover have "slots_inv (hof S3) (sv_handles S)"
  proof -
    have "hof S3 d = hof S d" if "d \<in> registered (sv_handles S)" for d
      using that unreg by (auto simp: hof_def cx)
    with inv show ?thesis by (auto simp: server_inv_def intro: slots_inv_cong)
  qed
  moreover have "mem_ok S3"
  proof -
    have "mq_heap S3 y = None \<longleftrightarrow> mq_heap S y = None" for y
      using look [of y] q(1) by (cases "y = ctx_queue x"; cases "mq_heap S3 y"; cases "mq_heap S y") auto
    then have "dom (mq_heap S3) = dom (mq_heap S)" by (simp add: dom_def)
    with inv show ?thesis
      by (auto simp: server_inv_def mem_ok_def cx) (auto simp: S3_def sv S1_def)
  qed
  moreover have "sched_of S3 A = sched_of S2 A" by (simp add: S3_def sched_of_def)
  ultimately have "server_inv S3 A" using S2(2) inv by (simp add: server_inv_def cx)
  moreover have "deleted S S3 c (ctx_queue x)"
  proof -
    have "queue_msgs S3 y = queue_msgs S y" for y
      using map_option_unlinked_abs [OF look, of y] q(1) by (auto simp: queue_msgs_def mq_abs_def mq_slots_def)
    moreover have "marks S3 y = (if y = ctx_queue x then map_option (\<lambda>(_, h). (True, h)) (marks S y) else marks S y)" for y
      using map_option_unlinked_marks [OF look, of y] q(1) by (auto simp: marks_def option.map_comp comp_def)
    ultimately show ?thesis by (simp add: deleted_def cx) (simp add: S3_def sv S1_def)
  qed
  ultimately show ?thesis using del by blast
qed

lemma option_eq_Some: "(\<And>d. a = Some d \<longleftrightarrow> b = Some d) \<Longrightarrow> a = b"
  by (cases a; cases b) auto

lemma server_inv_unreg:
  assumes inv: "server_inv S A" and x: "sv_ctx S c = Some x" and unreg: "c \<notin> registered (sv_handles S)"
  shows "server_inv (S\<lparr>sv_ctx := (sv_ctx S)(c \<mapsto> y)\<rparr>) A"
proof -
  let ?S = "S\<lparr>sv_ctx := (sv_ctx S)(c \<mapsto> y)\<rparr>"
  have "contexts_ok ?S"
    using inv unreg unfolding server_inv_def contexts_ok_def by auto
  moreover have "slots_inv (hof ?S) (sv_handles S)"
    using inv unreg by (auto simp: server_inv_def hof_def intro!: slots_inv_cong [of "hof S"])
  moreover have "mem_ok ?S" using inv mem_ok_ctx [OF _ x] by (simp add: server_inv_def)
  moreover have "sched_of ?S A = sched_of S A" by (simp add: sched_of_def)
  ultimately show ?thesis using inv by (simp add: server_inv_def)
qed

text \<open>
  What retiring the handle \<open>h\<close> of the context \<open>c\<close> does: the handle and its names are gone, no other
  handle changes, and a context nobody else refers to is deleted and its queue marked for release.
\<close>

definition retired :: "('cb, 'w) server \<Rightarrow> ('cb, 'w) server \<Rightarrow> u32 \<Rightarrow> addr \<Rightarrow> 'cb skynet_context \<Rightarrow> bool" where
  "retired S S' h c x \<longleftrightarrow> registered (sv_handles S') = registered (sv_handles S) - {c}
     \<and> (\<forall>g. hs_lookup (hof S') (sv_handles S') g = (if g = h then None else hs_lookup (hof S) (sv_handles S) g))
     \<and> (\<forall>nm. name_map (sv_handles S') nm = (if name_map (sv_handles S) nm = Some h then None else name_map (sv_handles S) nm))
     \<and> sv_mem S' = sv_mem S \<and> sv_harbor S' = sv_harbor S \<and> (\<forall>y. queue_msgs S' y = queue_msgs S y)
     \<and> sv_ctx S' = (sv_ctx S)(c := (if ctx_ref x = 1 then None else Some (x\<lparr>ctx_ref := ctx_ref x - 1\<rparr>)))
     \<and> (\<forall>y. marks S' y = (if y = ctx_queue x \<and> ctx_ref x = 1 then map_option (\<lambda>(_, h). (True, h)) (marks S y) else marks S y))"

lemma retire_inv:
  assumes inv: "server_inv S A" and look: "hs_lookup (hof S) (sv_handles S) h = Some c"
    and x: "sv_ctx S c = Some x" and rel: "releases X x g"
  shows "\<exists>S'. skynet_handle_retire X S h = Some (True, S') \<and> server_inv S' A \<and> retired S S' h c x"
proof -
  have sl: "slots_inv (hof S) (sv_handles S)" "names_inv (sv_handles S)" using inv by (simp_all add: server_inv_def)
  have hx: "ctx_handle x = h" "0 < ctx_ref x" using server_inv_lookup [OF inv look] x by (metis option.inject)+
  obtain q where q: "mq_heap S (ctx_queue x) = Some q" "\<not> mq_release q" "mq_handle q = ctx_handle x"
    using server_inv_lookup [OF inv look] x hx(1) by (metis option.inject)
  define H where "H = snd (hs_retire (hof S) (sv_handles S) h)"
  have ret: "hs_retire (hof S) (sv_handles S) h = (Some c, H)"
    using retire_slots(3) [OF sl(1), of h] look by (simp add: H_def prod_eq_iff)
  have H: "slots_inv (hof S) H" "registered H = {d \<in> registered (sv_handles S). hof S d \<noteq> h}" "names_inv H"
    using retire_slots [OF sl(1), of h] retire_names(1) [OF sl(2), of "hof S" h] look by (simp_all add: H_def)
  have reg: "c \<in> registered (sv_handles S)" "hof S c = h" using look lookup_iff [OF sl(1)] by simp_all
  have HR: "registered H = registered (sv_handles S) - {c}"
    using H(2) reg registered_inj [OF sl(1)] by auto
  have lookH: "hs_lookup (hof S) H g = (if g = h then None else hs_lookup (hof S) (sv_handles S) g)" for g
    by (rule option_eq_Some) (use lookup_iff [OF H(1), of g] lookup_iff [OF sl(1), of g] H(2) in auto)
  define S0 where "S0 = S\<lparr>sv_handles := H\<rparr>"
  have hof0: "hof S0 = hof S" by (rule hof_cong) (simp add: S0_def)
  have "contexts_ok S0" using inv HR by (auto simp: server_inv_def contexts_ok_def S0_def)
  then have inv0: "server_inv S0 A"
    using inv H(1,3) hof0 by (simp add: server_inv_def S0_def sched_of_def mem_ok_def)
  have x0: "sv_ctx S0 c = Some x" "c \<notin> registered (sv_handles S0)" using x HR by (simp_all add: S0_def)
  define S1 where "S1 = S0\<lparr>sv_ctx := (sv_ctx S0)(c \<mapsto> x\<lparr>ctx_ref := ctx_ref x - 1\<rparr>)\<rparr>"
  have inv1: "server_inv S1 A" unfolding S1_def by (rule server_inv_unreg [OF inv0 x0])
  have hof1: "hof S1 = hof S" using x by (auto simp: S1_def S0_def hof_def fun_eq_iff)
  have nm: "name_map H nm = (if name_map (sv_handles S) nm = Some h then None else name_map (sv_handles S) nm)" for nm
    using retire_names(2) [OF sl(2)] look by (simp add: H_def)
  have hr: "skynet_handle_retire X S h = map_option (\<lambda>(alive, S1). (True, S1)) (skynet_context_release X S0 c)"
    by (simp add: skynet_handle_retire_def ret S0_def)
  show ?thesis
  proof (cases "ctx_ref x = 1")
    case False
    then have "skynet_handle_retire X S h = Some (True, S1)"
      using hx(2) by (simp add: hr skynet_context_release_def x0 S1_def)
    moreover have "retired S S1 h c x"
      using False lookH nm HR by (simp add: retired_def hof1) (simp add: S1_def S0_def queue_msgs_def marks_def)
    ultimately show ?thesis using inv1 by blast
  next
    case True
    have q1: "mq_heap S1 (ctx_queue x) = Some q" by (simp add: S1_def S0_def q)
    have "\<forall>d \<in> registered (sv_handles S1). hof S1 d \<noteq> ctx_handle x"
      using H(2) by (simp add: hof1 hx) (simp add: S1_def S0_def)
    moreover have "releases X (x\<lparr>ctx_ref := 0\<rparr>) g" using rel by (simp add: releases_def)
    ultimately obtain S2 where S2: "delete_context X S1 c = Some S2" "server_inv S2 A" "deleted S1 S2 c (ctx_queue x)"
      using delete_inv [OF inv1, of c "x\<lparr>ctx_ref := 0\<rparr>" q X g] q1 q(2,3) x0(2) True by (auto simp: S1_def)
    have s2: "sv_handles S2 = H" "sv_ctx S2 = (sv_ctx S)(c := None)" "sv_mem S2 = sv_mem S" "sv_harbor S2 = sv_harbor S"
      using S2(3) by (simp_all add: deleted_def S1_def S0_def)
    have "hs_lookup (hof S2) H g = hs_lookup (hof S) H g" for g
    proof -
      have "hof S2 d = hof S d" if "d \<in> registered H" for d using that HR by (auto simp: hof_def s2)
      moreover have "slots_inv (hof S2) H" using S2(2) by (simp add: server_inv_def s2)
      ultimately show ?thesis
        by (intro option_eq_Some) (use lookup_iff [of "hof S2" H g] lookup_iff [OF H(1), of g] in auto)
    qed
    moreover have "skynet_handle_retire X S h = Some (True, S2)"
      using S2(1) True by (simp add: hr skynet_context_release_def x0 S1_def)
    moreover have "queue_msgs S1 = queue_msgs S" "marks S1 = marks S"
      by (simp_all add: S1_def S0_def queue_msgs_def marks_def fun_eq_iff)
    ultimately have "retired S S2 h c x"
      using S2(3) True lookH nm HR by (simp add: retired_def s2 deleted_def)
    with \<open>skynet_handle_retire X S h = Some (True, S2)\<close> S2(2) show ?thesis by blast
  qed
qed

section \<open>The error log keeps everything but the logger's queue\<close>

definition logger_of :: "('cb, 'w) server \<Rightarrow> u32" where
  "logger_of S = (if sv_logger S = 0 then skynet_handle_findname (sv_handles S) ''logger'' else sv_logger S)"

definition logged :: "('cb, 'w) server \<Rightarrow> ('cb, 'w) server \<Rightarrow> bool" where
  "logged S S' \<longleftrightarrow> sv_ctx S' = sv_ctx S \<and> sv_handles S' = sv_handles S \<and> sv_harbor S' = sv_harbor S
     \<and> sv_monitor_exit S' = sv_monitor_exit S \<and> sv_world S' = sv_world S \<and> sv_total S' = sv_total S
     \<and> sv_timer S' = sv_timer S \<and> marks S' = marks S
     \<and> (\<forall>a. sv_mem S a \<noteq> None \<longrightarrow> sv_mem S' a = sv_mem S a)
     \<and> (\<forall>y. target S (logger_of S) \<noteq> Some y \<longrightarrow> queue_msgs S' y = queue_msgs S y)"

lemma logged_same:
  assumes "logged S S'"
  shows "hof S' = hof S" "target S' h = target S h"
    "skynet_harbor_message_isremote S' h = skynet_harbor_message_isremote S h"
  using assms hof_cong [of S' S] target_cong [of S' S h] isremote_cong [of S' S h] by (auto simp: logged_def)

lemma server_inv_logger: "server_inv (S\<lparr>sv_logger := l\<rparr>) A = server_inv S A"
  using hof_cong [of "S\<lparr>sv_logger := l\<rparr>" S]
  by (simp add: server_inv_def contexts_ok_def mem_ok_def sched_of_def)

lemma skynet_error_sound:
  assumes inv: "server_inv S A" and ctx: "\<And>c. ctx = Some c \<Longrightarrow> sv_ctx S c \<noteq> None"
  shows "\<exists>S'. skynet_error X S ctx text = Some S' \<and> server_inv S' A \<and> logged S S'"
proof -
  define S0 where "S0 = (if sv_logger S = 0 then S\<lparr>sv_logger := skynet_handle_findname (sv_handles S) ''logger''\<rparr> else S)"
  have s0: "sv_ctx S0 = sv_ctx S" "sv_handles S0 = sv_handles S" "sv_mem S0 = sv_mem S" "sv_logger S0 = logger_of S"
    "sv_harbor S0 = sv_harbor S" "sv_monitor_exit S0 = sv_monitor_exit S" "sv_world S0 = sv_world S"
    "sv_total S0 = sv_total S" "sv_timer S0 = sv_timer S" "mq_heap S0 = mq_heap S" "sv_brk S0 = sv_brk S"
    by (simp_all add: S0_def logger_of_def)
  have inv0: "server_inv S0 A" using inv by (simp add: S0_def server_inv_logger)
  show ?thesis
  proof (cases "logger_of S = 0")
    case True
    have "skynet_error X S ctx text = Some S0"
      using True s0(4) by (simp add: skynet_error_def S0_def [symmetric])
    moreover have "logged S S0" by (simp add: logged_def s0 queue_msgs_def marks_def fun_eq_iff)
    ultimately show ?thesis using inv0 by blast
  next
    case False
    define S1 where "S1 = snd (skynet_malloc S0 (Bytes (c_string text)))"
    have inv1: "server_inv S1 A" unfolding S1_def by (rule server_inv_malloc [OF inv0])
    have s1: "sv_ctx S1 = sv_ctx S" "sv_handles S1 = sv_handles S" "sv_logger S1 = logger_of S"
      "sv_mem S1 = (sv_mem S)(sv_brk S \<mapsto> Bytes (c_string text))"
      "sv_harbor S1 = sv_harbor S" "sv_monitor_exit S1 = sv_monitor_exit S" "sv_world S1 = sv_world S"
      "sv_total S1 = sv_total S" "sv_timer S1 = sv_timer S" "mq_heap S1 = mq_heap S"
      by (simp_all add: S1_def skynet_malloc_def s0)
    have m: "skynet_malloc S0 (Bytes (c_string text)) = (sv_brk S0, S1)" by (simp add: S1_def skynet_malloc_def)
    obtain src where src: "(case ctx of None \<Rightarrow> Some 0 | Some c \<Rightarrow> map_option ctx_handle (sv_ctx S1 c)) = Some src"
      using ctx by (cases ctx) (auto simp: s1)
    let ?m = "\<lparr>msg_source = src, msg_session = 0, msg_data = Some (sv_brk S0),
      msg_sz = scast (of_nat (List.length text) OR push_bit HANDLE_REMOTE_SHIFT (of_nat PTYPE_TEXT) :: i32)\<rparr>"
    obtain ok S' where S': "skynet_context_push X S1 (logger_of S) ?m = Some (ok, S')" "server_inv S' A" "queue_frame S1 S'"
      "\<forall>p. queue_msgs S' p = (if target S1 (logger_of S) = Some p then map_option (\<lambda>l. l @ [?m]) (queue_msgs S1 p) else queue_msgs S1 p)"
      using push_queue_msgs [OF inv1] by blast
    have "skynet_error X S ctx text = Some S'"
      using False src S'(1) s0(4) s1(3)
      by (simp add: skynet_error_def S0_def [symmetric] m)
    moreover have "sv_mem S a \<noteq> None \<Longrightarrow> a \<noteq> sv_brk S" for a
      using inv by (auto simp: server_inv_def mem_ok_def)
    moreover have "marks S1 = marks S" "queue_msgs S1 = queue_msgs S" "target S1 (logger_of S) = target S (logger_of S)"
      using target_cong [of S1 S] s1 by (simp_all add: marks_def queue_msgs_def fun_eq_iff)
    ultimately have "logged S S'"
      using S'(4) push_marks [OF inv1 S'(1)] by (simp add: logged_def queue_frame_sv [OF S'(3)] s1)
    with \<open>skynet_error X S ctx text = Some S'\<close> S'(2) show ?thesis by blast
  qed
qed

section \<open>Killing a service\<close>

definition exit_notice :: "u32 \<Rightarrow> skynet_message" where
  "exit_notice h = \<lparr>msg_source = h, msg_session = 0, msg_data = None, msg_sz = 0x3000000\<rparr>"

text \<open>The message to the monitor service, when there is one.\<close>

lemma monitor_send:
  assumes inv: "server_inv S A" and loc: "sv_monitor_exit S \<noteq> 0 \<Longrightarrow> skynet_harbor_message_isremote S (sv_monitor_exit S) = Some False"
    and "h \<noteq> 0"
  shows "\<exists>S'. (if sv_monitor_exit S \<noteq> 0 then
         map_option snd (skynet_send X S (Some d) h (sv_monitor_exit S) (of_nat PTYPE_CLIENT) 0 None 0)
       else Some S) = Some S'
    \<and> server_inv S' A \<and> queue_frame S S' \<and> marks S' = marks S
    \<and> (\<forall>p. queue_msgs S' p = (if sv_monitor_exit S \<noteq> 0 \<and> target S (sv_monitor_exit S) = Some p
         then map_option (\<lambda>l. l @ [exit_notice h]) (queue_msgs S p) else queue_msgs S p))"
proof (cases "sv_monitor_exit S = 0")
  case True
  then show ?thesis using inv queue_frame_refl by auto
next
  case False
  have f: "filter_args S (Some d) (of_nat PTYPE_CLIENT) 0 None 0 = Some (0, None, 0x3000000, S)"
    by (simp add: filter_args_def PTYPE_CLIENT_def PTYPE_TAG_DONTCOPY_def PTYPE_TAG_ALLOCSESSION_def HANDLE_REMOTE_SHIFT_def)
  obtain ok S' where S': "skynet_context_push X S (sv_monitor_exit S) (exit_notice h) = Some (ok, S')" "server_inv S' A"
    "queue_frame S S'" "\<forall>p. queue_msgs S' p = (if target S (sv_monitor_exit S) = Some p
       then map_option (\<lambda>l. l @ [exit_notice h]) (queue_msgs S p) else queue_msgs S p)"
    using push_queue_msgs [OF inv] by blast
  have "map_option snd (skynet_send X S (Some d) h (sv_monitor_exit S) (of_nat PTYPE_CLIENT) 0 None 0) = Some S'"
    using False assms(3) S'(1) by (simp add: skynet_send_def f loc exit_notice_def skynet_free_def)
  with False S' push_marks [OF inv S'(1)] show ?thesis by auto
qed

lemma retired_frame:
  assumes "retired S1 S2 h c x" and "sv_ctx S1 = sv_ctx S" and "sv_handles S1 = sv_handles S"
  shows "hs_lookup (hof S2) (sv_handles S2) g = (if g = h then None else hs_lookup (hof S) (sv_handles S) g)"
    and "sv_ctx S2 = (sv_ctx S)(c := (if ctx_ref x = 1 then None else Some (x\<lparr>ctx_ref := ctx_ref x - 1\<rparr>)))"
    and "name_map (sv_handles S2) nm = (if name_map (sv_handles S) nm = Some h then None else name_map (sv_handles S) nm)"
  using assms hof_cong [of S1 S] by (simp_all add: retired_def)

lemma handle_exit_sound:
  assumes inv: "server_inv S A" and d: "sv_ctx S d = Some y" and look: "hs_lookup (hof S) (sv_handles S) h = Some c"
    and x: "sv_ctx S c = Some x" and rel: "releases X x g" and "h \<noteq> 0"
    and loc: "sv_monitor_exit S \<noteq> 0 \<Longrightarrow> skynet_harbor_message_isremote S (sv_monitor_exit S) = Some False"
  shows "\<exists>S'. handle_exit X S d h = Some S' \<and> server_inv S' A
    \<and> (\<forall>g. hs_lookup (hof S') (sv_handles S') g = (if g = h then None else hs_lookup (hof S) (sv_handles S) g))
    \<and> (\<forall>nm. name_map (sv_handles S') nm = (if name_map (sv_handles S) nm = Some h then None else name_map (sv_handles S) nm))
    \<and> sv_ctx S' = (sv_ctx S)(c := (if ctx_ref x = 1 then None else Some (x\<lparr>ctx_ref := ctx_ref x - 1\<rparr>)))
    \<and> (\<forall>y. marks S' y = (if y = ctx_queue x \<and> ctx_ref x = 1 then map_option (\<lambda>(_, h). (True, h)) (marks S y) else marks S y))
    \<and> (\<forall>y. target S (logger_of S) \<noteq> Some y \<longrightarrow>
         queue_msgs S' y = (if sv_monitor_exit S \<noteq> 0 \<and> target S (sv_monitor_exit S) = Some y
           then map_option (\<lambda>l. l @ [exit_notice h]) (queue_msgs S y) else queue_msgs S y))"
proof -
  obtain S1 where S1: "skynet_error X S (Some d) (''KILL :'' @ print_x h) = Some S1" "server_inv S1 A" "logged S S1"
    using skynet_error_sound [OF inv, of "Some d"] d by (metis option.distinct(1) option.inject)
  have m: "sv_monitor_exit S1 = sv_monitor_exit S" using S1(3) by (simp add: logged_def)
  obtain S2 where S2: "(if sv_monitor_exit S1 \<noteq> 0 then
         map_option snd (skynet_send X S1 (Some d) h (sv_monitor_exit S1) (of_nat PTYPE_CLIENT) 0 None 0)
       else Some S1) = Some S2" "server_inv S2 A" "queue_frame S1 S2" "marks S2 = marks S1"
    "\<forall>p. queue_msgs S2 p = (if sv_monitor_exit S1 \<noteq> 0 \<and> target S1 (sv_monitor_exit S1) = Some p
         then map_option (\<lambda>l. l @ [exit_notice h]) (queue_msgs S1 p) else queue_msgs S1 p)"
    using monitor_send [OF S1(2) _ assms(6), of X d] loc logged_same(3) [OF S1(3)] m by metis
  have s2: "sv_ctx S2 = sv_ctx S" "sv_handles S2 = sv_handles S"
    using S1(3) by (simp_all add: queue_frame_sv [OF S2(3)] logged_def)
  have "hof S2 = hof S" by (rule hof_cong) (rule s2)
  then obtain S3 where S3: "skynet_handle_retire X S2 h = Some (True, S3)" "server_inv S3 A" "retired S2 S3 h c x"
    using retire_inv [OF S2(2), of h c x X g] look x rel s2 by auto
  have "handle_exit X S d h = Some S3"
    using assms(6) d S1(1) S2(1) S3(1) by (simp add: handle_exit_def del: not_gr_zero)
  moreover have "\<forall>y. target S (logger_of S) \<noteq> Some y \<longrightarrow>
         queue_msgs S3 y = (if sv_monitor_exit S \<noteq> 0 \<and> target S (sv_monitor_exit S) = Some y
           then map_option (\<lambda>l. l @ [exit_notice h]) (queue_msgs S y) else queue_msgs S y)"
    using S3(3) S2(5) S1(3) logged_same(2) [OF S1(3)] by (simp add: retired_def m logged_def)
  moreover have "\<forall>y. marks S3 y = (if y = ctx_queue x \<and> ctx_ref x = 1 then map_option (\<lambda>(_, h). (True, h)) (marks S y) else marks S y)"
    using S3(3) S2(4) S1(3) by (simp add: retired_def logged_def)
  ultimately show ?thesis
    using S3(2) retired_frame [OF S3(3) s2] by blast
qed

section \<open>Launching a service\<close>

text \<open>
  A new context after its \<open>init\<close>: still registered, referred to by the handle storage and by
  \<open>skynet_context_new\<close> only, its queue in the hands of the creating thread.
\<close>

definition fresh_context :: "('cb, 'w) server \<Rightarrow> mqid set \<Rightarrow> addr \<Rightarrow> 'cb skynet_context \<Rightarrow> bool" where
  "fresh_context S A c x \<longleftrightarrow> server_inv S (insert (ctx_queue x) A) \<and> ctx_queue x \<notin> A \<and> sv_ctx S c = Some x
     \<and> ctx_ref x = 2 \<and> hs_lookup (hof S) (sv_handles S) (ctx_handle x) = Some c \<and> ctx_handle x \<noteq> 0"

lemma globalmq_push_inv:
  assumes inv: "server_inv S (insert p A)" and "p \<notin> A"
  shows "\<exists>S'. skynet_globalmq_push S p = Some S' \<and> server_inv S' A \<and> queue_frame S S' \<and> same_queues (mq_heap S) (mq_heap S')"
proof -
  obtain ids where ok: "sched_ok (sched_of S (insert p A)) ids" using inv by (auto simp: server_inv_def sched_inv_def)
  obtain T where T: "skynet_globalmq_push (sched_of S (insert p A)) p = Some T" "sched_ok (T\<lparr>held := insert p A - {p}\<rparr>) (ids @ [p])"
    using put_back_ok [OF ok, of p] by auto
  then obtain S' where S': "skynet_globalmq_push S p = Some S'" "T = sched_of S' (insert p A)"
    by (auto simp: sched_of_globalmq_push)
  have "insert p A - {p} = A" using assms(2) by auto
  with T(2) have "sched_inv (sched_of S' A)" by (auto simp: S'(2) sched_inv_def)
  moreover have "gq_rep S ids" "p \<notin> set ids" using ok by (auto simp: sched_ok_def)
  moreover obtain q where "mq_heap S p = Some q" using sched_ok_alloc [OF ok, of p] by (auto simp: sched_of_def)
  ultimately have "same_queues (mq_heap S) (mq_heap S')"
    using skynet_globalmq_push_rep [of S ids p q] S'(1) by force
  with server_inv_queues [OF inv globalmq_push_frame [OF S'(1)] this \<open>sched_inv (sched_of S' A)\<close>]
    S'(1) globalmq_push_frame [OF S'(1)] show ?thesis by blast
qed

lemma same_queues_msgs: "same_queues (mq_heap S) (mq_heap S') \<Longrightarrow> queue_msgs S' y = queue_msgs S y"
  using map_option_unlinked_abs [of "mq_heap S y" "mq_heap S' y"] by (simp add: same_queues_def queue_msgs_def)

lemma launch_ok_sound:
  assumes fresh: "fresh_context S A c x"
  shows "\<exists>S'. launch_ok X S c (ctx_queue x) name param = Some (Some c, S') \<and> server_inv S' A
    \<and> sv_ctx S' = (sv_ctx S)(c \<mapsto> x\<lparr>ctx_ref := 1, ctx_init := True\<rparr>) \<and> sv_handles S' = sv_handles S
    \<and> (\<forall>g. hs_lookup (hof S') (sv_handles S') g = hs_lookup (hof S) (sv_handles S) g)
    \<and> (\<forall>y. target S (logger_of S) \<noteq> Some y \<longrightarrow> queue_msgs S' y = queue_msgs S y)"
proof -
  have f: "server_inv S (insert (ctx_queue x) A)" "ctx_queue x \<notin> A" "sv_ctx S c = Some x" "ctx_ref x = 2"
    using fresh by (simp_all add: fresh_context_def)
  let ?x = "x\<lparr>ctx_ref := 1, ctx_init := True\<rparr>"
  define S2 where "S2 = S\<lparr>sv_ctx := (sv_ctx S)(c \<mapsto> ?x)\<rparr>"
  have inv2: "server_inv S2 (insert (ctx_queue x) A)"
    unfolding S2_def by (rule server_inv_ctx [OF f(1,3)]) simp_all
  obtain S3 where S3: "skynet_globalmq_push S2 (ctx_queue x) = Some S3" "server_inv S3 A" "queue_frame S2 S3"
    "same_queues (mq_heap S2) (mq_heap S3)"
    using globalmq_push_inv [OF inv2 f(2)] by blast
  note sv = queue_frame_sv [OF S3(3)]
  have "sv_ctx S3 c \<noteq> None" by (simp add: sv S2_def)
  then obtain S4 where S4: "skynet_error X S3 (Some c) (''LAUNCH '' @ name @ '' '' @ (case param of None \<Rightarrow> '''' | Some p \<Rightarrow> p)) = Some S4"
    "server_inv S4 A" "logged S3 S4"
    using skynet_error_sound [OF S3(2), of "Some c"] by blast
  have h: "hof S3 = hof S" "sv_ctx S3 = (sv_ctx S)(c \<mapsto> ?x)" "sv_handles S3 = sv_handles S"
    using f(3) by (auto simp: sv hof_def S2_def fun_eq_iff)
  have t: "target S3 (logger_of S3) = target S (logger_of S)"
    using f(3) by (auto simp: target_def h logger_of_def sv S2_def fun_eq_iff split: bind_splits)
  have "launch_ok X S c (ctx_queue x) name param = Some (Some c, S4)"
    using f(3,4) S3(1) S4(1) by (simp add: launch_ok_def skynet_context_release_def upd_ctx_def S2_def)
  moreover have "queue_msgs S3 y = queue_msgs S y" for y
    using same_queues_msgs [OF S3(4)] by (simp add: S2_def queue_msgs_def)
  moreover have "hof S4 = hof S" "sv_ctx S4 = (sv_ctx S)(c \<mapsto> ?x)" "sv_handles S4 = sv_handles S"
    using S4(3) logged_same(1) [OF S4(3)] h by (simp_all add: logged_def)
  ultimately show ?thesis
    using S4(2,3) t by (intro exI [of _ S4]) (simp add: logged_def)
qed

lemma launch_failed_sound:
  assumes fresh: "fresh_context S A c x" and rel: "releases X x g"
    and quiet: "target S (logger_of S) \<noteq> Some (ctx_queue x)"
    and ms: "queue_msgs S (ctx_queue x) = Some ms" "owned S ms" "local_sources S ms"
  shows "\<exists>S'. launch_failed X S c (ctx_queue x) name = Some S' \<and> server_inv S' A
    \<and> sv_ctx S' = (sv_ctx S)(c := None) \<and> queue_msgs S' (ctx_queue x) = None
    \<and> (\<forall>g. hs_lookup (hof S') (sv_handles S') g = (if g = ctx_handle x then None else hs_lookup (hof S) (sv_handles S) g))
    \<and> (\<forall>a \<in> data_of ms. sv_mem S' a = None)"
proof -
  have f: "server_inv S (insert (ctx_queue x) A)" "ctx_queue x \<notin> A" "sv_ctx S c = Some x" "ctx_ref x = 2"
    "hs_lookup (hof S) (sv_handles S) (ctx_handle x) = Some c" "ctx_handle x \<noteq> 0"
    using fresh by (simp_all add: fresh_context_def)
  let ?A = "insert (ctx_queue x) A" and ?h = "ctx_handle x"
  obtain S1 where S1: "skynet_error X S (Some c) (''FAILED launch '' @ name) = Some S1" "server_inv S1 ?A" "logged S S1"
    using skynet_error_sound [OF f(1), of "Some c"] f(3) by (metis option.distinct(1) option.inject)
  have s1: "sv_ctx S1 = sv_ctx S" "sv_handles S1 = sv_handles S" "hof S1 = hof S"
    using S1(3) logged_same(1) by (auto simp: logged_def)
  let ?x = "x\<lparr>ctx_ref := 1\<rparr>"
  define S2 where "S2 = S1\<lparr>sv_ctx := (sv_ctx S1)(c \<mapsto> ?x)\<rparr>"
  have inv2: "server_inv S2 ?A"
    unfolding S2_def by (rule server_inv_ref [OF S1(2)]) (simp_all add: s1 f(3))
  have h2: "hof S2 = hof S" "sv_handles S2 = sv_handles S" "sv_ctx S2 c = Some ?x"
    using f(3) by (auto simp: S2_def hof_def s1 fun_eq_iff)
  have "releases X ?x g" using rel by (simp add: releases_def)
  then obtain S3 where S3: "skynet_handle_retire X S2 ?h = Some (True, S3)" "server_inv S3 ?A" "retired S2 S3 ?h c ?x"
    using retire_inv [OF inv2, of ?h c ?x X g] f(5) h2 by auto
  have c3: "sv_ctx S3 = (sv_ctx S)(c := None)" using S3(3) by (simp add: retired_def S2_def s1)
  have look3: "hs_lookup (hof S3) (sv_handles S3) k = (if k = ?h then None else hs_lookup (hof S) (sv_handles S) k)" for k
    using S3(3) by (simp add: retired_def h2)
  obtain q0 where q0: "mq_heap S (ctx_queue x) = Some q0" "mq_handle q0 = ?h"
    using server_inv_lookup [OF f(1,5)] f(3) by (metis option.inject)
  have "marks S1 = marks S" "queue_msgs S1 (ctx_queue x) = Some ms"
    using S1(3) quiet ms(1) by (simp_all add: logged_def)
  moreover have "marks S2 = marks S1" "queue_msgs S2 = queue_msgs S1"
    by (simp_all add: S2_def marks_def queue_msgs_def fun_eq_iff)
  moreover have "marks S (ctx_queue x) = Some (mq_release q0, ?h)" by (simp add: marks_def q0)
  ultimately have m3: "marks S3 (ctx_queue x) = Some (True, ?h)" "queue_msgs S3 (ctx_queue x) = Some ms"
    using S3(3) by (simp_all add: retired_def)
  then obtain q where q: "mq_heap S3 (ctx_queue x) = Some q" "mq_release q" "mq_handle q = ?h" "mq_abs q = ms"
    by (auto simp: marks_def queue_msgs_def)
  have mem: "sv_mem S a \<noteq> None \<Longrightarrow> sv_mem S3 a = sv_mem S a" for a
    using S1(3) S3(3) by (simp add: logged_def retired_def S2_def)
  have own: "owned S3 ms" using ms(2) mem unfolding owned_def by metis
  have "sv_harbor S3 = sv_harbor S" using S1(3) S3(3) by (simp add: logged_def retired_def S2_def)
  then have loc: "local_sources S3 ms"
    using ms(3) isremote_cong [of S3 S] by (simp add: local_sources_def)
  obtain S4 where S4: "drop_queue (drop_message X ?h) S3 (ctx_queue x) = Some S4" "server_inv S4 (?A - {ctx_queue x})"
    "dropped S3 S4 ?h (ctx_queue x) ms" "queue_msgs S4 (ctx_queue x) = None"
    using drop_all [OF S3(2) _ q(1,2) f(6) q(4) own loc] by auto
  have "skynet_mq_release (drop_message X ?h) S3 (ctx_queue x) = Some S4"
    using S4(1) q by (simp add: skynet_mq_release_def)
  moreover have "skynet_context_release X S1 c = Some (True, S2)"
    by (simp add: skynet_context_release_def s1 f(3,4) S2_def)
  ultimately have "launch_failed X S c (ctx_queue x) name = Some S4"
    using S1(1) S3(1) f(3) by (simp add: launch_failed_def s1)
  moreover have "hs_lookup (hof S4) (sv_handles S4) k = hs_lookup (hof S3) (sv_handles S3) k" for k
    using S4(3) hof_cong [of S4 S3] by (simp add: dropped_def)
  moreover have "?A - {ctx_queue x} = A" using f(2) by auto
  moreover have "sv_mem S4 a = None" if "a \<in> data_of ms" for a using S4(3) that by (simp add: dropped_def)
  ultimately show ?thesis
    using S4 c3 look3 by (intro exI [of _ S4]) (simp add: dropped_def)
qed

section \<open>Text and names\<close>

lemma colon_handle:
  "skynet_queryname X S c (CHR '':'' # print_x h) = Some (h, S)"
  "tohandle X S c (CHR '':'' # print_x h) = Some (h, S)"
  "skynet_queryname X S c (id_to_hex h) = Some (h, S)"
  "tohandle X S c (id_to_hex h) = Some (h, S)"
proof -
  have u: "ucast (ucast h :: u64) = h" by (rule ucast_up_ucast_id) (simp add: is_up)
  show "skynet_queryname X S c (CHR '':'' # print_x h) = Some (h, S)" "tohandle X S c (CHR '':'' # print_x h) = Some (h, S)"
    by (simp_all add: skynet_queryname_def tohandle_def strtoul_print_x u)
  show "skynet_queryname X S c (id_to_hex h) = Some (h, S)" "tohandle X S c (id_to_hex h) = Some (h, S)"
    by (subst id_to_hex_colon, simp add: skynet_queryname_def tohandle_def strtoul_id_to_hex u)+
qed

lemma strsep_split:
  "set s \<inter> delims = {} \<Longrightarrow> d \<in> delims \<Longrightarrow> strsep (s @ d # t) delims = (s, Some t)"
  "set s \<inter> delims = {} \<Longrightarrow> strsep s delims = (s, None)"
proof -
  assume s: "set s \<inter> delims = {}"
  then have t: "takeWhile (\<lambda>ch. ch \<notin> delims) s = s" "dropWhile (\<lambda>ch. ch \<notin> delims) s = []" by auto
  then show "strsep s delims = (s, None)" by (simp add: strsep_def)
  assume "d \<in> delims"
  with s t show "strsep (s @ d # t) delims = (s, Some t)"
    by (auto simp: strsep_def takeWhile_append dropWhile_append)
qed

section \<open>Properties\<close>

text \<open>
  C24. The text of a handle, as \<open>REG\<close>, \<open>QUERY\<close> and \<open>MONITOR\<close> print it (\<open>:%x\<close>) and as \<open>LAUNCH\<close> prints
  it (\<open>:\<close> and eight upper-case digits), is read back by \<open>skynet_queryname\<close> and by the commands that
  take a handle as the same handle, for all handles.
\<close>

theorem handle_text_roundtrip:
  "skynet_queryname X S c (CHR '':'' # print_x h) = Some (h, S) \<and> tohandle X S c (CHR '':'' # print_x h) = Some (h, S)
   \<and> skynet_queryname X S c (id_to_hex h) = Some (h, S) \<and> tohandle X S c (id_to_hex h) = Some (h, S)"
  using colon_handle by blast


text \<open>
  C21. A launch whose \<open>init\<close> fails leaves nothing behind: \<open>NULL\<close> is returned, the context, its handle
  and its queue are gone, the messages sent to it meanwhile are freed, every other handle leads where it
  led and the server's invariant holds.
\<close>

theorem launch_failure_cleans:
  assumes query: "skynet_module_query (x_dlopen X) (x_dlsym X) (sv_modules S) name = Some (Some m, M)"
    and create: "skynet_module_instance_create X m (S\<lparr>sv_modules := M\<rparr>) = (Some inst, S1)"
    and alloc: "context_alloc S1 m inst = Some (c, S2)" "map_option ctx_queue (sv_ctx S2 c) = Some (ctx_queue x)"
    and init: "skynet_module_instance_init X m inst c args S2 = Some (r, S3)" "r \<noteq> 0"
    and fresh: "fresh_context S3 A c x" and rel: "releases X x g"
    and quiet: "target S3 (logger_of S3) \<noteq> Some (ctx_queue x)"
    and ms: "queue_msgs S3 (ctx_queue x) = Some ms" "owned S3 ms" "local_sources S3 ms"
  shows "\<exists>S'. skynet_context_new X S name args = Some (None, S') \<and> server_inv S' A
    \<and> sv_ctx S' = (sv_ctx S3)(c := None) \<and> queue_msgs S' (ctx_queue x) = None
    \<and> (\<forall>k. hs_lookup (hof S') (sv_handles S') k = (if k = ctx_handle x then None else hs_lookup (hof S3) (sv_handles S3) k))
    \<and> (\<forall>a \<in> data_of ms. sv_mem S' a = None)"
proof -
  obtain S' where S': "launch_failed X S3 c (ctx_queue x) name = Some S'" "server_inv S' A"
    "sv_ctx S' = (sv_ctx S3)(c := None)" "queue_msgs S' (ctx_queue x) = None"
    "\<forall>k. hs_lookup (hof S') (sv_handles S') k = (if k = ctx_handle x then None else hs_lookup (hof S3) (sv_handles S3) k)"
    "\<forall>a \<in> data_of ms. sv_mem S' a = None"
    using launch_failed_sound [OF fresh rel quiet ms] by blast
  have "skynet_context_new X S name args = Some (None, S')"
    using alloc init S'(1) by (auto simp: skynet_context_new_def query create)
  with S' show ?thesis by blast
qed

text \<open>
  C22. \<open>KILL\<close>: the handle and its names are gone and no other handle or name changes; a context nobody
  else refers to is deleted and its queue marked, so that its messages get the treatment of a dead
  service; the monitor service, when there is one, gets a message from the handle; but for the logger's
  no other queue changes.
\<close>

theorem kill_retires:
  assumes "server_inv S A" and "sv_ctx S d = Some y" and "hs_lookup (hof S) (sv_handles S) h = Some c"
    and "sv_ctx S c = Some x" and "releases X x g" and "h \<noteq> 0"
    and "sv_monitor_exit S \<noteq> 0 \<Longrightarrow> skynet_harbor_message_isremote S (sv_monitor_exit S) = Some False"
  shows "\<exists>S'. skynet_command X S d ''KILL'' (Some (CHR '':'' # print_x h)) = Some (None, S') \<and> server_inv S' A
    \<and> (\<forall>g. hs_lookup (hof S') (sv_handles S') g = (if g = h then None else hs_lookup (hof S) (sv_handles S) g))
    \<and> (\<forall>nm. name_map (sv_handles S') nm = (if name_map (sv_handles S) nm = Some h then None else name_map (sv_handles S) nm))
    \<and> sv_ctx S' = (sv_ctx S)(c := (if ctx_ref x = 1 then None else Some (x\<lparr>ctx_ref := ctx_ref x - 1\<rparr>)))
    \<and> (\<forall>y. marks S' y = (if y = ctx_queue x \<and> ctx_ref x = 1 then map_option (\<lambda>(_, h). (True, h)) (marks S y) else marks S y))
    \<and> (\<forall>y. target S (logger_of S) \<noteq> Some y \<longrightarrow>
         queue_msgs S' y = (if sv_monitor_exit S \<noteq> 0 \<and> target S (sv_monitor_exit S) = Some y
           then map_option (\<lambda>l. l @ [exit_notice h]) (queue_msgs S y) else queue_msgs S y))"
proof -
  have "skynet_command X S d ''KILL'' (Some (CHR '':'' # print_x h)) = map_option (Pair None) (handle_exit X S d h)"
    using assms(6) by (simp add: skynet_command_def cmd_funcs_def cmd_kill_def colon_handle)
  then show ?thesis using handle_exit_sound [OF assms] by auto
qed

text \<open>
  C23. Names: after a successful \<open>REG .name\<close> any service's \<open>QUERY .name\<close> answers the text of the
  registering service's handle and \<open>skynet_queryname\<close> the handle itself; \<open>REG\<close> of a name in use
  changes nothing and answers \<open>NULL\<close>.
\<close>

theorem reg_query:
  assumes inv: "server_inv S A" and x: "sv_ctx S c = Some x" and "ctx_handle x \<noteq> 0"
    and reg: "skynet_command X S c ''REG'' (Some (CHR ''.'' # nm)) = Some (r, S')"
  shows "if name_map (sv_handles S) nm = None
     then r = Some nm \<and> server_inv S' A \<and> skynet_queryname X S' d (CHR ''.'' # nm) = Some (ctx_handle x, S')
       \<and> skynet_command X S' d ''QUERY'' (Some (CHR ''.'' # nm)) = Some (Some (CHR '':'' # print_x (ctx_handle x)), S')
     else r = None \<and> S' = S"
proof -
  have sl: "slots_inv (hof S) (sv_handles S)" "names_inv (sv_handles S)" using inv by (simp_all add: server_inv_def)
  obtain H where H: "skynet_handle_namehandle (sv_handles S) (ctx_handle x) nm = Some (r, H)" "S' = S\<lparr>sv_handles := H\<rparr>"
    using reg x by (auto simp: skynet_command_def cmd_funcs_def cmd_reg_def)
  note nh = namehandle_sound [OF sl(2) H(1)]
  show ?thesis
  proof (cases "name_map (sv_handles S) nm")
    case None
    then have r: "r = Some nm" "name_map H nm = Some (ctx_handle x)" "names_inv H" using nh by simp_all
    then have f: "skynet_handle_findname (sv_handles S') nm = ctx_handle x"
      using findname_sound [OF r(3), of nm] by (simp add: H(2))
    have "hof S' = hof S" by (rule hof_cong) (simp add: H(2))
    moreover have "contexts_ok S'"
      using inv slots_inv_frame [of H "sv_handles S"] nh by (simp add: server_inv_def contexts_ok_def H(2))
    moreover have "slots_inv (hof S) H" using sl(1) slots_inv_frame [of H "sv_handles S"] nh by simp
    ultimately have "server_inv S' A"
      using inv r(3) by (simp add: server_inv_def H(2) sched_of_def mem_ok_def)
    with None r(1) f assms(3) show ?thesis
      by (simp add: skynet_queryname_def skynet_command_def cmd_funcs_def cmd_query_def)
  next
    case (Some h)
    then show ?thesis using nh by (simp add: H(2))
  qed
qed

section \<open>Examples\<close>

definition svc_module :: skynet_module where
  "svc_module = \<lparr>mod_name = ''svc'', mod_module = 1, mod_create = None, mod_init = Some 2,
     mod_release = None, mod_signal = None\<rparr>"

definition svc_boot :: "(nat, unit) server" where
  "svc_boot = skynet_boot 1 ''./?.so'' (0, 0) (0, 0) Map.empty ()"

text \<open>The functions of the examples, with an \<open>init\<close> that returns \<open>r\<close>.\<close>

definition svc_externals :: "i32 \<Rightarrow> (nat, unit) externals" where
  "svc_externals r = example_externals\<lparr>x_init := (\<lambda>f inst c args S. Some (r, S))\<rparr>"

lemma svc_query:
  "skynet_module_query (x_dlopen (svc_externals r)) (x_dlsym (svc_externals r)) (sv_modules svc_boot) ''svc''
     = Some (Some svc_module, \<lparr>mods_path = ''./?.so'', mods_m = [svc_module]\<rparr>)"
  by (simp add: skynet_module_query_def svc_externals_def example_externals_def svc_boot_def skynet_boot_def
      skynet_harbor_init_def skynet_module_init_def MAX_MODULE_TYPE_def try_open.simps path_segment_def
      path_expand_def open_sym_def svc_module_def)

lemma svc_create:
  "skynet_module_instance_create X svc_module S = (Some (unat (- 1 :: u64)), S)"
  by (simp add: skynet_module_instance_create_def svc_module_def)

lemma svc_fresh:
  obtains c S2 x where "context_alloc (svc_boot\<lparr>sv_modules := M\<rparr>) svc_module inst = Some (c, S2)" "sv_ctx S2 c = Some x"
    "fresh_context S2 {} c x" "queue_msgs S2 (ctx_queue x) = Some []" "sv_mem S2 = Map.empty"
    "ctx_mod x = svc_module" "logger_of S2 = 0" "hs_lookup (hof S2) (sv_handles S2) 0 = None" "sv_monitor_exit S2 = 0"
    "hs_name_count (sv_handles S2) = 0" "hs_name_cap (sv_handles S2) = 2" "name_map (sv_handles S2) = Map.empty"
proof -
  let ?S = "svc_boot\<lparr>sv_modules := M\<rparr>"
  have "server_inv svc_boot {}" unfolding svc_boot_def by (rule boot_inv)
  then have inv: "server_inv ?S {}"
    using hof_cong [of ?S svc_boot] by (simp add: server_inv_def contexts_ok_def mem_ok_def sched_of_def)
  have h: "sv_handles ?S = skynet_handle_init 1" "sv_mem ?S = Map.empty" "sv_logger ?S = 0"
    by (simp_all add: svc_boot_def skynet_boot_def skynet_harbor_init_def)
  have room: "card (registered (sv_handles ?S)) < 2 ^ 24" by (simp add: h init_registered)
  obtain c x S2 where a: "context_alloc ?S svc_module inst = Some (c, S2)" "server_inv S2 (insert (ctx_queue x) {})"
    "sv_ctx S2 c = Some x" "ctx_ref x = 2" "hs_lookup (hof S2) (sv_handles S2) (ctx_handle x) = Some c"
    "queue_msgs S2 (ctx_queue x) = Some []" "ctx_handle x AND NOT HANDLE_MASK = hs_harbor (sv_handles ?S)"
    "sv_mem S2 = sv_mem ?S"
    using context_alloc_inv [OF inv room, of svc_module inst] by (elim exE conjE) (rule that)
  have n: "ctx_handle x AND NOT HANDLE_MASK = 0x1000000"
    using a(7) by (simp add: h skynet_handle_init_def HANDLE_REMOTE_SHIFT_def)
  then have nz: "ctx_handle x \<noteq> 0" by auto
  obtain f where reg: "skynet_handle_register f (skynet_handle_init 1) c = Some (ctx_handle x, sv_handles S2)"
    and s2: "sv_logger S2 = 0" "ctx_mod x = svc_module" "sv_monitor_exit S2 = 0"
    using a(1,3) by (auto simp: context_alloc_def Let_def bind_eq_Some_conv skynet_mq_create_def svc_boot_def
        skynet_boot_def skynet_harbor_init_def)
  have nm: "hs_name_count (sv_handles S2) = 0" "hs_name_cap (sv_handles S2) = 2"
    using register_names [OF reg] by (simp_all add: skynet_handle_init_def)
  have nm2: "name_map (sv_handles S2) = Map.empty" "names_inv (sv_handles S2)"
    using nm a(2) by (simp_all add: name_map_def names_def server_inv_def)
  then have lg: "logger_of S2 = 0" using findname_sound [OF nm2(2)] by (simp add: logger_of_def s2)
  have "hs_lookup (hof S2) (sv_handles S2) 0 = None"
  proof (rule ccontr)
    assume "hs_lookup (hof S2) (sv_handles S2) 0 \<noteq> None"
    then obtain e where "hs_lookup (hof S2) (sv_handles S2) 0 = Some e" by auto
    moreover have sl: "slots_inv (hof S2) (sv_handles S2)" using a(2) by (simp add: server_inv_def)
    ultimately have e: "e \<in> registered (sv_handles S2)" "hof S2 e = 0" by (simp_all add: lookup_iff)
    moreover have "c \<in> registered (sv_handles S2)" using a(5) by (simp add: lookup_iff [OF sl])
    ultimately have "hof S2 e AND NOT HANDLE_MASK = hof S2 c AND NOT HANDLE_MASK"
      using slots_invD(2) [OF sl] registered_iff [OF sl] by metis
    then show False using e(2) n a(3) by (simp add: hof_def)
  qed
  with that [OF a(1,3)] a nz lg s2 nm nm2(1) show ?thesis by (simp add: fresh_context_def h)
qed

lemma svc_init: "skynet_module_instance_init (svc_externals r) svc_module inst c args S = Some (r, S)"
  by (simp add: skynet_module_instance_init_def svc_externals_def svc_module_def)


theorem launch_failure_cleans_witness:
  "\<exists>S'. skynet_context_new (svc_externals 7) svc_boot ''svc'' None = Some (None, S') \<and> server_inv S' {}"
proof -
  let ?M = "\<lparr>mods_path = ''./?.so'', mods_m = [svc_module]\<rparr>"
  obtain c S2 x where a: "context_alloc (svc_boot\<lparr>sv_modules := ?M\<rparr>) svc_module (unat (- 1 :: u64)) = Some (c, S2)"
    "sv_ctx S2 c = Some x" "fresh_context S2 {} c x" "queue_msgs S2 (ctx_queue x) = Some []"
    "ctx_mod x = svc_module" "logger_of S2 = 0" "hs_lookup (hof S2) (sv_handles S2) 0 = None"
    by (rule svc_fresh)
  have q: "map_option ctx_queue (sv_ctx S2 c) = Some (ctx_queue x)" by (simp add: a(2))
  have "releases (svc_externals 7) x (\<lambda>w. w)"
    by (simp add: releases_def skynet_module_instance_release_def a(5) svc_module_def)
  moreover have "target S2 (logger_of S2) \<noteq> Some (ctx_queue x)" by (simp add: target_def a)
  moreover have "owned S2 []" "local_sources S2 []" by (simp_all add: owned_def local_sources_def List.map_filter_simps)
  ultimately show ?thesis
    using launch_failure_cleans [where r = 7 and args = None, OF svc_query svc_create a(1) q svc_init _ a(3) _ _ a(4)]
    by auto
qed

theorem kill_retires_witness:
  "\<exists>(S :: (nat, unit) server) c h S'. hs_lookup (hof S) (sv_handles S) h = Some c
     \<and> skynet_command example_externals S c ''KILL'' (Some (CHR '':'' # print_x h)) = Some (None, S')
     \<and> hs_lookup (hof S') (sv_handles S') h = None"
proof -
  let ?M = "\<lparr>mods_path = ''./?.so'', mods_m = [svc_module]\<rparr>"
  obtain c S2 x where a: "context_alloc (svc_boot\<lparr>sv_modules := ?M\<rparr>) svc_module (unat (- 1 :: u64)) = Some (c, S2)"
    "sv_ctx S2 c = Some x" "fresh_context S2 {} c x" "ctx_mod x = svc_module" "sv_monitor_exit S2 = 0"
    by (rule svc_fresh)
  have f: "server_inv S2 (insert (ctx_queue x) {})" "hs_lookup (hof S2) (sv_handles S2) (ctx_handle x) = Some c" "ctx_handle x \<noteq> 0"
    using a(3) by (simp_all add: fresh_context_def)
  have r: "releases example_externals x (\<lambda>w. w)"
    by (simp add: releases_def skynet_module_instance_release_def a(4) svc_module_def)
  obtain S' where "skynet_command example_externals S2 c ''KILL'' (Some (CHR '':'' # print_x (ctx_handle x))) = Some (None, S')"
    "hs_lookup (hof S') (sv_handles S') (ctx_handle x) = None"
    using kill_retires [OF f(1) a(2) f(2) a(2) r f(3)] a(5) by auto
  with f(2) show ?thesis by (intro exI [of _ S2] exI [of _ c] exI [of _ "ctx_handle x"] exI [of _ S']) simp
qed

theorem reg_query_witness:
  "\<exists>(S :: (nat, unit) server) c x S'. sv_ctx S c = Some x
     \<and> skynet_command example_externals S c ''REG'' (Some ''.foo'') = Some (Some ''foo'', S')
     \<and> skynet_command example_externals S' c ''QUERY'' (Some ''.foo'') = Some (Some (CHR '':'' # print_x (ctx_handle x)), S')"
proof -
  let ?M = "\<lparr>mods_path = ''./?.so'', mods_m = [svc_module]\<rparr>"
  obtain c S2 x where a: "context_alloc (svc_boot\<lparr>sv_modules := ?M\<rparr>) svc_module (unat (- 1 :: u64)) = Some (c, S2)"
    "sv_ctx S2 c = Some x" "fresh_context S2 {} c x"
    "hs_name_count (sv_handles S2) = 0" "hs_name_cap (sv_handles S2) = 2" "name_map (sv_handles S2) = Map.empty"
    by (rule svc_fresh)
  have f: "server_inv S2 (insert (ctx_queue x) {})" "ctx_handle x \<noteq> 0" using a(3) by (simp_all add: fresh_context_def)
  obtain r H where H: "skynet_handle_namehandle (sv_handles S2) (ctx_handle x) ''foo'' = Some (r, H)"
    using a(4,5) by (auto simp: skynet_handle_namehandle_def insert_name_def name_search.simps insert_name_before_def Let_def split: sum.splits)
  then have "skynet_command example_externals S2 c ''REG'' (Some (CHR ''.'' # ''foo'')) = Some (r, S2\<lparr>sv_handles := H\<rparr>)"
    by (simp add: skynet_command_def cmd_funcs_def cmd_reg_def a(2))
  from reg_query [OF f(1) a(2) f(2) this, of c] this a(2,6) show ?thesis by auto
qed

end
