(* ===== verification/Logger.thy ===== *)
theory Logger
  imports Command
begin

text \<open>
  The logger service of \<open>service-src/service_logger.c\<close>, the receiver of every \<open>skynet_error\<close>. Its callback
  provides the contract \<open>consumer\<close>, so that what a worker's dispatch does to the log follows from the
  lemmas of that locale: the messages of a batch reach the file completely, once and in order.
\<close>

record logger =
  lg_handle :: "nat option"
  lg_close :: bool

definition logger_create :: logger where
  "logger_create = \<lparr>lg_handle = None, lg_close = False\<rparr>"

definition logger_release :: "('cb, 'w) externals \<Rightarrow> logger \<Rightarrow> 'w \<Rightarrow> 'w option" where
  "logger_release X inst w =
     (if lg_close inst then map_option (\<lambda>f. x_fclose X f w) (lg_handle inst) else Some w)"

text \<open>The three writes of \<open>_logger\<close>.\<close>

definition log_line :: "('cb, 'w) externals \<Rightarrow> nat \<Rightarrow> u32 \<Rightarrow> bytes \<Rightarrow> 'w \<Rightarrow> 'w" where
  "log_line X f source bs w =
     x_fwrite X f [CHR 0x0A]
       (x_fwrite X f (map (\<lambda>b. char_of (unat b)) bs) (x_fwrite X f (''[:'' @ print_08x source @ ''] '') w))"

definition logger_cb ::
  "('cb, 'w) externals \<Rightarrow> logger \<Rightarrow> addr \<Rightarrow> i32 \<Rightarrow> i32 \<Rightarrow> u32 \<Rightarrow> addr option \<Rightarrow> u64 \<Rightarrow> ('cb, 'w) server \<Rightarrow>
     (bool \<times> ('cb, 'w) server) option" where
  "logger_cb X inst c type session source msg sz S =
     Option.bind (lg_handle inst)
       (\<lambda>f. map_option (\<lambda>bs. (False, S\<lparr>sv_world := log_line X f source bs (sv_world S)\<rparr>)) (block_bytes S msg sz))"

text \<open>\<open>out\<close> is the standard output; the result is the instance, the returned value and the state.\<close>

definition logger_init ::
  "(logger, 'w) externals \<Rightarrow> nat \<Rightarrow> logger \<Rightarrow> addr \<Rightarrow> string option \<Rightarrow> (logger, 'w) server \<Rightarrow>
     (logger \<times> i32 \<times> (logger, 'w) server) option" where
  "logger_init X out inst c param S =
     (case (case param of
              Some p \<Rightarrow> (case x_fopen X p (sv_world S) of
                 (f, w) \<Rightarrow> (inst\<lparr>lg_handle := f, lg_close := (f \<noteq> None)\<rparr>, S\<lparr>sv_world := w\<rparr>))
            | None \<Rightarrow> (inst\<lparr>lg_handle := Some out\<rparr>, S)) of
        (inst1, S1) \<Rightarrow>
          if lg_handle inst1 = None then Some (inst1, 1, S1)
          else Option.bind (skynet_callback S1 c inst1)
            (\<lambda>S2. map_option (\<lambda>(_, S3). (inst1, 0, S3)) (skynet_command X S2 c ''REG'' (Some ''.logger''))))"

section \<open>The logger is a consumer\<close>

definition logger_externals :: "(logger, 'w) externals \<Rightarrow> (logger, 'w) externals" where
  "logger_externals X = X\<lparr>x_callback := logger_cb X\<rparr>"

interpretation logger: consumer "logger_externals X" "\<lparr>lg_handle = Some f, lg_close = cl\<rparr>" "log_line X f"
  for X :: "(logger, 'w) externals" and f :: nat and cl :: bool
  by unfold_locales (simp add: logger_externals_def logger_cb_def)

section \<open>Properties\<close>

text \<open>
  C18. A dispatch of the logger's queue with weight \<open>weight\<close>: exactly the first message, or for a
  non-negative weight the first \<open>max 1 (n div 2\<^sup>weight)\<close> messages where \<open>n\<close> counts those left behind
  the first, are written to the log file, each as one line with its source, completely and in the order
  of the queue; their data is freed, the rest stays queued; the worker leaves with the first queue
  of the global list, the logger's queue goes to its end (or stays with the worker when the list is
  empty), and the server's invariant holds.
\<close>

theorem logger_dispatch:
  assumes "server_inv S A" and "p \<in> A" and "mq_heap S p = Some q" and "mq_abs q = m # ms" and "quiet q"
    and "hs_lookup (hof S) (sv_handles S) (mq_handle q) = Some c" and "sv_ctx S c = Some x" and "ctx_queue x = p"
    and "ctx_init x" and "ctx_logfile x = None" and "ctx_cb x = Some \<lparr>lg_handle = Some f, lg_close = cl\<rparr>"
    and "readable S (m # ms)" and "gq_list (mq_heap S) (gq_head S) ids"
    and "k = max 1 (if 0 \<le> weight then List.length ms div 2 ^ nat weight else 1)"
  shows "\<exists>sm' S'. skynet_context_message_dispatch (logger_externals X) S sm (Some p) weight
       = Some (Some (hd (ids @ [p])), sm', S')
    \<and> sv_world S' = fold (\<lambda>m. log_line X f (msg_source m) (the (body S m))) (take k (m # ms)) (sv_world S)
    \<and> sv_mem S' = sv_mem S |` (- data_of (take k (m # ms)))
    \<and> (\<forall>y. queue_msgs S' y = (if y = p then Some (drop k (m # ms)) else queue_msgs S y))
    \<and> gq_list (mq_heap S') (gq_head S') (tl (ids @ [p]))
    \<and> server_inv S' (insert (hd (ids @ [p])) (A - {p})) \<and> mon_destination sm' = 0"
proof -
  have l: "consumer.listening \<lparr>lg_handle = Some f, lg_close = cl\<rparr> x"
    using assms(9-11) by (simp add: logger.listening_def)
  have k: "k = max 1 (dispatch_count weight (List.length ms))"
    using assms(14) by (simp add: dispatch_count_def drop_bit_eq_div)
  show ?thesis
    using logger.dispatch_batch [OF assms(1-8) l assms(12,13) k, of X sm] by (fastforce simp: consumed_def)
qed

section \<open>An example\<close>

text \<open>The services' own state is the text of the log.\<close>

definition text_externals :: "(logger, string) externals" where
  "text_externals = \<lparr>x_dlopen = (\<lambda>path. None), x_dlsym = (\<lambda>lib sym. None),
     x_create = (\<lambda>f w. (None, w)), x_init = (\<lambda>f inst c args S. Some (0, S)),
     x_release = (\<lambda>f inst S. Some S), x_signal = (\<lambda>f inst n S. Some S),
     x_callback = (\<lambda>cb c type session source msg sz S. None),
     x_fopen = (\<lambda>name w. (Some 4, w)), x_fwrite = (\<lambda>f t w. w @ t), x_fclose = (\<lambda>f w. w), x_ctime = (\<lambda>t. [])\<rparr>"

definition log_message :: skynet_message where
  "log_message = \<lparr>msg_source = 0x1000007, msg_session = 0, msg_data = Some 0, msg_sz = 2\<rparr>"

definition example_inst :: logger where
  "example_inst = \<lparr>lg_handle = Some 4, lg_close = True\<rparr>"

lemma logger_server:
  obtains S :: "(logger, string) server" and q c x where "server_inv S {ctx_queue x}" "mq_heap S (ctx_queue x) = Some q"
    "mq_abs q = [log_message]" "quiet q" "hs_lookup (hof S) (sv_handles S) (mq_handle q) = Some c" "sv_ctx S c = Some x"
    "ctx_init x" "ctx_logfile x = None" "ctx_cb x = Some example_inst" "body S log_message = Some [72, 105]"
    "sv_mem S = [0 \<mapsto> Bytes [72, 105]]" "gq_list (mq_heap S) (gq_head S) []" "sv_world S = []"
proof -
  let ?B = "skynet_boot 1 [] (0, 0) (0, 0) Map.empty [] :: (logger, string) server"
  have invB: "server_inv ?B {}" by (rule boot_inv)
  have "card (registered (sv_handles ?B)) < 2 ^ 24" by (simp add: skynet_boot_def skynet_harbor_init_def init_registered)
  from context_alloc_inv [OF invB this, of idle_module 0] obtain c x S1 where
    a: "context_alloc ?B idle_module 0 = Some (c, S1)" "server_inv S1 (insert (ctx_queue x) {})"
    "sv_ctx S1 c = Some x" "ctx_ref x = 2" "hs_lookup (hof S1) (sv_handles S1) (ctx_handle x) = Some c" by blast
  then have e: "mq_heap S1 = [ctx_queue x \<mapsto> mq_new (ctx_handle x)]" "gq_head S1 = None" "ctx_logfile x = None"
    "sv_brk S1 = 2" "sv_world S1 = []"
    by (auto simp: context_alloc_def Let_def bind_eq_Some_conv skynet_mq_create_def skynet_boot_def skynet_harbor_init_def)
  define S2 where "S2 = S1\<lparr>sv_mem := [0 \<mapsto> Bytes [72, 105]]\<rparr>"
  have inv2: "server_inv S2 {ctx_queue x}"
    unfolding S2_def using a(2) e(4) by (intro server_inv_mem_upd) (auto simp: server_inv_def mem_ok_def)
  define y where "y = x\<lparr>ctx_init := True, ctx_cb := Some example_inst\<rparr>"
  define S3 where "S3 = S2\<lparr>sv_ctx := (sv_ctx S2)(c \<mapsto> y)\<rparr>"
  have inv3: "server_inv S3 {ctx_queue x}"
    unfolding S3_def by (rule server_inv_ctx [OF inv2, of c x]) (simp_all add: S2_def a y_def)
  let ?q = "mq_enqueue (mq_new (ctx_handle x)) log_message"
  define S4 where "S4 = S3\<lparr>mq_heap := (mq_heap S3)(ctx_queue x \<mapsto> ?q)\<rparr>"
  have q3: "mq_heap S3 (ctx_queue x) = Some (mq_new (ctx_handle x))" by (simp add: S3_def S2_def e)
  have "skynet_mq_push S3 (ctx_queue x) log_message = Some S4"
    by (simp add: skynet_mq_push_def q3 S4_def mq_enqueue_frame) (simp add: mq_new_def)
  then have inv4: "server_inv S4 {ctx_queue x}"
    using mq_push_server_inv [OF inv3 q3, of log_message] by (auto simp: mq_new_def)
  have "hof S4 = hof S1" using a(3) by (auto simp: S4_def S3_def S2_def y_def hof_def fun_eq_iff)
  moreover have "quiet ?q"
    by (simp add: quiet_def mq_enqueue_abs [OF mq_new_inv] mq_new_abs)
      (simp add: mq_enqueue_def expand_queue_def mq_new_def MQ_OVERLOAD_def Let_def)
  ultimately show ?thesis
    using that [of S4 y ?q c] inv4 a(5) e
    by (simp add: S4_def S3_def S2_def y_def mq_enqueue_abs [OF mq_new_inv] mq_new_abs mq_enqueue_frame body_def
        block_bytes_def log_message_def HANDLE_MASK_def) (simp add: mq_new_def)
qed

theorem logger_dispatch_witness:
  "\<exists>(S :: (logger, string) server) p sm' S'.
     skynet_context_message_dispatch (logger_externals text_externals) S skynet_monitor_new (Some p) 0 = Some (Some p, sm', S')
     \<and> sv_world S' = ''[:01000007] Hi'' @ [CHR 0x0A]"
proof -
  obtain S :: "(logger, string) server" and q c x where s: "server_inv S {ctx_queue x}" "mq_heap S (ctx_queue x) = Some q"
    "mq_abs q = [log_message]" "quiet q" "hs_lookup (hof S) (sv_handles S) (mq_handle q) = Some c" "sv_ctx S c = Some x"
    "ctx_init x" "ctx_logfile x = None" "ctx_cb x = Some example_inst" "body S log_message = Some [72, 105]"
    "sv_mem S = [0 \<mapsto> Bytes [72, 105]]" "gq_list (mq_heap S) (gq_head S) []" "sv_world S = []"
    by (rule logger_server)
  have rd: "readable S [log_message]"
    using s(10,11) by (simp add: readable_def log_message_def List.map_filter_simps)
  have line: "log_line text_externals 4 0x1000007 [72, 105] [] = ''[:01000007] Hi'' @ [CHR 0x0A]"
    by (simp add: log_line_def text_externals_def print_08x_def print_x_def digits.simps lower_digits_def
        char_of_def bit_0)
  from logger_dispatch [OF s(1) _ s(2-6) refl s(7,8) s(9) [unfolded example_inst_def] rd s(12) refl, of text_externals skynet_monitor_new 0]
  obtain sm' S' where "skynet_context_message_dispatch (logger_externals text_externals) S skynet_monitor_new (Some (ctx_queue x)) 0
      = Some (Some (ctx_queue x), sm', S')"
    "sv_world S' = log_line text_externals 4 (msg_source log_message) (the (body S log_message)) (sv_world S)" by auto
  moreover have "msg_source log_message = 0x1000007" by (simp add: log_message_def)
  ultimately show ?thesis using line s(10,13) by auto
qed

end
