(* ===== verification/Framing.thy ===== *)
theory Framing
  imports Prelude
begin

text \<open>
  The messages of the socket thread (\<open>skynet-src/skynet_socket.h\<close>), and
  streams of messages that each follow their length, two bytes in big-endian order: the format that
  \<open>service-src/databuffer.h\<close> (header size 2) and \<open>lualib-src/lua-netpack.c\<close> take from a socket, in
  whatever pieces the bytes arrive. \<open>split_frames\<close> is the reference parser; the locale
  \<open>reassembler\<close> is the contract of an incremental one, and its lemmas say that the pieces do not
  matter. The two parsers of the code interpret it.
\<close>

section \<open>Socket messages\<close>

definition SKYNET_SOCKET_TYPE_DATA :: i32 where "SKYNET_SOCKET_TYPE_DATA = 1"
definition SKYNET_SOCKET_TYPE_CONNECT :: i32 where "SKYNET_SOCKET_TYPE_CONNECT = 2"
definition SKYNET_SOCKET_TYPE_CLOSE :: i32 where "SKYNET_SOCKET_TYPE_CLOSE = 3"
definition SKYNET_SOCKET_TYPE_ACCEPT :: i32 where "SKYNET_SOCKET_TYPE_ACCEPT = 4"
definition SKYNET_SOCKET_TYPE_ERROR :: i32 where "SKYNET_SOCKET_TYPE_ERROR = 5"
definition SKYNET_SOCKET_TYPE_WARNING :: i32 where "SKYNET_SOCKET_TYPE_WARNING = 7"

text \<open>
  A message from the socket thread, with the bytes of \<open>buffer\<close>, unless it is NULL, and those after
  the structure. In a message with data \<open>ud\<close> is the number of its bytes.
\<close>

record socket_event =
  se_type :: i32
  se_id :: i32
  se_ud :: i32
  se_buffer :: "bytes option"
  se_tail :: bytes

definition data_event :: "i32 \<Rightarrow> bytes \<Rightarrow> socket_event" where
  "data_event fd data =
     \<lparr>se_type = SKYNET_SOCKET_TYPE_DATA, se_id = fd, se_ud = of_nat (List.length data), se_buffer = Some data, se_tail = []\<rparr>"

section \<open>The format\<close>

definition be16 :: "u8 \<Rightarrow> u8 \<Rightarrow> nat" where
  "be16 hi lo = unat hi * 256 + unat lo"

definition frame :: "bytes \<Rightarrow> bytes" where
  "frame m = [of_nat (List.length m div 256), of_nat (List.length m mod 256)] @ m"

function split_frames :: "bytes \<Rightarrow> bytes list \<times> bytes" where
  "split_frames (hi # lo # bs) =
     (if be16 hi lo \<le> List.length bs then
        (case split_frames (drop (be16 hi lo) bs) of (fs, r) \<Rightarrow> (take (be16 hi lo) bs # fs, r))
      else ([], hi # lo # bs))"
| "split_frames [] = ([], [])"
| "split_frames [b] = ([], [b])"
  by pat_completeness auto
termination by (relation "measure List.length") auto

lemma be16_bound: "be16 hi lo < 2 ^ 16"
proof -
  have "unat hi < 256" "unat lo < 256" using u8_bound by simp_all
  then show ?thesis by (simp add: be16_def)
qed

lemma be16_parts: "be16 hi lo div 256 = unat hi" "be16 hi lo mod 256 = unat lo"
proof -
  have "unat lo < 256" using u8_bound [of lo] by simp
  moreover have "(m * 256 + n) div 256 = m \<and> (m * 256 + n) mod 256 = n" if "n < 256" for m n :: nat
    using that by simp
  ultimately show "be16 hi lo div 256 = unat hi" "be16 hi lo mod 256 = unat lo" unfolding be16_def by blast+
qed

lemma be16_frame:
  assumes "n < 2 ^ 16"
  shows "be16 (of_nat (n div 256)) (of_nat (n mod 256)) = n"
proof -
  have "unat (of_nat (n div 256) :: u8) = n div 256" "unat (of_nat (n mod 256) :: u8) = n mod 256"
    using assms by (simp_all add: unat_of_nat)
  then show ?thesis by (simp add: be16_def)
qed

text \<open>More bytes never change the frames that are complete.\<close>

lemma split_frames_append:
  "split_frames (xs @ ys) = (case split_frames xs of (fs, r) \<Rightarrow> case split_frames (r @ ys) of (gs, r') \<Rightarrow> (fs @ gs, r'))"
proof (induction xs rule: split_frames.induct)
  case (1 hi lo bs)
  show ?case
  proof (cases "be16 hi lo \<le> List.length bs")
    case True
    then show ?thesis using 1 by (simp split: prod.splits)
  next
    case False
    then show ?thesis by (simp split: prod.splits)
  qed
qed (auto split: prod.splits)

lemma split_frames_frame:
  assumes "List.length m < 2 ^ 16"
  shows "split_frames (frame m @ bs) = (case split_frames bs of (fs, r) \<Rightarrow> (m # fs, r))"
  using be16_frame [OF assms] by (simp add: frame_def)

section \<open>Message formats\<close>

text \<open>
  What the incremental parsers rely on in a format. \<open>split\<close> cuts the complete messages off a text,
  \<open>good\<close> texts are those without an error the parser answers by giving up.
\<close>

locale format =
  fixes split :: "'b list \<Rightarrow> 'm list \<times> 'b list"
    and encode :: "'m \<Rightarrow> 'b list"
    and valid :: "'m \<Rightarrow> bool"
    and good :: "'b list \<Rightarrow> bool"
  assumes split_append: "good (xs @ ys) \<Longrightarrow>
      split (xs @ ys) = (case split xs of (fs, r) \<Rightarrow> case split (r @ ys) of (gs, r') \<Rightarrow> (fs @ gs, r'))"
    and split_Nil: "split [] = ([], [])"
    and split_encode: "valid m \<Longrightarrow> split (encode m @ bs) = (case split bs of (fs, r) \<Rightarrow> (m # fs, r))"
    and good_prefix: "good (xs @ ys) \<Longrightarrow> good xs"
    and good_rest: "good (xs @ ys) \<Longrightarrow> good (snd (split xs) @ ys)"
    and good_Nil: "good []"
    and good_encode: "valid m \<Longrightarrow> good bs \<Longrightarrow> good (encode m @ bs)"
begin

lemma split_rest: "good bs \<Longrightarrow> split bs = (fs, r) \<Longrightarrow> split r = ([], r)"
  using split_append [of bs "[]"] by (auto split: prod.splits)

lemma split_encoded: "\<forall>m \<in> set ms. valid m \<Longrightarrow> split (concat (map encode ms)) = (ms, [])"
  by (induction ms) (simp_all add: split_encode split_Nil)

lemma good_encoded: "\<forall>m \<in> set ms. valid m \<Longrightarrow> good (concat (map encode ms))"
  by (induction ms) (simp_all add: good_encode good_Nil)

end

interpretation be16: format split_frames frame "\<lambda>m. List.length m < 2 ^ 16" "\<lambda>bs. True"
  by unfold_locales (rule split_frames_append, simp_all add: split_frames_frame)

section \<open>Incremental parsers\<close>

fun feed_all :: "('s \<Rightarrow> 'c \<Rightarrow> ('o list \<times> 's) option) \<Rightarrow> 's \<Rightarrow> 'c list \<Rightarrow> ('o list \<times> 's) option" where
  "feed_all feed s [] = Some ([], s)"
| "feed_all feed s (c # cs) =
     Option.bind (feed s c)
       (\<lambda>(out, s1). map_option (\<lambda>(outs, s2). (out @ outs, s2)) (feed_all feed s1 cs))"

text \<open>
  \<open>pending\<close> is the text of the incomplete message a parser holds, \<open>emit\<close> what it hands over for a
  complete one; a socket gives no empty pieces.
\<close>

locale reassembler = format split encode valid good
  for split :: "'b list \<Rightarrow> 'm list \<times> 'b list" and encode :: "'m \<Rightarrow> 'b list" and valid :: "'m \<Rightarrow> bool" and good :: "'b list \<Rightarrow> bool" +
  fixes inv :: "'s \<Rightarrow> bool"
    and pending :: "'s \<Rightarrow> 'b list"
    and feed :: "'s \<Rightarrow> 'b list \<Rightarrow> ('o list \<times> 's) option"
    and emit :: "'m \<Rightarrow> 'o list"
  assumes feed_split: "inv s \<Longrightarrow> c \<noteq> [] \<Longrightarrow> good (pending s @ c) \<Longrightarrow> \<exists>s'. inv s' \<and> pending s' = snd (split (pending s @ c))
    \<and> feed s c = Some (concat (map emit (fst (split (pending s @ c)))), s')"
begin

lemma feed_all_split:
  "inv s \<Longrightarrow> [] \<notin> set cs \<Longrightarrow> split (pending s) = ([], pending s) \<Longrightarrow> good (pending s @ concat cs) \<Longrightarrow>
     \<exists>s'. inv s' \<and> pending s' = snd (split (pending s @ concat cs))
       \<and> feed_all feed s cs = Some (concat (map emit (fst (split (pending s @ concat cs)))), s')"
proof (induction cs arbitrary: s)
  case Nil
  then show ?case by auto
next
  case (Cons c cs)
  have g: "good ((pending s @ c) @ concat cs)" using Cons.prems(4) by simp
  obtain fs r where f: "split (pending s @ c) = (fs, r)" by force
  then obtain s1 where s1: "inv s1" "pending s1 = r" "feed s c = Some (concat (map emit fs), s1)"
    using feed_split [OF Cons.prems(1), of c] Cons.prems(2) good_prefix [OF g] by auto
  have r: "split (pending s1) = ([], pending s1)"
    using split_rest [OF good_prefix [OF g] f] s1(2) by simp
  have "good (pending s1 @ concat cs)" using good_rest [OF g] f s1(2) by simp
  then obtain s2 where s2: "inv s2" "pending s2 = snd (split (r @ concat cs))"
    "feed_all feed s1 cs = Some (concat (map emit (fst (split (r @ concat cs)))), s2)"
    using Cons.IH [OF s1(1) _ r] Cons.prems(2) s1(2) by auto
  have "split (pending s @ concat (c # cs))
      = (fs @ fst (split (r @ concat cs)), snd (split (r @ concat cs)))"
    using split_append [OF g] f by (simp add: case_prod_unfold)
  with s1(3) s2 show ?case by simp
qed

text \<open>Whatever the pieces, the messages that were sent come out, and nothing stays behind.\<close>

lemma reassembles:
  assumes "inv s" and "pending s = []" and "[] \<notin> set cs" and "concat cs = concat (map encode ms)"
    and "\<forall>m \<in> set ms. valid m"
  shows "\<exists>s'. inv s' \<and> pending s' = [] \<and> feed_all feed s cs = Some (concat (map emit ms), s')"
  using feed_all_split [OF assms(1,3)] split_encoded [OF assms(5)] good_encoded [OF assms(5)] assms(2,4) split_Nil by simp

end

text \<open>
  A parser that serves many streams at once, each under its key: what it hands over carries the key,
  and the text of the other streams stays.
\<close>

locale multiplexer = format split encode valid good
  for split :: "'b list \<Rightarrow> 'm list \<times> 'b list" and encode :: "'m \<Rightarrow> 'b list" and valid :: "'m \<Rightarrow> bool" and good :: "'b list \<Rightarrow> bool" +
  fixes inv :: "'s \<Rightarrow> bool"
    and pending :: "'s \<Rightarrow> 'k \<Rightarrow> 'b list"
    and feed :: "'s \<Rightarrow> 'k \<Rightarrow> 'b list \<Rightarrow> (('k \<times> 'm) list \<times> 's) option"
  assumes feed_stream: "inv s \<Longrightarrow> c \<noteq> [] \<Longrightarrow> good (pending s k @ c) \<Longrightarrow>
    \<exists>s'. inv s' \<and> pending s' = (pending s)(k := snd (split (pending s k @ c)))
      \<and> feed s k c = Some (map (Pair k) (fst (split (pending s k @ c))), s')"

sublocale multiplexer < stream: reassembler split encode valid good inv "\<lambda>s. pending s k" "\<lambda>s. feed s k" "\<lambda>m. [(k, m)]" for k
proof
  fix s and c :: "'b list" assume "inv s" and "c \<noteq> []" and "good (pending s k @ c)"
  moreover have "concat (map (\<lambda>m. [(k, m)]) ms) = map (Pair k) ms" for ms :: "'m list" by (induction ms) simp_all
  ultimately show "\<exists>s'. inv s' \<and> pending s' k = snd (split (pending s k @ c))
      \<and> feed s k c = Some (concat (map (\<lambda>m. [(k, m)]) (fst (split (pending s k @ c)))), s')"
    using feed_stream [of s c k] by auto
qed

definition of_key :: "'k \<Rightarrow> ('k \<times> 'a) list \<Rightarrow> 'a list" where
  "of_key k xs = map snd (filter (\<lambda>x. fst x = k) xs)"

lemma of_key_simps [simp]:
  "of_key k [] = []" "of_key k ((j, x) # xs) = (if j = k then x # of_key k xs else of_key k xs)"
  "of_key k (xs @ ys) = of_key k xs @ of_key k ys" "of_key k (map (Pair j) zs) = (if j = k then zs else [])"
  by (simp_all add: of_key_def filter_map comp_def)

context multiplexer begin

text \<open>Pieces of several streams in any interleaving: every stream gives its own messages.\<close>

lemma all_streams:
  "inv s \<Longrightarrow> [] \<notin> snd ` set kcs \<Longrightarrow> \<forall>k. split (pending s k) = ([], pending s k) \<Longrightarrow>
     \<forall>k. good (pending s k @ concat (of_key k kcs)) \<Longrightarrow>
     \<exists>out s'. feed_all (\<lambda>s (k, c). feed s k c) s kcs = Some (out, s') \<and> inv s'
       \<and> (\<forall>k. split (pending s k @ concat (of_key k kcs)) = (of_key k out, pending s' k))"
proof (induction kcs arbitrary: s)
  case Nil
  then show ?case by auto
next
  case (Cons kc kcs)
  obtain k c where kc: "kc = (k, c)" by force
  have g: "good ((pending s k @ c) @ concat (of_key k kcs))" using spec [OF Cons.prems(4), of k] kc by simp
  obtain fs r where f: "split (pending s k @ c) = (fs, r)" by force
  then obtain s1 where s1: "inv s1" "pending s1 = (pending s)(k := r)" "feed s k c = Some (map (Pair k) fs, s1)"
    using feed_stream [OF Cons.prems(1) _ good_prefix [OF g]] Cons.prems(2) kc by auto
  have "\<forall>j. split (pending s1 j) = ([], pending s1 j)"
    using split_rest [OF good_prefix [OF g] f] s1(2) Cons.prems(3) by simp
  moreover have "good (pending s1 j @ concat (of_key j kcs))" for j
    using good_rest [OF g] f s1(2) spec [OF Cons.prems(4), of j] kc by (cases "j = k") simp_all
  ultimately obtain out s' where s': "feed_all (\<lambda>s (k, c). feed s k c) s1 kcs = Some (out, s')" "inv s'"
    "split (pending s1 j @ concat (of_key j kcs)) = (of_key j out, pending s' j)" for j
    using Cons.IH [OF s1(1)] Cons.prems(2) by auto
  have "split (pending s j @ concat (of_key j (kc # kcs))) = (of_key j (map (Pair k) fs @ out), pending s' j)" for j
    using s'(3) [of j] s1(2) split_append [OF g] f
    by (auto simp: kc)
  with s1(3) s'(1,2) show ?case by (auto simp: kc)
qed

end

end
