(* ===== verification/Databuffer.thy ===== *)
theory Databuffer
  imports Framing
begin

text \<open>
  The buffer of a connection, \<open>service-src/databuffer.h\<close>: the pieces received from the socket in a
  linked list, read from an offset in the first one. The list of nodes is the list of their buffers,
  whose lengths are the sizes; nodes in the pool are all alike, so the pool is the number of its
  chunks and of its free nodes. A failed assertion or a NULL dereference is \<open>None\<close>. The sizes are
  natural numbers, so an overflow of \<open>size\<close> past \<open>INT_MAX\<close> is outside the model.
\<close>

definition MESSAGEPOOL :: nat where "MESSAGEPOOL = 1023"

record databuffer =
  db_header :: i32
  db_offset :: nat
  db_size :: nat
  db_list :: "bytes list"

record messagepool =
  mp_pool :: nat
  mp_freelist :: nat

definition messagepool_free :: "messagepool \<Rightarrow> messagepool" where
  "messagepool_free mp = mp\<lparr>mp_pool := 0, mp_freelist := 0\<rparr>"

definition return_message :: "databuffer \<Rightarrow> messagepool \<Rightarrow> (databuffer \<times> messagepool) option" where
  "return_message db mp =
     (case db_list db of
        [] \<Rightarrow> None
      | m # rest \<Rightarrow> Some (db\<lparr>db_list := rest\<rparr>, mp\<lparr>mp_freelist := Suc (mp_freelist mp)\<rparr>))"

text \<open>The loop of \<open>databuffer_read\<close>; the result is what is copied to \<open>buffer\<close>.\<close>

function read_loop :: "databuffer \<Rightarrow> messagepool \<Rightarrow> nat \<Rightarrow> (bytes \<times> databuffer \<times> messagepool) option" where
  "read_loop db mp sz =
     (case db_list db of
        [] \<Rightarrow> None
      | current # rest \<Rightarrow>
          (let bsz = List.length current - db_offset db in
           if sz < bsz then
             Some (take sz (drop (db_offset db) current), db\<lparr>db_offset := db_offset db + sz\<rparr>, mp)
           else if bsz = sz then
             Some (take sz (drop (db_offset db) current), db\<lparr>db_offset := 0, db_list := rest\<rparr>,
                   mp\<lparr>mp_freelist := Suc (mp_freelist mp)\<rparr>)
           else
             map_option (\<lambda>(bs, r). (take bsz (drop (db_offset db) current) @ bs, r))
               (read_loop (db\<lparr>db_list := rest, db_offset := 0\<rparr>) (mp\<lparr>mp_freelist := Suc (mp_freelist mp)\<rparr>)
                  (sz - bsz))))"
  by pat_completeness auto
termination by (relation "measure (\<lambda>(db, mp, sz). List.length (db_list db))") auto

declare read_loop.simps [simp del]

definition databuffer_read :: "databuffer \<Rightarrow> messagepool \<Rightarrow> nat \<Rightarrow> (bytes \<times> databuffer \<times> messagepool) option" where
  "databuffer_read db mp sz =
     (if db_size db < sz then None else read_loop (db\<lparr>db_size := db_size db - sz\<rparr>) mp sz)"

definition databuffer_push :: "databuffer \<Rightarrow> messagepool \<Rightarrow> bytes \<Rightarrow> databuffer \<times> messagepool" where
  "databuffer_push db mp data =
     (db\<lparr>db_size := db_size db + List.length data, db_list := db_list db @ [data]\<rparr>,
      if 0 < mp_freelist mp then mp\<lparr>mp_freelist := mp_freelist mp - 1\<rparr>
      else mp\<lparr>mp_pool := Suc (mp_pool mp), mp_freelist := MESSAGEPOOL - 1\<rparr>)"

text \<open>The four (or two) bytes of a header, most significant first.\<close>

definition header_value :: "nat \<Rightarrow> bytes \<Rightarrow> i32" where
  "header_value header_size plen =
     (if header_size = 2 then push_bit 8 (ucast (plen ! 0)) OR ucast (plen ! 1)
      else push_bit 24 (ucast (plen ! 0)) OR push_bit 16 (ucast (plen ! 1)) OR push_bit 8 (ucast (plen ! 2)) OR ucast (plen ! 3))"

text \<open>The result \<open>-1\<close> says that the header or the message is not complete.\<close>

definition databuffer_readheader ::
  "databuffer \<Rightarrow> messagepool \<Rightarrow> nat \<Rightarrow> (i32 \<times> databuffer \<times> messagepool) option" where
  "databuffer_readheader db mp header_size =
     (let answer = (\<lambda>db mp. if int (db_size db) < sint (db_header db) then (- 1, db, mp) else (db_header db, db, mp)) in
      if db_header db = 0 then
        if db_size db < header_size then Some (- 1, db, mp)
        else map_option (\<lambda>(plen, db1, mp1). answer (db1\<lparr>db_header := header_value header_size plen\<rparr>) mp1)
               (databuffer_read db mp header_size)
      else Some (answer db mp))"

definition databuffer_reset :: "databuffer \<Rightarrow> databuffer" where
  "databuffer_reset db = db\<lparr>db_header := 0\<rparr>"

definition databuffer_empty :: databuffer where
  "databuffer_empty = \<lparr>db_header = 0, db_offset = 0, db_size = 0, db_list = []\<rparr>"

definition databuffer_clear :: "databuffer \<Rightarrow> messagepool \<Rightarrow> databuffer \<times> messagepool" where
  "databuffer_clear db mp =
     (databuffer_empty, mp\<lparr>mp_freelist := mp_freelist mp + List.length (db_list db)\<rparr>)"

section \<open>The bytes a buffer holds\<close>

definition db_bytes :: "databuffer \<Rightarrow> bytes" where
  "db_bytes db = drop (db_offset db) (concat (db_list db))"

definition db_inv :: "databuffer \<Rightarrow> bool" where
  "db_inv db \<longleftrightarrow> db_size db = List.length (db_bytes db)
     \<and> db_offset db \<le> (case db_list db of [] \<Rightarrow> 0 | m # _ \<Rightarrow> List.length m)"

lemma db_empty [simp]: "db_bytes databuffer_empty = []" "db_inv databuffer_empty"
  by (simp_all add: databuffer_empty_def db_bytes_def db_inv_def)

lemma db_header_upd [simp]: "db_bytes (db\<lparr>db_header := h\<rparr>) = db_bytes db" "db_inv (db\<lparr>db_header := h\<rparr>) = db_inv db"
  by (simp_all add: db_bytes_def db_inv_def)

lemma push_bytes:
  assumes "db_inv db"
  shows "db_bytes (fst (databuffer_push db mp data)) = db_bytes db @ data \<and> db_inv (fst (databuffer_push db mp data))
    \<and> db_header (fst (databuffer_push db mp data)) = db_header db"
  using assms by (cases "db_list db") (auto simp: db_inv_def db_bytes_def databuffer_push_def)

text \<open>Reading \<open>sz\<close> bytes takes the first \<open>sz\<close> of the text, across the pieces.\<close>

lemma read_loop_bytes:
  "sz \<le> List.length (db_bytes db) \<Longrightarrow> 0 < sz \<Longrightarrow> db_offset db \<le> (case db_list db of [] \<Rightarrow> 0 | m # _ \<Rightarrow> List.length m) \<Longrightarrow>
     \<exists>db' mp'. read_loop db mp sz = Some (take sz (db_bytes db), db', mp') \<and> db_bytes db' = drop sz (db_bytes db)
       \<and> db_offset db' \<le> (case db_list db' of [] \<Rightarrow> 0 | m # _ \<Rightarrow> List.length m)
       \<and> db_header db' = db_header db \<and> db_size db' = db_size db"
proof (induction db mp sz rule: read_loop.induct)
  case (1 db mp sz)
  then obtain cur rest where l: "db_list db = cur # rest"
    by (cases "db_list db") (auto simp: db_bytes_def)
  let ?bsz = "List.length cur - db_offset db"
  have off: "db_offset db \<le> List.length cur" using 1(4) l by simp
  have bytes: "db_bytes db = drop (db_offset db) cur @ concat rest" using off by (simp add: db_bytes_def l)
  consider "sz < ?bsz" | "?bsz = sz" | "?bsz < sz" by linarith
  then show ?case
  proof cases
    case 1
    then show ?thesis using off by (simp add: read_loop.simps [of db] l bytes) (simp add: db_bytes_def l add.commute)
  next
    case 2
    then show ?thesis using off by (simp add: read_loop.simps [of db] l bytes) (simp add: db_bytes_def split: list.split)
  next
    case 3
    let ?db = "db\<lparr>db_list := rest, db_offset := 0\<rparr>" and ?mp = "mp\<lparr>mp_freelist := Suc (mp_freelist mp)\<rparr>"
    have "sz - ?bsz \<le> List.length (db_bytes ?db)" using 1(2) [unfolded bytes] off by (simp add: db_bytes_def)
    then obtain db' mp' where "read_loop ?db ?mp (sz - ?bsz) = Some (take (sz - ?bsz) (db_bytes ?db), db', mp')"
      "db_bytes db' = drop (sz - ?bsz) (db_bytes ?db)" "db_offset db' \<le> (case db_list db' of [] \<Rightarrow> 0 | m # _ \<Rightarrow> List.length m)"
      "db_header db' = db_header ?db" "db_size db' = db_size ?db"
      using 1(1) [OF l refl] 3 by (auto split: list.split)
    with 3 show ?thesis by (simp add: read_loop.simps [of db] l bytes) (simp add: db_bytes_def)
  qed
qed

lemma databuffer_read_sound:
  assumes "db_inv db" and "0 < sz" and "sz \<le> List.length (db_bytes db)"
  obtains db' mp' where "databuffer_read db mp sz = Some (take sz (db_bytes db), db', mp')" "db_inv db'"
    "db_bytes db' = drop sz (db_bytes db)" "db_header db' = db_header db"
proof -
  let ?db = "db\<lparr>db_size := db_size db - sz\<rparr>"
  have b: "db_bytes ?db = db_bytes db" by (simp add: db_bytes_def)
  obtain db' mp' where "read_loop ?db mp sz = Some (take sz (db_bytes db), db', mp')" "db_bytes db' = drop sz (db_bytes db)"
    "db_offset db' \<le> (case db_list db' of [] \<Rightarrow> 0 | m # _ \<Rightarrow> List.length m)" "db_header db' = db_header db"
    "db_size db' = db_size db - sz"
    using read_loop_bytes [of sz ?db mp] assms by (auto simp: b db_inv_def)
  with that [of db' mp'] assms show ?thesis by (simp add: databuffer_read_def db_inv_def)
qed

end
