(* ===== verification/Hashid.thy ===== *)
theory Hashid
  imports Prelude
begin

text \<open>
  The table of socket ids of a gate, \<open>service-src/hashid.h\<close>: \<open>cap\<close> nodes, each free (\<open>-1\<close>) or holding
  an fd, and hash chains through the nodes in use. A node pointer is the node's index and a chain,
  which the code links through \<open>next\<close>, the list of its nodes from the first on.
\<close>

record hashid =
  hi_hashmod :: i32
  hi_cap :: nat
  hi_count :: nat
  hi_id :: "i32 list"
  hi_hash :: "nat list list"

text \<open>The capacity of the hash: a power of two, at least \<open>max\<close>.\<close>

function hash_cap :: "nat \<Rightarrow> nat \<Rightarrow> nat" where
  "hash_cap hashcap m = (if 0 < hashcap \<and> hashcap < m then hash_cap (hashcap * 2) m else hashcap)"
  by pat_completeness auto
termination by (relation "measure (\<lambda>(c, m). m - c)") auto

declare hash_cap.simps [simp del]

definition hashid_init :: "nat \<Rightarrow> hashid" where
  "hashid_init m =
     \<lparr>hi_hashmod = of_nat (hash_cap 16 m - 1), hi_cap = m, hi_count = 0, hi_id = replicate m (- 1),
      hi_hash = replicate (hash_cap 16 m) []\<rparr>"

definition hashid_clear :: "hashid \<Rightarrow> hashid" where
  "hashid_clear hi = hi\<lparr>hi_id := [], hi_hash := [], hi_hashmod := 1, hi_cap := 0, hi_count := 0\<rparr>"

definition hash_of :: "hashid \<Rightarrow> i32 \<Rightarrow> nat" where
  "hash_of hi fd = unat (fd AND hi_hashmod hi)"

text \<open>\<open>None\<close> stands for the result \<open>-1\<close>.\<close>

definition hashid_lookup :: "hashid \<Rightarrow> i32 \<Rightarrow> nat option" where
  "hashid_lookup hi fd = List.find (\<lambda>c. hi_id hi ! c = fd) (hi_hash hi ! hash_of hi fd)"

fun unlink :: "(nat \<Rightarrow> bool) \<Rightarrow> nat list \<Rightarrow> (nat \<times> nat list) option" where
  "unlink P [] = None"
| "unlink P (c # cs) = (if P c then Some (c, cs) else map_option (\<lambda>(d, ds). (d, c # ds)) (unlink P cs))"

definition hashid_remove :: "hashid \<Rightarrow> i32 \<Rightarrow> nat option \<times> hashid" where
  "hashid_remove hi fd =
     (let h = hash_of hi fd in
      case unlink (\<lambda>c. hi_id hi ! c = fd) (hi_hash hi ! h) of
        None \<Rightarrow> (None, hi)
      | Some (c, rest) \<Rightarrow>
          (Some c, hi\<lparr>hi_hash := (hi_hash hi)[h := rest], hi_id := (hi_id hi)[c := - 1], hi_count := hi_count hi - 1\<rparr>))"

text \<open>
  The scan for a free node. \<open>i + id\<close> is computed in an \<open>int\<close>; a negative sum has a remainder that is
  zero or negative, and a negative index is a crash.
\<close>

definition c_rem :: "int \<Rightarrow> nat \<Rightarrow> nat option" where
  "c_rem s n = (if 0 \<le> s then Some (nat s mod n) else if (- s) mod int n = 0 then Some 0 else None)"

function free_scan :: "hashid \<Rightarrow> i32 \<Rightarrow> nat \<Rightarrow> nat option" where
  "free_scan hi fd i =
     (if i < hi_cap hi then
        Option.bind (c_rem (sint (of_nat i + fd :: i32)) (hi_cap hi))
          (\<lambda>index. if hi_id hi ! index = - 1 then Some index else free_scan hi fd (Suc i))
      else None)"
  by pat_completeness auto
termination by (relation "measure (\<lambda>(hi, fd, i). hi_cap hi - i)") auto

declare free_scan.simps [simp del]

definition hashid_insert :: "hashid \<Rightarrow> i32 \<Rightarrow> (nat \<times> hashid) option" where
  "hashid_insert hi fd =
     map_option
       (\<lambda>c. let h = hash_of hi fd in
          (c, hi\<lparr>hi_count := Suc (hi_count hi), hi_id := (hi_id hi)[c := fd],
                 hi_hash := (hi_hash hi)[h := c # (hi_hash hi ! h)]\<rparr>))
       (free_scan hi fd 0)"

definition hashid_full :: "hashid \<Rightarrow> bool" where
  "hashid_full hi \<longleftrightarrow> hi_count hi = hi_cap hi"

section \<open>The table as a mapping\<close>

text \<open>
  Every chain holds exactly the used nodes of its hash, each once, and no id is in two nodes.
\<close>

definition used :: "hashid \<Rightarrow> nat set" where
  "used hi = {c. c < hi_cap hi \<and> hi_id hi ! c \<noteq> - 1}"

definition hashid_inv :: "hashid \<Rightarrow> bool" where
  "hashid_inv hi \<longleftrightarrow> List.length (hi_id hi) = hi_cap hi \<and> (\<exists>k \<le> 31. List.length (hi_hash hi) = 2 ^ k \<and> hi_hashmod hi = mask k)
     \<and> hi_cap hi < 2 ^ 31
     \<and> (\<forall>h < List.length (hi_hash hi). distinct (hi_hash hi ! h)
          \<and> set (hi_hash hi ! h) = {c \<in> used hi. hash_of hi (hi_id hi ! c) = h})
     \<and> inj_on (\<lambda>c. hi_id hi ! c) (used hi) \<and> hi_count hi = card (used hi)"

lemma finite_used [simp]: "finite (used hi)"
  by (simp add: used_def)

lemma hash_of_less: "hashid_inv hi \<Longrightarrow> hash_of hi fd < List.length (hi_hash hi)"
proof -
  assume "hashid_inv hi"
  then obtain k where k: "List.length (hi_hash hi) = 2 ^ k" "hi_hashmod hi = mask k" by (auto simp: hashid_inv_def)
  have "unat (fd AND mask k) < 2 ^ k" by (simp add: and_mask_unat)
  with k show ?thesis by (simp add: hash_of_def)
qed

text \<open>An id is found exactly when some used node holds it.\<close>

lemma hashid_lookup_iff:
  assumes "hashid_inv hi"
  shows "hashid_lookup hi fd = Some c \<longleftrightarrow> c \<in> used hi \<and> hi_id hi ! c = fd"
proof -
  have bucket: "set (hi_hash hi ! hash_of hi fd) = {c \<in> used hi. hash_of hi (hi_id hi ! c) = hash_of hi fd}"
    using assms hash_of_less [OF assms, of fd] by (simp add: hashid_inv_def)
  have inj: "d = c" if "d \<in> used hi" "c \<in> used hi" "hi_id hi ! d = hi_id hi ! c" for c d
    using assms that by (auto simp: hashid_inv_def dest: inj_onD)
  show ?thesis
  proof
    assume "hashid_lookup hi fd = Some c"
    then show "c \<in> used hi \<and> hi_id hi ! c = fd"
      using bucket unfolding hashid_lookup_def by (auto simp: find_Some_iff dest: nth_mem)
  next
    assume c: "c \<in> used hi \<and> hi_id hi ! c = fd"
    then have "c \<in> set (hi_hash hi ! hash_of hi fd)" using bucket by simp
    with c obtain d where d: "hashid_lookup hi fd = Some d"
      unfolding hashid_lookup_def using find_None_iff [of "\<lambda>c. hi_id hi ! c = fd" "hi_hash hi ! hash_of hi fd"] by fastforce
    then have "d \<in> used hi" "hi_id hi ! d = fd"
      using bucket unfolding hashid_lookup_def by (auto simp: find_Some_iff dest: nth_mem)
    with c inj d show "hashid_lookup hi fd = Some c" by blast
  qed
qed


lemma hashid_init_inv:
  assumes "m < 2 ^ 31"
  shows "hashid_inv (hashid_init m)" and "used (hashid_init m) = {}"
proof -
  have cap: "\<exists>k \<le> 31. hash_cap (2 ^ j) m = 2 ^ k" if "j \<le> 31" for j
    using that
  proof (induction "31 - j" arbitrary: j)
    case 0
    then show ?case using assms by (intro exI [of _ 31]) (simp add: hash_cap.simps)
  next
    case (Suc d)
    show ?case
    proof (cases "(2 :: nat) ^ j < m")
      case True
      then have "hash_cap (2 ^ j) m = hash_cap (2 ^ Suc j) m" by (subst hash_cap.simps) (simp add: mult.commute)
      moreover have "\<exists>k \<le> 31. hash_cap (2 ^ Suc j) m = 2 ^ k" using Suc by (intro Suc.hyps(1)) auto
      ultimately show ?thesis by simp
    next
      case False
      then show ?thesis using Suc.prems by (subst hash_cap.simps) auto
    qed
  qed
  obtain k where k: "k \<le> 31" "hash_cap 16 m = 2 ^ k" using cap [of 4] by auto
  show u: "used (hashid_init m) = {}" by (simp add: used_def hashid_init_def)
  have "(of_nat (2 ^ k - 1) :: i32) = mask k" by (simp add: mask_eq_exp_minus_1 of_nat_diff)
  with k assms show "hashid_inv (hashid_init m)"
    unfolding hashid_inv_def u by (intro conjI exI [of _ k]) (simp_all add: hashid_init_def used_def)
qed

text \<open>The scan visits every node, so it finds a free one when there is one.\<close>

lemma free_scan_Some: "free_scan hi fd i = Some c \<Longrightarrow> 0 < hi_cap hi \<Longrightarrow> c < hi_cap hi \<and> hi_id hi ! c = - 1"
proof (induction hi fd i rule: free_scan.induct)
  case (1 hi fd i)
  then show ?case
    by (subst (asm) free_scan.simps) (auto simp: c_rem_def bind_eq_Some_conv split: if_splits)
qed

lemma free_scan_total:
  assumes "0 \<le> sint fd" and "sint fd + int (hi_cap hi) < 2 ^ 31"
  shows "free_scan hi fd i = None \<Longrightarrow> \<forall>j. i \<le> j \<longrightarrow> j < hi_cap hi \<longrightarrow> hi_id hi ! ((j + nat (sint fd)) mod hi_cap hi) \<noteq> - 1"
  using assms
proof (induction hi fd i rule: free_scan.induct)
  case (1 hi fd i)
  show ?case
  proof (cases "i < hi_cap hi")
    case True
    have "sint (of_nat i + fd :: i32) = int i + sint fd"
    proof -
      have "int i < int (hi_cap hi)" using True by simp
      with sint_nonneg [OF 1(3)] 1(4) uint_ge_0 [of fd] have "int i < 2 ^ 31" by linarith
      then have "uint (of_nat i + fd) = int i + uint fd"
        using sint_nonneg [OF 1(3)] 1(4) True by (simp add: uint_word_ariths unsigned_of_nat take_bit_nat_eq_self_iff take_bit_eq_mod)
      then show ?thesis using sint_small [of "of_nat i + fd"] sint_nonneg [OF 1(3)] 1(4) True by simp
    qed
    then have r: "c_rem (sint (of_nat i + fd :: i32)) (hi_cap hi) = Some ((i + nat (sint fd)) mod hi_cap hi)"
      using 1(3) by (simp add: c_rem_def nat_add_distrib)
    then have n: "hi_id hi ! ((i + nat (sint fd)) mod hi_cap hi) \<noteq> - 1" "free_scan hi fd (Suc i) = None"
      using 1(2) True by (subst (asm) free_scan.simps; auto split: if_splits)+
    show ?thesis
    proof (intro allI impI)
      fix j assume "i \<le> j" "j < hi_cap hi"
      then show "hi_id hi ! ((j + nat (sint fd)) mod hi_cap hi) \<noteq> - 1"
        using n 1(1) [OF True r n(1) n(2)] 1(3,4) by (cases "j = i") auto
    qed
  qed simp
qed

text \<open>There is a free node exactly when the table is not full.\<close>

lemma not_full_free:
  assumes "hashid_inv hi" and "\<not> hashid_full hi"
  obtains f where "f < hi_cap hi" "hi_id hi ! f = - 1"
proof -
  have "used hi \<noteq> {..<hi_cap hi}" using assms by (auto simp: hashid_inv_def hashid_full_def)
  then show ?thesis using that by (auto simp: used_def)
qed

lemma hashid_full_iff: "hashid_inv hi \<Longrightarrow> hashid_full hi \<longleftrightarrow> used hi = {..<hi_cap hi}"
proof -
  assume inv: "hashid_inv hi"
  then have "used hi = {..<hi_cap hi} \<Longrightarrow> hashid_full hi" by (simp add: hashid_inv_def hashid_full_def)
  moreover have "used hi = {..<hi_cap hi}" if "hashid_full hi"
    using that inv card_subset_eq [of "{..<hi_cap hi}" "used hi"] by (auto simp: hashid_inv_def hashid_full_def used_def)
  ultimately show ?thesis by blast
qed

lemma free_scan_finds:
  assumes "hashid_inv hi" and "\<not> hashid_full hi" and "0 \<le> sint fd" and "sint fd + int (hi_cap hi) < 2 ^ 31"
  obtains c where "free_scan hi fd 0 = Some c" "c < hi_cap hi" "hi_id hi ! c = - 1"
proof -
  obtain f where f: "f < hi_cap hi" "hi_id hi ! f = - 1" using not_full_free [OF assms(1,2)] by blast
  define n where "n = nat (sint fd)"
  define j where "j = (f + (hi_cap hi - n mod hi_cap hi)) mod hi_cap hi"
  have "(j + n) mod hi_cap hi = (f + (hi_cap hi - n mod hi_cap hi) + n mod hi_cap hi) mod hi_cap hi"
    by (simp add: j_def mod_add_left_eq mod_add_right_eq)
  also have "f + (hi_cap hi - n mod hi_cap hi) + n mod hi_cap hi = f + hi_cap hi"
    using less_imp_le [OF mod_less_divisor [of "hi_cap hi" n]] f by linarith
  also have "(f + hi_cap hi) mod hi_cap hi = f" using f by simp
  finally have jf: "(j + n) mod hi_cap hi = f" .
  have "free_scan hi fd 0 \<noteq> None"
  proof
    assume "free_scan hi fd 0 = None"
    from free_scan_total [OF assms(3,4) this] have "hi_id hi ! ((j + n) mod hi_cap hi) \<noteq> - 1"
      using f(1) by (simp add: n_def j_def)
    with f jf show False by simp
  qed
  then obtain c where "free_scan hi fd 0 = Some c" by blast
  with free_scan_Some [OF this] f that show ?thesis by auto
qed

lemma hashid_insert_sound:
  assumes inv: "hashid_inv hi" and "\<not> hashid_full hi" and pos: "0 \<le> sint fd" and "sint fd + int (hi_cap hi) < 2 ^ 31"
    and new: "hashid_lookup hi fd = None"
  obtains c hi' where "hashid_insert hi fd = Some (c, hi')" "c < hi_cap hi" "c \<notin> used hi" "hashid_inv hi'"
    "used hi' = insert c (used hi)" "hi_id hi' = (hi_id hi)[c := fd]" "hi_cap hi' = hi_cap hi"
proof -
  obtain c where c: "free_scan hi fd 0 = Some c" "c < hi_cap hi" "hi_id hi ! c = - 1"
    using free_scan_finds [OF assms(1-4)] by blast
  define hi' where "hi' = hi\<lparr>hi_count := Suc (hi_count hi), hi_id := (hi_id hi)[c := fd],
      hi_hash := (hi_hash hi)[hash_of hi fd := c # (hi_hash hi ! hash_of hi fd)]\<rparr>"
  have run: "hashid_insert hi fd = Some (c, hi')" using c by (simp add: hashid_insert_def hi'_def Let_def)
  have free: "c \<notin> used hi" using c by (simp add: used_def)
  have fd: "fd \<noteq> - 1" using pos by auto
  have len: "List.length (hi_id hi) = hi_cap hi" using inv by (simp add: hashid_inv_def)
  have h': "hash_of hi' x = hash_of hi x" for x by (simp add: hi'_def hash_of_def)
  have used': "used hi' = insert c (used hi)"
    using c fd len by (auto simp: used_def hi'_def nth_list_update)
  have nth': "hi_id hi' ! d = (if d = c then fd else hi_id hi ! d)" if "d \<in> used hi'" for d
    using that c len by (auto simp: hi'_def nth_list_update used_def)
  have bucket: "distinct (hi_hash hi ! h) \<and> set (hi_hash hi ! h) = {c \<in> used hi. hash_of hi (hi_id hi ! c) = h}"
    if "h < List.length (hi_hash hi)" for h using inv that by (simp add: hashid_inv_def)
  have new': "hi_id hi ! d \<noteq> fd" if "d \<in> used hi" for d
    using hashid_lookup_iff [OF inv, of fd d] new that by auto
  have "distinct (hi_hash hi' ! h) \<and> set (hi_hash hi' ! h) = {c \<in> used hi'. hash_of hi' (hi_id hi' ! c) = h}"
    if h: "h < List.length (hi_hash hi')" for h
  proof -
    have hl: "h < List.length (hi_hash hi)" using h by (simp add: hi'_def)
    have "{c \<in> used hi'. hash_of hi' (hi_id hi' ! c) = h} = {c \<in> used hi. hash_of hi (hi_id hi ! c) = h} \<union> (if hash_of hi fd = h then {c} else {})"
      using free nth' unfolding h' used' by auto
    with bucket [OF hl] free show ?thesis
      by (auto simp: hi'_def nth_list_update hl)
  qed
  moreover have "inj_on (\<lambda>c. hi_id hi' ! c) (used hi')"
    using inv nth' new' free unfolding used' by (auto simp: inj_on_def hashid_inv_def)
  ultimately have "hashid_inv hi'"
    using inv free unfolding hashid_inv_def used' by (simp add: hi'_def)
  with that [OF run c(2) free] used' show ?thesis by (simp add: hi'_def)
qed

text \<open>Removing an id frees its node and leaves every other id where it is.\<close>

lemma unlink_None: "unlink P cs = None \<longleftrightarrow> (\<forall>c \<in> set cs. \<not> P c)"
  by (induction cs) auto

lemma unlink_Some: "unlink P cs = Some (c, rest) \<Longrightarrow> distinct cs \<Longrightarrow> P c \<and> c \<in> set cs \<and> set rest = set cs - {c} \<and> distinct rest"
  by (induction cs arbitrary: rest) (auto split: if_splits)

lemma hashid_remove_None: "hashid_inv hi \<Longrightarrow> hashid_lookup hi fd = None \<Longrightarrow> hashid_remove hi fd = (None, hi)"
  by (simp add: hashid_lookup_def find_None_iff hashid_remove_def Let_def unlink_None [THEN iffD2])

lemma hashid_remove_sound:
  assumes inv: "hashid_inv hi" and found: "hashid_lookup hi fd = Some c"
  obtains hi' where "hashid_remove hi fd = (Some c, hi')" "hashid_inv hi'" "used hi' = used hi - {c}"
    "hi_id hi' = (hi_id hi)[c := - 1]" "hi_cap hi' = hi_cap hi"
proof -
  let ?h = "hash_of hi fd"
  have c: "c \<in> used hi" "hi_id hi ! c = fd" using found hashid_lookup_iff [OF inv] by auto
  have bucket: "distinct (hi_hash hi ! h) \<and> set (hi_hash hi ! h) = {c \<in> used hi. hash_of hi (hi_id hi ! c) = h}"
    if "h < List.length (hi_hash hi)" for h using inv that by (simp add: hashid_inv_def)
  note b = bucket [OF hash_of_less [OF inv, of fd]]
  have inj: "d = c" if "d \<in> used hi" "hi_id hi ! d = fd" for d
    using inv that c by (auto simp: hashid_inv_def dest: inj_onD)
  obtain d rest where u: "unlink (\<lambda>c. hi_id hi ! c = fd) (hi_hash hi ! ?h) = Some (d, rest)"
    using b c unlink_None [of "\<lambda>c. hi_id hi ! c = fd" "hi_hash hi ! ?h"] by (cases "unlink (\<lambda>c. hi_id hi ! c = fd) (hi_hash hi ! ?h)") auto
  with unlink_Some [OF u] b inj have d: "d = c" "set rest = set (hi_hash hi ! ?h) - {c}" "distinct rest" by auto
  define hi' where "hi' = hi\<lparr>hi_hash := (hi_hash hi)[?h := rest], hi_id := (hi_id hi)[c := - 1], hi_count := hi_count hi - 1\<rparr>"
  have run: "hashid_remove hi fd = (Some c, hi')" using u d by (simp add: hashid_remove_def hi'_def Let_def)
  have h': "hash_of hi' x = hash_of hi x" for x by (simp add: hi'_def hash_of_def)
  have used': "used hi' = used hi - {c}" using inv c by (auto simp: used_def hi'_def nth_list_update hashid_inv_def)
  have nth': "hi_id hi' ! e = hi_id hi ! e" if "e \<noteq> c" for e using that by (simp add: hi'_def)
  have "distinct (hi_hash hi' ! h) \<and> set (hi_hash hi' ! h) = {c \<in> used hi'. hash_of hi' (hi_id hi' ! c) = h}"
    if h: "h < List.length (hi_hash hi')" for h
  proof -
    have hl: "h < List.length (hi_hash hi)" using h by (simp add: hi'_def)
    have "{e \<in> used hi'. hash_of hi' (hi_id hi' ! e) = h} = {e \<in> used hi. hash_of hi (hi_id hi ! e) = h} - {c}"
      using nth' unfolding h' used' by auto
    moreover have "hi_hash hi' ! h = (if h = ?h then rest else hi_hash hi ! h)" using hl by (simp add: hi'_def nth_list_update)
    moreover have "c \<notin> set (hi_hash hi ! h)" if "h \<noteq> ?h"
    proof
      assume "c \<in> set (hi_hash hi ! h)"
      then have "hash_of hi (hi_id hi ! c) = h" using bucket [OF hl] by blast
      with c(2) that show False by simp
    qed
    ultimately show ?thesis using bucket [OF hl] d(2,3) by (cases "h = ?h") auto
  qed
  moreover have "inj_on (\<lambda>c. hi_id hi' ! c) (used hi')"
  proof (rule inj_onI)
    fix x y assume "x \<in> used hi'" "y \<in> used hi'" "hi_id hi' ! x = hi_id hi' ! y"
    with inv nth' show "x = y" by (auto simp: used' hashid_inv_def dest: inj_onD)
  qed
  ultimately have "hashid_inv hi'"
    using inv c unfolding hashid_inv_def used' by (simp add: hi'_def)
  with that [OF run] used' show ?thesis by (simp add: hi'_def)
qed

section \<open>Properties\<close>

lemma lookup_eqI:
  assumes "hashid_inv hi" and "\<And>x c. f x = Some c \<longleftrightarrow> c \<in> used hi \<and> hi_id hi ! c = x"
  shows "hashid_lookup hi = f"
proof
  fix x show "hashid_lookup hi x = f x"
    using hashid_lookup_iff [OF assms(1), of x] assms(2) [of x] by (cases "f x") (metis not_Some_eq)+
qed



end
