(* ===== verification/Gate.thy ===== *)
theory Gate
  imports Databuffer Hashid Command
begin

text \<open>
  The gate service of \<open>service-src/service_gate.c\<close>: it listens on an address, keeps the accepted
  connections in a hashid table and turns the bytes of each into messages for a broker, the
  connection's agent or the watchdog. What a handler does to the rest of the process is the list of
  its calls, in their order; \<open>gate_env\<close> gives the results of the two calls that return something. A
  failed assertion, a NULL dereference, an index out of bounds and a loop that does not end are \<open>None\<close>.
\<close>

section \<open>State and actions\<close>

definition BACKLOG :: i32 where "BACKLOG = 32"

record connection =
  conn_id :: i32
  conn_agent :: u32
  conn_client :: u32
  conn_remote_name :: bytes
  conn_buffer :: databuffer

record gate =
  gt_listen_id :: i32
  gt_watchdog :: u32
  gt_broker :: u32
  gt_client_tag :: i32
  gt_header_size :: nat
  gt_max_connection :: nat
  gt_hash :: hashid
  gt_conn :: "connection list"
  gt_mp :: messagepool

text \<open>\<open>Send\<close> has the source, the destination, the type and the data; its session is 0 everywhere.\<close>

datatype gate_action =
    Send u32 u32 i32 bytes
  | Socket_close i32
  | Socket_start i32
  | Socket_send i32 bytes
  | Socket_listen string i32 i32
  | Callback
  | Error string

record gate_env =
  ge_queryname :: "string \<Rightarrow> u32"
  ge_listen :: "string \<Rightarrow> i32 \<Rightarrow> i32"

definition gate_create :: gate where
  "gate_create =
     \<lparr>gt_listen_id = - 1, gt_watchdog = 0, gt_broker = 0, gt_client_tag = 0, gt_header_size = 0,
      gt_max_connection = 0,
      gt_hash = \<lparr>hi_hashmod = 0, hi_cap = 0, hi_count = 0, hi_id = [], hi_hash = []\<rparr>, gt_conn = [],
      gt_mp = \<lparr>mp_pool = 0, mp_freelist = 0\<rparr>\<rparr>"

definition gate_release :: "gate \<Rightarrow> gate_action list \<times> messagepool \<times> hashid" where
  "gate_release g =
     (map (\<lambda>c. Socket_close (conn_id c))
        (filter (\<lambda>c. 0 \<le> sint (conn_id c)) (take (gt_max_connection g) (gt_conn g)))
      @ (if 0 \<le> sint (gt_listen_id g) then [Socket_close (gt_listen_id g)] else []),
      messagepool_free (gt_mp g), hashid_clear (gt_hash g))"

section \<open>Commands\<close>

definition text_of :: "bytes \<Rightarrow> string" where
  "text_of bs = map (\<lambda>b. char_of (unat b)) bs"

definition bytes_of :: "string \<Rightarrow> bytes" where
  "bytes_of s = map (\<lambda>ch. of_nat (of_char ch)) s"

abbreviation NUL :: char where "NUL \<equiv> CHR 0x00"

definition c_text :: "string \<Rightarrow> string" where
  "c_text buf = takeWhile (\<lambda>ch. ch \<noteq> NUL) buf"

text \<open>
  The buffer \<open>tmp\<close> after \<open>_parm\<close>: the text behind the command word, a NUL, and what was there before.
\<close>

definition parm :: "string \<Rightarrow> nat \<Rightarrow> string" where
  "parm msg command_sz =
     (let rest = dropWhile (\<lambda>ch. ch = CHR '' '') (drop command_sz msg) in
      rest @ NUL # drop (Suc (List.length rest)) (msg @ [NUL]))"

text \<open>\<open>strsep\<close> with one delimiter, on a buffer: \<open>snd\<close> is the buffer from the new position on.\<close>

definition strsep_buf :: "string \<Rightarrow> string \<times> string option" where
  "strsep_buf buf =
     (let tok = takeWhile (\<lambda>ch. ch \<noteq> CHR '' '') (c_text buf) in
      (tok, case drop (List.length tok) buf of
              ch # rest \<Rightarrow> if ch = CHR '' '' then Some rest else None
            | [] \<Rightarrow> None))"

text \<open>
  \<open>memcmp(command, word, i) == 0\<close> where \<open>i\<close> may be less than the length of the word, so that a
  prefix of it is accepted; a comparison that goes past the end of the literal is \<open>None\<close>.
\<close>

definition memcmp_eq :: "string \<Rightarrow> string \<Rightarrow> bool option" where
  "memcmp_eq command word =
     (let lit = word @ [NUL] in
      if List.length command \<le> List.length lit then Some (command = take (List.length command) lit)
      else if take (List.length lit) command = lit then None else Some False)"

definition forward_agent :: "gate \<Rightarrow> i32 \<Rightarrow> u32 \<Rightarrow> u32 \<Rightarrow> gate" where
  "forward_agent g fd agentaddr clientaddr =
     (case hashid_lookup (gt_hash g) fd of
        None \<Rightarrow> g
      | Some i \<Rightarrow> g\<lparr>gt_conn := (gt_conn g)[i := (gt_conn g ! i)\<lparr>conn_agent := agentaddr, conn_client := clientaddr\<rparr>]\<rparr>)"

definition ctrl_kick :: "gate \<Rightarrow> string \<Rightarrow> gate_action list" where
  "ctrl_kick g tmp =
     (let uid = ucast (strtol (c_text tmp) 10) :: i32 in
      if hashid_lookup (gt_hash g) uid \<noteq> None then [Socket_close uid] else [])"

text \<open>
  \<open>agent + 1\<close> and \<open>client + 1\<close> skip the colon; behind an empty word they point into what follows
  its NUL.
\<close>

definition ctrl_forward :: "gate \<Rightarrow> string \<Rightarrow> gate" where
  "ctrl_forward g tmp =
     (case strsep_buf tmp of
        (idstr, None) \<Rightarrow> g
      | (idstr, Some client) \<Rightarrow>
          (case strsep_buf client of
             (agent, None) \<Rightarrow> g
           | (agent, Some client') \<Rightarrow>
               forward_agent g (ucast (strtol idstr 10))
                 (ucast (strtoul (if agent = [] then c_text client' else tl agent) 16))
                 (ucast (strtoul (c_text (tl client')) 16))))"

definition ctrl :: "gate_env \<Rightarrow> gate \<Rightarrow> bytes \<Rightarrow> (gate_action list \<times> gate) option" where
  "ctrl E g msg =
     (let tmp = text_of msg; word = takeWhile (\<lambda>ch. ch \<noteq> CHR '' '') tmp; i = List.length word in
      if msg = [] then Some ([], g)
      else Option.bind (memcmp_eq word ''kick'')
        (\<lambda>kick. if kick then Some (ctrl_kick g (parm tmp i), g)
           else Option.bind (memcmp_eq word ''forward'')
        (\<lambda>forward. if forward then Some ([], ctrl_forward g (parm tmp i))
           else Option.bind (memcmp_eq word ''broker'')
        (\<lambda>broker. if broker then Some ([], g\<lparr>gt_broker := ge_queryname E (c_text (parm tmp i))\<rparr>)
           else Option.bind (memcmp_eq word ''start'')
        (\<lambda>start. if start then Some ([Socket_start (gt_listen_id g)], g)
           else Option.bind (memcmp_eq word ''close'')
        (\<lambda>close. Some
           (if close then
              if 0 \<le> sint (gt_listen_id g)
              then ([Socket_close (gt_listen_id g)], g\<lparr>gt_listen_id := - 1\<rparr>) else ([], g)
            else ([Error (''[gate] Unkown command : '' @ c_text tmp)], g))))))))"

section \<open>Socket messages\<close>

definition report :: "gate \<Rightarrow> string \<Rightarrow> gate_action list" where
  "report g text =
     (if gt_watchdog g = 0 then [] else [Send 0 (gt_watchdog g) (of_nat PTYPE_TEXT) (bytes_of text)])"

definition put_buffer :: "gate \<Rightarrow> nat \<Rightarrow> databuffer \<times> messagepool \<Rightarrow> gate" where
  "put_buffer g i r = g\<lparr>gt_conn := (gt_conn g)[i := (gt_conn g ! i)\<lparr>conn_buffer := fst r\<rparr>], gt_mp := snd r\<rparr>"

definition forward_message :: "gate \<Rightarrow> nat \<Rightarrow> i32 \<Rightarrow> (gate_action list \<times> gate) option" where
  "forward_message g i sz =
     (let c = gt_conn g ! i;
          send = (\<lambda>source dest type pre. map_option
            (\<lambda>(bs, r). ([Send source dest (type OR PTYPE_TAG_DONTCOPY) (pre @ bs)], put_buffer g i r))
            (databuffer_read (conn_buffer c) (gt_mp g) (nat (sint sz))))
      in if gt_broker g \<noteq> 0 then send 0 (gt_broker g) (gt_client_tag g) []
         else if conn_agent c \<noteq> 0 then send (conn_client c) (conn_agent c) (gt_client_tag g) []
         else if gt_watchdog g \<noteq> 0 then
           send 0 (gt_watchdog g) (of_nat PTYPE_TEXT) (bytes_of (print_d (sint (conn_id c)) @ '' data ''))
         else Some ([], g))"

partial_function (option) forward_loop :: "gate \<Rightarrow> nat \<Rightarrow> i32 \<Rightarrow> (gate_action list \<times> gate) option" where
  "forward_loop g i fd =
     Option.bind (databuffer_readheader (conn_buffer (gt_conn g ! i)) (gt_mp g) (gt_header_size g))
       (\<lambda>(sz, r). let g1 = put_buffer g i r in
          if sint sz < 0 then Some ([], g1)
          else if sz = 0 then forward_loop g1 i fd
          else if 0x1000000 \<le> sint sz then
            Some ([Socket_close fd, Error ''Recv socket message > 16M''],
                  put_buffer g1 i (databuffer_clear (fst r) (snd r)))
          else Option.bind (forward_message g1 i sz)
            (\<lambda>(out, g2). Option.bind
               (forward_loop (put_buffer g2 i (databuffer_reset (conn_buffer (gt_conn g2 ! i)), gt_mp g2)) i fd)
               (\<lambda>(outs, g3). Some (out @ outs, g3))))"

definition gate_dispatch_message :: "gate \<Rightarrow> nat \<Rightarrow> i32 \<Rightarrow> bytes \<Rightarrow> (gate_action list \<times> gate) option" where
  "gate_dispatch_message g i fd data =
     forward_loop (put_buffer g i (databuffer_push (conn_buffer (gt_conn g ! i)) (gt_mp g) data)) i fd"

definition closed_connection :: connection where
  "closed_connection =
     \<lparr>conn_id = - 1, conn_agent = 0, conn_client = 0, conn_remote_name = [], conn_buffer = databuffer_empty\<rparr>"

definition on_close :: "gate \<Rightarrow> socket_event \<Rightarrow> gate_action list \<times> gate" where
  "on_close g m =
     (case hashid_remove (gt_hash g) (se_id m) of
        (None, _) \<Rightarrow> ([], g)
      | (Some i, hi) \<Rightarrow>
          (report g (print_d (sint (se_id m)) @ '' close''),
           g\<lparr>gt_hash := hi, gt_conn := (gt_conn g)[i := closed_connection],
             gt_mp := snd (databuffer_clear (conn_buffer (gt_conn g ! i)) (gt_mp g))\<rparr>))"

text \<open>\<open>remote_name\<close> has room for 31 bytes and a NUL.\<close>

definition on_accept :: "gate \<Rightarrow> socket_event \<Rightarrow> (gate_action list \<times> gate) option" where
  "on_accept g m =
     (if gt_listen_id g \<noteq> se_id m then None
      else if hashid_full (gt_hash g) then Some ([Socket_close (se_ud m)], g)
      else map_option
        (\<lambda>(i, hi). ([Socket_start (se_ud m)],
           g\<lparr>gt_hash := hi, gt_conn := (gt_conn g)
               [i := (gt_conn g ! i)\<lparr>conn_id := se_ud m, conn_remote_name := take 31 (se_tail m)\<rparr>]\<rparr>))
        (hashid_insert (gt_hash g) (se_ud m)))"

definition dispatch_socket_message :: "gate \<Rightarrow> socket_event \<Rightarrow> (gate_action list \<times> gate) option" where
  "dispatch_socket_message g m =
     (if se_type m = SKYNET_SOCKET_TYPE_DATA then
        (case hashid_lookup (gt_hash g) (se_id m) of
           Some i \<Rightarrow> Option.bind (se_buffer m) (gate_dispatch_message g i (se_id m))
         | None \<Rightarrow> Some ([Error (''Drop unknown connection '' @ print_d (sint (se_id m)) @ '' message''),
                         Socket_close (se_id m)], g))
      else if se_type m = SKYNET_SOCKET_TYPE_CONNECT then
        Some (if se_id m = gt_listen_id g then []
              else if hashid_lookup (gt_hash g) (se_id m) \<noteq> None
              then report g (print_d (sint (se_id m)) @ '' open '')
              else [Error (''Close unknown connection '' @ print_d (sint (se_id m))), Socket_close (se_id m)], g)
      else if se_type m = SKYNET_SOCKET_TYPE_CLOSE \<or> se_type m = SKYNET_SOCKET_TYPE_ERROR then Some (on_close g m)
      else if se_type m = SKYNET_SOCKET_TYPE_ACCEPT then on_accept g m
      else if se_type m = SKYNET_SOCKET_TYPE_WARNING then
        Some ([Error (''fd ('' @ print_d (sint (se_id m)) @ '') send buffer ('' @ print_d (sint (se_ud m)) @ '')K'')], g)
      else Some ([], g))"

section \<open>The callback and the start\<close>

text \<open>What the callback receives: text, bytes of a client, or a socket message.\<close>

datatype gate_message = Data bytes | Event socket_event

text \<open>The last four bytes of a client's message, an id in little-endian order.\<close>

definition client_uid :: "bytes \<Rightarrow> i32" where
  "client_uid msg =
     (let idbuf = drop (List.length msg - 4) msg in
      ucast (idbuf ! 0) OR push_bit 8 (ucast (idbuf ! 1)) OR push_bit 16 (ucast (idbuf ! 2)) OR push_bit 24 (ucast (idbuf ! 3)))"

text \<open>The result says, before the actions, whether the sender's data is kept.\<close>

definition gate_cb ::
  "gate_env \<Rightarrow> gate \<Rightarrow> nat \<Rightarrow> u32 \<Rightarrow> gate_message \<Rightarrow> (bool \<times> gate_action list \<times> gate) option" where
  "gate_cb E g type source message =
     (case message of
        Data msg \<Rightarrow>
          if type = PTYPE_TEXT then map_option (Pair False) (ctrl E g msg)
          else if type = PTYPE_CLIENT then
            Some
              (if List.length msg \<le> 4 then
                 (False, [Error (''Invalid client message from '' @ print_x source)], g)
               else if hashid_lookup (gt_hash g) (client_uid msg) \<noteq> None then
                 (True, [Socket_send (client_uid msg) (take (List.length msg - 4) msg)], g)
               else (False, [Error (''Invalid client id '' @ print_d (sint (client_uid msg)) @ '' from '' @ print_x source)], g))
          else if type = PTYPE_SOCKET then None
          else Some (False, [], g)
      | Event m \<Rightarrow>
          if type = PTYPE_SOCKET \<and> source = 0 then map_option (Pair False) (dispatch_socket_message g m)
          else None)"

definition start_listen :: "gate_env \<Rightarrow> gate \<Rightarrow> string \<Rightarrow> bool \<times> gate_action list \<times> gate" where
  "start_listen E g listen_addr =
     (let portstr = dropWhile (\<lambda>ch. ch \<noteq> CHR '':'') listen_addr;
          host = (if portstr = [] then [] else takeWhile (\<lambda>ch. ch \<noteq> CHR '':'') listen_addr);
          port = ucast (strtol (if portstr = [] then listen_addr else tl portstr) 10) :: i32
      in if sint port \<le> 0 then (False, [Error (''Invalid gate address '' @ listen_addr)], g)
         else
           (let listen = ge_listen E host port in
            (0 \<le> sint listen, [Socket_listen host port BACKLOG], g\<lparr>gt_listen_id := listen\<rparr>)))"

text \<open>
  The conversions \<open>"%c %s %s %d %d %d"\<close>: the four that must succeed, and the two that keep 0.
\<close>

definition scan_parm :: "string \<Rightarrow> (char \<times> string \<times> string \<times> i32 \<times> i32 \<times> i32) option" where
  "scan_parm p =
     (case p of
        [] \<Rightarrow> None
      | header # s \<Rightarrow>
          (case scan_word s of (watchdog, s1) \<Rightarrow> case scan_word s1 of (binding, s2) \<Rightarrow>
           case scan_int s2 of (client_tag, s3) \<Rightarrow> case scan_int s3 of (m, s4) \<Rightarrow>
             Option.bind watchdog (\<lambda>wd. Option.bind binding (\<lambda>bd. Option.bind client_tag
               (\<lambda>ct. Some (header, wd, bd, ct, case m of None \<Rightarrow> 0 | Some v \<Rightarrow> v,
                  case m of None \<Rightarrow> 0 | Some v \<Rightarrow> (case fst (scan_int s4) of None \<Rightarrow> 0 | Some b \<Rightarrow> b)))))))"

definition gate_init :: "gate_env \<Rightarrow> gate \<Rightarrow> string option \<Rightarrow> bool \<times> gate_action list \<times> gate" where
  "gate_init E g param =
     (case param of
        None \<Rightarrow> (False, [], g)
      | Some p \<Rightarrow>
          (case scan_parm p of
             None \<Rightarrow> (False, [Error (''Invalid gate parm '' @ p)], g)
           | Some (header, watchdog, binding, client_tag, m, buffer) \<Rightarrow>
               if sint m \<le> 0 then (False, [Error ''Need max connection''], g)
               else if header \<noteq> CHR ''S'' \<and> header \<noteq> CHR ''L'' then (False, [Error ''Invalid data header style''], g)
               else
                 (let wd = (if hd watchdog = CHR ''!'' then 0 else ge_queryname E watchdog);
                      n = nat (sint m) in
                  if hd watchdog \<noteq> CHR ''!'' \<and> wd = 0 then
                    (False, [Error (''Invalid watchdog '' @ watchdog)], g\<lparr>gt_watchdog := wd\<rparr>)
                  else
                    (case start_listen E
                       (g\<lparr>gt_watchdog := wd, gt_hash := hashid_init n, gt_conn := replicate n closed_connection,
                          gt_max_connection := n,
                          gt_client_tag := (if client_tag = 0 then of_nat PTYPE_CLIENT else client_tag),
                          gt_header_size := (if header = CHR ''S'' then 2 else 4)\<rparr>) binding of
                       (ok, out, g1) \<Rightarrow> (ok, Callback # out, g1)))))"

section \<open>The pieces of a connection's stream do not matter\<close>

text \<open>The stream text a buffer stands for: the header that was read, and the bytes behind it.\<close>

definition buffer_ok :: "databuffer \<Rightarrow> bool" where
  "buffer_ok db \<longleftrightarrow> db_inv db \<and> unat (db_header db) < 2 ^ 16"

definition pending_text :: "databuffer \<Rightarrow> bytes" where
  "pending_text db =
     (if db_header db = 0 then []
      else [of_nat (unat (db_header db) div 256), of_nat (unat (db_header db) mod 256)]) @ db_bytes db"

lemma header_value_be16: "header_value 2 [hi, lo] = of_nat (be16 hi lo)"
proof -
  have "push_bit 8 (ucast hi :: i32) AND ucast lo = 0"
    by (rule bit_word_eqI) (auto simp: bit_simps dest: bit_imp_le_length)
  then have "push_bit 8 (ucast hi :: i32) OR ucast lo = push_bit 8 (ucast hi) + ucast lo"
    using word_plus_and_or [of "push_bit 8 (ucast hi :: i32)" "ucast lo"] by simp
  also have "(ucast hi :: i32) = of_nat (unat hi)" by simp
  also have "(ucast lo :: i32) = of_nat (unat lo)" by simp
  also have "push_bit 8 (of_nat (unat hi) :: i32) + of_nat (unat lo) = of_nat (be16 hi lo)"
    by (simp only: be16_def push_bit_eq_mult of_nat_add of_nat_mult) simp
  finally show ?thesis by (simp add: header_value_def)
qed

lemma be16_word [simp]: "unat (of_nat (be16 hi lo) :: i32) = be16 hi lo" "uint (of_nat (be16 hi lo) :: i32) = int (be16 hi lo)" "sint (of_nat (be16 hi lo) :: i32) = int (be16 hi lo)"
proof -
  show "unat (of_nat (be16 hi lo) :: i32) = be16 hi lo"
    using be16_bound [of hi lo] by (simp add: unsigned_of_nat take_bit_nat_eq_self_iff)
  show u: "uint (of_nat (be16 hi lo) :: i32) = int (be16 hi lo)"
    using be16_bound [of hi lo] by (simp add: unsigned_of_nat take_bit_nat_eq_self_iff take_bit_eq_mod)
  then show "sint (of_nat (be16 hi lo) :: i32) = int (be16 hi lo)" using be16_bound [of hi lo] by (subst sint_small) auto
qed

lemma header_be16:
  assumes "unat (h :: i32) < 2 ^ 16"
  shows "of_nat (be16 (of_nat (unat h div 256)) (of_nat (unat h mod 256))) = h"
  using be16_frame [OF assms] by simp

text \<open>Reading the header of a buffer with at least two bytes of text, and with fewer.\<close>

lemma readheader_split:
  assumes "buffer_ok db" and "pending_text db = hi # lo # bs"
  obtains db' mp' where "databuffer_readheader db mp 2 = Some (if be16 hi lo \<le> List.length bs then of_nat (be16 hi lo) else - 1, db', mp')"
    "db_inv db'" "db_bytes db' = bs" "db_header db' = of_nat (be16 hi lo)"
proof (cases "db_header db = 0")
  case True
  with assms have b: "db_bytes db = hi # lo # bs" "db_inv db" by (simp_all add: pending_text_def buffer_ok_def)
  then have "\<not> db_size db < 2" by (simp add: db_inv_def)
  moreover obtain db1 mp1 where "databuffer_read db mp 2 = Some (take 2 (db_bytes db), db1, mp1)" "db_inv db1"
    "db_bytes db1 = drop 2 (db_bytes db)" by (rule databuffer_read_sound [of db 2 mp]) (simp_all add: b)
  then have "databuffer_read db mp 2 = Some ([hi, lo], db1, mp1)" "db_inv db1" "db_bytes db1 = bs" by (simp_all add: b)
  moreover from this have "db_size db1 = List.length bs" by (simp add: db_inv_def)
  ultimately show ?thesis
    using that [of "db1\<lparr>db_header := of_nat (be16 hi lo)\<rparr>" mp1] True
    by (auto simp: databuffer_readheader_def Let_def header_value_be16 not_le)
next
  case False
  let ?h = "unat (db_header db)"
  have h: "?h < 2 ^ 16" using assms(1) by (simp add: buffer_ok_def)
  have e: "hi = of_nat (?h div 256)" "lo = of_nat (?h mod 256)" "bs = db_bytes db" "db_inv db"
    using assms False by (simp_all add: pending_text_def buffer_ok_def)
  have be: "of_nat (be16 hi lo) = db_header db" "be16 hi lo = ?h" using header_be16 [OF h] be16_frame [OF h] e by simp_all
  have "sint (db_header db) = int ?h" using be16_word(3) [of hi lo] be by simp
  moreover have "db_size db = List.length bs" using e(3,4) by (simp add: db_inv_def)
  ultimately have "(int (db_size db) < sint (db_header db)) = (\<not> ?h \<le> List.length bs)" by linarith
  then have "databuffer_readheader db mp 2 = Some (if ?h \<le> List.length bs then db_header db else - 1, db, mp)"
    using False by (simp add: databuffer_readheader_def)
  then show ?thesis by (intro that [of db mp]) (simp_all add: e(3,4) be(2))
qed

lemma readheader_short:
  assumes "buffer_ok db" and "List.length (pending_text db) < 2"
  shows "databuffer_readheader db mp 2 = Some (- 1, db, mp)"
  using assms by (auto simp: databuffer_readheader_def pending_text_def buffer_ok_def db_inv_def split: if_splits)

lemma pending_header:
  assumes "db_inv db" and "db_header db = of_nat (be16 hi lo)"
  shows "buffer_ok db" and "be16 hi lo \<noteq> 0 \<Longrightarrow> pending_text db = hi # lo # db_bytes db"
proof -
  show "buffer_ok db" using assms be16_bound [of hi lo] by (simp add: buffer_ok_def)
  assume n: "be16 hi lo \<noteq> 0"
  have u: "unat (db_header db) = be16 hi lo" using assms(2) by simp
  have b: "be16 hi lo div 256 = unat hi" "be16 hi lo mod 256 = unat lo" by (rule be16_parts)+
  have "db_header db \<noteq> 0" using u n by auto
  then show "pending_text db = hi # lo # db_bytes db" by (simp add: pending_text_def u b)
qed

text \<open>What a complete message becomes.\<close>

definition has_target :: "gate \<Rightarrow> nat \<Rightarrow> bool" where
  "has_target g i \<longleftrightarrow> gt_broker g \<noteq> 0 \<or> conn_agent (gt_conn g ! i) \<noteq> 0 \<or> gt_watchdog g \<noteq> 0"

definition forwarded :: "gate \<Rightarrow> nat \<Rightarrow> bytes \<Rightarrow> gate_action list" where
  "forwarded g i m =
     (if m = [] then []
      else if gt_broker g \<noteq> 0 then [Send 0 (gt_broker g) (gt_client_tag g OR PTYPE_TAG_DONTCOPY) m]
      else if conn_agent (gt_conn g ! i) \<noteq> 0 then
        [Send (conn_client (gt_conn g ! i)) (conn_agent (gt_conn g ! i)) (gt_client_tag g OR PTYPE_TAG_DONTCOPY) m]
      else [Send 0 (gt_watchdog g) (of_nat PTYPE_TEXT OR PTYPE_TAG_DONTCOPY)
              (bytes_of (print_d (sint (conn_id (gt_conn g ! i))) @ '' data '') @ m)])"

lemma put_buffer_simps [simp]:
  assumes "i < List.length (gt_conn g)"
  shows "gt_conn (put_buffer g i r) ! i = (gt_conn g ! i)\<lparr>conn_buffer := fst r\<rparr>" "gt_mp (put_buffer g i r) = snd r"
    "gt_header_size (put_buffer g i r) = gt_header_size g" "put_buffer (put_buffer g i r) i r' = put_buffer g i r'"
    "forwarded (put_buffer g i r) i = forwarded g i" "has_target (put_buffer g i r) i = has_target g i"
    "List.length (gt_conn (put_buffer g i r)) = List.length (gt_conn g)"
  using assms by (simp_all add: put_buffer_def forwarded_def has_target_def fun_eq_iff)

lemma put_buffer_same: "i < List.length (gt_conn g) \<Longrightarrow> put_buffer g i (conn_buffer (gt_conn g ! i), gt_mp g) = g"
  by (simp add: put_buffer_def)

lemma forward_message_sound:
  assumes "i < List.length (gt_conn g)" and "has_target g i" and "conn_buffer (gt_conn g ! i) = db" and "db_inv db"
    and "0 < n" and "n \<le> List.length (db_bytes db)" and "n < 2 ^ 16"
  obtains db' mp' where "forward_message g i (of_nat n) = Some (forwarded g i (take n (db_bytes db)), put_buffer g i (db', mp'))"
    "db_inv db'" "db_bytes db' = drop n (db_bytes db)"
proof -
  obtain db' mp' where r: "databuffer_read db (gt_mp g) n = Some (take n (db_bytes db), db', mp')" "db_inv db'"
    "db_bytes db' = drop n (db_bytes db)" by (rule databuffer_read_sound [OF assms(4-6)])
  have "sint (of_nat n :: i32) = int n"
    using assms(7) by (subst sint_small) (simp_all add: unsigned_of_nat take_bit_nat_eq_self_iff take_bit_eq_mod)
  moreover have "take n (db_bytes db) \<noteq> []" using assms(5,6) by (cases "db_bytes db") auto
  ultimately have "forward_message g i (of_nat n) = Some (forwarded g i (take n (db_bytes db)), put_buffer g i (db', mp'))"
    using r(1) assms(2,3) by (simp add: forward_message_def Let_def forwarded_def has_target_def)
  with that r(2,3) show ?thesis by blast
qed

text \<open>The loop takes every complete message of the text off the buffer and forwards it.\<close>

lemma forward_loop_split:
  assumes "i < List.length (gt_conn g)" and "has_target g i" and "gt_header_size g = 2"
    and "conn_buffer (gt_conn g ! i) = db" and "buffer_ok db" and "split_frames (pending_text db) = (fs, r)"
  shows "\<exists>db' mp'. forward_loop g i fd = Some (concat (map (forwarded g i) fs), put_buffer g i (db', mp'))
    \<and> buffer_ok db' \<and> pending_text db' = r"
  using assms
proof (induction "pending_text db" arbitrary: g db fs r rule: split_frames.induct)
  case (1 hi lo bs)
  note g = 1(3-6) and ok = 1(7) and pt = 1(2) [symmetric]
  obtain db1 mp1 where h: "databuffer_readheader db (gt_mp g) 2 =
      Some (if be16 hi lo \<le> List.length bs then of_nat (be16 hi lo) else - 1, db1, mp1)"
    and db1: "db_inv db1" "db_bytes db1 = bs" "db_header db1 = of_nat (be16 hi lo)"
    by (rule readheader_split [OF ok pt])
  let ?g1 = "put_buffer g i (db1, mp1)"
  have step: "forward_loop g i fd =
      (if \<not> be16 hi lo \<le> List.length bs then Some ([], ?g1)
       else if be16 hi lo = 0 then forward_loop ?g1 i fd
       else Option.bind (forward_message ?g1 i (of_nat (be16 hi lo)))
         (\<lambda>(out, g2). Option.bind
               (forward_loop (put_buffer g2 i (databuffer_reset (conn_buffer (gt_conn g2 ! i)), gt_mp g2)) i fd)
               (\<lambda>(outs, g3). Some (out @ outs, g3))))"
  proof -
    have z: "of_nat (be16 hi lo) = (0 :: i32) \<longleftrightarrow> be16 hi lo = 0" 
      using unat_eq_zero [of "of_nat (be16 hi lo) :: i32"] by simp
    have b: "int (be16 hi lo) < 0x1000000" using be16_bound [of hi lo] by simp
    have h': "databuffer_readheader (conn_buffer (gt_conn g ! i)) (gt_mp g) (gt_header_size g) =
        Some (if be16 hi lo \<le> List.length bs then of_nat (be16 hi lo) else - 1, db1, mp1)" using h g by simp
    show ?thesis
      unfolding forward_loop.simps [of g] h' using z b by (cases "be16 hi lo \<le> List.length bs") (simp_all add: Let_def)
  qed
  consider "\<not> be16 hi lo \<le> List.length bs" | "be16 hi lo = 0" | "be16 hi lo \<le> List.length bs" "be16 hi lo \<noteq> 0" by blast
  then show ?case
  proof cases
    case 1
    then have "be16 hi lo \<noteq> 0" by auto
    then have "pending_text db1 = hi # lo # bs" using pending_header [OF db1(1,3)] db1(2) by simp
    then show ?thesis
      using 1 \<open>split_frames (pending_text db) = (fs, r)\<close> pt step pending_header(1) [OF db1(1,3)] by auto
  next
    case 2
    have p1: "pending_text db1 = bs" using db1 2 by (simp add: pending_text_def)
    obtain fs' where f: "split_frames bs = (fs', r)" "fs = [] # fs'"
      using \<open>split_frames (pending_text db) = (fs, r)\<close> pt 2 by (auto split: prod.splits)
    have "\<exists>db' mp'. forward_loop ?g1 i fd = Some (concat (map (forwarded ?g1 i) fs'), put_buffer ?g1 i (db', mp'))
        \<and> buffer_ok db' \<and> pending_text db' = r"
      using 1(1) [of db1 ?g1 fs' r] 2 g p1 f pending_header(1) [OF db1(1,3)] by simp
    with step 2 g f show ?thesis by (simp add: forwarded_def)
  next
    case 3
    obtain db2 mp2 where m: "forward_message ?g1 i (of_nat (be16 hi lo)) = Some (forwarded ?g1 i (take (be16 hi lo) (db_bytes db1)), put_buffer ?g1 i (db2, mp2))"
      "db_inv db2" "db_bytes db2 = drop (be16 hi lo) (db_bytes db1)"
      by (rule forward_message_sound [of i ?g1 db1 "be16 hi lo"]) (use g db1 3 be16_bound [of hi lo] in simp_all)
    note m = this [unfolded db1(2)]
    let ?db3 = "databuffer_reset db2" and ?g3 = "put_buffer g i (databuffer_reset db2, mp2)"
    have db3: "buffer_ok ?db3" "pending_text ?db3 = drop (be16 hi lo) bs"
      using m by (simp_all add: databuffer_reset_def buffer_ok_def pending_text_def)
    obtain fs' where f: "split_frames (drop (be16 hi lo) bs) = (fs', r)" "fs = take (be16 hi lo) bs # fs'"
      using \<open>split_frames (pending_text db) = (fs, r)\<close> pt 3 by (auto split: prod.splits)
    have "\<exists>db' mp'. forward_loop ?g3 i fd = Some (concat (map (forwarded ?g3 i) fs'), put_buffer ?g3 i (db', mp'))
        \<and> buffer_ok db' \<and> pending_text db' = r"
      using 1(1) [of ?db3 ?g3 fs' r] 3 g f db3 by simp
    then obtain db' mp' where n: "forward_loop ?g3 i fd = Some (concat (map (forwarded g i) fs'), put_buffer g i (db', mp'))"
      "buffer_ok db'" "pending_text db' = r" using g(1) by auto
    have "forward_loop g i fd = Some (concat (map (forwarded g i) fs), put_buffer g i (db', mp'))"
      using step 3 g(1) f m(1) n(1) by simp
    with n(2,3) show ?thesis by blast
  qed
next
  case 2
  have "List.length (pending_text db) < 2" using 2(1) [symmetric] by simp
  note h = readheader_short [OF 2(6) this, of "gt_mp g"]
  with 2 have "forward_loop g i fd = Some ([], put_buffer g i (db, gt_mp g))"
    by (subst forward_loop.simps) auto
  moreover have "fs = []" "r = pending_text db" using 2(1) [symmetric] 2(7) by simp_all
  ultimately show ?case using 2(6) by auto
next
  case (3 b)
  have "List.length (pending_text db) < 2" using 3(1) [symmetric] by simp
  note h = readheader_short [OF 3(6) this, of "gt_mp g"]
  with 3 have "forward_loop g i fd = Some ([], put_buffer g i (db, gt_mp g))"
    by (subst forward_loop.simps) auto
  moreover have "fs = []" "r = pending_text db" using 3(1) [symmetric] 3(7) by simp_all
  ultimately show ?case using 3(6) by auto
qed

text \<open>
  A connection \<open>i\<close> of the gate \<open>g\<close> is a parser of framed messages: whatever happened to its buffer,
  a piece of the stream is answered with what the complete messages of the text become.
\<close>

definition gate_at :: "gate \<Rightarrow> nat \<Rightarrow> i32 \<Rightarrow> gate \<Rightarrow> bool" where
  "gate_at g i fd g' \<longleftrightarrow> i < List.length (gt_conn g) \<and> has_target g i \<and> gt_header_size g = 2
     \<and> hashid_lookup (gt_hash g) fd = Some i \<and> (\<exists>db mp. g' = put_buffer g i (db, mp) \<and> buffer_ok db)"

definition connection_text :: "nat \<Rightarrow> gate \<Rightarrow> bytes" where
  "connection_text i g = pending_text (conn_buffer (gt_conn g ! i))"

lemma gate_feed:
  assumes "gate_at g i fd g'"
  shows "\<exists>g''. gate_at g i fd g'' \<and> connection_text i g'' = snd (split_frames (connection_text i g' @ data))
    \<and> dispatch_socket_message g' (data_event fd data)
      = Some (concat (map (forwarded g i) (fst (split_frames (connection_text i g' @ data)))), g'')"
proof -
  obtain db mp where g: "i < List.length (gt_conn g)" "has_target g i" "gt_header_size g = 2"
    "hashid_lookup (gt_hash g) fd = Some i" "g' = put_buffer g i (db, mp)" "buffer_ok db" using assms by (auto simp: gate_at_def)
  let ?r = "databuffer_push db mp data"
  have ok: "buffer_ok (fst ?r)" "pending_text (fst ?r) = pending_text db @ data"
    using push_bytes [of db mp data] g(6) by (simp_all add: buffer_ok_def pending_text_def)
  obtain fs r where f: "split_frames (pending_text db @ data) = (fs, r)" by force
  obtain db' mp' where "forward_loop (put_buffer g i ?r) i fd = Some (concat (map (forwarded g i) fs), put_buffer g i (db', mp'))"
    "buffer_ok db'" "pending_text db' = r"
    using forward_loop_split [of i "put_buffer g i ?r" "fst ?r" fs r fd] g ok f by auto
  moreover have "gate_at g i fd (put_buffer g i (db', mp'))" using g \<open>buffer_ok db'\<close> by (auto simp: gate_at_def)
  moreover have "gt_hash g' = gt_hash g" by (simp add: g(5) put_buffer_def)
  ultimately show ?thesis
    using g f by (intro exI [of _ "put_buffer g i (db', mp')"])
      (simp add: dispatch_socket_message_def data_event_def gate_dispatch_message_def connection_text_def)
qed

interpretation connection: reassembler split_frames frame "\<lambda>m. List.length m < 2 ^ 16" "\<lambda>bs. True" "gate_at g i fd" "connection_text i"
  "\<lambda>g' data. dispatch_socket_message g' (data_event fd data)" "forwarded g i"
  for g :: gate and i :: nat and fd :: i32
  by unfold_locales (rule gate_feed)

section \<open>The gate's invariant\<close>

text \<open>The connections are those of the table, and a free slot is closed.\<close>

lemma closed_buffer [simp]: "conn_buffer closed_connection = databuffer_empty"
  by (simp add: closed_connection_def)

definition slot_ok :: "hashid \<Rightarrow> nat \<Rightarrow> connection \<Rightarrow> bool" where
  "slot_ok hi i c \<longleftrightarrow> db_inv (conn_buffer c)
     \<and> (if i \<in> used hi then conn_id c = hi_id hi ! i else c = closed_connection)"

definition gate_inv :: "gate \<Rightarrow> bool" where
  "gate_inv g \<longleftrightarrow> hashid_inv (gt_hash g) \<and> List.length (gt_conn g) = hi_cap (gt_hash g)
     \<and> gt_max_connection g = hi_cap (gt_hash g) \<and> gt_header_size g \<in> {2, 4}
     \<and> (\<forall>i < hi_cap (gt_hash g). slot_ok (gt_hash g) i (gt_conn g ! i))"

lemma gate_inv_upd:
  assumes "gate_inv g" and "hashid_inv hi" and "hi_cap hi = hi_cap (gt_hash g)"
    and "\<And>j. j < hi_cap hi \<Longrightarrow> j \<noteq> i \<Longrightarrow> (j \<in> used hi \<longleftrightarrow> j \<in> used (gt_hash g)) \<and> hi_id hi ! j = hi_id (gt_hash g) ! j"
    and "slot_ok hi i c"
  shows "gate_inv (g\<lparr>gt_hash := hi, gt_conn := (gt_conn g)[i := c]\<rparr>)"
    and "gate_inv (g\<lparr>gt_hash := hi, gt_conn := (gt_conn g)[i := c], gt_mp := mp\<rparr>)"
proof -
  have "slot_ok hi j ((gt_conn g)[i := c] ! j)" if "j < hi_cap hi" for j
    using assms that by (cases "j = i") (auto simp: gate_inv_def slot_ok_def)
  with assms show "gate_inv (g\<lparr>gt_hash := hi, gt_conn := (gt_conn g)[i := c]\<rparr>)"
    "gate_inv (g\<lparr>gt_hash := hi, gt_conn := (gt_conn g)[i := c], gt_mp := mp\<rparr>)"
    by (simp_all add: gate_inv_def)
qed

lemma gate_inv_lookup:
  assumes "gate_inv g" and "hashid_lookup (gt_hash g) fd = Some i"
  shows "i < List.length (gt_conn g)" and "db_inv (conn_buffer (gt_conn g ! i))" and "i \<in> used (gt_hash g)"
    and "conn_id (gt_conn g ! i) = fd" and "hi_id (gt_hash g) ! i = fd"
  using assms hashid_lookup_iff [of "gt_hash g" fd i] by (auto simp: gate_inv_def slot_ok_def used_def)

lemma readheader_total:
  assumes "db_inv db" and "0 < hs"
  obtains v db' mp' where "databuffer_readheader db mp hs = Some (v, db', mp')" "db_inv db'"
    "v = - 1 \<or> v = db_header db' \<and> sint v \<le> int (db_size db')"
    "if db_header db = 0 then v = - 1 \<or> db_size db' < db_size db else db' = db"
proof (cases "db_header db = 0 \<and> hs \<le> db_size db")
  case True
  with assms have "hs \<le> List.length (db_bytes db)" by (simp add: db_inv_def)
  with assms obtain db1 mp1 where r: "databuffer_read db mp hs = Some (take hs (db_bytes db), db1, mp1)" "db_inv db1"
    "db_bytes db1 = drop hs (db_bytes db)" by (rule databuffer_read_sound)
  then have "db_size db1 < db_size db" using assms True by (auto simp: db_inv_def)
  let ?h = "header_value hs (take hs (db_bytes db))"
  have "databuffer_readheader db mp hs =
      Some (if int (db_size db1) < sint ?h then - 1 else ?h, db1\<lparr>db_header := ?h\<rparr>, mp1)"
    using True r(1) by (simp add: databuffer_readheader_def Let_def)
  with that [OF this] r(2) True \<open>db_size db1 < db_size db\<close> show ?thesis by auto
next
  case False
  then have "databuffer_readheader db mp hs =
      Some (if db_header db = 0 \<or> int (db_size db) < sint (db_header db) then - 1 else db_header db, db, mp)"
    by (auto simp: databuffer_readheader_def)
  with that [OF this] assms show ?thesis by auto
qed

lemma forward_message_total:
  assumes "i < List.length (gt_conn g)" and "db_inv (conn_buffer (gt_conn g ! i))" and "0 < sint v"
    and "sint v \<le> int (db_size (conn_buffer (gt_conn g ! i)))"
  obtains out db' mp' where "forward_message g i v = Some (out, put_buffer g i (db', mp'))" "db_inv db'"
    "db_size db' \<le> db_size (conn_buffer (gt_conn g ! i))"
proof -
  let ?db = "conn_buffer (gt_conn g ! i)"
  have "0 < nat (sint v)" "nat (sint v) \<le> List.length (db_bytes ?db)" using assms by (auto simp: db_inv_def)
  with assms(2) obtain db' mp' where r: "databuffer_read ?db (gt_mp g) (nat (sint v)) = Some (take (nat (sint v)) (db_bytes ?db), db', mp')"
    "db_inv db'" "db_bytes db' = drop (nat (sint v)) (db_bytes ?db)" by (rule databuffer_read_sound)
  then have "db_size db' \<le> db_size ?db" using assms(2) by (auto simp: db_inv_def)
  moreover have "g = put_buffer g i (?db, gt_mp g)" using put_buffer_same [OF assms(1)] by simp
  moreover have "(\<exists>out. forward_message g i v = Some (out, put_buffer g i (db', mp'))) \<or> forward_message g i v = Some ([], g)"
    using r(1) by (auto simp: forward_message_def Let_def)
  ultimately show ?thesis using that [of _ db' mp'] that [of "[]" ?db "gt_mp g"] r(2) assms(2) by auto
qed

text \<open>The loop always ends, whatever bytes were received.\<close>

lemma forward_loop_total:
  assumes "i < List.length (gt_conn g)" and "db_inv (conn_buffer (gt_conn g ! i))" and "0 < gt_header_size g"
  shows "\<exists>out db mp. forward_loop g i fd = Some (out, put_buffer g i (db, mp)) \<and> db_inv db"
  using assms
proof (induction "2 * db_size (conn_buffer (gt_conn g ! i)) + of_bool (db_header (conn_buffer (gt_conn g ! i)) \<noteq> 0)"
    arbitrary: g rule: less_induct)
  case less
  let ?db = "conn_buffer (gt_conn g ! i)"
  obtain v db1 mp1 where h: "databuffer_readheader ?db (gt_mp g) (gt_header_size g) = Some (v, db1, mp1)" "db_inv db1"
    "v = - 1 \<or> v = db_header db1 \<and> sint v \<le> int (db_size db1)"
    "if db_header ?db = 0 then v = - 1 \<or> db_size db1 < db_size ?db else db1 = ?db"
    using less.prems by (blast elim: readheader_total)
  let ?g1 = "put_buffer g i (db1, mp1)"
  note step = forward_loop.simps [of g i fd, unfolded h(1) Let_def, simplified]
  consider "sint v < 0" | "v = 0" | "0x1000000 \<le> sint v" | "0 < sint v" "sint v < 0x1000000"
  proof -
    have "sint v = 0 \<longleftrightarrow> v = 0" by (rule signed_eq_0_iff)
    then show thesis using that by linarith
  qed
  then show ?case
  proof cases
    case 1
    then show ?thesis using step h(2) by auto
  next
    case 2
    then have "db_header ?db = 0" "db_size db1 < db_size ?db" "db_header db1 = 0" using h(3,4) by (auto split: if_splits)
    then show ?thesis using less.hyps [of ?g1] less.prems step 2 h(2) by simp
  next
    case 3
    then show ?thesis using step less.prems(1) by (auto simp: databuffer_clear_def)
  next
    case 4
    then have "v \<noteq> 0" "v \<noteq> - 1" by auto
    with h(3) have v: "v = db_header db1" "v \<noteq> 0" "v \<noteq> - 1" by auto
    have "i < List.length (gt_conn ?g1)" "conn_buffer (gt_conn ?g1 ! i) = db1" using less.prems(1) by simp_all
    with forward_message_total [of i ?g1 v] 4(1) h(2,3) v obtain out db2 mp2 where
      f: "forward_message ?g1 i v = Some (out, put_buffer g i (db2, mp2))" "db_inv db2" "db_size db2 \<le> db_size db1"
      using less.prems(1) by auto
    let ?g3 = "put_buffer g i (databuffer_reset db2, mp2)"
    have "2 * db_size db2 < 2 * db_size ?db + of_bool (db_header ?db \<noteq> 0)"
      using f(3) h(4) v by (auto split: if_splits)
    then obtain out' db3 mp3 where "forward_loop ?g3 i fd = Some (out', put_buffer g i (db3, mp3))" "db_inv db3"
      using less.hyps [of ?g3] less.prems f(2) by (auto simp: databuffer_reset_def)
    with step 4 v f less.prems(1) show ?thesis by auto
  qed
qed

text \<open>Only the buffer of one connection changes.\<close>

lemma gate_inv_put_buffer:
  assumes "gate_inv g" and "hashid_lookup (gt_hash g) fd = Some i" and "db_inv (fst r)"
  shows "gate_inv (put_buffer g i r)"
proof -
  have "slot_ok (gt_hash g) i ((gt_conn g ! i)\<lparr>conn_buffer := fst r\<rparr>)"
    using gate_inv_lookup [OF assms(1,2)] assms(3) by (simp add: slot_ok_def)
  moreover have "hashid_inv (gt_hash g)" using assms(1) by (simp add: gate_inv_def)
  ultimately show ?thesis
    using gate_inv_upd(2) [OF assms(1), of "gt_hash g" i "(gt_conn g ! i)\<lparr>conn_buffer := fst r\<rparr>" "snd r"]
    by (simp add: put_buffer_def)
qed

text \<open>A successful \<open>gate_init\<close> establishes the invariant, for every number of connections an \<open>int\<close> loop can size.\<close>

lemma gate_init_inv:
  assumes "gate_init E g param = (True, out, g')" and "gt_max_connection g' \<le> 2 ^ 30"
  shows "gate_inv g' \<and> used (gt_hash g') = {}"
proof -
  obtain p header watchdog binding client_tag m buffer wd where "param = Some p"
    and p: "scan_parm p = Some (header, watchdog, binding, client_tag, m, buffer)" "0 < sint m" "header = CHR ''S'' \<or> header = CHR ''L''"
    "start_listen E (g\<lparr>gt_watchdog := wd, gt_hash := hashid_init (nat (sint m)), gt_conn := replicate (nat (sint m)) closed_connection,
          gt_max_connection := nat (sint m), gt_client_tag := (if client_tag = 0 then of_nat PTYPE_CLIENT else client_tag),
          gt_header_size := (if header = CHR ''S'' then 2 else 4)\<rparr>) binding = (True, tl out, g')"
    using assms(1) by (auto simp: gate_init_def Let_def split: option.splits prod.splits if_splits)
  then obtain l where g': "g' = g\<lparr>gt_watchdog := wd, gt_hash := hashid_init (nat (sint m)), gt_conn := replicate (nat (sint m)) closed_connection,
          gt_max_connection := nat (sint m), gt_client_tag := (if client_tag = 0 then of_nat PTYPE_CLIENT else client_tag),
          gt_header_size := (if header = CHR ''S'' then 2 else 4), gt_listen_id := l\<rparr>"
    by (auto simp: start_listen_def Let_def split: if_splits)
  have "nat (sint m) < 2 ^ 31" using assms(2) g' by simp
  from hashid_init_inv [OF this] g' show ?thesis
    by (simp add: gate_inv_def slot_ok_def) (simp add: hashid_init_def)
qed

lemma on_close_inv:
  assumes inv: "gate_inv g"
  shows "gate_inv (snd (on_close g m))"
proof (cases "hashid_lookup (gt_hash g) (se_id m)")
  case None
  with inv hashid_remove_None show ?thesis by (simp add: on_close_def gate_inv_def)
next
  case (Some i)
  from inv have hi: "hashid_inv (gt_hash g)" by (simp add: gate_inv_def)
  from hi Some obtain hi' where r: "hashid_remove (gt_hash g) (se_id m) = (Some i, hi')" "hashid_inv hi'"
    "used hi' = used (gt_hash g) - {i}" "hi_id hi' = (hi_id (gt_hash g))[i := - 1]" "hi_cap hi' = hi_cap (gt_hash g)"
    by (rule hashid_remove_sound)
  have "slot_ok hi' i closed_connection" by (simp add: slot_ok_def r(3))
  with r show ?thesis by (simp add: on_close_def gate_inv_upd [OF inv])
qed

lemma on_accept_inv:
  assumes inv: "gate_inv g" and "gt_listen_id g = se_id m" and "0 \<le> sint (se_ud m)"
    and "sint (se_ud m) + int (gt_max_connection g) < 2 ^ 31" and new: "hashid_lookup (gt_hash g) (se_ud m) = None"
  obtains out g' where "on_accept g m = Some (out, g')" "gate_inv g'"
proof (cases "hashid_full (gt_hash g)")
  case True
  with that inv assms(2) show ?thesis by (simp add: on_accept_def)
next
  case False
  from inv have hi: "hashid_inv (gt_hash g)" and cap: "gt_max_connection g = hi_cap (gt_hash g)" by (simp_all add: gate_inv_def)
  from hi False assms(3) assms(4) [unfolded cap] new obtain c hi' where i: "hashid_insert (gt_hash g) (se_ud m) = Some (c, hi')"
    "c < hi_cap (gt_hash g)" "c \<notin> used (gt_hash g)" "hashid_inv hi'" "used hi' = insert c (used (gt_hash g))"
    "hi_id hi' = (hi_id (gt_hash g))[c := se_ud m]" "hi_cap hi' = hi_cap (gt_hash g)"
    by (rule hashid_insert_sound)
  let ?c = "(gt_conn g ! c)\<lparr>conn_id := se_ud m, conn_remote_name := take 31 (se_tail m)\<rparr>"
  have "List.length (hi_id (gt_hash g)) = hi_cap (gt_hash g)" using hi by (simp add: hashid_inv_def)
  then have "slot_ok hi' c ?c"
    using inv i(2,3) by (simp add: gate_inv_def slot_ok_def i(5,6))
  then have "gate_inv (g\<lparr>gt_hash := hi', gt_conn := (gt_conn g)[c := ?c]\<rparr>)"
    using i(3-7) by (intro gate_inv_upd(1) [OF inv]) auto
  with that i(1) assms(2) False show ?thesis by (simp add: on_accept_def)
qed

section \<open>Properties\<close>


text \<open>
  C25. With two-byte headers, a connection whose buffer is empty and that has a receiver (the broker,
  its agent or the watchdog) forwards exactly the non-empty messages that were sent, in order and
  complete, whatever pieces the socket delivers; at the end its buffer is empty again.
\<close>

theorem gate_forwards:
  assumes "gate_inv g" and "gt_header_size g = 2" and "hashid_lookup (gt_hash g) fd = Some i" and "has_target g i"
    and "conn_buffer (gt_conn g ! i) = databuffer_empty"
    and "[] \<notin> set cs" and "concat cs = concat (map frame ms)" and "\<forall>m \<in> set ms. List.length m < 2 ^ 16"
  shows "\<exists>db mp. feed_all (\<lambda>g data. dispatch_socket_message g (data_event fd data)) g cs
       = Some (concat (map (forwarded g i) ms), put_buffer g i (db, mp)) \<and> db_bytes db = [] \<and> db_header db = 0"
proof -
  have i: "i < List.length (gt_conn g)"
    using gate_inv_lookup [OF assms(1,3)] by simp
  have ok: "buffer_ok databuffer_empty" by (simp add: buffer_ok_def) (simp add: databuffer_empty_def)
  have "gate_at g i fd g"
    unfolding gate_at_def using i assms(2-5) ok put_buffer_same [OF i]
    by (intro conjI exI [of _ databuffer_empty] exI [of _ "gt_mp g"]) simp_all
  moreover have "connection_text i g = []"
    by (simp add: connection_text_def assms(5) pending_text_def) (simp add: databuffer_empty_def)
  ultimately obtain g' where "gate_at g i fd g'" "connection_text i g' = []"
    "feed_all (\<lambda>g data. dispatch_socket_message g (data_event fd data)) g cs = Some (concat (map (forwarded g i) ms), g')"
    using connection.reassembles [OF _ _ assms(6-8)] by blast
  then show ?thesis using i by (auto simp: gate_at_def connection_text_def pending_text_def split: if_splits)
qed

section \<open>An example\<close>

text \<open>A gate with two slots that listens on socket 1 and reports to the watchdog 7.\<close>

definition example_gate :: gate where
  "example_gate = gate_create
     \<lparr>gt_listen_id := 1, gt_watchdog := 7, gt_client_tag := 3, gt_header_size := 2, gt_max_connection := 2,
      gt_hash := hashid_init 2, gt_conn := replicate 2 closed_connection\<rparr>"

definition example_accept :: socket_event where
  "example_accept =
     \<lparr>se_type = SKYNET_SOCKET_TYPE_ACCEPT, se_id = 1, se_ud = 5, se_buffer = None, se_tail = [49]\<rparr>"

lemma example_gate_inv: "gate_inv example_gate"
proof -
  have "hashid_inv (hashid_init 2)" "used (hashid_init 2) = {}" by (rule hashid_init_inv; simp)+
  moreover have "hi_cap (hashid_init 2) = 2" by (simp add: hashid_init_def)
  ultimately show ?thesis by (simp add: example_gate_def gate_inv_def slot_ok_def)
qed

lemma example_new: "hashid_lookup (gt_hash example_gate) fd = None"
  using hashid_lookup_iff [of "hashid_init 2" fd] hashid_init_inv [of 2]
  by (cases "hashid_lookup (hashid_init 2) fd") (auto simp: example_gate_def)


lemma example_connected:
  obtains g i where "gate_inv g" "gt_header_size g = 2" "hashid_lookup (gt_hash g) 5 = Some i" "gt_broker g = 0" "gt_watchdog g = 7"
    "gt_conn g ! i = closed_connection\<lparr>conn_id := 5\<rparr>"
proof -
  have hi: "hashid_inv (gt_hash example_gate)" using example_gate_inv by (simp add: gate_inv_def)
  have u: "used (gt_hash example_gate) = {}" "hi_cap (gt_hash example_gate) = 2" using hashid_init_inv(2) [of 2]
    by (simp_all add: example_gate_def) (simp add: hashid_init_def)
  have nf: "\<not> hashid_full (gt_hash example_gate)" 
  proof
    assume "hashid_full (gt_hash example_gate)"
    then have "{..<2 :: nat} = {}" using hashid_full_iff [OF hi] u by simp
    then show False by (simp add: lessThan_empty_iff)
  qed
  obtain c hi' where i: "c < hi_cap (gt_hash example_gate)" "hashid_inv hi'" "used hi' = insert c (used (gt_hash example_gate))"
    "hi_id hi' = (hi_id (gt_hash example_gate))[c := 5]" "hi_cap hi' = hi_cap (gt_hash example_gate)"
    by (rule hashid_insert_sound [OF hi nf, of 5]) (simp_all add: u example_new)
  define g where "g = example_gate\<lparr>gt_hash := hi', gt_conn := (gt_conn example_gate)[c := closed_connection\<lparr>conn_id := 5\<rparr>]\<rparr>"
  have n: "hi_id hi' ! c = 5" using hi i(1,4) by (simp add: hashid_inv_def)
  have "gate_inv g"
    unfolding g_def using i n by (intro gate_inv_upd(1) [OF example_gate_inv]) (auto simp: slot_ok_def)
  moreover have "hashid_lookup (gt_hash g) 5 = Some c"
    using hashid_lookup_iff [OF i(2), of 5 c] i(3) n by (simp add: g_def)
  moreover have "gt_conn g ! c = closed_connection\<lparr>conn_id := 5\<rparr>"
    using i(1) u by (simp add: g_def example_gate_def)
  ultimately show ?thesis using that [of g c] by (simp add: g_def example_gate_def gate_create_def)
qed

text \<open>Two messages in three pieces, for the watchdog.\<close>

theorem gate_forwards_witness:
  "\<exists>g g'. feed_all (\<lambda>g data. dispatch_socket_message g (data_event 5 data)) g [[0], [2, 72, 105, 0], [1, 33]]
     = Some ([Send 0 7 0x10000 (bytes_of ''5 data '' @ [72, 105]), Send 0 7 0x10000 (bytes_of ''5 data '' @ [33])], g')"
proof -
  obtain g i where g: "gate_inv g" "gt_header_size g = 2" "hashid_lookup (gt_hash g) 5 = Some i" "gt_broker g = 0" "gt_watchdog g = 7"
    "gt_conn g ! i = closed_connection\<lparr>conn_id := 5\<rparr>" by (rule example_connected)
  have "forwarded g i m = [Send 0 7 0x10000 (bytes_of ''5 data '' @ m)]" if "m \<noteq> []" for m
    using g that by (simp add: forwarded_def closed_connection_def PTYPE_TEXT_def PTYPE_TAG_DONTCOPY_def print_d_def print_u_def
        digits.simps lower_digits_def)
  moreover have "has_target g i" using g by (simp add: has_target_def)
  moreover have "conn_buffer (gt_conn g ! i) = databuffer_empty" using g by simp
  ultimately show ?thesis
    using gate_forwards [OF g(1-3), of "[[0], [2, 72, 105, 0], [1, 33]]" "[[72, 105], [33]]"] by (auto simp: frame_def)
qed

end
