(* ===== verification/Netpack.thy ===== *)
theory Netpack
  imports Framing Ring Hashid CText
begin

text \<open>
  The Lua library \<open>netpack\<close>, \<open>lualib-src/lua-netpack.c\<close>: the messages of many sockets are cut out of
  the pieces that arrive. An incomplete message waits in a hash table under its descriptor, complete
  ones in a ring that grows by \<open>QUEUESIZE\<close>. A buffer is its bytes, the Lua stack's first element the
  queue (\<open>None\<close> for nil). A failed assertion and a read outside a buffer are \<open>None\<close>.
\<close>

section \<open>State\<close>

definition QUEUESIZE :: nat where "QUEUESIZE = 1024"
definition HASHSIZE :: nat where "HASHSIZE = 4096"
definition SMALLSTRING :: nat where "SMALLSTRING = 2048"

record netpack =
  np_id :: i32
  np_buffer :: bytes

text \<open>\<open>uc_buffer\<close> holds the part of the buffer that is filled, \<open>uc_size\<close> the size of the message.\<close>

record uncomplete =
  uc_id :: i32
  uc_size :: nat
  uc_buffer :: bytes
  uc_read :: int
  uc_header :: u8

record packqueue =
  pq_cap :: nat
  pq_head :: nat
  pq_tail :: nat
  pq_hash :: "uncomplete list list"
  pq_queue :: "netpack list"

definition blank :: netpack where
  "blank = \<lparr>np_id = 0, np_buffer = []\<rparr>"

definition new_queue :: packqueue where
  "new_queue = \<lparr>pq_cap = QUEUESIZE, pq_head = 0, pq_tail = 0, pq_hash = replicate HASHSIZE [],
     pq_queue = replicate QUEUESIZE blank\<rparr>"

definition get_queue :: "packqueue option \<Rightarrow> packqueue" where
  "get_queue q = (case q of None \<Rightarrow> new_queue | Some q \<Rightarrow> q)"

text \<open>What \<open>lclear\<close> frees, and the queue it leaves.\<close>

definition lclear :: "packqueue option \<Rightarrow> bytes list \<times> packqueue option" where
  "lclear q =
     (case q of
        None \<Rightarrow> ([], None)
      | Some q \<Rightarrow>
          (let tail = (if pq_tail q < pq_head q then pq_tail q + pq_cap q else pq_tail q) in
           (map (\<lambda>i. np_buffer (pq_queue q ! (i mod pq_cap q))) [pq_head q..<tail],
            Some (q\<lparr>pq_hash := replicate HASHSIZE [], pq_head := 0, pq_tail := 0\<rparr>))))"

definition hash_fd :: "i32 \<Rightarrow> nat" where
  "hash_fd fd = unat (signed_drop_bit 24 fd + signed_drop_bit 12 fd + fd) mod HASHSIZE"

text \<open>Takes the entry out of its chain.\<close>

definition find_uncomplete :: "packqueue option \<Rightarrow> i32 \<Rightarrow> uncomplete option \<times> packqueue option" where
  "find_uncomplete q fd =
     (case q of
        None \<Rightarrow> (None, None)
      | Some q \<Rightarrow>
          (case List.extract (\<lambda>uc. uc_id uc = fd) (pq_hash q ! hash_fd fd) of
             None \<Rightarrow> (None, Some q)
           | Some (before, uc, after) \<Rightarrow>
               (Some uc, Some (q\<lparr>pq_hash := (pq_hash q)[hash_fd fd := before @ after]\<rparr>))))"

definition add_uncomplete :: "packqueue \<Rightarrow> uncomplete \<Rightarrow> packqueue" where
  "add_uncomplete q uc =
     (let h = hash_fd (uc_id uc) in q\<lparr>pq_hash := (pq_hash q)[h := uc # (pq_hash q ! h)]\<rparr>)"

definition netpack_expand_queue :: "packqueue \<Rightarrow> packqueue" where
  "netpack_expand_queue q =
     \<lparr>pq_cap = pq_cap q + QUEUESIZE, pq_head = 0, pq_tail = pq_cap q, pq_hash = pq_hash q,
      pq_queue = map (\<lambda>i. pq_queue q ! ((pq_head q + i) mod pq_cap q)) [0..<pq_cap q] @ replicate QUEUESIZE blank\<rparr>"

definition push_data :: "packqueue option \<Rightarrow> i32 \<Rightarrow> bytes \<Rightarrow> packqueue" where
  "push_data L fd buffer =
     (let q = get_queue L;
          tail = (if pq_cap q \<le> Suc (pq_tail q) then Suc (pq_tail q) - pq_cap q else Suc (pq_tail q));
          q1 = q\<lparr>pq_tail := tail, pq_queue := (pq_queue q)[pq_tail q := \<lparr>np_id = fd, np_buffer = buffer\<rparr>]\<rparr>
      in if pq_head q1 = pq_tail q1 then netpack_expand_queue q1 else q1)"

text \<open>\<open>save_uncomplete\<close> with the fields its callers fill in: a first header byte, or a part of a message.\<close>

definition save_header :: "packqueue option \<Rightarrow> i32 \<Rightarrow> u8 \<Rightarrow> packqueue" where
  "save_header L fd b =
     add_uncomplete (get_queue L) \<lparr>uc_id = fd, uc_size = 0, uc_buffer = [], uc_read = - 1, uc_header = b\<rparr>"

definition save_part :: "packqueue option \<Rightarrow> i32 \<Rightarrow> nat \<Rightarrow> bytes \<Rightarrow> packqueue" where
  "save_part L fd pack_size buffer =
     add_uncomplete (get_queue L)
       \<lparr>uc_id = fd, uc_size = pack_size, uc_buffer = buffer, uc_read = int (List.length buffer), uc_header = 0\<rparr>"

fun push_more :: "packqueue option \<Rightarrow> i32 \<Rightarrow> bytes \<Rightarrow> packqueue option" where
  "push_more L fd [] = None"
| "push_more L fd [b] = Some (save_header L fd b)"
| "push_more L fd (hi # lo # buffer) =
     (if List.length buffer < be16 hi lo then Some (save_part L fd (be16 hi lo) buffer)
      else
        (let q = push_data L fd (take (be16 hi lo) buffer); rest = drop (be16 hi lo) buffer in
         if rest = [] then Some q else push_more (Some q) fd rest))"

text \<open>What a call of the filter returns besides the queue.\<close>

datatype filtered =
    Nothing
  | F_data i32 bytes
  | F_more
  | F_close i32
  | F_open i32 bytes
  | F_error i32 bytes

text \<open>The branch of \<open>filter_data_\<close> for a descriptor with an incomplete message.\<close>

definition fill_uncomplete :: "packqueue \<Rightarrow> uncomplete \<Rightarrow> bytes \<Rightarrow> (filtered \<times> packqueue) option" where
  "fill_uncomplete q uc buffer =
     Option.bind
       (if uc_read uc < 0 then
          (if uc_read uc \<noteq> - 1 then None
           else
             (case buffer of
                [] \<Rightarrow> None
              | lo # rest \<Rightarrow> Some (uc\<lparr>uc_size := be16 (uc_header uc) lo, uc_buffer := [], uc_read := 0\<rparr>, rest)))
        else Some (uc, buffer))
       (\<lambda>(uc, buffer).
          let need = uc_size uc - nat (uc_read uc); whole = uc_buffer uc @ take need buffer; rest = drop need buffer in
          if List.length buffer < need then
            Some (Nothing, add_uncomplete q (uc\<lparr>uc_buffer := uc_buffer uc @ buffer,
              uc_read := uc_read uc + int (List.length buffer)\<rparr>))
          else if rest = [] then Some (F_data (uc_id uc) whole, q)
          else map_option (Pair F_more) (push_more (Some (push_data (Some q) (uc_id uc) whole)) (uc_id uc) rest))"

definition filter_data :: "packqueue option \<Rightarrow> i32 \<Rightarrow> bytes \<Rightarrow> (filtered \<times> packqueue option) option" where
  "filter_data L fd buffer =
     (case find_uncomplete L fd of
        (Some uc, Some q) \<Rightarrow> map_option (\<lambda>(r, q). (r, Some q)) (fill_uncomplete q uc buffer)
      | (_, L1) \<Rightarrow>
          (case buffer of
             [] \<Rightarrow> None
           | [b] \<Rightarrow> Some (Nothing, Some (save_header L1 fd b))
           | hi # lo # rest \<Rightarrow>
               (let pack_size = be16 hi lo in
                if List.length rest < pack_size then Some (Nothing, Some (save_part L1 fd pack_size rest))
                else if List.length rest = pack_size then Some (F_data fd rest, L1)
                else map_option (\<lambda>q. (F_more, Some q))
                  (push_more (Some (push_data L1 fd (take pack_size rest))) fd (drop pack_size rest)))))"

definition close_uncomplete :: "packqueue option \<Rightarrow> i32 \<Rightarrow> packqueue option" where
  "close_uncomplete q fd = snd (find_uncomplete q fd)"

text \<open>A string of a negative length is a crash.\<close>

definition event_string :: "socket_event \<Rightarrow> bytes option" where
  "event_string m = (if se_buffer m = None then Some (se_tail m) else None)"

definition lfilter :: "packqueue option \<Rightarrow> socket_event \<Rightarrow> (filtered \<times> packqueue option) option" where
  "lfilter q m =
     (if se_type m = SKYNET_SOCKET_TYPE_DATA then Option.bind (se_buffer m) (filter_data q (se_id m))
      else if se_type m = SKYNET_SOCKET_TYPE_CONNECT then Some (Nothing, q)
      else if se_type m = SKYNET_SOCKET_TYPE_CLOSE then Some (F_close (se_id m), close_uncomplete q (se_id m))
      else if se_type m = SKYNET_SOCKET_TYPE_ACCEPT then
        map_option (\<lambda>s. (F_open (se_ud m) s, q)) (event_string m)
      else if se_type m = SKYNET_SOCKET_TYPE_ERROR then
        map_option (\<lambda>s. (F_error (se_id m) s, close_uncomplete q (se_id m))) (event_string m)
      else Some (Nothing, q))"

definition lpop :: "packqueue \<Rightarrow> netpack option \<times> packqueue" where
  "lpop q =
     (if pq_head q = pq_tail q then (None, q)
      else (Some (pq_queue q ! pq_head q),
            q\<lparr>pq_head := (if pq_cap q \<le> Suc (pq_head q) then 0 else Suc (pq_head q))\<rparr>))"

section \<open>Packing\<close>

definition write_size :: "nat \<Rightarrow> bytes" where
  "write_size len = [of_nat (drop_bit 8 len AND 0xff), of_nat (len AND 0xff)]"

text \<open>The error value carries the message of \<open>luaL_error\<close>.\<close>

definition pack_error :: "nat \<Rightarrow> string" where
  "pack_error len = ''Invalid size (too long) of data : '' @ print_d (sint (of_nat len :: i32))"

definition lpack :: "bytes \<Rightarrow> string + bytes" where
  "lpack ptr =
     (let len = List.length ptr in
      if 0x10000 < len then Inl (pack_error len) else Inr (write_size len @ ptr))"

text \<open>The two places a packed string is built in, on the stack or in a userdata, give the same string.\<close>

definition lpack_string :: "bytes \<Rightarrow> string + bytes" where
  "lpack_string ptr =
     (let len = List.length ptr in
      if 0x10000 < len then Inl (pack_error len)
      else (let buffer = (if len \<le> SMALLSTRING then replicate (SMALLSTRING + 2) 0 else replicate (len + 2) 0) in
            Inr (take (len + 2) (write_size len @ ptr @ drop (len + 2) buffer))))"

definition lpack_padding :: "bytes \<Rightarrow> bytes \<Rightarrow> string + bytes" where
  "lpack_padding cookie ptr =
     (let len = List.length cookie + List.length ptr in
      if 0x10000 < len then Inl (pack_error len)
      else (let buffer = (if len \<le> SMALLSTRING then replicate (SMALLSTRING + 2) 0 else replicate (len + 2) 0) in
            Inr (take (len + 2) (write_size len @ ptr @ cookie @ drop (len + 2) buffer))))"

text \<open>\<open>None\<close> for the pointer is NULL, whose text is empty; only without an offset is the data freed.\<close>

definition ltostring :: "bytes option \<Rightarrow> i32 \<Rightarrow> i32 option \<Rightarrow> string + (bytes \<times> bool)" where
  "ltostring ptr sz offset =
     (case ptr of
        None \<Rightarrow> Inr ([], False)
      | Some bs \<Rightarrow>
          (case offset of
             Some off \<Rightarrow>
               (if sint off < 0 then Inl (''Invalid offset '' @ print_d (sint off))
                else
                  (let off' = (if sint sz < sint off then sint sz else sint off) in
                   Inr (take (nat (sint sz - off')) (drop (nat off') bs), False)))
           | None \<Rightarrow> Inr (take (nat (sint sz)) bs, True)))"

section \<open>The client\<close>

text \<open>
  The loop of \<open>lualib/snax/gateserver.lua\<close>: what a socket message brings, a complete message in
  the result or, after \<open>more\<close>, those in the queue.
\<close>

function pop_all :: "packqueue \<Rightarrow> (i32 \<times> bytes) list \<times> packqueue" where
  "pop_all q =
     (if pq_head q < pq_cap q \<and> pq_tail q < pq_cap q then
        (case lpop q of
           (None, q1) \<Rightarrow> ([], q1)
         | (Some np, q1) \<Rightarrow> (case pop_all q1 of (out, q2) \<Rightarrow> ((np_id np, np_buffer np) # out, q2)))
      else ([], q))"
  by pat_completeness auto
termination
  by (relation "measure (\<lambda>q. ring_len (pq_cap q) (pq_head q) (pq_tail q))")
    (auto simp: lpop_def ring_len_def split: if_splits)

declare pop_all.simps [simp del]

definition dispatch_data :: "packqueue option \<Rightarrow> i32 \<Rightarrow> bytes \<Rightarrow> ((i32 \<times> bytes) list \<times> packqueue option) option" where
  "dispatch_data L fd data =
     Option.bind (lfilter L (data_event fd data))
       (\<lambda>(r, L1). case r of
          F_data fd bs \<Rightarrow> Some ([(fd, bs)], L1)
        | F_more \<Rightarrow> Option.bind L1 (\<lambda>q. case pop_all q of (out, q1) \<Rightarrow> Some (out, Some q1))
        | _ \<Rightarrow> Some ([], L1))"

section \<open>What the structures stand for\<close>

definition nq_abs :: "packqueue \<Rightarrow> netpack list" where
  "nq_abs q = ring_list (pq_queue q) (pq_cap q) (pq_head q) (ring_len (pq_cap q) (pq_head q) (pq_tail q))"

definition ring_ok :: "packqueue \<Rightarrow> bool" where
  "ring_ok q \<longleftrightarrow> pq_head q < pq_cap q \<and> pq_tail q < pq_cap q \<and> List.length (pq_queue q) = pq_cap q"

text \<open>An incomplete message is its first header byte, or a header and a proper part of its body.\<close>

definition uc_ok :: "uncomplete \<Rightarrow> bool" where
  "uc_ok uc \<longleftrightarrow> uc_read uc = - 1
     \<or> uc_read uc = int (List.length (uc_buffer uc)) \<and> List.length (uc_buffer uc) < uc_size uc \<and> uc_size uc < 2 ^ 16"

definition uc_text :: "uncomplete \<Rightarrow> bytes" where
  "uc_text uc =
     (if uc_read uc < 0 then [uc_header uc]
      else [of_nat (uc_size uc div 256), of_nat (uc_size uc mod 256)] @ uc_buffer uc)"

definition chains_ok :: "packqueue \<Rightarrow> bool" where
  "chains_ok q \<longleftrightarrow> List.length (pq_hash q) = HASHSIZE
     \<and> (\<forall>h < HASHSIZE. distinct (map uc_id (pq_hash q ! h))
          \<and> (\<forall>uc \<in> set (pq_hash q ! h). hash_fd (uc_id uc) = h \<and> uc_ok uc))"

definition nq_inv :: "packqueue \<Rightarrow> bool" where
  "nq_inv q \<longleftrightarrow> ring_ok q \<and> chains_ok q"

definition entry :: "packqueue \<Rightarrow> i32 \<Rightarrow> uncomplete option" where
  "entry q fd = List.find (\<lambda>uc. uc_id uc = fd) (pq_hash q ! hash_fd fd)"

definition pending :: "packqueue option \<Rightarrow> i32 \<Rightarrow> bytes" where
  "pending L fd = (case entry (get_queue L) fd of None \<Rightarrow> [] | Some uc \<Rightarrow> uc_text uc)"

lemma pending_Some: "pending (Some (get_queue L)) = pending L"
  by (simp add: pending_def get_queue_def fun_eq_iff)

lemma hash_fd_less [simp]: "hash_fd fd < HASHSIZE"
  by (simp add: hash_fd_def HASHSIZE_def)

lemma uc_text_ne [simp]: "uc_text uc \<noteq> []"
  by (simp add: uc_text_def)

lemma pending_Nil_iff: "pending (Some q) fd = [] \<longleftrightarrow> entry q fd = None"
  by (simp add: pending_def get_queue_def split: option.split)

lemma new_queue_ok: "nq_inv new_queue" "nq_abs new_queue = []" "entry new_queue fd = None"
  by (simp_all add: new_queue_def nq_inv_def ring_ok_def chains_ok_def nq_abs_def ring_len_def entry_def QUEUESIZE_def
      nth_replicate)

text \<open>A chain as a map: an entry added under a new id, and one taken out.\<close>

lemma find_append: "List.find P (xs @ ys) = (case List.find P xs of None \<Rightarrow> List.find P ys | Some x \<Rightarrow> Some x)"
  by (induction xs) auto

lemma entry_Some:
  assumes "nq_inv q" and "entry q fd = Some uc"
  shows "uc_id uc = fd" and "uc_ok uc"
proof -
  have "uc \<in> set (pq_hash q ! hash_fd fd) \<and> uc_id uc = fd"
    using assms(2) by (auto simp: entry_def find_Some_iff in_set_conv_nth)
  with assms(1) show "uc_id uc = fd" "uc_ok uc" by (auto simp: nq_inv_def chains_ok_def dest: spec [of _ "hash_fd fd"])
qed

lemma entry_None: "entry q fd = None \<longleftrightarrow> fd \<notin> uc_id ` set (pq_hash q ! hash_fd fd)"
  by (auto simp: entry_def find_None_iff)

lemma add_uncomplete_ok:
  assumes "nq_inv q" and "entry q (uc_id uc) = None" and "uc_ok uc"
  shows "nq_inv (add_uncomplete q uc)" and "entry (add_uncomplete q uc) = (entry q)(uc_id uc \<mapsto> uc)"
    and "nq_abs (add_uncomplete q uc) = nq_abs q"
proof -
  have len: "List.length (pq_hash q) = HASHSIZE" using assms(1) by (simp add: nq_inv_def chains_ok_def)
  show "nq_inv (add_uncomplete q uc)"
    using assms entry_None [of q "uc_id uc"]
    by (auto simp: nq_inv_def ring_ok_def chains_ok_def add_uncomplete_def Let_def nth_list_update)
  show "entry (add_uncomplete q uc) = (entry q)(uc_id uc \<mapsto> uc)"
    using len by (auto simp: fun_eq_iff entry_def add_uncomplete_def Let_def nth_list_update)
  show "nq_abs (add_uncomplete q uc) = nq_abs q" by (simp add: nq_abs_def add_uncomplete_def Let_def)
qed

lemma extract_find: "List.find P xs = map_option (\<lambda>(ys, y, zs). y) (List.extract P xs)"
  by (induction xs) (auto simp: extract_Nil_code extract_Cons_code split: option.split)

lemma find_uncomplete_None:
  assumes "entry (get_queue L) fd = None"
  shows "find_uncomplete L fd = (None, L)"
  using assms by (auto simp: find_uncomplete_def get_queue_def entry_def extract_find split: option.splits)

lemma find_uncomplete_Some:
  assumes "opt = Some q" and "nq_inv q" and "entry q fd = Some uc"
  obtains q' where "find_uncomplete opt fd = (Some uc, Some q')" "nq_inv q'" "entry q' = (entry q)(fd := None)"
    "nq_abs q' = nq_abs q"
proof -
  let ?h = "hash_fd fd"
  have len: "List.length (pq_hash q) = HASHSIZE" using assms(2) by (simp add: nq_inv_def chains_ok_def)
  obtain ys y zs where e: "List.extract (\<lambda>uc. uc_id uc = fd) (pq_hash q ! ?h) = Some (ys, y, zs)"
    using assms(3) unfolding entry_def extract_find by auto
  with assms(3) have y: "y = uc" by (simp add: entry_def extract_find)
  from e have split: "pq_hash q ! ?h = ys @ y # zs" and id: "uc_id y = fd" by (auto simp: extract_Some_iff)
  let ?q = "q\<lparr>pq_hash := (pq_hash q)[?h := ys @ zs]\<rparr>"
  have chain: "distinct (map uc_id (pq_hash q ! ?h))" "\<forall>uc \<in> set (pq_hash q ! ?h). hash_fd (uc_id uc) = ?h \<and> uc_ok uc"
    using assms(2) hash_fd_less [of fd] unfolding nq_inv_def chains_ok_def by blast+
  have "nq_inv ?q"
    using assms(2) chain unfolding split by (auto simp: nq_inv_def ring_ok_def chains_ok_def nth_list_update)
  moreover have "entry ?q = (entry q)(fd := None)"
  proof
    fix g show "entry ?q g = ((entry q)(fd := None)) g"
    proof (cases "g = fd")
      case True
      then show ?thesis using chain(1) id len unfolding split by (auto simp: entry_None)
    next
      case False
      then show ?thesis using id len split by (auto simp: entry_def nth_list_update find_append split: option.split)
    qed
  qed
  moreover have "nq_abs ?q = nq_abs q" by (simp add: nq_abs_def)
  ultimately show ?thesis
    using that [of ?q] assms(1) e y by (auto simp: find_uncomplete_def)
qed

section \<open>The ring\<close>

lemma push_data_sound:
  assumes "nq_inv (get_queue L)"
  shows "nq_abs (push_data L fd bs) = nq_abs (get_queue L) @ [\<lparr>np_id = fd, np_buffer = bs\<rparr>]"
    and "nq_inv (push_data L fd bs)" and "entry (push_data L fd bs) = entry (get_queue L)"
proof -
  define q where "q = get_queue L"
  let ?np = "\<lparr>np_id = fd, np_buffer = bs\<rparr>"
  let ?t = "Suc (pq_tail q) mod pq_cap q" and ?n = "ring_len (pq_cap q) (pq_head q) (pq_tail q)"
  let ?q1 = "q\<lparr>pq_tail := ?t, pq_queue := (pq_queue q)[pq_tail q := ?np]\<rparr>"
  have ok: "ring_ok q" "chains_ok q" using assms by (simp_all add: nq_inv_def q_def)
  then have wrap: "(if pq_cap q \<le> Suc (pq_tail q) then Suc (pq_tail q) - pq_cap q else Suc (pq_tail q)) = ?t"
    using wrap_index [of "pq_tail q" "pq_cap q"] by (auto simp: ring_ok_def split: if_splits)
  then have run: "push_data L fd bs = (if pq_head q = ?t then netpack_expand_queue ?q1 else ?q1)"
    by (simp add: push_data_def q_def [symmetric] Let_def)
  have written: "ring_list (pq_queue ?q1) (pq_cap q) (pq_head q) (Suc ?n) = nq_abs q @ [?np]"
    using ok(1) ring_list_write [of ?n "pq_cap q" "pq_queue q" "pq_head q" ?np]
    by (simp add: ring_ok_def ring_arith nq_abs_def)
  show "nq_abs (push_data L fd bs) = nq_abs (get_queue L) @ [?np]"
  proof (cases "pq_head q = ?t")
    case True
    have full: "Suc ?n = pq_cap q" using ok(1) ring_len_full [OF _ _ True [symmetric]] by (simp add: ring_ok_def)
    let ?old = "ring_list (pq_queue ?q1) (pq_cap q) (pq_head q) (pq_cap q)"
    have "nq_abs (netpack_expand_queue ?q1) = ring_list (?old @ replicate QUEUESIZE blank) (pq_cap q + QUEUESIZE) 0 (pq_cap q)"
      by (simp add: nq_abs_def netpack_expand_queue_def ring_len_def) (simp add: ring_list_def)
    also have "\<dots> = take (pq_cap q) (?old @ replicate QUEUESIZE blank)"
      by (rule ring_list_linear) simp_all
    also have "\<dots> = ?old" by simp
    also have "\<dots> = nq_abs q @ [?np]" using written unfolding full .
    finally show ?thesis using True run by (simp add: q_def)
  next
    case False
    then have "ring_len (pq_cap q) (pq_head q) ?t = Suc ?n"
      using ok(1) ring_len_push [of "pq_head q" "pq_cap q" "pq_tail q"] by (auto simp: ring_ok_def)
    then show ?thesis using False run written by (simp add: nq_abs_def q_def)
  qed
  show "nq_inv (push_data L fd bs)"
    using ok by (auto simp: run nq_inv_def ring_ok_def chains_ok_def netpack_expand_queue_def QUEUESIZE_def)
  show "entry (push_data L fd bs) = entry (get_queue L)"
    by (auto simp: run q_def fun_eq_iff entry_def netpack_expand_queue_def)
qed

lemma lpop_sound:
  assumes "nq_inv q"
  shows "nq_abs q = [] \<Longrightarrow> lpop q = (None, q)"
    and "nq_abs q = np # nps \<Longrightarrow> lpop q = (Some np, q\<lparr>pq_head := Suc (pq_head q) mod pq_cap q\<rparr>)
      \<and> nq_abs (q\<lparr>pq_head := Suc (pq_head q) mod pq_cap q\<rparr>) = nps"
    and "nq_inv (snd (lpop q))" and "entry (snd (lpop q)) = entry q"
proof -
  have ok: "ring_ok q" using assms by (simp add: nq_inv_def)
  note wrap = wrap_index [of "pq_head q" "pq_cap q"]
  have len: "List.length (nq_abs q) = ring_len (pq_cap q) (pq_head q) (pq_tail q)" by (simp add: nq_abs_def)
  then have "nq_abs q = [] \<longleftrightarrow> pq_head q = pq_tail q"
    using ring_len_0_iff [of "pq_head q" "pq_cap q" "pq_tail q"] ok by (auto simp: ring_ok_def)
  note empty = this
  show "nq_abs q = [] \<Longrightarrow> lpop q = (None, q)" by (simp add: lpop_def empty)
  show "nq_abs q = np # nps \<Longrightarrow> lpop q = (Some np, q\<lparr>pq_head := Suc (pq_head q) mod pq_cap q\<rparr>)
      \<and> nq_abs (q\<lparr>pq_head := Suc (pq_head q) mod pq_cap q\<rparr>) = nps"
    using ok empty wrap ring_len_pop [of "pq_head q" "pq_cap q" "pq_tail q"]
    by (auto simp: lpop_def nq_abs_def ring_ok_def ring_list_Suc)
  show "nq_inv (snd (lpop q))" using assms by (auto simp: lpop_def nq_inv_def ring_ok_def chains_ok_def)
  show "entry (snd (lpop q)) = entry q" by (auto simp: lpop_def fun_eq_iff entry_def)
qed

interpretation netq: fifo "\<lambda>q np. push_data (Some q) (np_id np) (np_buffer np)" lpop nq_abs nq_inv
proof
  fix q and np :: netpack and nps assume inv: "nq_inv q"
  then have g: "nq_inv (get_queue (Some q))" by (simp add: get_queue_def)
  show "nq_inv (push_data (Some q) (np_id np) (np_buffer np))" by (rule push_data_sound [OF g])
  show "nq_abs (push_data (Some q) (np_id np) (np_buffer np)) = nq_abs q @ [np]"
    by (simp add: push_data_sound [OF g]) (simp add: get_queue_def)
  show "nq_inv (snd (lpop q))" by (rule lpop_sound(3) [OF inv])
  show "nq_abs q = [] \<Longrightarrow> fst (lpop q) = None \<and> nq_abs (snd (lpop q)) = []" using lpop_sound(1) [OF inv] by simp
  show "nq_abs q = np # nps \<Longrightarrow> fst (lpop q) = Some np \<and> nq_abs (snd (lpop q)) = nps" using lpop_sound(2) [OF inv] by simp
qed

lemma pop_all_sound:
  "nq_inv q \<Longrightarrow> \<exists>q'. pop_all q = (map (\<lambda>np. (np_id np, np_buffer np)) (nq_abs q), q') \<and> nq_inv q' \<and> nq_abs q' = []
     \<and> entry q' = entry q"
proof (induction "nq_abs q" arbitrary: q)
  case Nil
  then show ?case using lpop_sound(1) [OF Nil(2)] by (subst pop_all.simps) (auto simp: nq_inv_def ring_ok_def)
next
  case (Cons np nps)
  have q: "pq_head q < pq_cap q \<and> pq_tail q < pq_cap q" using Cons.prems by (simp add: nq_inv_def ring_ok_def)
  obtain q1 where q1: "lpop q = (Some np, q1)" "nq_abs q1 = nps" using lpop_sound(2) [OF Cons.prems Cons.hyps(2) [symmetric]] by blast
  have "nq_inv q1" "entry q1 = entry q" using lpop_sound(3,4) [OF Cons.prems] q1(1) by simp_all
  with Cons.hyps(1) [of q1] q1(2) obtain q' where "pop_all q1 = (map (\<lambda>np. (np_id np, np_buffer np)) nps, q')" "nq_inv q'"
    "nq_abs q' = []" "entry q' = entry q" by auto
  with q q1(1) Cons.hyps(2) show ?case by (subst pop_all.simps) (auto simp: Cons.hyps(2) [symmetric])
qed

section \<open>Cutting the text into messages\<close>

abbreviation pack :: "i32 \<Rightarrow> bytes \<Rightarrow> netpack" where
  "pack fd m \<equiv> \<lparr>np_id = fd, np_buffer = m\<rparr>"

text \<open>The queue got the messages \<open>fs\<close>, and the text \<open>t\<close> waits.\<close>

definition cut :: "packqueue option \<Rightarrow> packqueue \<Rightarrow> i32 \<Rightarrow> bytes list \<Rightarrow> bytes \<Rightarrow> bool" where
  "cut L q fd fs t \<longleftrightarrow> nq_inv q \<and> nq_abs q = nq_abs (get_queue L) @ map (pack fd) fs
     \<and> pending (Some q) = (pending L)(fd := t)"

lemma pending_entry: "entry q = (entry q0)(fd := e) \<Longrightarrow>
    pending (Some q) = (pending (Some q0))(fd := (case e of None \<Rightarrow> [] | Some uc \<Rightarrow> uc_text uc))"
  by (auto simp: pending_def get_queue_def)

lemma get_Some [simp]: "get_queue (Some q) = q"
  by (simp add: get_queue_def)

lemma add_cut:
  assumes "nq_inv (get_queue L)" and "pending L (uc_id uc) = []" and "uc_ok uc" and "uc_text uc = t"
  shows "cut L (add_uncomplete (get_queue L) uc) (uc_id uc) [] t"
proof -
  have "entry (get_queue L) (uc_id uc) = None" using assms(2) pending_Nil_iff pending_Some by metis
  note add = add_uncomplete_ok [OF assms(1) this assms(3)]
  show ?thesis
    unfolding cut_def using add(1,3) pending_entry [OF add(2)] assms(4) by (simp add: pending_Some)
qed

lemma save_part_cut:
  assumes "nq_inv (get_queue L)" and "pending L fd = []" and "List.length b < be16 hi lo"
  shows "cut L (save_part L fd (be16 hi lo) b) fd [] (hi # lo # b)"
  using add_cut [of L "\<lparr>uc_id = fd, uc_size = be16 hi lo, uc_buffer = b, uc_read = int (List.length b), uc_header = 0\<rparr>"]
    assms be16_bound [of hi lo]
  by (simp add: save_part_def uc_ok_def uc_text_def be16_parts)

lemma save_header_cut:
  assumes "nq_inv (get_queue L)" and "pending L fd = []"
  shows "cut L (save_header L fd b) fd [] [b]"
  using add_cut [of L "\<lparr>uc_id = fd, uc_size = 0, uc_buffer = [], uc_read = - 1, uc_header = b\<rparr>"] assms
  by (simp add: save_header_def uc_ok_def uc_text_def)

lemma push_data_cut:
  assumes "nq_inv (get_queue L)" and "pending L fd = []"
  shows "cut L (push_data L fd m) fd [m] []"
  unfolding cut_def using push_data_sound [OF assms(1), of fd m] assms(2)
  by (auto simp: pending_def fun_eq_iff)

lemma cut_trans: "cut L q fd fs s \<Longrightarrow> cut (Some q) q' fd gs t \<Longrightarrow> cut L q' fd (fs @ gs) t"
  by (simp add: cut_def)

lemma cut_nq_inv: "cut L q fd fs t \<Longrightarrow> nq_inv q" and cut_pending: "cut L q fd fs t \<Longrightarrow> pending (Some q) fd = t"
  by (simp_all add: cut_def)

lemma push_more_cut:
  "b \<noteq> [] \<Longrightarrow> nq_inv (get_queue L) \<Longrightarrow> pending L fd = [] \<Longrightarrow> split_frames b = (fs, t) \<Longrightarrow>
     \<exists>q. push_more L fd b = Some q \<and> cut L q fd fs t"
proof (induction L fd b arbitrary: fs t rule: push_more.induct)
  case (1 L fd)
  then show ?case by simp
next
  case (2 L fd b)
  then have "fs = []" "t = [b]" by simp_all
  then show ?case using save_header_cut [of L fd b] 2 by simp
next
  case (3 L fd hi lo buffer)
  let ?n = "be16 hi lo" and ?q = "push_data L fd (take (be16 hi lo) buffer)"
  show ?case
  proof (cases "List.length buffer < ?n")
    case True
    then have "fs = []" "t = hi # lo # buffer" using 3(5) by simp_all
    then show ?thesis using 3 True save_part_cut [of L fd buffer hi lo] by simp
  next
    case False
    obtain gs where f: "fs = take ?n buffer # gs" "split_frames (drop ?n buffer) = (gs, t)"
      using 3(5) False by (auto split: prod.splits)
    have c: "cut L ?q fd [take ?n buffer] []" using 3 by (intro push_data_cut)
    show ?thesis
    proof (cases "drop ?n buffer = []")
      case True
      then show ?thesis using False f c by simp
    next
      case more: False
      obtain q where "push_more (Some ?q) fd (drop ?n buffer) = Some q" "cut (Some ?q) q fd gs t"
        using 3(1) [OF False refl refl more more _ _ f(2)] cut_nq_inv [OF c] cut_pending [OF c] by auto
      then show ?thesis using False more f(1) cut_trans [OF c] by auto
    qed
  qed
qed

text \<open>The result of a filter call against the reference parser.\<close>

definition filtered_ok :: "packqueue option \<Rightarrow> i32 \<Rightarrow> bytes \<Rightarrow> filtered \<Rightarrow> packqueue option \<Rightarrow> bool" where
  "filtered_ok L fd buffer r L' \<longleftrightarrow>
     (\<exists>fs t. split_frames (pending L fd @ buffer) = (fs, t) \<and> nq_inv (get_queue L') \<and> pending L' = (pending L)(fd := t)
        \<and> (case r of
             Nothing \<Rightarrow> fs = [] \<and> nq_abs (get_queue L') = nq_abs (get_queue L)
           | F_data fd' m \<Rightarrow> fd' = fd \<and> fs = [m] \<and> nq_abs (get_queue L') = nq_abs (get_queue L)
           | F_more \<Rightarrow> L' \<noteq> None \<and> nq_abs (get_queue L') = nq_abs (get_queue L) @ map (pack fd) fs
           | _ \<Rightarrow> False))"

lemma filtered_cut:
  assumes "cut L0 q fd gs t" and "split_frames (pending L fd @ buffer) = (gs, t)"
    and "\<And>g. g \<noteq> fd \<Longrightarrow> pending L0 g = pending L g" and "nq_abs (get_queue L0) = nq_abs (get_queue L)"
  shows "gs = [] \<Longrightarrow> filtered_ok L fd buffer Nothing (Some q)" and "filtered_ok L fd buffer F_more (Some q)"
proof -
  have "pending (Some q) = (pending L)(fd := t)" using assms(1,3) by (auto simp: cut_def fun_eq_iff)
  then show "gs = [] \<Longrightarrow> filtered_ok L fd buffer Nothing (Some q)" "filtered_ok L fd buffer F_more (Some q)"
    using assms(1,2,4) by (simp_all add: filtered_ok_def cut_def)
qed

lemma fill_part:
  assumes inv: "nq_inv q" "pending (Some q) fd = []" and uc: "uc_id uc = fd" "uc_size uc = be16 hi lo" "uc_read uc = int (List.length (uc_buffer uc))"
    and len: "List.length (uc_buffer uc) < be16 hi lo \<or> uc_buffer uc = []"
    and str: "pending L fd @ data = hi # lo # uc_buffer uc @ buffer" and rest: "\<And>g. g \<noteq> fd \<Longrightarrow> pending (Some q) g = pending L g"
    and abs: "nq_abs q = nq_abs (get_queue L)"
  shows "\<exists>r q'. fill_uncomplete q uc buffer = Some (r, q') \<and> filtered_ok L fd data r (Some q')"
proof -
  let ?n = "be16 hi lo" and ?b = "uc_buffer uc"
  let ?need = "?n - List.length ?b"
  have whole: "?b @ take ?need buffer = take ?n (?b @ buffer)" "drop ?need buffer = drop ?n (?b @ buffer)"
    using len by auto
  have run: "fill_uncomplete q uc buffer =
      (if List.length buffer < ?need then Some (Nothing, add_uncomplete q (uc\<lparr>uc_buffer := ?b @ buffer,
              uc_read := uc_read uc + int (List.length buffer)\<rparr>))
          else if drop ?n (?b @ buffer) = [] then Some (F_data fd (take ?n (?b @ buffer)), q)
          else map_option (Pair F_more) (push_more (Some (push_data (Some q) fd (take ?n (?b @ buffer)))) fd (drop ?n (?b @ buffer))))"
    using uc whole by (simp add: fill_uncomplete_def Let_def)
  note L0 = filtered_cut [of "Some q" _ fd, OF _ _ rest]
  show ?thesis
  proof (cases "List.length buffer < ?need")
    case True
    let ?uc = "uc\<lparr>uc_buffer := ?b @ buffer, uc_read := uc_read uc + int (List.length buffer)\<rparr>"
    have "cut (Some q) (add_uncomplete q ?uc) fd [] (hi # lo # ?b @ buffer)"
      using add_cut [of "Some q" ?uc] inv uc True be16_bound [of hi lo]
      by (simp add: uc_ok_def uc_text_def be16_parts)
    moreover have "\<not> ?n \<le> List.length (?b @ buffer)" using True by simp
    then have "split_frames (pending L fd @ data) = ([], hi # lo # ?b @ buffer)" unfolding str by simp
    ultimately have "filtered_ok L fd data Nothing (Some (add_uncomplete q ?uc))" using L0(1) abs by simp
    then show ?thesis using run True by simp
  next
    case False
    then have n: "?n \<le> List.length (?b @ buffer)" by auto
    obtain gs t where f: "split_frames (drop ?n (?b @ buffer)) = (gs, t)" by force
    with n str have split: "split_frames (pending L fd @ data) = (take ?n (?b @ buffer) # gs, t)" by simp
    show ?thesis
    proof (cases "drop ?n (?b @ buffer) = []")
      case True
      then have "gs = []" "t = []" using f by simp_all
      moreover have "pending (Some q) = (pending L)(fd := [])" using rest inv(2) by (auto simp: fun_eq_iff)
      ultimately show ?thesis using run False True split inv(1) abs by (simp add: filtered_ok_def)
    next
      case more: False
      let ?q = "push_data (Some q) fd (take ?n (?b @ buffer))"
      have c: "cut (Some q) ?q fd [take ?n (?b @ buffer)] []" using inv by (intro push_data_cut) simp_all
      obtain q' where q': "push_more (Some ?q) fd (drop ?n (?b @ buffer)) = Some q'" "cut (Some ?q) q' fd gs t"
        using push_more_cut [OF more _ _ f, of "Some ?q"] cut_nq_inv [OF c] cut_pending [OF c] by auto
      have "fill_uncomplete q uc buffer = Some (F_more, q')"
        unfolding run if_not_P [OF False] if_not_P [OF more] q'(1) by simp
      moreover have "filtered_ok L fd data F_more (Some q')"
        by (rule L0(2) [OF cut_trans [OF c q'(2)]]) (simp_all add: split abs)
      ultimately show ?thesis by blast
    qed
  qed
qed

lemma filter_data_ok:
  assumes inv: "nq_inv (get_queue L)" and ne: "buffer \<noteq> []"
  shows "\<exists>r L'. filter_data L fd buffer = Some (r, L') \<and> filtered_ok L fd buffer r L'"
proof (cases "entry (get_queue L) fd")
  case None
  then have p: "pending L fd = []" using pending_Nil_iff pending_Some by metis
  note run = filter_data_def [of L fd buffer, unfolded find_uncomplete_None [OF None], simplified]
  note L0 = filtered_cut [of L _ fd]
  consider b where "buffer = [b]" | hi lo rest where "buffer = hi # lo # rest" using ne by (metis list.exhaust)
  then show ?thesis
  proof cases
    case 1
    with save_header_cut [OF inv p] L0(1) [of "save_header L fd b" "[]" "[b]"] run p show ?thesis by simp
  next
    case 2
    let ?n = "be16 hi lo"
    consider "List.length rest < ?n" | "List.length rest = ?n" | "?n < List.length rest" by linarith
    then show ?thesis
    proof cases
      case 1
      with save_part_cut [OF inv p 1] L0(1) [of "save_part L fd ?n rest" "[]" buffer] run p 2 show ?thesis by simp
    next
      case eq: 2
      then have "split_frames (pending L fd @ buffer) = ([rest], [])" using 2 p by simp
      moreover have "(pending L)(fd := []) = pending L" using p fun_upd_triv [of "pending L" fd] by simp
      ultimately show ?thesis using run eq 2 inv by (simp add: filtered_ok_def)
    next
      case 3
      let ?q = "push_data L fd (take ?n rest)"
      have c: "cut L ?q fd [take ?n rest] []" using inv p by (rule push_data_cut)
      obtain gs t where f: "split_frames (drop ?n rest) = (gs, t)" by force
      have more: "drop ?n rest \<noteq> []" using 3 by simp
      obtain q' where q': "push_more (Some ?q) fd (drop ?n rest) = Some q'" "cut (Some ?q) q' fd gs t"
        using push_more_cut [OF more _ _ f, of "Some ?q"] cut_nq_inv [OF c] cut_pending [OF c] by auto
      have "split_frames (pending L fd @ buffer) = (take ?n rest # gs, t)" using 2 3 p f by simp
      with L0(2) [OF cut_trans [OF c q'(2)], where buffer = buffer] show ?thesis using run 2 3 q'(1) by simp
    qed
  qed
next
  case (Some uc)
  then obtain q0 where L: "L = Some q0" by (cases L) (simp_all add: new_queue_ok get_queue_def)
  from find_uncomplete_Some [OF L _ Some [unfolded L get_Some]] inv obtain q where q: "find_uncomplete L fd = (Some uc, Some q)"
    "nq_inv q" "entry q = (entry q0)(fd := None)" "nq_abs q = nq_abs q0" by (auto simp: L)
  have uc: "uc_id uc = fd" "uc_ok uc" using entry_Some [OF inv Some] by simp_all
  have p: "pending L fd = uc_text uc" using Some by (simp add: pending_def)
  have p': "pending (Some q) = (pending L)(fd := [])" using pending_entry [OF q(3)] by (simp add: L)
  have run: "filter_data L fd buffer = map_option (\<lambda>(r, q). (r, Some q)) (fill_uncomplete q uc buffer)"
    using q(1) by (simp add: filter_data_def)
  show ?thesis
  proof (cases "uc_read uc < 0")
    case True
    then have "uc_read uc = - 1" using uc(2) by (auto simp: uc_ok_def)
    obtain lo rest where b: "buffer = lo # rest" using ne by (cases buffer) auto
    let ?uc = "uc\<lparr>uc_size := be16 (uc_header uc) lo, uc_buffer := [], uc_read := 0\<rparr>"
    have "fill_uncomplete q uc buffer = fill_uncomplete q ?uc rest"
      using \<open>uc_read uc = - 1\<close> b by (simp add: fill_uncomplete_def)
    moreover have "pending L fd @ buffer = uc_header uc # lo # uc_buffer ?uc @ rest" using p True b by (simp add: uc_text_def)
    ultimately show ?thesis
      using fill_part [of q fd ?uc "uc_header uc" lo L buffer rest] q(2,4) p' uc(1) run L by auto
  next
    case False
    then have r: "uc_read uc = int (List.length (uc_buffer uc))" "List.length (uc_buffer uc) < uc_size uc" "uc_size uc < 2 ^ 16"
      using uc(2) by (auto simp: uc_ok_def)
    let ?hi = "of_nat (uc_size uc div 256) :: u8" and ?lo = "of_nat (uc_size uc mod 256) :: u8"
    have n: "be16 ?hi ?lo = uc_size uc" by (rule be16_frame [OF r(3)])
    have "pending L fd @ buffer = ?hi # ?lo # uc_buffer uc @ buffer" using p False by (simp add: uc_text_def)
    then show ?thesis
      using fill_part [of q fd uc ?hi ?lo L buffer buffer] q(2,4) p' uc(1) run L r n by auto
  qed
qed

lemma dispatch_data_ok:
  assumes "nq_inv (get_queue L) \<and> nq_abs (get_queue L) = []" and "c \<noteq> []"
  shows "\<exists>L'. (nq_inv (get_queue L') \<and> nq_abs (get_queue L') = [])
    \<and> pending L' = (pending L)(fd := snd (split_frames (pending L fd @ c)))
    \<and> dispatch_data L fd c = Some (map (Pair fd) (fst (split_frames (pending L fd @ c))), L')"
proof -
  obtain r L' where f: "filter_data L fd c = Some (r, L')" "filtered_ok L fd c r L'"
    using filter_data_ok [of L c fd] assms by auto
  then obtain fs t where s: "split_frames (pending L fd @ c) = (fs, t)" "nq_inv (get_queue L')" "pending L' = (pending L)(fd := t)"
    "case r of Nothing \<Rightarrow> fs = [] \<and> nq_abs (get_queue L') = []
       | F_data fd' m \<Rightarrow> fd' = fd \<and> fs = [m] \<and> nq_abs (get_queue L') = []
       | F_more \<Rightarrow> L' \<noteq> None \<and> nq_abs (get_queue L') = map (pack fd) fs | _ \<Rightarrow> False"
    using assms(1) by (cases r) (auto simp: filtered_ok_def)
  have run: "lfilter L (data_event fd c) = Some (r, L')" using f(1) by (simp add: lfilter_def data_event_def)
  show ?thesis
  proof (cases "r = F_more")
    case True
    then obtain q where q: "L' = Some q" "nq_abs q = map (pack fd) fs" using s(4) by auto
    with s(2) obtain q' where p: "pop_all q = (map (\<lambda>np. (np_id np, np_buffer np)) (nq_abs q), q')" "nq_inv q'" "nq_abs q' = []"
      "entry q' = entry q" using pop_all_sound [of q] by auto
    have "pending (Some q') = pending L'" by (simp add: pending_def fun_eq_iff p(4) q(1))
    then show ?thesis using run True s(1,3) q p by (auto simp: dispatch_data_def comp_def)
  next
    case False
    then show ?thesis using run s by (auto simp: dispatch_data_def split: filtered.splits)
  qed
qed

interpretation netpack: multiplexer split_frames frame "\<lambda>m. List.length m < 2 ^ 16" "\<lambda>bs. True" "\<lambda>L. nq_inv (get_queue L) \<and> nq_abs (get_queue L) = []" pending dispatch_data
  by unfold_locales (rule dispatch_data_ok)

section \<open>Properties\<close>

lemma and_255: "(n :: nat) AND 255 = n mod 256"
  using take_bit_eq_mask [of 8 n] take_bit_eq_mod [of 8 n] by (simp add: mask_eq_exp_minus_1)

lemma write_size_frame:
  assumes "len < 2 ^ 16"
  shows "write_size len = [of_nat (len div 256), of_nat (len mod 256)]"
proof -
  have "drop_bit 8 len AND 255 = len div 256" "len AND 255 = len mod 256"
    using assms and_255 [of "len div 256"] and_255 [of len] by (simp_all add: drop_bit_eq_div)
  then show ?thesis by (simp add: write_size_def)
qed


text \<open>
  C27. Pieces of the streams of any number of sockets, in any interleaving: \<open>netpack\<close> hands over, for
  every socket, exactly the messages it sent, in order and complete, and nothing stays behind. The
  pieces are not empty, and a message has less than \<open>2\<^sup>1\<^sup>6\<close> bytes.
\<close>

theorem netpack_streams:
  assumes "[] \<notin> snd ` set pieces" and "\<And>fd. concat (of_key fd pieces) = concat (map frame (ms fd))"
    and "\<And>fd. \<forall>m \<in> set (ms fd). List.length m < 2 ^ 16"
  shows "\<exists>out L. feed_all (\<lambda>L (fd, c). dispatch_data L fd c) None pieces = Some (out, L)
    \<and> (\<forall>fd. of_key fd out = ms fd \<and> pending L fd = [])"
proof -
  have "nq_inv (get_queue None) \<and> nq_abs (get_queue None) = []" "pending None fd = []" for fd
    by (simp_all add: get_queue_def new_queue_ok pending_def)
  then obtain out L where "feed_all (\<lambda>L (fd, c). dispatch_data L fd c) None pieces = Some (out, L)"
    "split_frames (concat (of_key fd pieces)) = (of_key fd out, pending L fd)" for fd
    using netpack.all_streams [OF _ assms(1), of None] by auto
  then show ?thesis using be16.split_encoded [OF assms(3)] assms(2) by simp
qed

text \<open>Two sockets whose messages arrive in pieces that alternate.\<close>

theorem netpack_streams_witness:
  "\<exists>out L. feed_all (\<lambda>L (fd, c). dispatch_data L fd c) None [(5, [0]), (9, [0, 1, 7, 0]), (5, [2, 72, 105]), (9, [0])] = Some (out, L)
     \<and> of_key 5 out = [[72, 105]] \<and> of_key 9 out = [[7], []]"
proof -
  define ms where "ms = (\<lambda>fd :: i32. if fd = 5 then [[72, 105]] else if fd = 9 then [[7 :: u8], []] else [])"
  have "concat (of_key fd [(5 :: i32, [0]), (9, [0, 1, 7, 0]), (5, [2, 72, 105]), (9, [0])]) = concat (map frame (ms fd))" for fd
    by (simp add: ms_def frame_def)
  moreover have "\<forall>m \<in> set (ms fd). List.length m < 2 ^ 16" for fd
    by (cases "fd = 5"; cases "fd = 9") (simp_all add: ms_def)
  ultimately show ?thesis
    using netpack_streams [of "[(5, [0]), (9, [0, 1, 7, 0]), (5, [2, 72, 105]), (9, [0])]" ms] by (auto simp: ms_def)
qed


end
