(* ===== verification/HarborService.thy ===== *)
theory HarborService
  imports Framing Ring CText Context
begin

text \<open>
  The harbor service of \<open>service-src/service_harbor.c\<close>: the links to the other nodes of the network.
  Messages for a node wait in a queue until its link is up, messages for an unknown name until the
  name is known; on a link a message is four length bytes, the data and twelve bytes of header. A
  buffer is its bytes, and what a handler does to the rest of the process is the list of its calls.
  \<open>he_send\<close> says whether a \<open>skynet_send\<close> is accepted. A failed assertion, an access outside a
  buffer and an endless loop are \<open>None\<close>.
\<close>

section \<open>State and actions\<close>

definition HASH_SIZE :: nat where "HASH_SIZE = 4096"
definition HARBOR_QUEUE_SIZE :: nat where "HARBOR_QUEUE_SIZE = 1024"
definition HEADER_COOKIE_LENGTH :: nat where "HEADER_COOKIE_LENGTH = 12"
definition REMOTE_MAX :: nat where "REMOTE_MAX = 256"

record remote_message_header =
  rh_source :: u32
  rh_destination :: u32
  rh_session :: u32

record harbor_msg =
  hm_header :: remote_message_header
  hm_buffer :: bytes

record harbor_msg_queue =
  hq_size :: nat
  hq_head :: nat
  hq_tail :: nat
  hq_data :: "harbor_msg list"

text \<open>The name is the array of sixteen bytes.\<close>

record keyvalue =
  kv_key :: bytes
  kv_hash :: u32
  kv_value :: u32
  kv_queue :: "harbor_msg_queue option"

datatype slave_status = STATUS_WAIT | STATUS_HANDSHAKE | STATUS_HEADER | STATUS_CONTENT | STATUS_DOWN

text \<open>Of the length bytes and of the content the model keeps what was received.\<close>

record slave =
  sl_fd :: i32
  sl_queue :: "harbor_msg_queue option"
  sl_status :: slave_status
  sl_length :: nat
  sl_read :: nat
  sl_size :: bytes
  sl_recv :: bytes

record harbor =
  hb_id :: i32
  hb_slave :: u32
  hb_map :: "keyvalue list list"
  hb_s :: "slave list"

datatype harbor_action =
    Send u32 u32 i32 i32 bytes
  | Socket_close i32
  | Socket_start i32
  | Socket_send i32 bytes
  | Callback
  | Harbor_start
  | Error string

record harbor_env =
  he_send :: "u32 \<Rightarrow> u32 \<Rightarrow> i32 \<Rightarrow> i32 \<Rightarrow> bytes \<Rightarrow> bool"

text \<open>A handler gives its calls and the new state.\<close>

type_synonym 'a handled = "(harbor_action list \<times> 'a) option"

definition then_do :: "'a handled \<Rightarrow> ('a \<Rightarrow> 'b handled) \<Rightarrow> 'b handled" where
  "then_do x f = Option.bind x (\<lambda>(out, s). map_option (\<lambda>(out', s'). (out @ out', s')) (f s))"

section \<open>Message queues\<close>

definition blank_msg :: harbor_msg where
  "blank_msg = \<lparr>hm_header = \<lparr>rh_source = 0, rh_destination = 0, rh_session = 0\<rparr>, hm_buffer = []\<rparr>"

definition harbor_new_queue :: harbor_msg_queue where
  "harbor_new_queue = \<lparr>hq_size = HARBOR_QUEUE_SIZE, hq_head = 0, hq_tail = 0, hq_data = replicate HARBOR_QUEUE_SIZE blank_msg\<rparr>"

definition push_queue_msg :: "harbor_msg_queue \<Rightarrow> harbor_msg \<Rightarrow> harbor_msg_queue" where
  "push_queue_msg q m =
     (let q1 = (if Suc (hq_tail q) mod hq_size q = hq_head q then
                  q\<lparr>hq_data := map (\<lambda>i. hq_data q ! ((i + hq_head q) mod hq_size q)) [0..<hq_size q - 1]
                                 @ replicate (Suc (hq_size q)) blank_msg,
                    hq_head := 0, hq_tail := hq_size q - 1, hq_size := hq_size q * 2\<rparr>
                else q)
      in q1\<lparr>hq_data := (hq_data q1)[hq_tail q1 := m], hq_tail := Suc (hq_tail q1) mod hq_size q1\<rparr>)"

definition push_queue :: "harbor_msg_queue \<Rightarrow> bytes \<Rightarrow> remote_message_header \<Rightarrow> harbor_msg_queue" where
  "push_queue q buffer header = push_queue_msg q \<lparr>hm_header = header, hm_buffer = buffer\<rparr>"

definition pop_queue :: "harbor_msg_queue \<Rightarrow> harbor_msg option \<times> harbor_msg_queue" where
  "pop_queue q =
     (if hq_head q = hq_tail q then (None, q)
      else (Some (hq_data q ! hq_head q), q\<lparr>hq_head := Suc (hq_head q) mod hq_size q\<rparr>))"

text \<open>
  The loops \<open>while ((m = pop_queue(queue)) != NULL)\<close>: what they pop. A queue holds less messages than
  its size, the fuel they are given.
\<close>

fun pop_loop :: "nat \<Rightarrow> harbor_msg_queue \<Rightarrow> harbor_msg list option" where
  "pop_loop 0 q = None"
| "pop_loop (Suc n) q =
     (case pop_queue q of
        (None, _) \<Rightarrow> Some []
      | (Some m, q1) \<Rightarrow> map_option (Cons m) (pop_loop n q1))"

definition release_queue :: "harbor_msg_queue option \<Rightarrow> bytes list option" where
  "release_queue q =
     (case q of None \<Rightarrow> Some [] | Some q \<Rightarrow> map_option (map hm_buffer) (pop_loop (hq_size q) q))"

section \<open>Names\<close>

definition word_at :: "bytes \<Rightarrow> nat \<Rightarrow> u32" where
  "word_at bs i = push_bit 24 (ucast (bs ! (i + 3))) OR push_bit 16 (ucast (bs ! (i + 2)))
     OR push_bit 8 (ucast (bs ! (i + 1))) OR ucast (bs ! i)"

definition name_hash :: "bytes \<Rightarrow> u32" where
  "name_hash name = word_at name 0 XOR word_at name 4 XOR word_at name 8 XOR word_at name 12"

definition c_bytes :: "bytes \<Rightarrow> bytes" where
  "c_bytes name = takeWhile (\<lambda>b. b \<noteq> 0) (take GLOBALNAME_LENGTH name)"

definition is_name :: "bytes \<Rightarrow> keyvalue \<Rightarrow> bool" where
  "is_name name node \<longleftrightarrow> kv_hash node = name_hash name \<and> c_bytes (kv_key node) = c_bytes name"

definition bucket :: "bytes \<Rightarrow> nat" where
  "bucket name = unat (name_hash name) mod HASH_SIZE"

definition hash_search :: "keyvalue list list \<Rightarrow> bytes \<Rightarrow> keyvalue option" where
  "hash_search hm name = List.find (is_name name) (hm ! bucket name)"

definition hash_insert :: "keyvalue list list \<Rightarrow> bytes \<Rightarrow> keyvalue \<times> keyvalue list list" where
  "hash_insert hm name =
     (let node = \<lparr>kv_key = take GLOBALNAME_LENGTH name, kv_hash = name_hash name, kv_value = 0, kv_queue = None\<rparr> in
      (node, hm[bucket name := node # (hm ! bucket name)]))"

text \<open>The code changes a node through its pointer, the first one of the name.\<close>

fun replace_first :: "('a \<Rightarrow> bool) \<Rightarrow> 'a \<Rightarrow> 'a list \<Rightarrow> 'a list" where
  "replace_first P y [] = []"
| "replace_first P y (x # xs) = (if P x then y # xs else x # replace_first P y xs)"

definition set_node :: "keyvalue list list \<Rightarrow> bytes \<Rightarrow> keyvalue \<Rightarrow> keyvalue list list" where
  "set_node hm name node = hm[bucket name := replace_first (is_name name) node (hm ! bucket name)]"

definition hash_new :: "keyvalue list list" where
  "hash_new = replicate HASH_SIZE []"

text \<open>The messages that are freed with the table.\<close>

definition hash_delete :: "keyvalue list list \<Rightarrow> bytes list option" where
  "hash_delete hm =
     (let queues = map kv_queue (concat (take HASH_SIZE hm)) in
      if list_all (\<lambda>q. release_queue q \<noteq> None) queues
      then Some (concat (map (\<lambda>q. the (release_queue q)) queues)) else None)"

section \<open>Links\<close>

definition put_slave :: "harbor \<Rightarrow> nat \<Rightarrow> slave \<Rightarrow> harbor" where
  "put_slave h i s = h\<lparr>hb_s := (hb_s h)[i := s]\<rparr>"

definition close_harbor :: "harbor \<Rightarrow> nat \<Rightarrow> harbor handled" where
  "close_harbor h i =
     (let s = hb_s h ! i in
      map_option
        (\<lambda>_. (if sl_fd s \<noteq> 0 then [Socket_close (sl_fd s)] else [],
              put_slave h i (s\<lparr>sl_status := STATUS_DOWN, sl_queue := None\<rparr>)))
        (release_queue (sl_queue s)))"

definition text_bytes :: "string \<Rightarrow> bytes" where
  "text_bytes s = map (\<lambda>ch. of_nat (of_char ch)) s"

definition bytes_text :: "bytes \<Rightarrow> string" where
  "bytes_text bs = map (\<lambda>b. char_of (unat b)) bs"

definition report_harbor_down :: "harbor \<Rightarrow> nat \<Rightarrow> harbor_action list" where
  "report_harbor_down h i = [Send 0 (hb_slave h) (of_nat PTYPE_TEXT) 0 (text_bytes (''D '' @ print_d (int i)))]"

definition blank_slave :: slave where
  "blank_slave = \<lparr>sl_fd = 0, sl_queue = None, sl_status = STATUS_WAIT, sl_length = 0, sl_read = 0, sl_size = [0, 0, 0, 0], sl_recv = []\<rparr>"

definition harbor_create :: harbor where
  "harbor_create = \<lparr>hb_id = 0, hb_slave = 0, hb_map = hash_new, hb_s = replicate REMOTE_MAX blank_slave\<rparr>"

fun release_loop :: "nat list \<Rightarrow> harbor \<Rightarrow> harbor handled" where
  "release_loop [] h = Some ([], h)"
| "release_loop (i # is) h =
     then_do (if sl_fd (hb_s h ! i) \<noteq> 0 \<and> sl_status (hb_s h ! i) \<noteq> STATUS_DOWN then close_harbor h i else Some ([], h))
       (release_loop is)"

definition harbor_release :: "harbor \<Rightarrow> harbor_action list option" where
  "harbor_release h =
     Option.bind (release_loop [1..<REMOTE_MAX] h) (\<lambda>(out, h1). map_option (\<lambda>_. out) (hash_delete (hb_map h1)))"

definition to_bigendian :: "u32 \<Rightarrow> bytes" where
  "to_bigendian n = [ucast (drop_bit 24 n AND 0xff), ucast (drop_bit 16 n AND 0xff), ucast (drop_bit 8 n AND 0xff), ucast (n AND 0xff)]"

definition header_to_message :: "remote_message_header \<Rightarrow> bytes" where
  "header_to_message header =
     to_bigendian (rh_source header) @ to_bigendian (rh_destination header) @ to_bigendian (rh_session header)"

text \<open>The argument is the word's bytes as they lie in memory.\<close>

definition from_bigendian :: "bytes \<Rightarrow> u32" where
  "from_bigendian b = push_bit 24 (ucast (b ! 0)) OR push_bit 16 (ucast (b ! 1)) OR push_bit 8 (ucast (b ! 2)) OR ucast (b ! 3)"

definition message_to_header :: "bytes \<Rightarrow> remote_message_header" where
  "message_to_header message =
     \<lparr>rh_source = from_bigendian (take 4 message), rh_destination = from_bigendian (take 4 (drop 4 message)),
      rh_session = from_bigendian (take 4 (drop 8 message))\<rparr>"

definition forward_local_messsage :: "harbor_env \<Rightarrow> harbor \<Rightarrow> bytes \<Rightarrow> harbor_action list option" where
  "forward_local_messsage E h msg =
     (if List.length msg < HEADER_COOKIE_LENGTH then None
      else
        (let n = List.length msg - HEADER_COOKIE_LENGTH;
             header = message_to_header (drop n msg);
             type = drop_bit HANDLE_REMOTE_SHIFT (rh_destination header) OR PTYPE_TAG_DONTCOPY;
             destination = (rh_destination header AND HANDLE_MASK) OR push_bit HANDLE_REMOTE_SHIFT (hb_id h)
         in Some (Send (rh_source header) destination type (rh_session header) (take n msg) #
              (if he_send E (rh_source header) destination type (rh_session header) (take n msg) then []
               else [Send destination (rh_source header) (of_nat PTYPE_ERROR) (rh_session header) [],
                     Error (''Unknown destination :'' @ print_x destination @ '' from :'' @ print_x (rh_source header))]))))"

definition send_remote :: "i32 \<Rightarrow> bytes \<Rightarrow> remote_message_header \<Rightarrow> harbor_action" where
  "send_remote fd buffer cookie =
     (let sz_header = of_nat (List.length buffer + 12) :: u32 in
      Socket_send fd (to_bigendian sz_header @ buffer @ header_to_message cookie))"

text \<open>The result has the queue that the name keeps.\<close>

definition dispatch_name_queue :: "harbor \<Rightarrow> keyvalue \<Rightarrow> harbor_msg_queue \<Rightarrow> (harbor_msg_queue option \<times> harbor) handled" where
  "dispatch_name_queue h node queue =
     (let handle = kv_value node; id = unat (drop_bit HANDLE_REMOTE_SHIFT handle); s = hb_s h ! id in
      if id = 0 then None
      else if sl_fd s = 0 then
        (if sl_status s = STATUS_DOWN then
           Some ([Error (''Drop message to '' @ bytes_text (c_bytes (kv_key node)) @ '' (in harbor '' @ print_d (int id) @ '')'')],
             Some queue, h)
         else
           (case sl_queue s of
              None \<Rightarrow> Some ([], None, put_slave h id (s\<lparr>sl_queue := Some queue\<rparr>))
            | Some sq \<Rightarrow>
                map_option
                  (\<lambda>ms. ([], Some (queue\<lparr>hq_head := hq_tail queue\<rparr>), put_slave h id (s\<lparr>sl_queue := Some (foldl push_queue_msg sq ms)\<rparr>)))
                  (pop_loop (hq_size queue) queue)))
      else
        map_option
          (\<lambda>ms. (map (\<lambda>m. send_remote (sl_fd s) (hm_buffer m)
                    ((hm_header m)\<lparr>rh_destination := rh_destination (hm_header m) OR (handle AND HANDLE_MASK)\<rparr>)) ms,
                 Some (queue\<lparr>hq_head := hq_tail queue\<rparr>), h))
          (pop_loop (hq_size queue) queue))"

definition dispatch_link_queue :: "harbor \<Rightarrow> nat \<Rightarrow> harbor handled" where
  "dispatch_link_queue h i =
     (let s = hb_s h ! i in
      if sl_fd s = 0 then None
      else
        (case sl_queue s of
           None \<Rightarrow> Some ([], h)
         | Some queue \<Rightarrow>
             map_option
               (\<lambda>ms. (map (\<lambda>m. send_remote (sl_fd s) (hm_buffer m) (hm_header m)) ms, put_slave h i (s\<lparr>sl_queue := None\<rparr>)))
               (pop_loop (hq_size queue) queue)))"

section \<open>Receiving\<close>

text \<open>One way through the \<open>switch\<close> with its fall-throughs, as a loop over the status.\<close>

partial_function (option) receive_loop :: "harbor_env \<Rightarrow> harbor \<Rightarrow> nat \<Rightarrow> bytes \<Rightarrow> (harbor_action list \<times> harbor) option" where
  "receive_loop E h i buffer =
     (let s = hb_s h ! i in
      if sl_status s = STATUS_HANDSHAKE then
        (case buffer of
           [] \<Rightarrow> None
         | remote_id # rest \<Rightarrow>
             if unat remote_id \<noteq> i then
               then_do (Some ([Error (''Invalid shakehand id ('' @ print_d (int i) @ '') from fd = '' @ print_d (sint (sl_fd s))
                   @ '' , harbor = '' @ print_d (int (unat remote_id)))], h))
                 (\<lambda>h. close_harbor h i)
             else
               Option.bind (dispatch_link_queue (put_slave h i (s\<lparr>sl_status := STATUS_HEADER\<rparr>)) i)
                 (\<lambda>(out, h1). Option.bind (receive_loop E h1 i rest) (\<lambda>(outs, h2). Some (out @ outs, h2))))
      else if sl_status s = STATUS_HEADER then
        (let need = 4 - sl_read s; rest = drop need buffer;
             got = take (sl_read s) (sl_size s) @ take need buffer in
         if List.length buffer < need then
           Some ([], put_slave h i (s\<lparr>sl_size := got, sl_read := sl_read s + List.length buffer\<rparr>))
         else if got ! 0 \<noteq> 0 then
           then_do (Some ([Error (''Message is too long from harbor '' @ print_d (int i))], put_slave h i (s\<lparr>sl_size := got\<rparr>)))
             (\<lambda>h. close_harbor h i)
         else
           (let n = unat (push_bit 16 (ucast (got ! 1)) OR push_bit 8 (ucast (got ! 2)) OR ucast (got ! 3) :: i32);
                h1 = put_slave h i (s\<lparr>sl_size := got, sl_length := n, sl_read := 0, sl_recv := [], sl_status := STATUS_CONTENT\<rparr>)
            in if rest = [] then Some ([], h1) else receive_loop E h1 i rest))
      else if sl_status s = STATUS_CONTENT then
        (let need = sl_length s - sl_read s; rest = drop need buffer in
         if List.length buffer < need then
           Some ([], put_slave h i (s\<lparr>sl_recv := sl_recv s @ buffer, sl_read := sl_read s + List.length buffer\<rparr>))
         else
           Option.bind (forward_local_messsage E h (sl_recv s @ take need buffer))
             (\<lambda>out. let h1 = put_slave h i (s\<lparr>sl_length := 0, sl_read := 0, sl_recv := [], sl_status := STATUS_HEADER\<rparr>) in
                if rest = [] then Some (out, h1)
                else Option.bind (receive_loop E h1 i rest) (\<lambda>(outs, h2). Some (out @ outs, h2))))
      else Some ([], h))"

definition harbor_id :: "harbor \<Rightarrow> i32 \<Rightarrow> nat option" where
  "harbor_id h fd = List.find (\<lambda>i. sl_fd (hb_s h ! i) = fd) [1..<REMOTE_MAX]"

definition push_socket_data :: "harbor_env \<Rightarrow> harbor \<Rightarrow> i32 \<Rightarrow> bytes \<Rightarrow> harbor handled" where
  "push_socket_data E h fd buffer =
     (case harbor_id h fd of
        None \<Rightarrow> Some ([Error (''Invalid socket fd ('' @ print_d (sint fd) @ '') data'')], h)
      | Some i \<Rightarrow> receive_loop E h i buffer)"

section \<open>Sending\<close>

definition update_name :: "harbor \<Rightarrow> bytes \<Rightarrow> u32 \<Rightarrow> harbor handled" where
  "update_name h name handle =
     (let (node, hm) = (case hash_search (hb_map h) name of
                          Some node \<Rightarrow> (node, hb_map h) | None \<Rightarrow> hash_insert (hb_map h) name);
          node1 = node\<lparr>kv_value := handle\<rparr>; h1 = h\<lparr>hb_map := set_node hm name node1\<rparr>
      in case kv_queue node1 of
           None \<Rightarrow> Some ([], h1)
         | Some queue \<Rightarrow>
             Option.bind (dispatch_name_queue h1 node1 queue)
               (\<lambda>(out, kept, h2). map_option
                  (\<lambda>_. (out, h2\<lparr>hb_map := set_node (hb_map h2) name (node1\<lparr>kv_queue := None\<rparr>)\<rparr>))
                  (release_queue kept)))"

text \<open>The first result says that the data was handed on and is not to be freed.\<close>

definition remote_send_handle ::
  "harbor \<Rightarrow> u32 \<Rightarrow> u32 \<Rightarrow> i32 \<Rightarrow> i32 \<Rightarrow> bytes \<Rightarrow> bool \<times> harbor_action list \<times> harbor" where
  "remote_send_handle h source destination type session msg =
     (let id = drop_bit HANDLE_REMOTE_SHIFT destination; s = hb_s h ! unat id;
          header = \<lparr>rh_source = source,
                    rh_destination = push_bit HANDLE_REMOTE_SHIFT type OR (destination AND HANDLE_MASK), rh_session = session\<rparr>
      in if id = hb_id h then (True, [Send source destination (type OR PTYPE_TAG_DONTCOPY) session msg], h)
         else if sl_fd s = 0 \<or> sl_status s = STATUS_HANDSHAKE then
           (if sl_status s = STATUS_DOWN then
              (False, [Send destination source (of_nat PTYPE_ERROR) 0 [],
                 Error (''Drop message to harbor '' @ print_d (int (unat id)) @ '' from '' @ print_x source @ '' to '' @ print_x destination
                   @ '' (session = '' @ print_d (sint session) @ '', msgsz = '' @ print_d (int (List.length msg)) @ '')'')], h)
            else
              (let queue = (case sl_queue s of None \<Rightarrow> harbor_new_queue | Some q \<Rightarrow> q) in
               (True, [], put_slave h (unat id) (s\<lparr>sl_queue := Some (push_queue queue msg header)\<rparr>))))
         else (False, [send_remote (sl_fd s) msg header], h))"

definition remote_send_name ::
  "harbor \<Rightarrow> u32 \<Rightarrow> bytes \<Rightarrow> i32 \<Rightarrow> i32 \<Rightarrow> bytes \<Rightarrow> bool \<times> harbor_action list \<times> harbor" where
  "remote_send_name h source name type session msg =
     (let (node, hm) = (case hash_search (hb_map h) name of
                          Some node \<Rightarrow> (node, hb_map h) | None \<Rightarrow> hash_insert (hb_map h) name);
          h1 = h\<lparr>hb_map := hm\<rparr>
      in if kv_value node = 0 then
           (let queue = (case kv_queue node of None \<Rightarrow> harbor_new_queue | Some q \<Rightarrow> q);
                header = \<lparr>rh_source = source, rh_destination = push_bit HANDLE_REMOTE_SHIFT type, rh_session = session\<rparr>
            in (True, [Send 0 (hb_slave h) (of_nat PTYPE_TEXT) 0 (text_bytes ''Q '' @ c_bytes name)],
                h1\<lparr>hb_map := set_node hm name (node\<lparr>kv_queue := Some (push_queue queue msg header)\<rparr>)\<rparr>))
         else remote_send_handle h1 source (kv_value node) type session msg)"

section \<open>Commands and the callback\<close>

definition handshake :: "harbor \<Rightarrow> nat \<Rightarrow> harbor_action" where
  "handshake h i = Socket_send (sl_fd (hb_s h ! i)) [ucast (hb_id h)]"

text \<open>\<open>sscanf(buffer, "%d %d", &fd, &id)\<close>, both 0 at first.\<close>

definition scan_link :: "string \<Rightarrow> i32 \<times> i32" where
  "scan_link buffer =
     (case scan_int buffer of
        (None, _) \<Rightarrow> (0, 0)
      | (Some fd, rest) \<Rightarrow> (fd, case fst (scan_int rest) of None \<Rightarrow> 0 | Some i \<Rightarrow> i))"

definition harbor_command :: "harbor \<Rightarrow> bytes \<Rightarrow> u32 \<Rightarrow> harbor handled" where
  "harbor_command h msg source =
     (case msg of
        [] \<Rightarrow> None
      | c # _ \<Rightarrow>
          (let s = int (List.length msg) - 2; name = drop 2 msg in
           if c = 78 then
             (if s \<le> 0 \<or> int GLOBALNAME_LENGTH \<le> s then
                Some ([Error (''Invalid global name '' @ bytes_text (takeWhile (\<lambda>b. b \<noteq> 0) name))], h)
              else update_name h (name @ replicate (GLOBALNAME_LENGTH - List.length name) 0) source)
           else if c = 83 \<or> c = 65 then
             (if s < 0 then None
              else
                (let buffer = bytes_text (takeWhile (\<lambda>b. b \<noteq> 0) name); (fd, n) = scan_link buffer; i = nat (sint n);
                     sl = hb_s h ! i in
                 if fd = 0 \<or> sint n \<le> 0 \<or> int REMOTE_MAX \<le> sint n then
                   Some ([Error (''Invalid command '' @ bytes_text [c] @ '' '' @ buffer)], h)
                 else if sl_fd sl \<noteq> 0 then Some ([Error (''Harbor '' @ print_d (int i) @ '' alreay exist'')], h)
                 else
                   (let h1 = put_slave h i (sl\<lparr>sl_fd := fd, sl_status := (if c = 83 then STATUS_HANDSHAKE else STATUS_HEADER)\<rparr>) in
                    then_do (Some ([Socket_start fd, handshake h1 i], h1))
                      (\<lambda>h1. if c = 83 then Some ([], h1) else dispatch_link_queue h1 i))))
           else Some ([Error (''Unknown command '' @ bytes_text (takeWhile (\<lambda>b. b \<noteq> 0) msg))], h)))"

datatype harbor_input =
    Socket_event socket_event
  | Text bytes
  | Remote_handle u32 bytes
  | Remote_name bytes bytes

text \<open>Whether the data of a remote message is freed does not show in the result.\<close>

definition mainloop :: "harbor_env \<Rightarrow> harbor \<Rightarrow> i32 \<Rightarrow> i32 \<Rightarrow> u32 \<Rightarrow> harbor_input \<Rightarrow> harbor handled" where
  "mainloop E h type session source input =
     (case input of
        Socket_event m \<Rightarrow>
          if type \<noteq> of_nat PTYPE_SOCKET then None
          else if se_type m = SKYNET_SOCKET_TYPE_DATA then Option.bind (se_buffer m) (push_socket_data E h (se_id m))
          else if se_type m = SKYNET_SOCKET_TYPE_ERROR \<or> se_type m = SKYNET_SOCKET_TYPE_CLOSE then
            Some (case harbor_id h (se_id m) of
                    Some i \<Rightarrow> report_harbor_down h i
                  | None \<Rightarrow> [Error (''Unkown fd ('' @ print_d (sint (se_id m)) @ '') closed'')], h)
          else if se_type m = SKYNET_SOCKET_TYPE_CONNECT then Some ([], h)
          else Some ([Error (''recv invalid socket message type '' @ print_d (sint type))], h)
      | Text msg \<Rightarrow> if type = of_nat PTYPE_HARBOR then harbor_command h msg source else None
      | Remote_handle handle msg \<Rightarrow>
          if type = of_nat PTYPE_SOCKET \<or> type = of_nat PTYPE_HARBOR \<or> handle = 0 then None
          else Some (snd (remote_send_handle h source handle type session msg))
      | Remote_name name msg \<Rightarrow>
          if type = of_nat PTYPE_SOCKET \<or> type = of_nat PTYPE_HARBOR then None
          else Some (snd (remote_send_name h source name type session msg)))"

text \<open>\<open>sscanf(args, "%d %u", &harbor_id, &slave)\<close>.\<close>

definition scan_harbor :: "string \<Rightarrow> i32 \<times> u32" where
  "scan_harbor args =
     (case scan_int args of
        (None, _) \<Rightarrow> (0, 0)
      | (Some i, rest) \<Rightarrow>
          (let t = snd (parse_sign (dropWhile isspace rest)) in
           (i, if t = [] \<or> 10 \<le> digit_val (hd t) then 0 else ucast (strtoul rest 10))))"

definition harbor_init :: "harbor \<Rightarrow> string \<Rightarrow> bool \<times> harbor_action list \<times> harbor" where
  "harbor_init h args =
     (case scan_harbor args of
        (n, sl) \<Rightarrow>
          if sl = 0 then (False, [], h)
          else (True, [Callback, Harbor_start], h\<lparr>hb_id := n, hb_slave := sl\<rparr>))"

section \<open>Queues in order\<close>

definition hq_abs :: "harbor_msg_queue \<Rightarrow> harbor_msg list" where
  "hq_abs q = ring_list (hq_data q) (hq_size q) (hq_head q) (ring_len (hq_size q) (hq_head q) (hq_tail q))"

definition hq_inv :: "harbor_msg_queue \<Rightarrow> bool" where
  "hq_inv q \<longleftrightarrow> hq_head q < hq_size q \<and> hq_tail q < hq_size q \<and> List.length (hq_data q) = hq_size q"

lemma new_queue_inv: "hq_inv harbor_new_queue" and new_queue_abs: "hq_abs harbor_new_queue = []"
  by (simp_all add: hq_inv_def hq_abs_def harbor_new_queue_def HARBOR_QUEUE_SIZE_def ring_len_def)

lemma push_queue_msg_abs:
  assumes "hq_inv q"
  shows "hq_abs (push_queue_msg q m) = hq_abs q @ [m]"
proof -
  let ?n = "ring_len (hq_size q) (hq_head q) (hq_tail q)"
  have ok: "hq_head q < hq_size q" "hq_tail q < hq_size q" "List.length (hq_data q) = hq_size q"
    using assms by (simp_all add: hq_inv_def)
  show ?thesis
  proof (cases "Suc (hq_tail q) mod hq_size q = hq_head q")
    case True
    have full: "Suc ?n = hq_size q" by (rule ring_len_full [OF ok(1,2) True])
    let ?old = "map (\<lambda>i. hq_data q ! ((i + hq_head q) mod hq_size q)) [0..<hq_size q - 1]"
    from full have n: "?n = hq_size q - 1" by linarith
    have old: "?old = hq_abs q" unfolding hq_abs_def ring_list_def n by (simp add: add.commute)
    have "hq_abs (push_queue_msg q m) =
        ring_list ((?old @ replicate (Suc (hq_size q)) blank_msg)[hq_size q - 1 := m]) (hq_size q * 2) 0 (hq_size q)"
      using True ok by (simp add: push_queue_msg_def hq_abs_def ring_len_def Let_def)
    also have "\<dots> = take (hq_size q) ((?old @ replicate (Suc (hq_size q)) blank_msg)[hq_size q - 1 := m])"
      by (rule ring_list_linear) simp_all
    also have "\<dots> = ?old @ [m]"
      using ok(1) by (simp add: list_update_append take_Cons')
    finally show ?thesis by (simp only: old)
  next
    case False
    have "ring_list ((hq_data q)[hq_tail q := m]) (hq_size q) (hq_head q) (Suc ?n) = hq_abs q @ [m]"
      using ring_list_write [of ?n "hq_size q" "hq_data q" "hq_head q" m] ok by (simp add: ring_arith hq_abs_def)
    with False show ?thesis
      using ring_len_push [OF ok(1,2) False] by (simp add: push_queue_msg_def hq_abs_def Let_def)
  qed
qed

lemma push_queue_msg_inv: "hq_inv q \<Longrightarrow> hq_inv (push_queue_msg q m)"
  by (auto simp: hq_inv_def push_queue_msg_def Let_def)

lemma pop_queue_sound:
  assumes "hq_inv q"
  shows "hq_abs q = [] \<Longrightarrow> pop_queue q = (None, q)"
    and "hq_abs q = m # ms \<Longrightarrow> \<exists>q'. pop_queue q = (Some m, q') \<and> hq_abs q' = ms"
    and "hq_inv (snd (pop_queue q))"
proof -
  have ok: "hq_head q < hq_size q" "hq_tail q < hq_size q" using assms by (simp_all add: hq_inv_def)
  have "List.length (hq_abs q) = ring_len (hq_size q) (hq_head q) (hq_tail q)" by (simp add: hq_abs_def)
  then have empty: "hq_abs q = [] \<longleftrightarrow> hq_head q = hq_tail q" using ring_len_0_iff [OF ok] by auto
  then show "hq_abs q = [] \<Longrightarrow> pop_queue q = (None, q)" by (simp add: pop_queue_def)
  show "hq_abs q = m # ms \<Longrightarrow> \<exists>q'. pop_queue q = (Some m, q') \<and> hq_abs q' = ms"
    using empty ring_len_pop [OF ok] ok by (auto simp: pop_queue_def hq_abs_def ring_list_Suc)
  show "hq_inv (snd (pop_queue q))" using assms by (auto simp: pop_queue_def hq_inv_def)
qed

interpretation hq: fifo push_queue_msg pop_queue hq_abs hq_inv
proof
  fix q m ms assume inv: "hq_inv q"
  show "hq_inv (push_queue_msg q m)" "hq_abs (push_queue_msg q m) = hq_abs q @ [m]" "hq_inv (snd (pop_queue q))"
    by (simp_all add: inv push_queue_msg_inv push_queue_msg_abs pop_queue_sound)
  show "hq_abs q = [] \<Longrightarrow> fst (pop_queue q) = None \<and> hq_abs (snd (pop_queue q)) = []"
    using pop_queue_sound(1) [OF inv] by simp
  show "hq_abs q = m # ms \<Longrightarrow> fst (pop_queue q) = Some m \<and> hq_abs (snd (pop_queue q)) = ms"
    using pop_queue_sound(2) [OF inv] by force
qed

lemma pop_loop_abs: "hq_inv q \<Longrightarrow> List.length (hq_abs q) < n \<Longrightarrow> pop_loop n q = Some (hq_abs q)"
proof (induction n arbitrary: q)
  case (Suc n)
  show ?case
  proof (cases "hq_abs q")
    case Nil
    then show ?thesis using pop_queue_sound(1) [OF Suc.prems(1)] by simp
  next
    case (Cons m ms)
    then obtain q1 where "pop_queue q = (Some m, q1)" "hq_abs q1 = ms" using pop_queue_sound(2) [OF Suc.prems(1)] by blast
    then show ?thesis using Suc Cons hq.inv_pop [OF Suc.prems(1)] by simp
  qed
qed simp

lemma pop_loop_size: "hq_inv q \<Longrightarrow> pop_loop (hq_size q) q = Some (hq_abs q)"
  using ring_len_le [of "hq_head q" "hq_size q" "hq_tail q"] by (intro pop_loop_abs) (simp_all add: hq_inv_def hq_abs_def)

section \<open>The format of a link\<close>

lemma mask_8: "(255 :: u32) = mask 8"
  by (simp add: mask_eq_exp_minus_1)

lemma from_to_bigendian: "from_bigendian (to_bigendian n) = n"
proof (rule bit_word_eqI)
  fix i assume "i < LENGTH(32)"
  then consider "i < 8" | "8 \<le> i" "i < 16" | "16 \<le> i" "i < 24" | "24 \<le> i" "i < 32" by fastforce
  then show "bit (from_bigendian (to_bigendian n)) i = bit n i"
    by cases (auto simp: from_bigendian_def to_bigendian_def mask_8 bit_simps)
qed

lemma length_to_bigendian [simp]: "List.length (to_bigendian n) = 4"
  by (simp add: to_bigendian_def)

lemma length_header [simp]: "List.length (header_to_message header) = 12"
  by (simp add: header_to_message_def)

lemma header_roundtrip: "message_to_header (header_to_message header) = header"
  by (simp add: message_to_header_def header_to_message_def from_to_bigendian)

text \<open>The length in the last three of the four bytes; the first must be 0.\<close>

definition content_length :: "u8 \<Rightarrow> u8 \<Rightarrow> u8 \<Rightarrow> nat" where
  "content_length b1 b2 b3 = unat (push_bit 16 (ucast b1) OR push_bit 8 (ucast b2) OR ucast b3 :: i32)"

definition link_frame :: "bytes \<Rightarrow> bytes" where
  "link_frame m = to_bigendian (of_nat (List.length m)) @ m"

function (sequential) split_contents :: "bytes \<Rightarrow> bytes list \<times> bytes" where
  "split_contents (b0 # b1 # b2 # b3 # bs) =
     (let n = content_length b1 b2 b3 in
      if n \<le> List.length bs then (case split_contents (drop n bs) of (fs, r) \<Rightarrow> (take n bs # fs, r))
      else ([], b0 # b1 # b2 # b3 # bs))"
| "split_contents bs = ([], bs)"
  by pat_completeness auto
termination by (relation "measure List.length") auto

function (sequential) good_link :: "bytes \<Rightarrow> bool" where
  "good_link (b0 # b1 # b2 # b3 # bs) =
     (let n = content_length b1 b2 b3 in
      b0 = 0 \<and> HEADER_COOKIE_LENGTH \<le> n \<and> (if n \<le> List.length bs then good_link (drop n bs) else True))"
| "good_link bs = True"
  by pat_completeness auto
termination by (relation "measure List.length") auto

lemma list_of_4: "List.length xs = 4 \<Longrightarrow> \<exists>a b c d. xs = [a, b, c, d]"
  by (auto simp: numeral_eq_Suc length_Suc_conv)

lemma split_contents_short: "List.length bs < 4 \<Longrightarrow> split_contents bs = ([], bs)"
  by (cases bs rule: split_contents.cases) simp_all

lemma good_link_short: "List.length bs < 4 \<Longrightarrow> good_link bs"
  by (cases bs rule: split_contents.cases) simp_all

lemma split_contents_append:
  "split_contents (xs @ ys) =
     (case split_contents xs of (fs, r) \<Rightarrow> case split_contents (r @ ys) of (gs, r') \<Rightarrow> (fs @ gs, r'))"
proof (induction xs rule: split_contents.induct)
  case (1 b0 b1 b2 b3 bs)
  show ?case
  proof (cases "content_length b1 b2 b3 \<le> List.length bs")
    case True
    then show ?thesis using 1 by (simp add: Let_def split: prod.splits)
  next
    case False
    then show ?thesis by (simp add: Let_def split: prod.splits)
  qed
qed (simp_all split: prod.split)

lemma good_link_append: "good_link (xs @ ys) \<Longrightarrow> good_link xs \<and> good_link (snd (split_contents xs) @ ys)"
proof (induction xs rule: split_contents.induct)
  case (1 b0 b1 b2 b3 bs)
  then show ?case
    by (cases "content_length b1 b2 b3 \<le> List.length bs") (auto simp: Let_def split: prod.splits)
qed simp_all

lemma to_bigendian_24:
  assumes "n < 2 ^ 24"
  obtains b1 b2 b3 where "to_bigendian (of_nat n) = [0, b1, b2, b3]" "content_length b1 b2 b3 = n"
proof -
  let ?w = "of_nat n :: u32"
  have n: "unat ?w = n" using assms by (simp add: unsigned_of_nat take_bit_nat_eq_self_iff)
  then have "drop_bit 24 ?w = 0" using assms by (simp add: word_unat_eq_iff unat_drop_bit_div)
  then obtain b1 b2 b3 where b: "to_bigendian ?w = [0, b1, b2, b3]" by (simp add: to_bigendian_def)
  then have "from_bigendian [0, b1, b2, b3] = ?w" using from_to_bigendian [of ?w] by simp
  then have "content_length b1 b2 b3 = n" using n by (simp add: content_length_def from_bigendian_def or.assoc)
  with b that show ?thesis by blast
qed

lemma split_link_frame:
  assumes "List.length m < 2 ^ 24"
  shows "split_contents (link_frame m @ bs) = (case split_contents bs of (fs, r) \<Rightarrow> (m # fs, r))"
    and "12 \<le> List.length m \<Longrightarrow> good_link bs \<Longrightarrow> good_link (link_frame m @ bs)"
proof -
  from assms obtain b1 b2 b3 where "to_bigendian (of_nat (List.length m)) = [0, b1, b2, b3]" "content_length b1 b2 b3 = List.length m"
    by (rule to_bigendian_24)
  then show "split_contents (link_frame m @ bs) = (case split_contents bs of (fs, r) \<Rightarrow> (m # fs, r))"
    "12 \<le> List.length m \<Longrightarrow> good_link bs \<Longrightarrow> good_link (link_frame m @ bs)"
    by (simp_all add: link_frame_def HEADER_COOKIE_LENGTH_def)
qed

interpretation link: format split_contents link_frame "\<lambda>m. 12 \<le> List.length m \<and> List.length m < 2 ^ 24" good_link
  by unfold_locales (rule split_contents_append, use good_link_append split_link_frame in auto)

section \<open>The receiver of a link\<close>

definition link_state :: "slave \<Rightarrow> bool" where
  "link_state s \<longleftrightarrow>
     (sl_status s = STATUS_HEADER \<and> sl_read s < 4 \<and> sl_read s \<le> List.length (sl_size s)) \<or>
     (sl_status s = STATUS_CONTENT \<and> (\<exists>b1 b2 b3. sl_size s = [0, b1, b2, b3] \<and> sl_length s = content_length b1 b2 b3)
        \<and> sl_read s = List.length (sl_recv s) \<and> sl_read s < sl_length s)"

definition link_text :: "slave \<Rightarrow> bytes" where
  "link_text s = (if sl_status s = STATUS_HEADER then take (sl_read s) (sl_size s) else sl_size s @ sl_recv s)"

definition delivered :: "harbor_env \<Rightarrow> harbor \<Rightarrow> bytes \<Rightarrow> harbor_action list" where
  "delivered E h m = the (forward_local_messsage E h m)"

lemma put_slave_simps [simp]:
  assumes "i < List.length (hb_s h)"
  shows "hb_s (put_slave h i s) ! i = s" "put_slave (put_slave h i s) i s' = put_slave h i s'"
    "hb_id (put_slave h i s) = hb_id h"
  using assms by (simp_all add: put_slave_def)

lemma delivered_put [simp]: "delivered E (put_slave h i s) = delivered E h"
  by (simp add: delivered_def forward_local_messsage_def put_slave_def fun_eq_iff)

lemma forward_delivered: "12 \<le> List.length m \<Longrightarrow> forward_local_messsage E h m = Some (delivered E h m)"
  by (simp add: delivered_def forward_local_messsage_def HEADER_COOKIE_LENGTH_def Let_def)

lemma receive_split:
  assumes "i < List.length (hb_s h)"
  shows "link_state s \<Longrightarrow> good_link (link_text s @ b) \<Longrightarrow> split_contents (link_text s @ b) = (fs, r) \<Longrightarrow>
     \<exists>s'. receive_loop E (put_slave h i s) i b = Some (concat (map (delivered E h) fs), put_slave h i s')
       \<and> link_state s' \<and> sl_fd s' = sl_fd s \<and> link_text s' = r"
proof (induction "List.length b" arbitrary: s b fs r rule: less_induct)
  case less
  note step = receive_loop.simps [of E "put_slave h i s" i b, unfolded Let_def put_slave_simps [OF assms]]
  show ?case
  proof (cases "sl_status s = STATUS_HEADER")
    case header: True
    let ?need = "4 - sl_read s"
    let ?got = "take (sl_read s) (sl_size s) @ take ?need b"
    have rd: "sl_read s < 4" "sl_read s \<le> List.length (sl_size s)" using less.prems(1) header by (auto simp: link_state_def)
    have str: "link_text s @ b = ?got @ drop ?need b" using header by (simp add: link_text_def)
    show ?thesis
    proof (cases "List.length b < ?need")
      case True
      let ?s = "s\<lparr>sl_size := ?got, sl_read := sl_read s + List.length b\<rparr>"
      have "fs = []" "r = ?got" using True rd less.prems(3) unfolding str by (simp_all add: split_contents_short)
      moreover have "link_state ?s" "link_text ?s = ?got" using True rd header by (simp_all add: link_state_def link_text_def)
      moreover have "receive_loop E (put_slave h i s) i b = Some ([], put_slave h i ?s)" using step header True by simp
      ultimately show ?thesis by (intro exI [of _ ?s]) simp
    next
      case False
      then have "List.length ?got = 4" using rd by simp
      then obtain g0 g1 g2 g3 where g: "?got = [g0, g1, g2, g3]" using list_of_4 by blast
      have good: "g0 = 0" "12 \<le> content_length g1 g2 g3"
        using less.prems(2) unfolding str g by (simp_all add: Let_def HEADER_COOKIE_LENGTH_def)
      let ?s = "s\<lparr>sl_size := ?got, sl_length := content_length g1 g2 g3, sl_read := 0, sl_recv := [], sl_status := STATUS_CONTENT\<rparr>"
      have run: "receive_loop E (put_slave h i s) i b =
          (if drop ?need b = [] then Some ([], put_slave h i ?s) else receive_loop E (put_slave h i ?s) i (drop ?need b))"
        using step header False good(1) unfolding g by (simp add: content_length_def)
      have st: "link_state ?s" "link_text ?s = ?got" using good unfolding g by (auto simp: link_state_def link_text_def)
      show ?thesis
      proof (cases "drop ?need b = []")
        case True
        have "fs = []" "r = ?got" using less.prems(3) good(2) unfolding str True g by (simp_all add: Let_def)
        with run True st show ?thesis by (intro exI [of _ ?s]) simp
      next
        case more: False
        have "List.length (drop ?need b) < List.length b" using rd False by simp
        then show ?thesis
          using less.hyps [of "drop ?need b" ?s fs r] st less.prems(2,3) run more unfolding str by simp
      qed
    qed
  next
    case content: False
    then obtain b1 b2 b3 where s: "sl_status s = STATUS_CONTENT" "sl_size s = [0, b1, b2, b3]" "sl_length s = content_length b1 b2 b3"
      "sl_read s = List.length (sl_recv s)" "sl_read s < sl_length s" using less.prems(1) by (auto simp: link_state_def)
    let ?n = "content_length b1 b2 b3" and ?need = "sl_length s - sl_read s" and ?w = "sl_recv s @ b"
    have str: "link_text s @ b = 0 # b1 # b2 # b3 # ?w" using s by (simp add: link_text_def)
    have good: "12 \<le> ?n" "?n \<le> List.length ?w \<Longrightarrow> good_link (drop ?n ?w)"
      using less.prems(2) unfolding str by (simp_all add: Let_def HEADER_COOKIE_LENGTH_def)
    show ?thesis
    proof (cases "List.length b < ?need")
      case True
      let ?s = "s\<lparr>sl_recv := ?w, sl_read := sl_read s + List.length b\<rparr>"
      have "\<not> ?n \<le> List.length ?w" using True s(3,4) by simp
      then have "fs = []" "r = 0 # b1 # b2 # b3 # ?w" using less.prems(3) unfolding str by (simp_all add: Let_def)
      moreover have "link_state ?s" "link_text ?s = 0 # b1 # b2 # b3 # ?w" using True s by (auto simp: link_state_def link_text_def)
      moreover have "receive_loop E (put_slave h i s) i b = Some ([], put_slave h i ?s)" using step s True by simp
      ultimately show ?thesis by (intro exI [of _ ?s]) simp
    next
      case False
      then have n: "?n \<le> List.length ?w" using s by simp
      have parts: "sl_recv s @ take ?need b = take ?n ?w" "drop ?need b = drop ?n ?w" using s by simp_all
      obtain gs where f: "fs = take ?n ?w # gs" "split_contents (drop ?n ?w) = (gs, r)"
        using less.prems(3) n unfolding str by (auto simp: Let_def split: prod.splits)
      let ?s = "s\<lparr>sl_length := 0, sl_read := 0, sl_recv := [], sl_status := STATUS_HEADER\<rparr>"
      have fw: "forward_local_messsage E (put_slave h i s) (take ?n ?w) = Some (delivered E h (take ?n ?w))"
        using forward_delivered [of "take ?n ?w"] n good(1) by simp
      have run: "receive_loop E (put_slave h i s) i b =
          (if drop ?n ?w = [] then Some (delivered E h (take ?n ?w), put_slave h i ?s)
           else Option.bind (receive_loop E (put_slave h i ?s) i (drop ?n ?w))
             (\<lambda>(outs, h2). Some (delivered E h (take ?n ?w) @ outs, h2)))"
        using step False s(1) unfolding parts fw by simp
      have st: "link_state ?s" "link_text ?s = []" by (simp_all add: link_state_def link_text_def)
      show ?thesis
      proof (cases "drop ?n ?w = []")
        case True
        with f have "gs = []" "r = []" by simp_all
        with f run True st show ?thesis by (intro exI [of _ ?s]) simp
      next
        case more: False
        have "List.length (drop ?n ?w) < List.length b" using s False by simp
        from less.hyps [OF this st(1), unfolded st(2) append_Nil, OF good(2) [OF n] f(2)]
        obtain s' where "receive_loop E (put_slave h i ?s) i (drop ?n ?w) = Some (concat (map (delivered E h) gs), put_slave h i s')"
          "link_state s'" "sl_fd s' = sl_fd ?s" "link_text s' = r"
          by auto
        then show ?thesis using run more f(1) by auto
      qed
    qed
  qed
qed

text \<open>The handler of a socket message is a parser of the link's format.\<close>

definition link_at :: "harbor \<Rightarrow> nat \<Rightarrow> i32 \<Rightarrow> harbor \<Rightarrow> bool" where
  "link_at h0 i fd h \<longleftrightarrow> i < List.length (hb_s h0) \<and> harbor_id h0 fd = Some i
     \<and> (\<exists>s. h = put_slave h0 i s \<and> link_state s \<and> sl_fd s = fd)"

lemma find_cong: "(\<And>x. x \<in> set xs \<Longrightarrow> P x = Q x) \<Longrightarrow> List.find P xs = List.find Q xs"
  by (induction xs) auto

lemma harbor_id_Some:
  assumes "harbor_id h fd = Some i"
  shows "sl_fd (hb_s h ! i) = fd" and "1 \<le> i" and "i < REMOTE_MAX"
proof -
  obtain j where "j < List.length [1..<REMOTE_MAX]" "sl_fd (hb_s h ! ([1..<REMOTE_MAX] ! j)) = fd" "i = [1..<REMOTE_MAX] ! j"
    using assms by (auto simp: harbor_id_def find_Some_iff)
  moreover from this(1,3) have "i \<in> set [1..<REMOTE_MAX]" using nth_mem by blast
  ultimately show "sl_fd (hb_s h ! i) = fd" "1 \<le> i" "i < REMOTE_MAX" by auto
qed

lemma harbor_id_put:
  assumes "harbor_id h fd = Some i" and "i < List.length (hb_s h)" and "sl_fd s = fd"
  shows "harbor_id (put_slave h i s) fd = Some i"
proof -
  have "harbor_id (put_slave h i s) fd = harbor_id h fd"
    unfolding harbor_id_def
    by (rule find_cong) (use assms harbor_id_Some(1) [OF assms(1)] in \<open>auto simp: put_slave_def nth_list_update\<close>)
  with assms(1) show ?thesis by simp
qed

lemma link_feed:
  assumes "link_at h0 i fd h" and "good_link (link_text (hb_s h ! i) @ c)"
  shows "\<exists>h'. link_at h0 i fd h' \<and> link_text (hb_s h' ! i) = snd (split_contents (link_text (hb_s h ! i) @ c))
    \<and> mainloop E h (of_nat PTYPE_SOCKET) session source (Socket_event (data_event fd c))
      = Some (concat (map (delivered E h0) (fst (split_contents (link_text (hb_s h ! i) @ c)))), h')"
proof -
  obtain s where s: "i < List.length (hb_s h0)" "harbor_id h0 fd = Some i" "h = put_slave h0 i s" "link_state s" "sl_fd s = fd"
    using assms(1) by (auto simp: link_at_def)
  then have h: "hb_s h ! i = s" "harbor_id h fd = Some i" by (simp_all add: harbor_id_put)
  obtain fs r where f: "split_contents (link_text s @ c) = (fs, r)" by force
  from receive_split [OF s(1,4), of c, OF _ f] assms(2) h(1) obtain s' where
    r: "receive_loop E h i c = Some (concat (map (delivered E h0) fs), put_slave h0 i s')" "link_state s'" "sl_fd s' = fd" "link_text s' = r"
    using s(3,5) by auto
  then have "link_at h0 i fd (put_slave h0 i s')" using s by (auto simp: link_at_def)
  with r h f s(1) show ?thesis
    by (intro exI [of _ "put_slave h0 i s'"]) (simp add: mainloop_def data_event_def push_socket_data_def)
qed

interpretation link: reassembler split_contents link_frame "\<lambda>m. 12 \<le> List.length m \<and> List.length m < 2 ^ 24" good_link
  "link_at h0 i fd" "\<lambda>h. link_text (hb_s h ! i)"
  "\<lambda>h c. mainloop E h (of_nat PTYPE_SOCKET) session source (Socket_event (data_event fd c))" "delivered E h0"
  for h0 :: harbor and i :: nat and fd :: i32 and E :: harbor_env and session :: i32 and source :: u32
  by unfold_locales (rule link_feed)

section \<open>From one harbor to the next\<close>

text \<open>A message between services: source, destination, type, session and data.\<close>

type_synonym parcel = "u32 \<times> u32 \<times> i32 \<times> i32 \<times> bytes"

definition parcel_ok :: "u32 \<Rightarrow> parcel \<Rightarrow> bool" where
  "parcel_ok b p \<longleftrightarrow> (case p of (source, destination, type, session, m) \<Rightarrow>
     drop_bit HANDLE_REMOTE_SHIFT destination = b \<and> unat type < 256 \<and> type \<noteq> of_nat PTYPE_SOCKET \<and> type \<noteq> of_nat PTYPE_HARBOR
     \<and> List.length m + 12 < 2 ^ 24)"

definition send_parcel :: "harbor_env \<Rightarrow> harbor \<Rightarrow> parcel \<Rightarrow> harbor handled" where
  "send_parcel E h p = (case p of (source, destination, type, session, m) \<Rightarrow>
     mainloop E h type session source (Remote_handle destination m))"

text \<open>What the service of the destination's node gets.\<close>

definition arrival :: "parcel \<Rightarrow> harbor_action" where
  "arrival p = (case p of (source, destination, type, session, m) \<Rightarrow>
     Send source destination (type OR PTYPE_TAG_DONTCOPY) session m)"

definition parcel_header :: "parcel \<Rightarrow> remote_message_header" where
  "parcel_header p = (case p of (source, destination, type, session, m) \<Rightarrow>
     \<lparr>rh_source = source, rh_destination = push_bit HANDLE_REMOTE_SHIFT type OR (destination AND HANDLE_MASK), rh_session = session\<rparr>)"

definition parcel_data :: "parcel \<Rightarrow> bytes" where
  "parcel_data p = (case p of (source, destination, type, session, m) \<Rightarrow> m)"

definition parcel_content :: "parcel \<Rightarrow> bytes" where
  "parcel_content p = parcel_data p @ header_to_message (parcel_header p)"

fun payload :: "harbor_action \<Rightarrow> bytes" where
  "payload (Socket_send fd bs) = bs"
| "payload _ = []"

lemma split_destination:
  assumes "unat (type :: i32) < 256"
  shows "drop_bit 24 (push_bit 24 type OR (d AND mask 24)) = type"
    and "(push_bit 24 type OR (d AND mask 24)) AND mask 24 = d AND mask 24"
    and "(d AND mask 24) OR push_bit 24 (drop_bit 24 d) = d"
proof -
  have "take_bit 8 type = type" using assms by (simp add: word_unat_eq_iff unsigned_take_bit_eq take_bit_nat_eq_self_iff)
  then have high: "i < 8" if "bit type i" for i using that by (metis bit_take_bit_iff)
  show "drop_bit 24 (push_bit 24 type OR (d AND mask 24)) = type"
    using high by (intro bit_word_eqI) (auto simp: bit_simps)
  show "(push_bit 24 type OR (d AND mask 24)) AND mask 24 = d AND mask 24"
    by (intro bit_word_eqI) (auto simp: bit_simps)
  show "(d AND mask 24) OR push_bit 24 (drop_bit 24 d) = d"
  proof (rule bit_word_eqI)
    fix n show "bit ((d AND mask 24) OR push_bit 24 (drop_bit 24 d)) n = bit d n"
      by (cases "n < 24") (auto simp: bit_simps dest: bit_imp_le_length)
  qed
qed

lemma send_remote_frame: "send_remote fd m header = Socket_send fd (link_frame (m @ header_to_message header))"
  by (simp add: send_remote_def link_frame_def Let_def)

lemma send_parcel_up:
  assumes "parcel_ok b p" and "b \<noteq> hb_id h" and "b \<noteq> 0" and "sl_fd (hb_s h ! unat b) = fd" and "fd \<noteq> 0"
    and "sl_status (hb_s h ! unat b) \<noteq> STATUS_HANDSHAKE"
  shows "send_parcel E h p = Some ([Socket_send fd (link_frame (parcel_content p))], h)"
  using assms
  by (auto simp: parcel_ok_def send_parcel_def mainloop_def remote_send_handle_def Let_def send_remote_frame parcel_content_def
      parcel_header_def parcel_data_def)

lemma parcel_delivered:
  assumes "parcel_ok b p" and "hb_id h = b" and "\<And>s d t n m. he_send E s d t n m"
  shows "delivered E h (parcel_content p) = [arrival p]"
proof -
  obtain source d type session m where p: "p = (source, d, type, session, m)" by (cases p)
  then have t: "unat type < 256" "drop_bit 24 d = b" using assms(1) by (simp_all add: parcel_ok_def HANDLE_REMOTE_SHIFT_def)
  show ?thesis
    using assms(2,3) split_destination [OF t(1), of d] t(2)
    by (simp add: delivered_def forward_local_messsage_def Let_def p parcel_content_def parcel_data_def parcel_header_def
        header_roundtrip HEADER_COOKIE_LENGTH_def HANDLE_REMOTE_SHIFT_def HANDLE_MASK_mask arrival_def)
qed

lemma parcel_valid: "parcel_ok b p \<Longrightarrow> 12 \<le> List.length (parcel_content p) \<and> List.length (parcel_content p) < 2 ^ 24"
  by (auto simp: parcel_ok_def parcel_content_def parcel_data_def)

lemma send_all_up:
  assumes "\<forall>p \<in> set ps. parcel_ok b p" and "b \<noteq> hb_id h" and "b \<noteq> 0" and "sl_fd (hb_s h ! unat b) = fd" and "fd \<noteq> 0"
    and "sl_status (hb_s h ! unat b) \<noteq> STATUS_HANDSHAKE"
  shows "feed_all (send_parcel E) h ps = Some (map (\<lambda>p. Socket_send fd (link_frame (parcel_content p))) ps, h)"
  using assms(1) by (induction ps) (simp_all add: send_parcel_up [OF _ assms(2-6)])

section \<open>Properties\<close>

text \<open>
  C30. Messages for node \<open>b\<close> that a harbor sends over an established link, and the harbor of \<open>b\<close>
  receives in whatever pieces the socket delivers, arrive there completely, once and in order, each
  with the source, destination, type, session and data it was sent with. A message has less than
  \<open>2\<^sup>2\<^sup>4 - 12\<close> bytes.
\<close>

theorem harbor_link:
  assumes "\<forall>p \<in> set ps. parcel_ok b p" and "b \<noteq> hb_id h1" and "b \<noteq> 0" and "sl_fd (hb_s h1 ! unat b) = fd1" and "fd1 \<noteq> 0"
    and "sl_status (hb_s h1 ! unat b) \<noteq> STATUS_HANDSHAKE"
    and "hb_id h2 = b" and "harbor_id h2 fd2 = Some i" and "i < List.length (hb_s h2)"
    and "sl_status (hb_s h2 ! i) = STATUS_HEADER" and "sl_read (hb_s h2 ! i) = 0"
    and "\<And>s d t n m. he_send E s d t n m"
    and "feed_all (send_parcel E) h1 ps = Some (sent, h1')" and "[] \<notin> set pieces" and "concat pieces = concat (map payload sent)"
  shows "\<exists>h2'. feed_all (\<lambda>h c. mainloop E h (of_nat PTYPE_SOCKET) 0 0 (Socket_event (data_event fd2 c))) h2 pieces
    = Some (map arrival ps, h2')"
proof -
  have "sent = map (\<lambda>p. Socket_send fd1 (link_frame (parcel_content p))) ps"
    using assms(13) send_all_up [OF assms(1-6), of E] by simp
  then have "concat pieces = concat (map link_frame (map parcel_content ps))"
    using assms(15) by (simp add: comp_def)
  moreover have "link_at h2 i fd2 h2"
    unfolding link_at_def using assms(8-11) harbor_id_Some(1) [OF assms(8)]
    by (intro conjI exI [of _ "hb_s h2 ! i"]) (simp_all add: link_state_def put_slave_def)
  moreover have "link_text (hb_s h2 ! i) = []" using assms(10,11) by (simp add: link_text_def)
  moreover have "\<forall>m \<in> set (map parcel_content ps). 12 \<le> List.length m \<and> List.length m < 2 ^ 24"
    using assms(1) parcel_valid by auto
  ultimately obtain h2' where r: "feed_all (\<lambda>h c. mainloop E h (of_nat PTYPE_SOCKET) 0 0 (Socket_event (data_event fd2 c))) h2 pieces
      = Some (concat (map (delivered E h2) (map parcel_content ps)), h2')"
    using link.reassembles [of h2 i fd2 h2 pieces] assms(14) by blast
  have "concat (map (delivered E h2) (map parcel_content ps)) = map arrival ps"
    using assms(1) parcel_delivered [OF _ assms(7,12)] by (induction ps) simp_all
  with r show ?thesis by auto
qed

text \<open>
  Messages wait while there is no link. A queue holds them in order, as they would have been sent.
\<close>

definition queued :: "parcel \<Rightarrow> harbor_msg" where
  "queued p = \<lparr>hm_header = parcel_header p, hm_buffer = parcel_data p\<rparr>"

definition waiting :: "harbor \<Rightarrow> nat \<Rightarrow> parcel list \<Rightarrow> bool" where
  "waiting h i ps \<longleftrightarrow> i < List.length (hb_s h) \<and> sl_fd (hb_s h ! i) = 0 \<and> sl_status (hb_s h ! i) = STATUS_WAIT \<and> sl_read (hb_s h ! i) = 0
     \<and> (case sl_queue (hb_s h ! i) of None \<Rightarrow> ps = [] | Some q \<Rightarrow> hq_inv q \<and> hq_abs q = map queued ps)"

lemma send_parcel_waiting:
  assumes "parcel_ok b p" and "b \<noteq> hb_id h" and "b \<noteq> 0" and "waiting h (unat b) qs"
  shows "\<exists>h'. send_parcel E h p = Some ([], h') \<and> waiting h' (unat b) (qs @ [p]) \<and> hb_id h' = hb_id h"
proof -
  obtain source d type session m where p: "p = (source, d, type, session, m)" by (cases p)
  let ?s = "hb_s h ! unat b"
  define q where "q = (case sl_queue ?s of None \<Rightarrow> harbor_new_queue | Some q \<Rightarrow> q)"
  have q: "hq_inv q" "hq_abs q = map queued qs"
    using assms(4) new_queue_inv new_queue_abs by (auto simp: waiting_def q_def split: option.splits)
  let ?h' = "put_slave h (unat b) (?s\<lparr>sl_queue := Some (push_queue q m (parcel_header p))\<rparr>)"
  have "send_parcel E h p = Some ([], ?h')"
    using assms by (auto simp: p parcel_ok_def send_parcel_def mainloop_def remote_send_handle_def Let_def waiting_def q_def
        parcel_header_def)
  moreover have "waiting ?h' (unat b) (qs @ [p])"
    using assms(4) hq.inv_push [OF q(1)] hq.abs_push [OF q(1)] q(2)
    by (simp add: waiting_def put_slave_def push_queue_def queued_def parcel_data_def p)
  ultimately show ?thesis by (intro exI [of _ ?h']) (simp add: put_slave_def)
qed

lemma send_all_waiting:
  "\<forall>p \<in> set ps. parcel_ok b p \<Longrightarrow> b \<noteq> hb_id h \<Longrightarrow> b \<noteq> 0 \<Longrightarrow> waiting h (unat b) qs \<Longrightarrow>
     \<exists>h'. feed_all (send_parcel E) h ps = Some ([], h') \<and> waiting h' (unat b) (qs @ ps) \<and> hb_id h' = hb_id h"
proof (induction ps arbitrary: h qs)
  case (Cons p ps)
  then obtain h1 where h1: "send_parcel E h p = Some ([], h1)" "waiting h1 (unat b) (qs @ [p])" "hb_id h1 = hb_id h"
    using send_parcel_waiting [of b p h qs E] by auto
  obtain h' where "feed_all (send_parcel E) h1 ps = Some ([], h')" "waiting h' (unat b) ((qs @ [p]) @ ps)" "hb_id h' = hb_id h1"
    using Cons.IH [OF _ _ Cons.prems(3) h1(2)] Cons.prems(1,2) h1(3) by auto
  with h1 show ?case by auto
qed auto

lemma dispatch_waiting:
  assumes "waiting h i ps" and "fd \<noteq> 0" and "s = (hb_s h ! i)\<lparr>sl_fd := fd, sl_status := st\<rparr>"
  shows "dispatch_link_queue (put_slave h i s) i = Some (map (\<lambda>p. Socket_send fd (link_frame (parcel_content p))) ps,
    put_slave h i (s\<lparr>sl_queue := None\<rparr>))"
proof -
  have i: "i < List.length (hb_s h)" using assms(1) by (simp add: waiting_def)
  show ?thesis
  proof (cases "sl_queue (hb_s h ! i)")
    case None
    then have "ps = []" "s\<lparr>sl_queue := None\<rparr> = s" "sl_queue s = None" "sl_fd s = fd"
      using assms(1,3) by (simp_all add: waiting_def)
    then have "put_slave h i (s\<lparr>sl_queue := None\<rparr>) = put_slave h i s" by (simp only:)
    then show ?thesis using assms(2) i \<open>ps = []\<close> \<open>sl_queue s = None\<close> \<open>sl_fd s = fd\<close> by (simp add: dispatch_link_queue_def Let_def)
  next
    case (Some q)
    then have "pop_loop (hq_size q) q = Some (map queued ps)" using assms(1) pop_loop_size [of q] by (simp add: waiting_def)
    then show ?thesis
      using assms(2,3) i Some by (simp add: dispatch_link_queue_def Let_def comp_def queued_def send_remote_frame parcel_content_def)
  qed
qed

text \<open>
  C31. Messages for a node whose link is not up yet are kept, and none is sent. When the link is
  accepted, or after the handshake of one the harbor asked for, they go out on it in order, byte for
  byte what would have been sent over a link that had been up.
\<close>

theorem harbor_queue_flush:
  assumes "\<forall>p \<in> set ps. parcel_ok b p" and "b \<noteq> hb_id h" and "b \<noteq> 0" and "waiting h (unat b) []" and "fd \<noteq> 0"
    and "scan_link (bytes_text (takeWhile (\<lambda>b. b \<noteq> 0) (drop 2 msg))) = (fd, b)" and "0 < sint b" and "sint b < int REMOTE_MAX"
    and "List.length msg \<ge> 2" and "up = put_slave h (unat b) ((hb_s h ! unat b)\<lparr>sl_fd := fd, sl_status := STATUS_HEADER\<rparr>)"
  shows "\<exists>sent h1. feed_all (send_parcel E) up ps = Some (sent, up) \<and> feed_all (send_parcel E) h ps = Some ([], h1)
    \<and> (hd msg = 65 \<longrightarrow> (\<exists>h2. harbor_command h1 msg source = Some (Socket_start fd # Socket_send fd [ucast (hb_id h)] # sent, h2)))
    \<and> (hd msg = 83 \<longrightarrow> (\<exists>h2 h3. harbor_command h1 msg source = Some ([Socket_start fd, Socket_send fd [ucast (hb_id h)]], h2)
         \<and> receive_loop E h2 (unat b) [of_nat (unat b)] = Some (sent, h3)))"
proof -
  let ?i = "unat b" and ?sent = "map (\<lambda>p. Socket_send fd (link_frame (parcel_content p))) ps"
  obtain h1 where h1: "feed_all (send_parcel E) h ps = Some ([], h1)" "waiting h1 ?i ps" "hb_id h1 = hb_id h"
    using send_all_waiting [OF assms(1-4), of E] by auto
  have i: "nat (sint b) = ?i" "int ?i < 256" "?i < List.length (hb_s h)" "?i < List.length (hb_s h1)"
    using assms(4,7,8) h1(2) sint_nonneg [of b] by (auto simp: waiting_def REMOTE_MAX_def)
  obtain c d rest where msg: "msg = c # d # rest" using assms(9) by (cases msg; cases "tl msg") auto
  let ?s = "\<lambda>st. (hb_s h1 ! ?i)\<lparr>sl_fd := fd, sl_status := st\<rparr>"
  have cmd: "harbor_command h1 msg source =
      then_do (Some ([Socket_start fd, Socket_send fd [ucast (hb_id h)]], put_slave h1 ?i (?s (if c = 83 then STATUS_HANDSHAKE else STATUS_HEADER))))
        (\<lambda>h1. if c = 83 then Some ([], h1) else dispatch_link_queue h1 ?i)" if "c = 83 \<or> c = 65"
    using that
  proof (rule disjE)
    note facts = assms(5) assms(6) [unfolded msg] assms(7,8) i h1(2) [unfolded waiting_def] h1(3)
    show ?thesis if "c = 83"
      using facts that by (simp add: harbor_command_def msg Let_def handshake_def put_slave_def)
    show ?thesis if "c = 65"
      using facts that by (simp add: harbor_command_def msg Let_def handshake_def put_slave_def)
  qed
  have up: "feed_all (send_parcel E) up ps = Some (?sent, up)"
    using assms(1-5,10) i by (intro send_all_up) (auto simp: put_slave_def)
  note flush = dispatch_waiting [OF h1(2) assms(5) refl]
  have "\<exists>h2. harbor_command h1 msg source = Some (Socket_start fd # Socket_send fd [ucast (hb_id h)] # ?sent, h2)" if "hd msg = 65"
    using cmd that flush [of STATUS_HEADER] by (simp add: msg then_do_def)
  moreover have "\<exists>h2 h3. harbor_command h1 msg source = Some ([Socket_start fd, Socket_send fd [ucast (hb_id h)]], h2)
         \<and> receive_loop E h2 ?i [of_nat ?i] = Some (?sent, h3)" if "hd msg = 83"
  proof -
    let ?h2 = "put_slave h1 ?i (?s STATUS_HANDSHAKE)"
    let ?s3 = "(?s STATUS_HEADER)\<lparr>sl_queue := None\<rparr>"
    have "?i < 256" using i(2) by linarith
    then have "unat (of_nat ?i :: u8) = ?i" by (simp add: unsigned_ucast_eq take_bit_nat_eq_self_iff)
    then have "receive_loop E ?h2 ?i [of_nat ?i] = Option.bind (receive_loop E (put_slave h1 ?i ?s3) ?i [])
        (\<lambda>(outs, h3). Some (?sent @ outs, h3))"
      using flush [of STATUS_HEADER] i(4) by (subst receive_loop.simps) (simp add: Let_def)
    moreover have "\<exists>h3. receive_loop E (put_slave h1 ?i ?s3) ?i [] = Some ([], h3)"
      using h1(2) i(4) by (subst receive_loop.simps) (simp add: Let_def waiting_def)
    ultimately show ?thesis using cmd that by (auto simp: msg then_do_def)
  qed
  ultimately show ?thesis using up h1(1) by blast
qed

section \<open>An example\<close>

text \<open>Nodes 1 and 2, with a link that is up.\<close>

definition accept_all :: harbor_env where
  "accept_all = \<lparr>he_send = (\<lambda>s d t n m. True)\<rparr>"

definition node1 :: harbor where
  "node1 = (put_slave harbor_create 2 (blank_slave\<lparr>sl_fd := 7, sl_status := STATUS_HEADER\<rparr>))\<lparr>hb_id := 1\<rparr>"

definition node2 :: harbor where
  "node2 = (put_slave harbor_create 1 (blank_slave\<lparr>sl_fd := 9, sl_status := STATUS_HEADER\<rparr>))\<lparr>hb_id := 2\<rparr>"

definition two_parcels :: "parcel list" where
  "two_parcels = [(0x01000005, 0x02000006, 10, 3, [72, 105]), (0x01000005, 0x02000008, 1, 0, [])]"

lemma two_parcels_ok: "\<forall>p \<in> set two_parcels. parcel_ok 2 p"
  by (simp add: two_parcels_def parcel_ok_def HANDLE_REMOTE_SHIFT_def PTYPE_SOCKET_def PTYPE_HARBOR_def)

lemma node_slaves [simp]:
  "hb_s node1 ! 2 = blank_slave\<lparr>sl_fd := 7, sl_status := STATUS_HEADER\<rparr>" "hb_id node1 = 1"
  "hb_s node2 ! Suc 0 = blank_slave\<lparr>sl_fd := 9, sl_status := STATUS_HEADER\<rparr>" "hb_id node2 = 2" "List.length (hb_s node2) = 256"
  by (simp_all add: node1_def node2_def put_slave_def harbor_create_def REMOTE_MAX_def)

text \<open>One byte at a time.\<close>

theorem harbor_link_witness:
  "\<exists>sent h1 h2. feed_all (send_parcel accept_all) node1 two_parcels = Some (sent, h1)
     \<and> feed_all (\<lambda>h c. mainloop accept_all h (of_nat PTYPE_SOCKET) 0 0 (Socket_event (data_event 9 c))) node2
         (map (\<lambda>b. [b]) (concat (map payload sent)))
       = Some ([Send 0x01000005 0x02000006 0x1000A 3 [72, 105], Send 0x01000005 0x02000008 0x10001 0 []], h2)"
proof -
  obtain sent h1 where s: "feed_all (send_parcel accept_all) node1 two_parcels = Some (sent, h1)"
    using send_all_up [OF two_parcels_ok, of node1 7] by simp
  have "harbor_id node2 9 = Some 1"
    by (simp add: harbor_id_def upt_conv_Cons REMOTE_MAX_def)
  moreover have "concat (map (\<lambda>b. [b]) xs) = xs" for xs :: bytes by (induction xs) simp_all
  ultimately have "\<exists>h2. feed_all (\<lambda>h c. mainloop accept_all h (of_nat PTYPE_SOCKET) 0 0 (Socket_event (data_event 9 c))) node2
         (map (\<lambda>b. [b]) (concat (map payload sent))) = Some (map arrival two_parcels, h2)"
    using s by (intro harbor_link [OF two_parcels_ok, of node1 7 _ _ 1 _ _ h1]) (auto simp: blank_slave_def accept_all_def)
  moreover have "map arrival two_parcels = [Send 0x01000005 0x02000006 0x1000A 3 [72, 105], Send 0x01000005 0x02000008 0x10001 0 []]"
    by (simp add: two_parcels_def arrival_def PTYPE_TAG_DONTCOPY_def)
  ultimately show ?thesis using s by auto
qed

definition alone :: harbor where
  "alone = harbor_create\<lparr>hb_id := 1\<rparr>"

lemma alone_waiting: "waiting alone 2 []"
  by (simp add: waiting_def alone_def harbor_create_def blank_slave_def REMOTE_MAX_def)

lemma example_link: "scan_link (bytes_text (takeWhile (\<lambda>b. b \<noteq> 0) (drop 2 [65, 32, 55, 32, 50]))) = (7, 2)"
proof -
  have "bytes_text [55, 32, 50] = ''7 2''" by (simp add: bytes_text_def char_of_def bit_0)
  moreover have "scan_link ''7 2'' = (7, 2)"
    by (simp add: scan_link_def scan_int_def parse_sign_def isspace_def digit_val_def strtol_def scan_number_def parse_base_def)
  ultimately show ?thesis by simp
qed

theorem harbor_queue_flush_witness:
  "\<exists>sent h1 h2. feed_all (send_parcel accept_all) alone two_parcels = Some ([], h1)
     \<and> List.length sent = 2 \<and> harbor_command h1 [65, 32, 55, 32, 50] 0 = Some (Socket_start 7 # Socket_send 7 [1] # sent, h2)"
proof -
  let ?up = "put_slave alone 2 ((hb_s alone ! 2)\<lparr>sl_fd := 7, sl_status := STATUS_HEADER\<rparr>)"
  have "\<exists>sent h1. feed_all (send_parcel accept_all) ?up two_parcels = Some (sent, ?up)
      \<and> feed_all (send_parcel accept_all) alone two_parcels = Some ([], h1)
      \<and> (\<exists>h2. harbor_command h1 [65, 32, 55, 32, 50] 0 = Some (Socket_start 7 # Socket_send 7 [1] # sent, h2))"
    using harbor_queue_flush [OF two_parcels_ok _ _ _ _ example_link, of alone ?up accept_all 0] alone_waiting
    by (auto simp: alone_def REMOTE_MAX_def)
  moreover have "List.length sent = 2" if "feed_all (send_parcel accept_all) ?up two_parcels = Some (sent, ?up)" for sent
    using that send_all_up [OF two_parcels_ok, of ?up 7 accept_all] alone_waiting
    by (auto simp: two_parcels_def waiting_def put_slave_def alone_def)
  ultimately show ?thesis by blast
qed

end
