(* ===== verification/LuaBase.thy ===== *)
theory LuaBase
  imports Prelude
begin

text \<open>
  What the Lua libraries under \<open>lualib-src\<close> share: the outcome of a function that may raise an error
  with \<open>luaL_error\<close> or use memory it does not own, and the bytes of integers in the machine's order.
\<close>

datatype 'a outcome = Done 'a | Lua_error string | Crash | No_fuel

fun bind_outcome :: "'a outcome \<Rightarrow> ('a \<Rightarrow> 'b outcome) \<Rightarrow> 'b outcome" where
  "bind_outcome (Done x) f = f x"
| "bind_outcome (Lua_error e) f = Lua_error e"
| "bind_outcome Crash f = Crash"
| "bind_outcome No_fuel f = No_fuel"

lemma bind_Done_iff: "bind_outcome x f = Done y \<longleftrightarrow> (\<exists>z. x = Done z \<and> f z = Done y)"
  by (cases x) simp_all

text \<open>The bytes of an integer as they lie in memory, the lowest first.\<close>

definition le_bytes :: "nat \<Rightarrow> 'a::len word \<Rightarrow> bytes" where
  "le_bytes n w = map (\<lambda>i. ucast (drop_bit (8 * i) w)) [0..<n]"

fun le_word :: "bytes \<Rightarrow> 'a::len word" where
  "le_word [] = 0"
| "le_word (b # bs) = ucast b OR push_bit 8 (le_word bs)"

lemma length_le_bytes [simp]: "List.length (le_bytes n w) = n"
  by (simp add: le_bytes_def)

lemma le_bytes_Suc: "le_bytes (Suc n) w = ucast w # le_bytes n (drop_bit 8 w)"
  by (simp add: le_bytes_def upt_Suc_map_shift add.commute del: upt_Suc)

lemma le_word_bytes: "le_word (le_bytes n (w :: 'a::len word)) = take_bit (8 * n) w"
proof (induction n arbitrary: w)
  case 0
  then show ?case by (simp add: le_bytes_def)
next
  case (Suc n)
  show ?case
    by (rule bit_word_eqI) (auto simp: le_bytes_Suc Suc bit_simps)
qed

lemma le_word_whole: "LENGTH('a) \<le> 8 * n \<Longrightarrow> le_word (le_bytes n (w :: 'a::len word)) = w"
  by (simp add: le_word_bytes take_bit_word_eq_self)

end
