(* ===== verification/Seri.thy ===== *)
theory Seri
  imports LuaBase CText
begin

text \<open>
  The serialisation of Lua values that services send each other, \<open>lualib-src/lua-seri.c\<close>. The writer
  fills a chain of blocks of 128 bytes, the reader takes bytes off a buffer. An error raised with
  \<open>luaL_error\<close> and a use of memory outside the buffer are values of \<open>outcome\<close>.
\<close>

section \<open>Values\<close>

text \<open>
  A floating-point number and a pointer are their eight bytes. A table has the length Lua gives it,
  the values at the indices from 1 on, and the pairs \<open>lua_next\<close> yields, in its order; as a result of
  the reader it is the table these assignments make. A value of another type has its type's name.
\<close>

datatype lua =
    Nil
  | Boolean bool
  | Integer i64
  | Real u64
  | Pointer u64
  | Str bytes
  | Table "lua list" "(lua \<times> lua) list"
  | Unsupported string

definition TYPE_NIL :: u8 where "TYPE_NIL = 0"
definition TYPE_BOOLEAN :: u8 where "TYPE_BOOLEAN = 1"
definition TYPE_NUMBER :: u8 where "TYPE_NUMBER = 2"
definition TYPE_NUMBER_ZERO :: u8 where "TYPE_NUMBER_ZERO = 0"
definition TYPE_NUMBER_BYTE :: u8 where "TYPE_NUMBER_BYTE = 1"
definition TYPE_NUMBER_WORD :: u8 where "TYPE_NUMBER_WORD = 2"
definition TYPE_NUMBER_DWORD :: u8 where "TYPE_NUMBER_DWORD = 4"
definition TYPE_NUMBER_QWORD :: u8 where "TYPE_NUMBER_QWORD = 6"
definition TYPE_NUMBER_REAL :: u8 where "TYPE_NUMBER_REAL = 8"
definition TYPE_USERDATA :: u8 where "TYPE_USERDATA = 3"
definition TYPE_SHORT_STRING :: u8 where "TYPE_SHORT_STRING = 4"
definition TYPE_LONG_STRING :: u8 where "TYPE_LONG_STRING = 5"
definition TYPE_TABLE :: u8 where "TYPE_TABLE = 6"
definition MAX_COOKIE :: nat where "MAX_COOKIE = 32"
definition BLOCK_SIZE :: nat where "BLOCK_SIZE = 128"
definition MAX_DEPTH :: nat where "MAX_DEPTH = 32"

definition COMBINE_TYPE :: "u8 \<Rightarrow> u8 \<Rightarrow> u8" where
  "COMBINE_TYPE t v = t OR push_bit 3 v"

lemmas type_codes = TYPE_NIL_def TYPE_BOOLEAN_def TYPE_NUMBER_def TYPE_NUMBER_ZERO_def TYPE_NUMBER_BYTE_def TYPE_NUMBER_WORD_def
  TYPE_NUMBER_DWORD_def TYPE_NUMBER_QWORD_def TYPE_NUMBER_REAL_def TYPE_USERDATA_def TYPE_SHORT_STRING_def TYPE_LONG_STRING_def
  TYPE_TABLE_def

section \<open>Writing\<close>

text \<open>A block is what has been written to it.\<close>

record write_block =
  wb_full :: "bytes list"
  wb_current :: bytes
  wb_len :: nat
  wb_ptr :: nat

definition wb_init :: write_block where
  "wb_init = \<lparr>wb_full = [], wb_current = [], wb_len = 0, wb_ptr = 0\<rparr>"

definition next_block :: "write_block \<Rightarrow> write_block" where
  "next_block b = b\<lparr>wb_full := wb_full b @ [wb_current b], wb_current := [], wb_ptr := 0\<rparr>"

definition wb_copy :: "write_block \<Rightarrow> bytes \<Rightarrow> write_block" where
  "wb_copy b bs = b\<lparr>wb_current := take (wb_ptr b) (wb_current b) @ bs,
     wb_ptr := wb_ptr b + List.length bs, wb_len := wb_len b + List.length bs\<rparr>"

text \<open>The part from the test \<open>b->ptr <= BLOCK_SIZE - sz\<close> on, with the jump back to a fresh block.\<close>

function wb_fill :: "write_block \<Rightarrow> bytes \<Rightarrow> write_block" where
  "wb_fill b buffer =
     (if int (wb_ptr b) \<le> int BLOCK_SIZE - int (List.length buffer) then wb_copy b buffer
      else
        (let copy = BLOCK_SIZE - wb_ptr b
         in wb_fill (next_block (wb_copy b (take copy buffer))) (drop copy buffer)))"
  by pat_completeness auto
termination
  by (relation "measure (\<lambda>(b, bs). 2 * List.length bs + (if BLOCK_SIZE \<le> wb_ptr b then 1 else 0))")
    (auto simp: BLOCK_SIZE_def next_block_def wb_copy_def)

declare wb_fill.simps [simp del]

definition wb_push :: "write_block \<Rightarrow> bytes \<Rightarrow> write_block" where
  "wb_push b buffer = wb_fill (if wb_ptr b = BLOCK_SIZE then next_block b else b) buffer"

definition wb_nil :: "write_block \<Rightarrow> write_block" where
  "wb_nil wb = wb_push wb [TYPE_NIL]"

definition wb_boolean :: "write_block \<Rightarrow> bool \<Rightarrow> write_block" where
  "wb_boolean wb boolean = wb_push wb [COMBINE_TYPE TYPE_BOOLEAN (if boolean then 1 else 0)]"

definition wb_integer :: "write_block \<Rightarrow> i64 \<Rightarrow> write_block" where
  "wb_integer wb v =
     (if v = 0 then wb_push wb [COMBINE_TYPE TYPE_NUMBER TYPE_NUMBER_ZERO]
      else if v \<noteq> scast (ucast v :: i32) then
        wb_push (wb_push wb [COMBINE_TYPE TYPE_NUMBER TYPE_NUMBER_QWORD]) (le_bytes 8 v)
      else if sint v < 0 then
        wb_push (wb_push wb [COMBINE_TYPE TYPE_NUMBER TYPE_NUMBER_DWORD]) (le_bytes 4 (ucast v :: i32))
      else if sint v < 0x100 then
        wb_push (wb_push wb [COMBINE_TYPE TYPE_NUMBER TYPE_NUMBER_BYTE]) (le_bytes 1 (ucast v :: u8))
      else if sint v < 0x10000 then
        wb_push (wb_push wb [COMBINE_TYPE TYPE_NUMBER TYPE_NUMBER_WORD]) (le_bytes 2 (ucast v :: u16))
      else wb_push (wb_push wb [COMBINE_TYPE TYPE_NUMBER TYPE_NUMBER_DWORD]) (le_bytes 4 (ucast v :: u32)))"

definition wb_real :: "write_block \<Rightarrow> u64 \<Rightarrow> write_block" where
  "wb_real wb v = wb_push (wb_push wb [COMBINE_TYPE TYPE_NUMBER TYPE_NUMBER_REAL]) (le_bytes 8 v)"

definition wb_pointer :: "write_block \<Rightarrow> u64 \<Rightarrow> write_block" where
  "wb_pointer wb v = wb_push (wb_push wb [TYPE_USERDATA]) (le_bytes 8 v)"

text \<open>\<open>len\<close> is an \<open>int\<close>: strings have less than \<open>2\<^sup>3\<^sup>1\<close> bytes.\<close>

definition wb_string :: "write_block \<Rightarrow> bytes \<Rightarrow> write_block" where
  "wb_string wb str =
     (let len = List.length str in
      if len < MAX_COOKIE then
        (let wb1 = wb_push wb [COMBINE_TYPE TYPE_SHORT_STRING (of_nat len)] in
         if 0 < len then wb_push wb1 str else wb1)
      else
        wb_push
          (if len < 0x10000 then wb_push (wb_push wb [COMBINE_TYPE TYPE_LONG_STRING 2]) (le_bytes 2 (of_nat len :: u16))
           else wb_push (wb_push wb [COMBINE_TYPE TYPE_LONG_STRING 4]) (le_bytes 4 (of_nat len :: u32)))
          str)"

text \<open>The keys \<open>1\<close> to \<open>array_size\<close>, which \<open>wb_table_hash\<close> skips.\<close>

fun in_array :: "nat \<Rightarrow> lua \<Rightarrow> bool" where
  "in_array array_size (Integer x) = (0 < sint x \<and> sint x \<le> int array_size)"
| "in_array array_size _ = False"

definition table_head :: "write_block \<Rightarrow> nat \<Rightarrow> write_block" where
  "table_head wb array_size =
     (if MAX_COOKIE - 1 \<le> array_size then
        wb_integer (wb_push wb [COMBINE_TYPE TYPE_TABLE (of_nat (MAX_COOKIE - 1))]) (of_nat array_size)
      else wb_push wb [COMBINE_TYPE TYPE_TABLE (of_nat array_size)])"

definition too_deep :: string where
  "too_deep = ''serialize can't pack too depth table''"

function (sequential) pack_one :: "nat \<Rightarrow> lua \<Rightarrow> write_block \<Rightarrow> write_block outcome"
  and wb_table_array :: "nat \<Rightarrow> lua list \<Rightarrow> write_block \<Rightarrow> write_block outcome"
  and wb_table_hash :: "nat \<Rightarrow> nat \<Rightarrow> (lua \<times> lua) list \<Rightarrow> write_block \<Rightarrow> write_block outcome" where
  "pack_one depth v b =
     (if MAX_DEPTH < depth then Lua_error too_deep
      else
        (case v of
           Nil \<Rightarrow> Done (wb_nil b)
         | Integer x \<Rightarrow> Done (wb_integer b x)
         | Real n \<Rightarrow> Done (wb_real b n)
         | Boolean t \<Rightarrow> Done (wb_boolean b t)
         | Str s \<Rightarrow> Done (wb_string b s)
         | Pointer p \<Rightarrow> Done (wb_pointer b p)
         | Table arr pairs \<Rightarrow>
             bind_outcome (wb_table_array (Suc depth) arr (table_head b (List.length arr)))
               (wb_table_hash (Suc depth) (List.length arr) pairs)
         | Unsupported t \<Rightarrow> Lua_error (''Unsupport type '' @ t @ '' to serialize'')))"
| "wb_table_array depth [] b = Done b"
| "wb_table_array depth (v # vs) b = bind_outcome (pack_one depth v b) (wb_table_array depth vs)"
| "wb_table_hash depth array_size [] b = Done (wb_nil b)"
| "wb_table_hash depth array_size ((k, v) # pairs) b =
     (if in_array array_size k then wb_table_hash depth array_size pairs b
      else bind_outcome (pack_one depth k b)
        (\<lambda>b1. bind_outcome (pack_one depth v b1) (wb_table_hash depth array_size pairs)))"

  by pat_completeness auto
termination
  by (relation "measure (case_sum (\<lambda>(d, v, b). size v)
      (case_sum (\<lambda>(d, vs, b). size_list size vs) (\<lambda>(d, n, ps, b). size_list (size_prod size size) ps)))") auto

declare pack_one.simps [simp del]

fun pack_from :: "lua list \<Rightarrow> write_block \<Rightarrow> write_block outcome" where
  "pack_from [] b = Done b"
| "pack_from (v # vs) b = bind_outcome (pack_one 0 v b) (pack_from vs)"

text \<open>The copy of the blocks to one buffer; a block has \<open>BLOCK_SIZE\<close> bytes, of which less may have been written.\<close>

fun seri :: "bytes list \<Rightarrow> nat \<Rightarrow> bytes outcome" where
  "seri blocks len =
     (if 0 < len then
        (case blocks of
           [] \<Rightarrow> Crash
         | b # rest \<Rightarrow>
             if BLOCK_SIZE \<le> len then
               (if List.length b < BLOCK_SIZE then Crash
                else bind_outcome (seri rest (len - BLOCK_SIZE)) (\<lambda>bs. Done (take BLOCK_SIZE b @ bs)))
             else if List.length b < len then Crash else Done (take len b))
      else Done [])"

definition luaseri_pack :: "lua list \<Rightarrow> bytes outcome" where
  "luaseri_pack vs = bind_outcome (pack_from vs wb_init) (\<lambda>wb. seri (wb_full wb @ [wb_current wb]) (wb_len wb))"

section \<open>Reading\<close>

text \<open>
  The buffer from \<open>ptr\<close> on. \<open>NULL\<close> is \<open>None\<close>; a negative length, which the test lets pass, leads
  outside the buffer.
\<close>

definition rb_read :: "bytes \<Rightarrow> int \<Rightarrow> (bytes \<times> bytes) option outcome" where
  "rb_read rb sz =
     (if int (List.length rb) < sz then Done None
      else if sz < 0 then Crash
      else Done (Some (take (nat sz) rb, drop (nat sz) rb)))"

definition invalid_stream :: "bytes \<Rightarrow> nat \<Rightarrow> string" where
  "invalid_stream rb line =
     ''Invalid serialize stream '' @ print_d (int (List.length rb)) @ '' (line:'' @ print_d (int line) @ '')''"

definition rb_need :: "bytes \<Rightarrow> int \<Rightarrow> nat \<Rightarrow> (bytes \<times> bytes) outcome" where
  "rb_need rb sz line =
     bind_outcome (rb_read rb sz) (\<lambda>r. case r of None \<Rightarrow> Lua_error (invalid_stream rb line) | Some x \<Rightarrow> Done x)"

definition get_integer :: "bytes \<Rightarrow> u8 \<Rightarrow> (i64 \<times> bytes) outcome" where
  "get_integer rb cookie =
     (if cookie = TYPE_NUMBER_ZERO then Done (0, rb)
      else if cookie = TYPE_NUMBER_BYTE then
        bind_outcome (rb_need rb 1 339) (\<lambda>(p, rb). Done (ucast (le_word p :: u8), rb))
      else if cookie = TYPE_NUMBER_WORD then
        bind_outcome (rb_need rb 2 347) (\<lambda>(p, rb). Done (ucast (le_word p :: u16), rb))
      else if cookie = TYPE_NUMBER_DWORD then
        bind_outcome (rb_need rb 4 355) (\<lambda>(p, rb). Done (scast (le_word p :: i32), rb))
      else if cookie = TYPE_NUMBER_QWORD then
        bind_outcome (rb_need rb 8 363) (\<lambda>(p, rb). Done (le_word p, rb))
      else Lua_error (invalid_stream rb 368))"

definition get_real :: "bytes \<Rightarrow> (u64 \<times> bytes) outcome" where
  "get_real rb = bind_outcome (rb_need rb 8 378) (\<lambda>(p, rb). Done (le_word p, rb))"

definition get_pointer :: "bytes \<Rightarrow> (u64 \<times> bytes) outcome" where
  "get_pointer rb = bind_outcome (rb_need rb 8 388) (\<lambda>(p, rb). Done (le_word p, rb))"

definition get_buffer :: "bytes \<Rightarrow> int \<Rightarrow> (bytes \<times> bytes) outcome" where
  "get_buffer rb len = rb_need rb len 398"

text \<open>The \<open>int\<close> that \<open>unpack_table\<close> makes of the cookie or of the integer behind it.\<close>

definition table_size :: "bytes \<Rightarrow> u8 \<Rightarrow> (i32 \<times> bytes) outcome" where
  "table_size rb cookie =
     (if unat cookie = MAX_COOKIE - 1 then
        bind_outcome (rb_need rb 1 411)
          (\<lambda>(t, rb). let type = t ! 0; cookie = drop_bit 3 type in
             if type AND 7 \<noteq> TYPE_NUMBER \<or> cookie = TYPE_NUMBER_REAL then Lua_error (invalid_stream rb 416)
             else bind_outcome (get_integer rb cookie) (\<lambda>(n, rb). Done (ucast n, rb)))
      else Done (ucast cookie, rb))"

text \<open>
  The recursion of the reader has fuel; each call takes a byte off the buffer, so that more fuel than
  twice the bytes is never used up. The type and the cookie are the two parts of the byte
  \<open>unpack_one\<close> reads.
\<close>

definition push_string :: "bytes \<Rightarrow> u8 \<Rightarrow> (bytes \<times> bytes) outcome" where
  "push_string rb cookie =
     (if cookie = 2 then
        bind_outcome (rb_need rb 2 464) (\<lambda>(p, rb). get_buffer rb (int (unat (le_word p :: u16))))
      else if cookie \<noteq> 4 then Lua_error (invalid_stream rb 471)
      else bind_outcome (rb_need rb 4 475) (\<lambda>(p, rb). get_buffer rb (sint (le_word p :: i32))))"

text \<open>A floating-point number that is not a number (its exponent is all ones, its fraction is not zero) is no key of a table.\<close>

fun nan_key :: "lua \<Rightarrow> bool" where
  "nan_key (Real n) = (0x7FF0000000000000 < n AND mask 63)"
| "nan_key _ = False"

fun unpack_one :: "nat \<Rightarrow> bytes \<Rightarrow> (lua \<times> bytes) outcome"
  and push_value :: "nat \<Rightarrow> bytes \<Rightarrow> u8 \<Rightarrow> u8 \<Rightarrow> (lua \<times> bytes) outcome"
  and unpack_array :: "nat \<Rightarrow> bytes \<Rightarrow> nat \<Rightarrow> (lua list \<times> bytes) outcome"
  and unpack_hash :: "nat \<Rightarrow> bytes \<Rightarrow> ((lua \<times> lua) list \<times> bytes) outcome" where
  "unpack_one fuel rb = bind_outcome (rb_need rb 1 499) (\<lambda>(t, rb). push_value fuel rb (t ! 0 AND 7) (drop_bit 3 (t ! 0)))"
| "push_value 0 rb type cookie = No_fuel"
| "push_value (Suc fuel) rb type cookie =
     (if type = TYPE_NIL then Done (Nil, rb)
      else if type = TYPE_BOOLEAN then Done (Boolean (cookie \<noteq> 0), rb)
      else if type = TYPE_NUMBER then
        (if cookie = TYPE_NUMBER_REAL then bind_outcome (get_real rb) (\<lambda>(n, rb). Done (Real n, rb))
         else bind_outcome (get_integer rb cookie) (\<lambda>(n, rb). Done (Integer n, rb)))
      else if type = TYPE_USERDATA then bind_outcome (get_pointer rb) (\<lambda>(p, rb). Done (Pointer p, rb))
      else if type = TYPE_SHORT_STRING then
        bind_outcome (get_buffer rb (int (unat cookie))) (\<lambda>(s, rb). Done (Str s, rb))
      else if type = TYPE_LONG_STRING then bind_outcome (push_string rb cookie) (\<lambda>(s, rb). Done (Str s, rb))
      else if type = TYPE_TABLE then
        bind_outcome (table_size rb cookie)
          (\<lambda>(n, rb). bind_outcome (unpack_array fuel rb (nat (sint n)))
             (\<lambda>(arr, rb). bind_outcome (unpack_hash fuel rb) (\<lambda>(pairs, rb). Done (Table arr pairs, rb))))
      else Lua_error (invalid_stream rb 488))"
| "unpack_array fuel rb 0 = Done ([], rb)"
| "unpack_array 0 rb (Suc n) = No_fuel"
| "unpack_array (Suc fuel) rb (Suc n) =
     bind_outcome (unpack_one fuel rb)
       (\<lambda>(v, rb). bind_outcome (unpack_array fuel rb n) (\<lambda>(vs, rb). Done (v # vs, rb)))"
| "unpack_hash 0 rb = No_fuel"
| "unpack_hash (Suc fuel) rb =
     bind_outcome (unpack_one fuel rb)
       (\<lambda>(k, rb). if k = Nil then Done ([], rb)
          else bind_outcome (unpack_one fuel rb)
            (\<lambda>(v, rb). if nan_key k then Lua_error ''table index is NaN''
               else bind_outcome (unpack_hash fuel rb) (\<lambda>(kvs, rb). Done ((k, v) # kvs, rb))))"

text \<open>The loop of \<open>_luaseri_unpack\<close>, which ends with the buffer.\<close>

fun unpack_loop :: "nat \<Rightarrow> bytes \<Rightarrow> lua list outcome" where
  "unpack_loop 0 rb = (if rb = [] then Done [] else No_fuel)"
| "unpack_loop (Suc fuel) rb =
     bind_outcome (rb_read rb 1)
       (\<lambda>r. case r of
          None \<Rightarrow> Done []
        | Some (t, rb) \<Rightarrow>
            bind_outcome (push_value (2 * List.length rb + 2) rb (t ! 0 AND 7) (drop_bit 3 (t ! 0)))
              (\<lambda>(v, rb). bind_outcome (unpack_loop fuel rb) (\<lambda>vs. Done (v # vs))))"

text \<open>\<open>None\<close> for the buffer is NULL.\<close>

definition luaseri_unpack :: "bytes option \<Rightarrow> i32 \<Rightarrow> lua list outcome" where
  "luaseri_unpack buffer len =
     (if len = 0 then Done []
      else
        (case buffer of
           None \<Rightarrow> Lua_error ''deserialize null pointer''
         | Some bs \<Rightarrow> if int (List.length bs) < sint len then Crash
                     else unpack_loop (nat (sint len)) (take (nat (sint len)) bs)))"

section \<open>The format\<close>

text \<open>The bytes of a value.\<close>

definition encode_integer :: "i64 \<Rightarrow> bytes" where
  "encode_integer v =
     (if v = 0 then [COMBINE_TYPE TYPE_NUMBER TYPE_NUMBER_ZERO]
      else if v \<noteq> scast (ucast v :: i32) then COMBINE_TYPE TYPE_NUMBER TYPE_NUMBER_QWORD # le_bytes 8 v
      else if sint v < 0 \<or> 0x10000 \<le> sint v then COMBINE_TYPE TYPE_NUMBER TYPE_NUMBER_DWORD # le_bytes 4 (ucast v :: u32)
      else if sint v < 0x100 then [COMBINE_TYPE TYPE_NUMBER TYPE_NUMBER_BYTE, ucast v]
      else COMBINE_TYPE TYPE_NUMBER TYPE_NUMBER_WORD # le_bytes 2 (ucast v :: u16))"

definition encode_string :: "bytes \<Rightarrow> bytes" where
  "encode_string str =
     (if List.length str < MAX_COOKIE then [COMBINE_TYPE TYPE_SHORT_STRING (of_nat (List.length str))]
      else if List.length str < 0x10000 then COMBINE_TYPE TYPE_LONG_STRING 2 # le_bytes 2 (of_nat (List.length str) :: u16)
      else COMBINE_TYPE TYPE_LONG_STRING 4 # le_bytes 4 (of_nat (List.length str) :: u32)) @ str"

definition encode_size :: "nat \<Rightarrow> bytes" where
  "encode_size n =
     (if MAX_COOKIE - 1 \<le> n then COMBINE_TYPE TYPE_TABLE (of_nat (MAX_COOKIE - 1)) # encode_integer (of_nat n)
      else [COMBINE_TYPE TYPE_TABLE (of_nat n)])"

function (sequential) encode :: "lua \<Rightarrow> bytes"
  and encode_array :: "lua list \<Rightarrow> bytes"
  and encode_hash :: "nat \<Rightarrow> (lua \<times> lua) list \<Rightarrow> bytes" where
  "encode Nil = [TYPE_NIL]"
| "encode (Boolean t) = [COMBINE_TYPE TYPE_BOOLEAN (if t then 1 else 0)]"
| "encode (Integer x) = encode_integer x"
| "encode (Real n) = COMBINE_TYPE TYPE_NUMBER TYPE_NUMBER_REAL # le_bytes 8 n"
| "encode (Pointer p) = TYPE_USERDATA # le_bytes 8 p"
| "encode (Str s) = encode_string s"
| "encode (Table arr pairs) = encode_size (List.length arr) @ encode_array arr @ encode_hash (List.length arr) pairs"
| "encode (Unsupported t) = []"
| "encode_array [] = []"
| "encode_array (v # vs) = encode v @ encode_array vs"
| "encode_hash n [] = [TYPE_NIL]"
| "encode_hash n ((k, v) # pairs) =
     (if in_array n k then [] else encode k @ encode v) @ encode_hash n pairs"
  by pat_completeness auto
termination
  by (relation "measure (case_sum size (case_sum (size_list size) (\<lambda>(n, ps). size_list (size_prod size size) ps)))") auto

text \<open>The values that can be packed: no deeper than \<open>MAX_DEPTH\<close>, and of the types the format has.\<close>

function (sequential) packable :: "nat \<Rightarrow> lua \<Rightarrow> bool"
  and packable_array :: "nat \<Rightarrow> lua list \<Rightarrow> bool"
  and packable_hash :: "nat \<Rightarrow> nat \<Rightarrow> (lua \<times> lua) list \<Rightarrow> bool" where
  "packable d (Unsupported t) = False"
| "packable d (Table arr pairs) =
     (d \<le> MAX_DEPTH \<and> packable_array (Suc d) arr \<and> packable_hash (Suc d) (List.length arr) pairs)"
| "packable d v = (d \<le> MAX_DEPTH)"
| "packable_array d [] = True"
| "packable_array d (v # vs) = (packable d v \<and> packable_array d vs)"
| "packable_hash d n [] = True"
| "packable_hash d n ((k, v) # pairs) = ((in_array n k \<or> packable d k \<and> packable d v) \<and> packable_hash d n pairs)"
  by pat_completeness auto
termination
  by (relation "measure (case_sum (size \<circ> snd) (case_sum (size_list size \<circ> snd) (\<lambda>(d, n, ps). size_list (size_prod size size) ps)))") auto

section \<open>The writer\<close>

definition wb_ok :: "write_block \<Rightarrow> bool" where
  "wb_ok b \<longleftrightarrow> (\<forall>x\<in>set (wb_full b). List.length x = BLOCK_SIZE) \<and> List.length (wb_current b) = wb_ptr b
     \<and> wb_ptr b \<le> BLOCK_SIZE \<and> wb_len b = BLOCK_SIZE * List.length (wb_full b) + wb_ptr b"

definition wb_bytes :: "write_block \<Rightarrow> bytes" where
  "wb_bytes b = concat (wb_full b) @ wb_current b"

definition emits :: "write_block \<Rightarrow> bytes \<Rightarrow> write_block \<Rightarrow> bool" where
  "emits b bs b' \<longleftrightarrow> (wb_ok b \<longrightarrow> wb_ok b' \<and> wb_bytes b' = wb_bytes b @ bs)"

lemma emits_trans: "emits b bs b1 \<Longrightarrow> emits b1 cs b2 \<Longrightarrow> emits b (bs @ cs) b2"
  by (auto simp: emits_def)

lemma emits_refl: "emits b [] b"
  by (simp add: emits_def)

lemma next_block_ok:
  assumes "wb_ok b" and "wb_ptr b = BLOCK_SIZE"
  shows "wb_ok (next_block b)" and "wb_bytes (next_block b) = wb_bytes b"
  using assms by (auto simp: wb_ok_def wb_bytes_def next_block_def)

lemma wb_copy_ok:
  assumes "wb_ok b" and "wb_ptr b + List.length bs \<le> BLOCK_SIZE"
  shows "wb_ok (wb_copy b bs)" and "wb_bytes (wb_copy b bs) = wb_bytes b @ bs"
  using assms by (auto simp: wb_ok_def wb_bytes_def wb_copy_def)

lemma wb_fill_ok: "wb_ok b \<Longrightarrow> wb_ok (wb_fill b bs) \<and> wb_bytes (wb_fill b bs) = wb_bytes b @ bs"
proof (induction b bs rule: wb_fill.induct)
  case (1 b buffer)
  let ?copy = "BLOCK_SIZE - wb_ptr b"
  let ?b1 = "next_block (wb_copy b (take ?copy buffer))"
  show ?case
  proof (cases "int (wb_ptr b) \<le> int BLOCK_SIZE - int (List.length buffer)")
    case True
    then show ?thesis using wb_copy_ok [OF \<open>wb_ok b\<close>, of buffer] by (subst (1 2) wb_fill.simps) auto
  next
    case False
    have "wb_ptr b \<le> BLOCK_SIZE" using \<open>wb_ok b\<close> by (simp add: wb_ok_def)
    with False have len: "wb_ptr b + List.length (take ?copy buffer) = BLOCK_SIZE" by auto
    have full: "wb_ptr (wb_copy b (take ?copy buffer)) = BLOCK_SIZE" using len by (simp add: wb_copy_def)
    note c = wb_copy_ok [OF \<open>wb_ok b\<close>, of "take ?copy buffer"]
    have ok: "wb_ok ?b1" "wb_bytes ?b1 = wb_bytes b @ take ?copy buffer"
      using next_block_ok [OF _ full] c len by simp_all
    show ?thesis using "1.IH" [OF False refl ok(1)] ok(2) False by (subst (1 2) wb_fill.simps) (simp add: Let_def)
  qed
qed

lemma wb_push_emits: "emits b bs (wb_push b bs)"
  using wb_fill_ok [of b bs] wb_fill_ok [of "next_block b" bs] next_block_ok [of b]
  by (auto simp: wb_push_def emits_def)

lemma wb_push2: "emits b (bs @ cs) (wb_push (wb_push b bs) cs)"
  by (rule emits_trans [OF wb_push_emits wb_push_emits])

lemma wb_push_Cons: "emits b (c # cs) (wb_push (wb_push b [c]) cs)"
  using wb_push2 [of b "[c]" cs] by simp

lemma wb_push_Cons2: "emits b (c # bs @ cs) (wb_push (wb_push (wb_push b [c]) bs) cs)"
  using emits_trans [OF wb_push_Cons wb_push_emits, of b c bs cs] by simp

lemmas emit_rules = wb_push_emits wb_push_Cons wb_push_Cons2

lemma le_bytes_1: "le_bytes 1 (w :: u8) = [w]"
  by (simp add: le_bytes_def)

lemma wb_integer_emits: "emits b (encode_integer v) (wb_integer b v)"
  using wb_push_emits [of b] wb_push2 [of b "[_]"] le_bytes_1 [of "ucast v"]
  by (auto simp: encode_integer_def wb_integer_def)

lemma wb_string_emits: "emits b (encode_string s) (wb_string b s)"
  by (auto simp: encode_string_def wb_string_def Let_def MAX_COOKIE_def emit_rules)

lemma table_head_emits: "emits b (encode_size n) (table_head b n)"
  using emits_trans [OF wb_push_emits wb_integer_emits, of b "[_]"]
  by (auto simp: encode_size_def table_head_def emit_rules)

text \<open>What the writer makes of a value that can be packed; any other is an error.\<close>

definition packs :: "bool \<Rightarrow> write_block \<Rightarrow> bytes \<Rightarrow> write_block outcome \<Rightarrow> bool" where
  "packs ok b bs r \<longleftrightarrow> (if ok then \<exists>b'. r = Done b' \<and> emits b bs b' else \<exists>e. r = Lua_error e)"

lemma packs_Done: "emits b bs b' \<Longrightarrow> packs True b bs (Done b')"
  by (simp add: packs_def)

lemma packs_error: "packs False b bs (Lua_error e)"
  by (simp add: packs_def)

lemma packs_bind:
  assumes "packs ok1 b bs r" and "\<And>b1. packs ok2 b1 cs (f b1)"
  shows "packs (ok1 \<and> ok2) b (bs @ cs) (bind_outcome r f)"
  using assms by (fastforce simp: packs_def intro: emits_trans split: if_splits)

lemma packs_from: "emits b bs b1 \<Longrightarrow> packs ok b1 cs r \<Longrightarrow> packs ok b (bs @ cs) r"
  using emits_trans [of b bs b1 cs] by (auto simp: packs_def split: if_splits)

lemma packable_depth: "MAX_DEPTH < d \<Longrightarrow> \<not> packable d v"
  by (cases v) simp_all

lemma pack_sound:
  "packs (packable d v) b (encode v) (pack_one d v b)"
  "packs (packable_array d vs) b (encode_array vs) (wb_table_array d vs b)"
  "packs (packable_hash d n ps) b (encode_hash n ps) (wb_table_hash d n ps b)"
proof (induction d v b and d vs b and d n ps b rule: pack_one_wb_table_array_wb_table_hash.induct)
  case (1 depth v b)
  show ?case
  proof (cases "MAX_DEPTH < depth")
    case True
    then show ?thesis by (simp add: packs_error packable_depth pack_one.simps)
  next
    case False
    show ?thesis
    proof (cases v)
      case (Table arr pairs)
      show ?thesis
        using packs_from [OF table_head_emits packs_bind [OF "1.IH"(1) [OF False Table] "1.IH"(2) [OF False Table]]] False Table
        by (simp add: pack_one.simps conj_commute)
    qed (use False in \<open>auto intro!: packs_Done packs_error
        simp: pack_one.simps wb_nil_def wb_boolean_def wb_real_def wb_pointer_def wb_integer_emits wb_string_emits emit_rules\<close>)
  qed
next
  case (5 depth n k v pairs b)
  show ?case
  proof (cases "in_array n k")
    case False
    then show ?thesis
      using packs_bind [OF "5.IH"(2) [OF False] packs_bind [OF "5.IH"(3) [OF False] "5.IH"(4) [OF False]]]
      by simp
  qed (use "5.IH"(1) in simp)
qed (auto intro: packs_Done packs_bind simp: emits_refl wb_nil_def emit_rules)

lemma pack_from_sound: "packs (packable_array 0 vs) b (encode_array vs) (pack_from vs b)"
  by (induction vs arbitrary: b) (auto intro: packs_Done packs_bind pack_sound simp: emits_refl)

lemma seri_blocks:
  assumes "\<forall>x\<in>set bss. List.length x = BLOCK_SIZE" and "List.length cur \<le> BLOCK_SIZE"
  shows "seri (bss @ [cur]) (BLOCK_SIZE * List.length bss + List.length cur) = Done (concat bss @ cur)"
  using assms(1)
proof (induction bss)
  case Nil
  then show ?case using assms(2) by (auto simp: BLOCK_SIZE_def)
next
  case (Cons x bss)
  then show ?case by (simp add: BLOCK_SIZE_def)
qed

lemma seri_wb: "wb_ok b \<Longrightarrow> seri (wb_full b @ [wb_current b]) (wb_len b) = Done (wb_bytes b)"
  using seri_blocks [of "wb_full b" "wb_current b"] by (simp add: wb_ok_def wb_bytes_def)

lemma wb_init_ok: "wb_ok wb_init" "wb_bytes wb_init = []"
  by (simp_all add: wb_ok_def wb_bytes_def wb_init_def)

lemma luaseri_pack_eq:
  "if packable_array 0 vs then luaseri_pack vs = Done (encode_array vs) else \<exists>e. luaseri_pack vs = Lua_error e"
  using pack_from_sound [of vs wb_init] wb_init_ok
  by (auto simp: luaseri_pack_def packs_def emits_def seri_wb split: if_splits simp del: seri.simps)

section \<open>Integers in memory\<close>

lemma take_bit_small: "unat w < 2 ^ n \<Longrightarrow> take_bit n w = w"
  by (metis and_mask_unat mod_less word_unat_eq_iff take_bit_eq_mask)

lemma combine_type:
  assumes "t < 8" and "c < 32"
  shows "COMBINE_TYPE t c AND 7 = t" and "drop_bit 3 (COMBINE_TYPE t c) = c"
proof -
  have t: "take_bit 3 t = t" and c: "take_bit 5 c = c"
    using assms by (simp_all add: word_less_nat_alt take_bit_small)
  have m: "7 = (mask 3 :: u8)" by (simp add: mask_eq_exp_minus_1)
  have tb: "bit t i \<Longrightarrow> i < 3" for i using t by (metis bit_take_bit_iff)
  have cb: "bit c i \<Longrightarrow> i < 5" for i using c by (metis bit_take_bit_iff)
  show "COMBINE_TYPE t c AND 7 = t"
    unfolding m COMBINE_TYPE_def by (rule bit_word_eqI) (auto simp: bit_simps dest: tb)
  show "drop_bit 3 (COMBINE_TYPE t c) = c"
    unfolding COMBINE_TYPE_def by (rule bit_word_eqI) (auto simp: bit_simps dest: tb cb)
qed

section \<open>The reader\<close>

lemma rb_need_append:
  "int (List.length p) = sz \<Longrightarrow> rb_need (p @ rb) sz line = Done (p, rb)"
  by (auto simp: rb_need_def rb_read_def)

lemma rb_need_Cons: "rb_need (t # rb) 1 line = Done ([t], rb)"
  using rb_need_append [of "[t]"] by simp

text \<open>
  The values of the format, with what Lua itself guarantees of a table, that no key is nil or not a
  number, and the lengths an \<open>int\<close> can hold.
\<close>

function (sequential) wf_lua :: "lua \<Rightarrow> bool"
  and wf_array :: "lua list \<Rightarrow> bool"
  and wf_hash :: "(lua \<times> lua) list \<Rightarrow> bool" where
  "wf_lua (Unsupported t) = False"
| "wf_lua (Str s) = (List.length s < 2 ^ 31)"
| "wf_lua (Table arr pairs) = (List.length arr < 2 ^ 31 \<and> wf_array arr \<and> wf_hash pairs)"
| "wf_lua v = True"
| "wf_array [] = True"
| "wf_array (v # vs) = (wf_lua v \<and> wf_array vs)"
| "wf_hash [] = True"
| "wf_hash ((k, v) # pairs) = (k \<noteq> Nil \<and> \<not> nan_key k \<and> wf_lua k \<and> wf_lua v \<and> wf_hash pairs)"
  by pat_completeness auto
termination
  by (relation "measure (case_sum size (case_sum (size_list size) (size_list (size_prod size size))))") auto

text \<open>A table as the reader makes it: each entry of the array once.\<close>

function (sequential) normal :: "lua \<Rightarrow> lua"
  and normal_array :: "lua list \<Rightarrow> lua list"
  and normal_hash :: "nat \<Rightarrow> (lua \<times> lua) list \<Rightarrow> (lua \<times> lua) list" where
  "normal (Table arr pairs) = Table (normal_array arr) (normal_hash (List.length arr) pairs)"
| "normal v = v"
| "normal_array [] = []"
| "normal_array (v # vs) = normal v # normal_array vs"
| "normal_hash n [] = []"
| "normal_hash n ((k, v) # pairs) = (if in_array n k then [] else [(normal k, normal v)]) @ normal_hash n pairs"
  by pat_completeness auto
termination
  by (relation "measure (case_sum size (case_sum (size_list size) (\<lambda>(n, ps). size_list (size_prod size size) ps)))") auto

lemma normal_array_map: "normal_array vs = map normal vs"
  by (induction vs) simp_all

lemma normal_Nil: "normal k = Nil \<longleftrightarrow> k = Nil"
  by (cases k) simp_all

lemma nan_key_normal: "nan_key (normal k) = nan_key k"
  by (cases k) simp_all

lemma unpack_one_Cons: "unpack_one fuel (t # rb) = push_value fuel rb (t AND 7) (drop_bit 3 t)"
  by (simp add: rb_need_Cons)

lemma unpack_one_Nil: "unpack_one fuel [] = Lua_error (invalid_stream [] 499)"
  by (simp add: rb_need_def rb_read_def)

lemma unpack_one_head:
  assumes "t < 8" and "c < 32"
  shows "unpack_one fuel (COMBINE_TYPE t c # rb) = push_value fuel rb t c"
  by (simp only: unpack_one_Cons combine_type [OF assms])

lemma COMBINE_0: "COMBINE_TYPE t 0 = t"
  by (simp add: COMBINE_TYPE_def)

lemma byte_value:
  assumes "0 \<le> sint (v :: i64)" and "sint v < 2 ^ LENGTH('b)"
  shows "ucast (ucast v :: 'b::len word) = v"
proof -
  have "sint v = uint v"
    using assms(1) uint_lt2p [of v]
    by (cases "bit v 63") (auto simp: sint_uint signed_take_bit_eq_take_bit_minus bit_uint_iff take_bit_int_eq_self)
  then have "take_bit LENGTH('b) (uint v) = uint v"
    using assms by (simp add: take_bit_int_eq_self)
  then show ?thesis
    by (intro word_uint_eqI) (simp add: unsigned_ucast_eq unsigned_take_bit_eq)
qed

lemma get_integer_back:
  obtains c p where "encode_integer v = COMBINE_TYPE TYPE_NUMBER c # p" and "c < 32" and "c \<noteq> TYPE_NUMBER_REAL"
    and "\<And>rest. get_integer (p @ rest) c = Done (v, rest)"
proof -
  note reads = le_word_whole rb_need_append rb_need_Cons
  consider "v = 0" | "v \<noteq> 0" "v \<noteq> scast (ucast v :: i32)"
    | "v \<noteq> 0" "v = scast (ucast v :: i32)" "sint v < 0 \<or> 0x10000 \<le> sint v"
    | "v \<noteq> 0" "v = scast (ucast v :: i32)" "0 \<le> sint v" "sint v < 0x100"
    | "v \<noteq> 0" "v = scast (ucast v :: i32)" "0x100 \<le> sint v" "sint v < 0x10000"
    by linarith
  then show ?thesis
  proof cases
    case 1
    show ?thesis by (rule that [of 0 "[]"]) (simp_all add: 1 encode_integer_def get_integer_def type_codes)
  next
    case 2
    show ?thesis
      by (rule that [of TYPE_NUMBER_QWORD "le_bytes 8 v"]) (use 2 in \<open>simp_all add: encode_integer_def get_integer_def type_codes reads\<close>)
  next
    case 3
    show ?thesis
      by (rule that [of TYPE_NUMBER_DWORD "le_bytes 4 (ucast v :: u32)"])
        (use 3 in \<open>simp_all add: encode_integer_def get_integer_def type_codes reads\<close>)
  next
    case 4
    show ?thesis
      by (rule that [of TYPE_NUMBER_BYTE "[ucast v]"])
        (use 4 byte_value [where 'b = 8, of v] in \<open>simp_all add: encode_integer_def get_integer_def type_codes reads\<close>)
  next
    case 5
    show ?thesis
      by (rule that [of TYPE_NUMBER_WORD "le_bytes 2 (ucast v :: u16)"])
        (use 5 byte_value [where 'b = 16, of v] in \<open>simp_all add: encode_integer_def get_integer_def type_codes reads\<close>)
  qed
qed

lemma unat_of_nat_small: "n < 2 ^ LENGTH('a) \<Longrightarrow> unat (of_nat n :: 'a::len word) = n"
  by (simp add: unsigned_of_nat take_bit_nat_eq_self_iff)

lemma uint_of_nat_small: "n < 2 ^ LENGTH('a) \<Longrightarrow> uint (of_nat n :: 'a::len word) = int n"
  by (simp add: unsigned_of_nat take_bit_nat_eq_self)

lemma sint_of_nat_32: "n < 2 ^ 31 \<Longrightarrow> sint (of_nat n :: i32) = int n"
  using sint_small [of "of_nat n"] uint_of_nat_small [where 'a = 32, of n] by simp

lemma encode_size_back:
  assumes "n < 2 ^ 31"
  obtains c p where "encode_size n = COMBINE_TYPE TYPE_TABLE c # p" and "c < 32"
    and "\<And>rest. table_size (p @ rest) c = Done (of_nat n, rest)"
proof (cases "MAX_COOKIE - 1 \<le> n")
  case True
  obtain c p where cp: "encode_integer (of_nat n) = COMBINE_TYPE TYPE_NUMBER c # p" "c < 32" "c \<noteq> TYPE_NUMBER_REAL"
    "\<And>rest. get_integer (p @ rest) c = Done (of_nat n, rest)" by (rule get_integer_back [of "of_nat n"]) blast
  have n: "ucast (of_nat n :: i64) = (of_nat n :: i32)"
    by (rule word_unat_eq_iff [THEN iffD2]) (simp add: unsigned_of_nat unsigned_ucast_eq unsigned_take_bit_eq)
  have "COMBINE_TYPE TYPE_NUMBER c AND 7 = TYPE_NUMBER" "drop_bit 3 (COMBINE_TYPE TYPE_NUMBER c) = c"
    using combine_type [OF _ cp(2), of TYPE_NUMBER] by (simp_all add: TYPE_NUMBER_def)
  then show ?thesis
    by (intro that [of 31 "encode_integer (of_nat n)"])
      (use True cp in \<open>simp_all add: encode_size_def MAX_COOKIE_def table_size_def rb_need_Cons n\<close>)
next
  case False
  have "(of_nat n :: u8) < 32" using False by (simp add: word_less_nat_alt unat_of_nat_small MAX_COOKIE_def)
  moreover have "ucast (of_nat n :: u8) = (of_nat n :: i32)"
    by (rule word_unat_eq_iff [THEN iffD2]) (use False in \<open>simp add: unsigned_ucast_eq unat_of_nat_small take_bit_nat_eq_self_iff MAX_COOKIE_def del: unsigned_of_nat\<close>)
  ultimately show ?thesis
    by (intro that [of "of_nat n" "[]"])
      (use False in \<open>simp_all add: encode_size_def table_size_def unat_of_nat_small MAX_COOKIE_def\<close>)
qed

lemma encode_string_back:
  assumes "List.length s < 2 ^ 31"
  shows "unpack_one (Suc fuel) (encode_string s @ rest) = Done (Str s, rest)"
proof -
  consider "List.length s < 32" | "32 \<le> List.length s" "List.length s < 0x10000" | "0x10000 \<le> List.length s" by linarith
  then show ?thesis
  proof cases
    case 1
    then have "(of_nat (List.length s) :: u8) < 32" by (simp add: word_less_nat_alt unat_of_nat_small)
    with 1 show ?thesis
      by (simp add: encode_string_def MAX_COOKIE_def unpack_one_head type_codes get_buffer_def rb_need_append unat_of_nat_small uint_of_nat_small
          del: unpack_one.simps)
  next
    case 2
    then show ?thesis
      by (simp add: encode_string_def MAX_COOKIE_def unpack_one_head type_codes push_string_def get_buffer_def rb_need_append
          le_word_whole uint_of_nat_small del: unpack_one.simps)
  next
    case 3
    then show ?thesis
      using assms by (simp add: encode_string_def MAX_COOKIE_def unpack_one_head type_codes push_string_def get_buffer_def
          rb_need_append le_word_whole sint_of_nat_32 del: unpack_one.simps)
  qed
qed

lemma unpack_one_plain: "t < 8 \<Longrightarrow> unpack_one fuel (t # rb) = push_value fuel rb t 0"
  using unpack_one_head [of t 0] by (simp add: COMBINE_0)

lemma encode_not_Nil: "packable d v \<Longrightarrow> 0 < List.length (encode v)"
  by (cases v) (auto simp: encode_integer_def encode_string_def encode_size_def)

lemma unpack_one_nil: "unpack_one (Suc fuel) (TYPE_NIL # rest) = Done (Nil, rest)"
  by (simp add: rb_need_Cons TYPE_NIL_def)

lemma unpack_plain:
  assumes "packable d v" and "wf_lua v" and "2 * List.length (encode v @ rest) \<le> fuel" and "\<And>arr ps. v \<noteq> Table arr ps"
  shows "unpack_one fuel (encode v @ rest) = Done (normal v, rest)"
proof -
  obtain f where f: "fuel = Suc f" using assms(3) encode_not_Nil [OF assms(1)] by (cases fuel) auto
  have integer: "unpack_one (Suc f) (encode_integer n @ rest) = Done (Integer n, rest)" for n
  proof -
    obtain c p where "encode_integer n = COMBINE_TYPE TYPE_NUMBER c # p" "c < 32" "c \<noteq> TYPE_NUMBER_REAL"
      "\<And>rest. get_integer (p @ rest) c = Done (n, rest)" by (rule get_integer_back [of n]) blast
    then show ?thesis by (simp add: unpack_one_head type_codes del: unpack_one.simps)
  qed
  show ?thesis
    using assms
    by (cases v) (auto simp: f integer unpack_one_nil unpack_one_head unpack_one_plain encode_string_back type_codes
        get_real_def get_pointer_def rb_need_append le_word_whole simp del: unpack_one.simps)
qed

lemma unpack_encode:
  "\<lbrakk>packable d v; wf_lua v; 2 * List.length (encode v @ rest) \<le> fuel\<rbrakk>
     \<Longrightarrow> unpack_one fuel (encode v @ rest) = Done (normal v, rest)"
  "\<lbrakk>packable_array d vs; wf_array vs; 2 * List.length (encode_array vs @ rest) < fuel\<rbrakk>
     \<Longrightarrow> unpack_array fuel (encode_array vs @ rest) (List.length vs) = Done (normal_array vs, rest)"
  "\<lbrakk>packable_hash d n ps; wf_hash ps; 2 * List.length (encode_hash n ps @ rest) < fuel\<rbrakk>
     \<Longrightarrow> unpack_hash fuel (encode_hash n ps @ rest) = Done (normal_hash n ps, rest)"
proof (induction d v and d vs and d n ps arbitrary: fuel rest and fuel rest and fuel rest
    rule: packable_packable_array_packable_hash.induct)
  case (2 d arr pairs)
  have "List.length arr < 2 ^ 31" using "2.prems" by simp
  then obtain c p where cp: "encode_size (List.length arr) = COMBINE_TYPE TYPE_TABLE c # p" "c < 32"
    "\<And>rest. table_size (p @ rest) c = Done (of_nat (List.length arr), rest)" using encode_size_back by blast
  obtain f where f: "fuel = Suc f" using "2.prems"(3) cp(1) by (cases fuel) auto
  have "unpack_array f (encode_array arr @ encode_hash (List.length arr) pairs @ rest) (List.length arr)
      = Done (normal_array arr, encode_hash (List.length arr) pairs @ rest)"
    using "2.prems" cp(1) f by (intro "2.IH"(1)) auto
  moreover have "unpack_hash f (encode_hash (List.length arr) pairs @ rest) = Done (normal_hash (List.length arr) pairs, rest)"
    using "2.prems" cp(1) f by (intro "2.IH"(2)) auto
  ultimately show ?case
    using \<open>List.length arr < 2 ^ 31\<close> f
    by (simp add: cp unpack_one_head type_codes sint_of_nat_32 del: unpack_one.simps)
next
  case (5 d v vs)
  obtain f where f: "fuel = Suc f" using "5.prems"(3) by (cases fuel) auto
  obtain x xs where "encode v = x # xs" using "5.prems" encode_not_Nil [of d v] by (cases "encode v") auto
  then have "unpack_array f (encode_array vs @ rest) (List.length vs) = Done (normal_array vs, rest)"
    using "5.prems" f by (intro "5.IH") auto
  with 5 f show ?case by (simp del: unpack_one.simps)
next
  case (6 d n)
  obtain f where "fuel = Suc (Suc f)" using "6.prems"(3) by (cases fuel rule: nat.exhaust; cases "fuel - 1") auto
  then show ?case by (simp add: unpack_one_nil del: unpack_one.simps)
next
  case (7 d n k v pairs)
  show ?case
  proof (cases "in_array n k")
    case False
    then obtain x xs where pos: "encode k = x # xs"
      using "7.prems" encode_not_Nil [of d k] by (cases "encode k") auto
    obtain f where f: "fuel = Suc f" using "7.prems"(3) by (cases fuel) auto
    have "unpack_one f (encode k @ encode v @ encode_hash n pairs @ rest) = Done (normal k, encode v @ encode_hash n pairs @ rest)"
      using "7.prems" False f by (intro "7.IH") auto
    moreover have "unpack_one f (encode v @ encode_hash n pairs @ rest) = Done (normal v, encode_hash n pairs @ rest)"
      using "7.prems" False f pos by (intro "7.IH") auto
    moreover have "unpack_hash f (encode_hash n pairs @ rest) = Done (normal_hash n pairs, rest)"
      using "7.prems" False f pos by (intro "7.IH") auto
    ultimately show ?thesis
      using "7.prems" False f by (simp add: normal_Nil nan_key_normal del: unpack_one.simps)
  qed (use 7 in simp)
next
  case "3_1"
  show ?case by (rule unpack_plain [OF "3_1"]) simp
next
  case "3_2"
  show ?case by (rule unpack_plain [OF "3_2"]) simp
next
  case "3_3"
  show ?case by (rule unpack_plain [OF "3_3"]) simp
next
  case "3_4"
  show ?case by (rule unpack_plain [OF "3_4"]) simp
next
  case "3_5"
  show ?case by (rule unpack_plain [OF "3_5"]) simp
next
  case "3_6"
  show ?case by (rule unpack_plain [OF "3_6"]) simp
qed simp_all

section \<open>Everything the reader accepts\<close>

text \<open>\<open>took m r\<close>: the reader has enough fuel, and a result leaves at most \<open>m\<close> bytes.\<close>

definition took :: "nat \<Rightarrow> ('a \<Rightarrow> bool) \<Rightarrow> ('a \<times> bytes) outcome \<Rightarrow> bool" where
  "took m P r \<longleftrightarrow> (case r of Done (x, rb) \<Rightarrow> P x \<and> List.length rb \<le> m | No_fuel \<Rightarrow> False | _ \<Rightarrow> True)"

lemma took_simps [simp]:
  "took m P (Done (x, rb)) \<longleftrightarrow> P x \<and> List.length rb \<le> m"
  "took m P (Lua_error e)" "took m P Crash" "\<not> took m P No_fuel"
  by (simp_all add: took_def)

lemma took_bind:
  assumes "took k Q r" and "\<And>x rb. Q x \<Longrightarrow> List.length rb \<le> k \<Longrightarrow> took m P (f (x, rb))"
  shows "took m P (bind_outcome r f)"
  using assms by (cases r) auto

lemma took_need: "0 \<le> sz \<Longrightarrow> took (List.length rb - nat sz) (\<lambda>p. List.length p = nat sz) (rb_need rb sz line)"
  by (auto simp: rb_need_def rb_read_def)

lemma took_need_any: "took (List.length rb) (\<lambda>p. int (List.length p) = sz) (rb_need rb sz line)"
  by (auto simp: rb_need_def rb_read_def)


lemma took_mono: "took m P r \<Longrightarrow> m \<le> m' \<Longrightarrow> (\<And>x. P x \<Longrightarrow> Q x) \<Longrightarrow> took m' Q r"
  by (auto simp: took_def split: outcome.splits)

lemma took_get_integer: "took (List.length rb) (\<lambda>_. True) (get_integer rb cookie)"
  by (auto simp: get_integer_def intro: took_bind [OF took_need_any])

lemma took_get_buffer: "took (List.length rb) (\<lambda>s. int (List.length s) = n) (get_buffer rb n)"
  by (simp add: get_buffer_def took_need_any)

lemma took_get_word: "took (List.length rb) (\<lambda>_. True) (get_real rb)" "took (List.length rb) (\<lambda>_. True) (get_pointer rb)"
  by (auto simp: get_real_def get_pointer_def intro: took_bind [OF took_need_any])

lemma took_table_size: "took (List.length rb) (\<lambda>_. True) (table_size rb cookie)"
  unfolding table_size_def
  by (auto simp: Let_def intro!: took_bind [OF took_need_any] took_bind [OF took_get_integer [THEN took_mono]])

lemma took_push_string: "took (List.length rb) (\<lambda>s. List.length s < 2 ^ 31) (push_string rb cookie)"
proof -
  have two: "int n = uint (w :: u16) \<Longrightarrow> n < 2147483648" for n w using uint_lt2p [of w] by simp
  have four: "int n = sint (w :: i32) \<Longrightarrow> n < 2147483648" for n w using sint_lt [of w] by simp
  show ?thesis
    unfolding push_string_def
    by (auto intro!: took_bind [OF took_need_any] took_get_buffer [THEN took_mono] dest: two four)
qed

lemma unpack_sound:
  "2 * List.length rb \<le> fuel \<Longrightarrow> took (List.length rb - 1) wf_lua (unpack_one fuel rb)"
  "2 * List.length rb + 2 \<le> fuel \<Longrightarrow> took (List.length rb) wf_lua (push_value fuel rb type cookie)"
  "2 * List.length rb < fuel \<Longrightarrow> took (List.length rb) (\<lambda>vs. wf_array vs \<and> List.length vs = n) (unpack_array fuel rb n)"
  "2 * List.length rb < fuel \<Longrightarrow> took (List.length rb) wf_hash (unpack_hash fuel rb)"
proof (induction fuel rb and fuel rb type cookie and fuel rb n and fuel rb rule: unpack_one_push_value_unpack_array_unpack_hash.induct)
  case (1 fuel rb)
  show ?case
  proof (cases rb)
    case (Cons t ts)
    have "took (List.length y) wf_lua (push_value fuel y (x ! 0 AND 7) (drop_bit 3 (x ! 0)))"
      if "2 * List.length y + 2 \<le> fuel" for x y
      using "1.IH" that by simp
    from this [of ts "[t]"] show ?thesis using "1.prems" Cons by (simp add: rb_need_Cons)
  qed (simp add: rb_need_def rb_read_def)
next
  case (3 fuel rb type cookie)
  have arr: "took (List.length y) (\<lambda>vs. wf_array vs \<and> List.length vs = nat (sint n)) (unpack_array fuel y (nat (sint n)))"
    if "type = TYPE_TABLE" "2 * List.length y < fuel" for n :: i32 and y
    using "3.IH"(1) that by (simp add: type_codes)
  have hash: "took (List.length y) wf_hash (unpack_hash fuel y)" if "type = TYPE_TABLE" "2 * List.length y < fuel" for y
    using "3.IH"(2) that by (simp add: type_codes)
  have len: "nat (sint n) < 2147483648" for n :: i32 using sint_lt [of n] by simp
  have table: ?case if "type = TYPE_TABLE"
    using "3.prems" that
    by (auto simp: len type_codes intro!: took_bind [OF took_table_size] took_bind [OF arr] took_bind [OF hash])
  have short: "int n = uint cookie \<Longrightarrow> n < 2147483648" for n using uint_lt2p [of cookie] by simp
  show ?case
  proof (cases "type = TYPE_TABLE")
    case True
    then show ?thesis by (rule table)
  next
    case False
    with "3.prems" show ?thesis
      by (auto simp: type_codes intro!: took_bind [OF took_get_word(1)] took_bind [OF took_get_word(2)]
          took_bind [OF took_get_integer] took_bind [OF took_get_buffer] took_bind [OF took_push_string] dest: short)
  qed
next
  case (6 fuel rb n)
  have one: "took (List.length rb - 1) wf_lua (unpack_one fuel rb)" using "6.IH"(1) "6.prems" by simp
  have arr: "took (List.length y) (\<lambda>vs. wf_array vs \<and> List.length vs = n) (unpack_array fuel y n)"
    if "2 * List.length y < fuel" for y
    using "6.IH"(2) that by simp
  show ?case
  proof (cases rb)
    case (Cons t ts)
    have "took (List.length ts) wf_lua (unpack_one fuel (t # ts))" using one Cons by simp
    note first = took_bind [OF this]
    show ?thesis
      using "6.prems" by (auto simp: Cons simp del: unpack_one.simps intro!: first took_bind [OF arr])
  qed (simp add: unpack_one_Nil del: unpack_one.simps)
next
  case (8 fuel rb)
  have one: "took (List.length rb - 1) wf_lua (unpack_one fuel rb)" using "8.IH"(1) "8.prems" by simp
  have key: "\<exists>k. k \<noteq> Nil \<and> \<not> nan_key k" by (rule exI [of _ "Boolean True"]) simp
  have two: "took (List.length y - 1) wf_lua (unpack_one fuel y)" if "2 * List.length y \<le> fuel" for y
    using "8.IH"(2) key that by fastforce
  have hash: "took (List.length y) wf_hash (unpack_hash fuel y)" if "2 * List.length y < fuel" for y
    using "8.IH"(3) key that by fastforce
  show ?case
  proof (cases rb)
    case (Cons t ts)
    have "took (List.length ts) wf_lua (unpack_one fuel (t # ts))" using one Cons by simp
    note first = took_bind [OF this]
    show ?thesis
      using "8.prems" by (auto simp: Cons simp del: unpack_one.simps intro!: first took_bind [OF two] took_bind [OF hash]) linarith+
  qed (simp add: unpack_one_Nil del: unpack_one.simps)
qed simp_all

lemma unpack_loop_Cons:
  "unpack_loop (Suc fuel) (t # rb) =
     bind_outcome (unpack_one (2 * List.length (t # rb)) (t # rb))
       (\<lambda>(v, rb). bind_outcome (unpack_loop fuel rb) (\<lambda>vs. Done (v # vs)))"
  by (simp add: rb_read_def rb_need_def)

lemma unpack_loop_Nil: "unpack_loop fuel [] = Done []"
  by (cases fuel) (simp_all add: rb_read_def)

declare unpack_one.simps [simp del] unpack_loop.simps [simp del]

lemma unpack_loop_encode:
  "\<lbrakk>packable_array 0 vs; wf_array vs; List.length (encode_array vs) \<le> fuel\<rbrakk>
     \<Longrightarrow> unpack_loop fuel (encode_array vs) = Done (map normal vs)"
proof (induction vs arbitrary: fuel)
  case (Cons v vs)
  then obtain x xs where x: "encode v @ encode_array vs = x # xs"
    using encode_not_Nil [of 0 v] by (cases "encode v") auto
  obtain f where f: "fuel = Suc f" using Cons.prems(3) x by (cases fuel) auto
  have "unpack_one (2 * List.length (x # xs)) (x # xs) = Done (normal v, encode_array vs)"
    using unpack_encode(1) [of 0 v "encode_array vs" "2 * List.length (x # xs)"] Cons.prems x by simp
  moreover have "unpack_loop f (encode_array vs) = Done (map normal vs)"
    using Cons encode_not_Nil [of 0 v] f by (intro Cons.IH) (cases "encode v"; auto)+
  ultimately show ?case by (simp add: x f unpack_loop_Cons)
qed (simp add: unpack_loop_Nil)

lemma unpack_loop_sound:
  "List.length rb \<le> fuel \<Longrightarrow> unpack_loop fuel rb \<noteq> No_fuel \<and> (\<forall>vs. unpack_loop fuel rb = Done vs \<longrightarrow> wf_array vs)"
proof (induction fuel arbitrary: rb)
  case (Suc fuel)
  show ?case
  proof (cases rb)
    case (Cons t ts)
    have "took (List.length ts) wf_lua (unpack_one (2 * List.length (t # ts)) (t # ts))"
      using unpack_sound(1) [of "t # ts" "2 * List.length (t # ts)"] by simp
    moreover define r where "r = unpack_one (2 * List.length (t # ts)) (t # ts)"
    ultimately have r: "took (List.length ts) wf_lua r" by simp
    have eq: "unpack_loop (Suc fuel) rb = bind_outcome r (\<lambda>(v, rb). bind_outcome (unpack_loop fuel rb) (\<lambda>vs. Done (v # vs)))"
      by (simp only: Cons unpack_loop_Cons r_def)
    show ?thesis
    proof (cases "\<exists>v rb'. r = Done (v, rb')")
      case True
      then obtain v rb' where v: "r = Done (v, rb')" by blast
      with r Cons Suc.prems have "wf_lua v" "List.length rb' \<le> fuel" by simp_all
      with Suc.IH [of rb'] show ?thesis by (cases "unpack_loop fuel rb'") (simp_all add: eq v)
    next
      case False
      with r show ?thesis by (cases r) (auto simp: eq)
    qed
  qed (simp add: unpack_loop_Nil)
qed (simp add: unpack_loop_Nil)

section \<open>Properties\<close>

text \<open>
  C32. What \<open>luaseri_pack\<close> writes for values that Lua can hold, across as many blocks as it takes,
  \<open>luaseri_unpack\<close> reads back: the same values in the same order, each table with its array and the
  other pairs.
\<close>

theorem seri_roundtrip:
  assumes "wf_array vs" and "luaseri_pack vs = Done bs" and "List.length bs < 2 ^ 31"
  shows "luaseri_unpack (Some bs) (of_nat (List.length bs)) = Done (map normal vs)"
proof -
  have ok: "packable_array 0 vs" "bs = encode_array vs"
    using assms(2) luaseri_pack_eq [of vs] by (auto split: if_splits)
  have "vs = []" if "bs = []"
    using ok that encode_not_Nil by (cases vs) auto
  then show ?thesis
    using ok assms unpack_loop_encode [of vs "List.length bs"]
    by (auto simp: luaseri_unpack_def sint_of_nat_32 word_of_nat_eq_0_iff unpack_loop_Nil dest: dvd_imp_le)
qed

text \<open>
  C33. Packing fails with an error exactly when a value is of a type the format does not have or a
  table is nested more than 32 deep; then nothing is written.
\<close>

theorem seri_errors:
  "((\<exists>e. luaseri_pack vs = Lua_error e) \<longleftrightarrow> \<not> packable_array 0 vs)
   \<and> ((\<exists>bs. luaseri_pack vs = Done bs) \<longleftrightarrow> packable_array 0 vs)"
  using luaseri_pack_eq [of vs] by (auto split: if_splits)


definition example_values :: "lua list" where
  "example_values =
     [Integer 300, Str [104, 105],
      Table [Boolean True] [(Integer 1, Boolean True), (Str [107], Real 0x3FF8000000000000)], Nil]"

theorem seri_roundtrip_witness:
  "luaseri_pack example_values =
     Done [18, 44, 1, 20, 104, 105, 14, 9, 12, 107, 66, 0, 0, 0, 0, 0, 0, 0xF8, 0x3F, 0, 0]
   \<and> luaseri_unpack (Some [18, 44, 1, 20, 104, 105, 14, 9, 12, 107, 66, 0, 0, 0, 0, 0, 0, 0xF8, 0x3F, 0, 0]) 21
     = Done [Integer 300, Str [104, 105], Table [Boolean True] [(Str [107], Real 0x3FF8000000000000)], Nil]"
proof -
  let ?bs = "[18, 44, 1, 20, 104, 105, 14, 9, 12, 107, 66, 0, 0, 0, 0, 0, 0, 0xF8, 0x3F, 0, 0] :: bytes"
  have "wf_array example_values" by (simp add: example_values_def)
  moreover have packed: "luaseri_pack example_values = Done ?bs"
    by code_simp
  moreover have "map normal example_values = [Integer 300, Str [104, 105], Table [Boolean True] [(Str [107], Real 0x3FF8000000000000)], Nil]"
    by (simp add: example_values_def)
  ultimately show ?thesis using seri_roundtrip [of example_values ?bs] by simp
qed

end
