(* ===== verification/SocketServer.thy ===== *)
theory SocketServer
  imports Prelude
begin

text \<open>
  The socket server, \<open>skynet-src/socket_server.c\<close>: the table of sockets, the pipe over which the other
  threads give their commands to the socket thread, and the loop of that thread. What the operating
  system answers to a call is an argument (\<open>os\<close>), a function of the number of calls before it; every
  call is recorded. An operation whose assertion fails, or that never returns, has the value \<open>None\<close>.
\<close>

section \<open>The operating system\<close>

datatype errno = EINTR | EAGAIN | EMFILE | ENFILE | Other_errno

text \<open>
  The answers of \<open>write\<close> and \<open>sendto\<close> (a number of bytes, of those it was given at most), of \<open>read\<close>,
  \<open>recvfrom\<close> and \<open>accept\<close> (with the address as \<open>inet_ntop\<close> and \<open>snprintf\<close> print it), and of the
  attempts to connect to one of the addresses of a host (with the address as text if it succeeds at
  once).
\<close>

datatype sent = Took nat | Not_sent errno
datatype received = Got bytes | Not_received errno

datatype sockaddr = V4 bytes bytes | V6 bytes bytes

datatype packet = Packet bytes sockaddr | No_packet errno
datatype accepted = Accepted i32 "string option" | Not_accepted errno
datatype attempt = No_socket | Refused i32 | In_progress i32 | Established i32 "string option"

record event =
  ev_s :: "nat option"
  ev_read :: bool
  ev_write :: bool

text \<open>
  \<open>os_sp_add\<close>, \<open>os_sp_wait\<close>: the event poll (\<open>socket_poll.h\<close>), which fails or not, or returns events;
  \<open>os_so_error\<close>: \<open>getsockopt\<close> fails or reports an error; \<open>os_peer\<close>: \<open>getpeername\<close> and \<open>inet_ntop\<close>;
  \<open>os_connect\<close>: \<open>getaddrinfo\<close> (\<open>None\<close> if it fails), \<open>socket\<close> and \<open>connect\<close> for each address. The
  object interface gives the address and the data of a user object.
\<close>

record os =
  os_write :: "nat \<Rightarrow> sent"
  os_sendto :: "nat \<Rightarrow> sent"
  os_read :: "nat \<Rightarrow> received"
  os_recvfrom :: "nat \<Rightarrow> packet"
  os_accept :: "nat \<Rightarrow> accepted"
  os_sp_add :: "nat \<Rightarrow> bool"
  os_sp_wait :: "nat \<Rightarrow> event list"
  os_so_error :: "nat \<Rightarrow> bool"
  os_peer :: "nat \<Rightarrow> string option"
  os_connect :: "nat \<Rightarrow> attempt list option"
  soi_buffer :: "nat \<Rightarrow> nat"
  soi_data :: "nat \<Rightarrow> bytes"

text \<open>The calls; a write has the bytes it took. A buffer that is freed has its address.\<close>

datatype os_call =
    Sys_write i32 bytes
  | Sys_sendto i32 bytes "sockaddr option"
  | Sys_read i32
  | Sys_recvfrom i32
  | Sys_accept i32
  | Sys_close i32
  | Sys_setsockopt i32 i32 i32
  | Sys_so_error i32
  | Sys_peer i32
  | Sys_connect string i32
  | Sp_add i32 nat
  | Sp_del i32
  | Sp_write i32 nat bool
  | Sp_wait
  | Sp_nonblocking i32
  | Keepalive i32
  | Free bool nat
  | Stderr string

section \<open>The state\<close>

definition SOCKET_DATA :: int where "SOCKET_DATA = 0"
definition SOCKET_CLOSE :: int where "SOCKET_CLOSE = 1"
definition SOCKET_OPEN :: int where "SOCKET_OPEN = 2"
definition SOCKET_ACCEPT :: int where "SOCKET_ACCEPT = 3"
definition SOCKET_ERROR :: int where "SOCKET_ERROR = 4"
definition SOCKET_EXIT :: int where "SOCKET_EXIT = 5"
definition SOCKET_UDP :: int where "SOCKET_UDP = 6"

definition MIN_READ_BUFFER :: i32 where "MIN_READ_BUFFER = 64"
definition SOCKET_TYPE_INVALID :: u16 where "SOCKET_TYPE_INVALID = 0"
definition SOCKET_TYPE_RESERVE :: u16 where "SOCKET_TYPE_RESERVE = 1"
definition SOCKET_TYPE_PLISTEN :: u16 where "SOCKET_TYPE_PLISTEN = 2"
definition SOCKET_TYPE_LISTEN :: u16 where "SOCKET_TYPE_LISTEN = 3"
definition SOCKET_TYPE_CONNECTING :: u16 where "SOCKET_TYPE_CONNECTING = 4"
definition SOCKET_TYPE_CONNECTED :: u16 where "SOCKET_TYPE_CONNECTED = 5"
definition SOCKET_TYPE_HALFCLOSE :: u16 where "SOCKET_TYPE_HALFCLOSE = 6"
definition SOCKET_TYPE_PACCEPT :: u16 where "SOCKET_TYPE_PACCEPT = 7"
definition SOCKET_TYPE_BIND :: u16 where "SOCKET_TYPE_BIND = 8"
definition MAX_SOCKET_P :: nat where "MAX_SOCKET_P = 16"
definition MAX_SOCKET :: nat where "MAX_SOCKET = 2 ^ MAX_SOCKET_P"
definition PROTOCOL_TCP :: u16 where "PROTOCOL_TCP = 0"
definition PROTOCOL_UDP :: u16 where "PROTOCOL_UDP = 1"
definition PROTOCOL_UDPv6 :: u16 where "PROTOCOL_UDPv6 = 2"
definition UDP_ADDRESS_SIZE :: nat where "UDP_ADDRESS_SIZE = 19"

lemmas socket_types = SOCKET_TYPE_INVALID_def SOCKET_TYPE_RESERVE_def SOCKET_TYPE_PLISTEN_def SOCKET_TYPE_LISTEN_def
  SOCKET_TYPE_CONNECTING_def SOCKET_TYPE_CONNECTED_def SOCKET_TYPE_HALFCLOSE_def SOCKET_TYPE_PACCEPT_def SOCKET_TYPE_BIND_def

lemmas poll_results = SOCKET_DATA_def SOCKET_CLOSE_def SOCKET_OPEN_def SOCKET_ACCEPT_def SOCKET_ERROR_def SOCKET_EXIT_def
  SOCKET_UDP_def

definition HASH_ID :: "i32 \<Rightarrow> nat" where
  "HASH_ID id' = unat id' mod MAX_SOCKET"

text \<open>
  A buffer to be written: the address of the object it comes from, the address of the first byte that
  has not been written, and the bytes from there on (their number is \<open>sz\<close>).
\<close>

record write_buffer =
  wr_buffer :: nat
  wr_ptr :: nat
  wr_data :: bytes
  wr_userobject :: bool
  wr_udp_address :: bytes

text \<open>
  The two members of the union \<open>p\<close> are used for different protocols: the size by TCP, the address by
  UDP.
\<close>

record socket =
  sk_opaque :: u64
  sk_high :: "write_buffer list"
  sk_low :: "write_buffer list"
  sk_wb_size :: i64
  sk_fd :: i32
  sk_id :: i32
  sk_protocol :: u16
  sk_type :: u16
  sk_size :: i32
  sk_udp_address :: bytes

text \<open>Where the data of a message points to.\<close>

datatype msg_data = No_data | Text string | Strerror errno | Buffer bytes

record socket_message =
  sm_id :: i32
  sm_opaque :: u64
  sm_ud :: i32
  sm_data :: msg_data

text \<open>
  The commands, as they lie in the pipe. \<open>rq_data\<close> are the bytes at the address \<open>rq_buffer\<close>.
\<close>

record request_send =
  rq_id :: i32
  rq_sz :: i32
  rq_buffer :: nat
  rq_data :: bytes

datatype request =
    Req_start i32 u64
  | Req_bind i32 i32 u64
  | Req_listen i32 i32 u64
  | Req_close i32 u64
  | Req_open i32 i32 u64 string
  | Req_exit
  | Req_send request_send
  | Req_send_low request_send
  | Req_send_udp request_send bytes
  | Req_setopt i32 i32 i32
  | Req_udp i32 i32 bool u64
  | Req_setudp i32 bytes

record socket_server =
  ss_checkctrl :: bool
  ss_alloc_id :: i32
  ss_event_index :: nat
  ss_ev :: "event list"
  ss_slot :: "nat \<Rightarrow> socket"
  ss_pipe :: "request list"
  ss_calls :: "os_call list"

definition set_slot :: "nat \<Rightarrow> socket \<Rightarrow> socket_server \<Rightarrow> socket_server" where
  "set_slot k s ss = ss\<lparr>ss_slot := (ss_slot ss)(k := s)\<rparr>"

definition os_time :: "socket_server \<Rightarrow> nat" where
  "os_time ss = List.length (ss_calls ss)"

definition os_do :: "os_call \<Rightarrow> socket_server \<Rightarrow> socket_server" where
  "os_do c ss = ss\<lparr>ss_calls := ss_calls ss @ [c]\<rparr>"

text \<open>The calls with an answer.\<close>

definition sys_write :: "os \<Rightarrow> i32 \<Rightarrow> bytes \<Rightarrow> socket_server \<Rightarrow> sent \<times> socket_server" where
  "sys_write os fd data ss =
     (case os_write os (os_time ss) of
        Took n \<Rightarrow> (Took (min n (List.length data)), os_do (Sys_write fd (take n data)) ss)
      | Not_sent e \<Rightarrow> (Not_sent e, os_do (Sys_write fd []) ss))"

definition sys_sendto :: "os \<Rightarrow> i32 \<Rightarrow> bytes \<Rightarrow> sockaddr option \<Rightarrow> socket_server \<Rightarrow> sent \<times> socket_server" where
  "sys_sendto os fd data sa ss =
     (case os_sendto os (os_time ss) of
        Took n \<Rightarrow> (Took (min n (List.length data)), os_do (Sys_sendto fd (take n data) sa) ss)
      | Not_sent e \<Rightarrow> (Not_sent e, os_do (Sys_sendto fd [] sa) ss))"

definition sys_sp_add :: "os \<Rightarrow> i32 \<Rightarrow> nat \<Rightarrow> socket_server \<Rightarrow> bool \<times> socket_server" where
  "sys_sp_add os fd k ss = (os_sp_add os (os_time ss), os_do (Sp_add fd k) ss)"

text \<open>\<open>read\<close> and \<open>recvfrom\<close> with a buffer of \<open>sz\<close> bytes.\<close>

definition sys_read :: "os \<Rightarrow> i32 \<Rightarrow> nat \<Rightarrow> socket_server \<Rightarrow> received \<times> socket_server" where
  "sys_read os fd sz ss =
     ((case os_read os (os_time ss) of Got bs \<Rightarrow> Got (take sz bs) | Not_received e \<Rightarrow> Not_received e), os_do (Sys_read fd) ss)"

definition sys_recvfrom :: "os \<Rightarrow> i32 \<Rightarrow> nat \<Rightarrow> socket_server \<Rightarrow> packet \<times> socket_server" where
  "sys_recvfrom os fd sz ss =
     ((case os_recvfrom os (os_time ss) of Packet bs a \<Rightarrow> Packet (take sz bs) a | No_packet e \<Rightarrow> No_packet e),
      os_do (Sys_recvfrom fd) ss)"

section \<open>Sockets and their lists\<close>

definition write_buffer_free :: "write_buffer \<Rightarrow> socket_server \<Rightarrow> socket_server" where
  "write_buffer_free wb ss = os_do (Free (wr_userobject wb) (wr_buffer wb)) ss"

fun free_wb_list :: "write_buffer list \<Rightarrow> socket_server \<Rightarrow> socket_server" where
  "free_wb_list [] ss = ss"
| "free_wb_list (wb # wbs) ss = free_wb_list wbs (write_buffer_free wb ss)"

text \<open>
  \<open>reserve_id\<close>: \<open>n\<close> attempts are left. Nothing comes between the test of the type and the
  compare-and-swap here, so that it succeeds. The result \<open>-1\<close> is \<open>None\<close>.
\<close>

definition next_id :: "i32 \<Rightarrow> i32" where
  "next_id alloc = (if sint (alloc + 1) < 0 then (alloc + 1) AND 0x7fffffff else alloc + 1)"

fun reserve_scan :: "nat \<Rightarrow> socket_server \<Rightarrow> i32 option \<times> socket_server" where
  "reserve_scan 0 ss = (None, ss)"
| "reserve_scan (Suc n) ss =
     (let id' = next_id (ss_alloc_id ss); ss1 = ss\<lparr>ss_alloc_id := id'\<rparr>; s = ss_slot ss (HASH_ID id') in
      if sk_type s = SOCKET_TYPE_INVALID then
        (Some id', set_slot (HASH_ID id') (s\<lparr>sk_type := SOCKET_TYPE_RESERVE, sk_id := id', sk_fd := -1\<rparr>) ss1)
      else reserve_scan n ss1)"

definition reserve_id :: "socket_server \<Rightarrow> i32 option \<times> socket_server" where
  "reserve_id ss = reserve_scan MAX_SOCKET ss"

text \<open>
  A handler returns \<open>None\<close> for \<open>-1\<close> and otherwise the type of the message with the message, which is
  then filled in completely.
\<close>

type_synonym reply = "(int \<times> socket_message) option"

definition message_of :: "i32 \<Rightarrow> u64 \<Rightarrow> msg_data \<Rightarrow> socket_message" where
  "message_of id' opaque data = \<lparr>sm_id = id', sm_opaque = opaque, sm_ud = 0, sm_data = data\<rparr>"

definition force_close :: "nat \<Rightarrow> socket_server \<Rightarrow> (socket_message \<times> socket_server) option" where
  "force_close k ss =
     (let s = ss_slot ss k; result = message_of (sk_id s) (sk_opaque s) No_data in
      if sk_type s = SOCKET_TYPE_INVALID then Some (result, ss)
      else if sk_type s = SOCKET_TYPE_RESERVE then None
      else
        (let ss1 = free_wb_list (sk_low s) (free_wb_list (sk_high s) ss);
             ss2 = (if sk_type s \<noteq> SOCKET_TYPE_PACCEPT \<and> sk_type s \<noteq> SOCKET_TYPE_PLISTEN then os_do (Sp_del (sk_fd s)) ss1 else ss1);
             ss3 = (if sk_type s \<noteq> SOCKET_TYPE_BIND then os_do (Sys_close (sk_fd s)) ss2 else ss2)
         in Some (result, set_slot k (s\<lparr>sk_high := [], sk_low := [], sk_type := SOCKET_TYPE_INVALID\<rparr>) ss3)))"

text \<open>The slot of the new socket, or \<open>None\<close> for NULL.\<close>

definition new_fd :: "os \<Rightarrow> i32 \<Rightarrow> i32 \<Rightarrow> u16 \<Rightarrow> u64 \<Rightarrow> bool \<Rightarrow> socket_server \<Rightarrow> (nat option \<times> socket_server) option" where
  "new_fd os id' fd protocol opaque add ss =
     (let k = HASH_ID id'; s = ss_slot ss k in
      if sk_type s \<noteq> SOCKET_TYPE_RESERVE then None
      else
        (let (failed, ss1) = (if add then sys_sp_add os fd k ss else (False, ss)) in
         if failed then Some (None, set_slot k (s\<lparr>sk_type := SOCKET_TYPE_INVALID\<rparr>) ss1)
         else if sk_high s \<noteq> [] \<or> sk_low s \<noteq> [] then None
         else Some (Some k, set_slot k
           (s\<lparr>sk_id := id', sk_fd := fd, sk_protocol := protocol, sk_size := MIN_READ_BUFFER, sk_opaque := opaque,
              sk_wb_size := 0\<rparr>) ss1)))"

definition set_type :: "nat \<Rightarrow> u16 \<Rightarrow> socket_server \<Rightarrow> socket_server" where
  "set_type k t ss = set_slot k ((ss_slot ss k)\<lparr>sk_type := t\<rparr>) ss"

text \<open>The loop over the addresses of a host; the fd and, if the connection is established, the address.\<close>

fun connect_loop :: "attempt list \<Rightarrow> socket_server \<Rightarrow> (i32 \<times> string option option) option \<times> socket_server" where
  "connect_loop [] ss = (None, ss)"
| "connect_loop (No_socket # ais) ss = connect_loop ais ss"
| "connect_loop (Refused fd # ais) ss =
     connect_loop ais (os_do (Sys_close fd) (os_do (Sp_nonblocking fd) (os_do (Keepalive fd) ss)))"
| "connect_loop (In_progress fd # ais) ss = (Some (fd, None), os_do (Sp_nonblocking fd) (os_do (Keepalive fd) ss))"
| "connect_loop (Established fd peer # ais) ss = (Some (fd, Some peer), os_do (Sp_nonblocking fd) (os_do (Keepalive fd) ss))"

definition text_data :: "string option \<Rightarrow> msg_data" where
  "text_data t = (case t of None \<Rightarrow> No_data | Some x \<Rightarrow> Text x)"

definition open_socket :: "os \<Rightarrow> i32 \<Rightarrow> i32 \<Rightarrow> u64 \<Rightarrow> string \<Rightarrow> socket_server \<Rightarrow> (reply \<times> socket_server) option" where
  "open_socket os id' port opaque host ss =
     (let failed = (\<lambda>ss. Some (Some (SOCKET_ERROR, message_of id' opaque No_data), set_type (HASH_ID id') SOCKET_TYPE_INVALID ss));
          ss1 = os_do (Sys_connect host port) ss
      in case os_connect os (os_time ss) of
           None \<Rightarrow> failed ss1
         | Some ai_list \<Rightarrow>
             (case connect_loop ai_list ss1 of
                (None, ss2) \<Rightarrow> failed ss2
              | (Some (sock, status), ss2) \<Rightarrow>
                  (case new_fd os id' sock PROTOCOL_TCP opaque True ss2 of
                     None \<Rightarrow> None
                   | Some (None, ss3) \<Rightarrow> failed (os_do (Sys_close sock) ss3)
                   | Some (Some k, ss3) \<Rightarrow>
                       (case status of
                          Some peer \<Rightarrow>
                            Some (Some (SOCKET_OPEN, message_of id' opaque (text_data peer)), set_type k SOCKET_TYPE_CONNECTED ss3)
                        | None \<Rightarrow> Some (None, os_do (Sp_write sock k True) (set_type k SOCKET_TYPE_CONNECTING ss3))))))"

section \<open>Writing\<close>

text \<open>\<open>hi\<close> selects the list, \<open>&s->high\<close> or \<open>&s->low\<close>.\<close>

definition wb_list :: "bool \<Rightarrow> socket \<Rightarrow> write_buffer list" where
  "wb_list hi s = (if hi then sk_high s else sk_low s)"

definition set_wb_list :: "bool \<Rightarrow> write_buffer list \<Rightarrow> socket \<Rightarrow> socket" where
  "set_wb_list hi l s = (if hi then s\<lparr>sk_high := l\<rparr> else s\<lparr>sk_low := l\<rparr>)"

definition sub_wb_size :: "nat \<Rightarrow> socket \<Rightarrow> socket" where
  "sub_wb_size n s = s\<lparr>sk_wb_size := sk_wb_size s - of_nat n\<rparr>"

text \<open>A write that is interrupted is tried again: the loop has no other bound than the system's answers.\<close>

partial_function (option) send_list_tcp :: "os \<Rightarrow> nat \<Rightarrow> bool \<Rightarrow> socket_server \<Rightarrow> (reply \<times> socket_server) option" where
  "send_list_tcp os k hi ss =
     (case wb_list hi (ss_slot ss k) of
        [] \<Rightarrow> Some (None, ss)
      | tmp # rest \<Rightarrow>
          (case sys_write os (sk_fd (ss_slot ss k)) (wr_data tmp) ss of
             (sent, ss1) \<Rightarrow>
               (case sent of
                  Not_sent e \<Rightarrow>
                    if e = EINTR then send_list_tcp os k hi ss1
                    else if e = EAGAIN then Some (None, ss1)
                    else map_option (\<lambda>(result, ss2). (Some (SOCKET_CLOSE, result), ss2)) (force_close k ss1)
                | Took sz \<Rightarrow>
                    if sz \<noteq> List.length (wr_data tmp) then
                      Some (None, set_slot k (set_wb_list hi (tmp\<lparr>wr_ptr := wr_ptr tmp + sz, wr_data := drop sz (wr_data tmp)\<rparr> # rest)
                        (sub_wb_size sz (ss_slot ss1 k))) ss1)
                    else
                      send_list_tcp os k hi
                        (write_buffer_free tmp (set_slot k (set_wb_list hi rest (sub_wb_size sz (ss_slot ss1 k))) ss1)))))"

definition udp_socket_address :: "socket \<Rightarrow> bytes \<Rightarrow> sockaddr option" where
  "udp_socket_address s udp_address =
     (if ucast (udp_address ! 0) \<noteq> sk_protocol s then None
      else if sk_protocol s = PROTOCOL_UDP then Some (V4 (take 2 (drop 1 udp_address)) (take 4 (drop 3 udp_address)))
      else if sk_protocol s = PROTOCOL_UDPv6 then Some (V6 (take 2 (drop 1 udp_address)) (take 16 (drop 3 udp_address)))
      else None)"

text \<open>\<open>wbs\<close> is the list. A datagram is sent whole or not at all; every error leaves it in the list.\<close>

fun send_list_udp :: "os \<Rightarrow> nat \<Rightarrow> bool \<Rightarrow> write_buffer list \<Rightarrow> socket_server \<Rightarrow> socket_server" where
  "send_list_udp os k hi [] ss = ss"
| "send_list_udp os k hi (tmp # rest) ss =
     (let s = ss_slot ss k in
      case sys_sendto os (sk_fd s) (wr_data tmp) (udp_socket_address s (wr_udp_address tmp)) ss of
        (Not_sent e, ss1) \<Rightarrow> if e = EINTR \<or> e = EAGAIN then ss1 else os_do (Stderr ''sendto error'') ss1
      | (Took n, ss1) \<Rightarrow>
          send_list_udp os k hi rest
            (write_buffer_free tmp
              (set_slot k (set_wb_list hi rest (sub_wb_size (List.length (wr_data tmp)) (ss_slot ss1 k))) ss1)))"

definition send_list :: "os \<Rightarrow> nat \<Rightarrow> bool \<Rightarrow> socket_server \<Rightarrow> (reply \<times> socket_server) option" where
  "send_list os k hi ss =
     (if sk_protocol (ss_slot ss k) = PROTOCOL_TCP then send_list_tcp os k hi ss
      else Some (None, send_list_udp os k hi (wb_list hi (ss_slot ss k)) ss))"

definition list_uncomplete :: "write_buffer list \<Rightarrow> bool" where
  "list_uncomplete l = (case l of [] \<Rightarrow> False | wb # _ \<Rightarrow> wr_ptr wb \<noteq> wr_buffer wb)"

text \<open>Used only when the low list is not empty.\<close>

definition raise_uncomplete :: "socket \<Rightarrow> socket option" where
  "raise_uncomplete s =
     (if sk_high s \<noteq> [] then None else Some (s\<lparr>sk_high := [hd (sk_low s)], sk_low := tl (sk_low s)\<rparr>))"

definition send_buffer :: "os \<Rightarrow> nat \<Rightarrow> socket_server \<Rightarrow> (reply \<times> socket_server) option" where
  "send_buffer os k ss =
     (if list_uncomplete (sk_low (ss_slot ss k)) then None
      else
        (case send_list os k True ss of
           None \<Rightarrow> None
         | Some (Some r, ss1) \<Rightarrow> Some (Some r, ss1)
         | Some (None, ss1) \<Rightarrow>
             if sk_high (ss_slot ss1 k) \<noteq> [] then Some (None, ss1)
             else if sk_low (ss_slot ss1 k) \<noteq> [] then
               (case send_list os k False ss1 of
                  None \<Rightarrow> None
                | Some (Some r, ss2) \<Rightarrow> Some (Some r, ss2)
                | Some (None, ss2) \<Rightarrow>
                    if list_uncomplete (sk_low (ss_slot ss2 k)) then
                      map_option (\<lambda>s. (None, set_slot k s ss2)) (raise_uncomplete (ss_slot ss2 k))
                    else Some (None, ss2))
             else
               (let ss2 = os_do (Sp_write (sk_fd (ss_slot ss1 k)) k False) ss1 in
                if sk_type (ss_slot ss2 k) = SOCKET_TYPE_HALFCLOSE then
                  map_option (\<lambda>(result, ss3). (Some (SOCKET_CLOSE, result), ss3)) (force_close k ss2)
                else Some (None, ss2))))"

text \<open>The address, the data and the kind of what is to be sent.\<close>

definition send_object_init :: "os \<Rightarrow> request_send \<Rightarrow> nat \<times> bytes \<times> bool" where
  "send_object_init os request =
     (if sint (rq_sz request) < 0 then (soi_buffer os (rq_buffer request), soi_data os (rq_buffer request), True)
      else (rq_buffer request, take (unat (rq_sz request)) (rq_data request), False))"

definition append_buffer :: "os \<Rightarrow> bool \<Rightarrow> request_send \<Rightarrow> nat \<Rightarrow> bytes \<Rightarrow> socket \<Rightarrow> socket" where
  "append_buffer os hi request n udp_address s =
     (case send_object_init os request of
        (buffer, data, user) \<Rightarrow>
          (let buf = \<lparr>wr_buffer = rq_buffer request, wr_ptr = buffer + n, wr_data = drop n data, wr_userobject = user,
                      wr_udp_address = take UDP_ADDRESS_SIZE udp_address\<rparr>
           in (set_wb_list hi (wb_list hi s @ [buf]) s)\<lparr>sk_wb_size := sk_wb_size s + of_nat (List.length data - n)\<rparr>))"

definition append_sendbuffer_udp :: "os \<Rightarrow> bool \<Rightarrow> request_send \<Rightarrow> bytes \<Rightarrow> socket \<Rightarrow> socket" where
  "append_sendbuffer_udp os hi request udp_address s = append_buffer os hi request 0 udp_address s"

definition append_sendbuffer :: "os \<Rightarrow> request_send \<Rightarrow> nat \<Rightarrow> socket \<Rightarrow> socket" where
  "append_sendbuffer os request n s = append_buffer os True request n [] s"

definition append_sendbuffer_low :: "os \<Rightarrow> request_send \<Rightarrow> socket \<Rightarrow> socket" where
  "append_sendbuffer_low os request s = append_buffer os False request 0 [] s"

definition send_buffer_empty :: "socket \<Rightarrow> bool" where
  "send_buffer_empty s \<longleftrightarrow> sk_high s = [] \<and> sk_low s = []"

definition free_object :: "os \<Rightarrow> request_send \<Rightarrow> socket_server \<Rightarrow> socket_server" where
  "free_object os request ss = os_do (Free (snd (snd (send_object_init os request))) (rq_buffer request)) ss"

text \<open>\<open>udp_address\<close> is \<open>None\<close> for NULL.\<close>

definition send_socket :: "os \<Rightarrow> request_send \<Rightarrow> bool \<Rightarrow> bytes option \<Rightarrow> socket_server \<Rightarrow> (reply \<times> socket_server) option" where
  "send_socket os request hi udp_address ss =
     (let k = HASH_ID (rq_id request); s = ss_slot ss k; data = fst (snd (send_object_init os request));
          address = (case udp_address of None \<Rightarrow> sk_udp_address s | Some a \<Rightarrow> a)
      in
      if sk_type s = SOCKET_TYPE_INVALID \<or> sk_id s \<noteq> rq_id request \<or> sk_type s = SOCKET_TYPE_HALFCLOSE
         \<or> sk_type s = SOCKET_TYPE_PACCEPT then
        Some (None, free_object os request ss)
      else if sk_type s = SOCKET_TYPE_PLISTEN \<or> sk_type s = SOCKET_TYPE_LISTEN then None
      else if send_buffer_empty s \<and> sk_type s = SOCKET_TYPE_CONNECTED then
        (if sk_protocol s = PROTOCOL_TCP then
           (case sys_write os (sk_fd s) data ss of
              (sent, ss1) \<Rightarrow>
                (if (case sent of Not_sent e \<Rightarrow> e \<noteq> EINTR \<and> e \<noteq> EAGAIN | Took _ \<Rightarrow> False) then
                   map_option (\<lambda>(result, ss2). (Some (SOCKET_CLOSE, result), ss2))
                     (force_close k (os_do (Stderr ''write error'') ss1))
                 else
                   (let n = (case sent of Took n \<Rightarrow> n | Not_sent _ \<Rightarrow> 0) in
                    if n = List.length data then Some (None, free_object os request ss1)
                    else Some (None, os_do (Sp_write (sk_fd s) k True)
                           (set_slot k (append_sendbuffer os request n (ss_slot ss1 k)) ss1)))))
         else
           (case sys_sendto os (sk_fd s) data (udp_socket_address s address) ss of
              (sent, ss1) \<Rightarrow>
                if sent = Took (List.length data) then Some (None, free_object os request ss1)
                else Some (None, os_do (Sp_write (sk_fd s) k True)
                       (set_slot k (append_sendbuffer_udp os hi request address (ss_slot ss1 k)) ss1))))
      else if sk_protocol s = PROTOCOL_TCP then
        Some (None, set_slot k (if hi then append_sendbuffer os request 0 s else append_sendbuffer_low os request s) ss)
      else Some (None, set_slot k (append_sendbuffer_udp os hi request address s) ss))"

section \<open>Commands\<close>

definition listen_socket :: "os \<Rightarrow> i32 \<Rightarrow> i32 \<Rightarrow> u64 \<Rightarrow> socket_server \<Rightarrow> (reply \<times> socket_server) option" where
  "listen_socket os id' listen_fd opaque ss =
     (case new_fd os id' listen_fd PROTOCOL_TCP opaque False ss of
        None \<Rightarrow> None
      | Some (None, ss1) \<Rightarrow>
          Some (Some (SOCKET_ERROR, message_of id' opaque No_data),
            set_type (HASH_ID id') SOCKET_TYPE_INVALID (os_do (Sys_close listen_fd) ss1))
      | Some (Some k, ss1) \<Rightarrow> Some (None, set_type k SOCKET_TYPE_PLISTEN ss1))"

definition close_socket :: "os \<Rightarrow> i32 \<Rightarrow> u64 \<Rightarrow> socket_server \<Rightarrow> (reply \<times> socket_server) option" where
  "close_socket os id' opaque ss =
     (let k = HASH_ID id'; s = ss_slot ss k;
          finish = (\<lambda>ss. if send_buffer_empty (ss_slot ss k) then
              map_option (\<lambda>(result, ss). (Some (SOCKET_CLOSE, result\<lparr>sm_id := id', sm_opaque := opaque\<rparr>), ss)) (force_close k ss)
            else Some (None, set_type k SOCKET_TYPE_HALFCLOSE ss))
      in
      if sk_type s = SOCKET_TYPE_INVALID \<or> sk_id s \<noteq> id' then
        Some (Some (SOCKET_CLOSE, message_of id' opaque No_data), ss)
      else if \<not> send_buffer_empty s then
        (case send_buffer os k ss of
           None \<Rightarrow> None
         | Some (Some r, ss1) \<Rightarrow> Some (Some r, ss1)
         | Some (None, ss1) \<Rightarrow> finish ss1)
      else finish ss)"

definition bind_socket :: "os \<Rightarrow> i32 \<Rightarrow> i32 \<Rightarrow> u64 \<Rightarrow> socket_server \<Rightarrow> (reply \<times> socket_server) option" where
  "bind_socket os id' fd opaque ss =
     (case new_fd os id' fd PROTOCOL_TCP opaque True ss of
        None \<Rightarrow> None
      | Some (None, ss1) \<Rightarrow> Some (Some (SOCKET_ERROR, message_of id' opaque No_data), ss1)
      | Some (Some k, ss1) \<Rightarrow>
          Some (Some (SOCKET_OPEN, message_of id' opaque (Text ''binding'')),
            set_type k SOCKET_TYPE_BIND (os_do (Sp_nonblocking fd) ss1)))"

definition start_socket :: "os \<Rightarrow> i32 \<Rightarrow> u64 \<Rightarrow> socket_server \<Rightarrow> (reply \<times> socket_server) option" where
  "start_socket os id' opaque ss =
     (let k = HASH_ID id'; s = ss_slot ss k in
      if sk_type s = SOCKET_TYPE_INVALID \<or> sk_id s \<noteq> id' then Some (Some (SOCKET_ERROR, message_of id' opaque No_data), ss)
      else if sk_type s = SOCKET_TYPE_PACCEPT \<or> sk_type s = SOCKET_TYPE_PLISTEN then
        (case sys_sp_add os (sk_fd s) k ss of
           (failed, ss1) \<Rightarrow>
             if failed then Some (Some (SOCKET_ERROR, message_of id' opaque No_data), set_type k SOCKET_TYPE_INVALID ss1)
             else Some (Some (SOCKET_OPEN, message_of id' opaque (Text ''start'')),
               set_slot k (s\<lparr>sk_type := if sk_type s = SOCKET_TYPE_PACCEPT then SOCKET_TYPE_CONNECTED else SOCKET_TYPE_LISTEN,
                 sk_opaque := opaque\<rparr>) ss1))
      else if sk_type s = SOCKET_TYPE_CONNECTED then
        Some (Some (SOCKET_OPEN, message_of id' opaque (Text ''transfer'')), set_slot k (s\<lparr>sk_opaque := opaque\<rparr>) ss)
      else Some (None, ss))"

definition setopt_socket :: "i32 \<Rightarrow> i32 \<Rightarrow> i32 \<Rightarrow> socket_server \<Rightarrow> socket_server" where
  "setopt_socket id' what v ss =
     (let s = ss_slot ss (HASH_ID id') in
      if sk_type s = SOCKET_TYPE_INVALID \<or> sk_id s \<noteq> id' then ss else os_do (Sys_setsockopt (sk_fd s) what v) ss)"

text \<open>\<open>v6\<close>: the family is \<open>AF_INET6\<close>.\<close>

definition add_udp_socket :: "os \<Rightarrow> i32 \<Rightarrow> i32 \<Rightarrow> bool \<Rightarrow> u64 \<Rightarrow> socket_server \<Rightarrow> socket_server option" where
  "add_udp_socket os id' fd v6 opaque ss =
     (case new_fd os id' fd (if v6 then PROTOCOL_UDPv6 else PROTOCOL_UDP) opaque True ss of
        None \<Rightarrow> None
      | Some (None, ss1) \<Rightarrow> Some (set_type (HASH_ID id') SOCKET_TYPE_INVALID (os_do (Sys_close fd) ss1))
      | Some (Some k, ss1) \<Rightarrow>
          Some (set_slot k ((ss_slot ss1 k)\<lparr>sk_type := SOCKET_TYPE_CONNECTED, sk_udp_address := replicate UDP_ADDRESS_SIZE 0\<rparr>) ss1))"

text \<open>\<open>memcpy\<close> of the first \<open>n\<close> bytes.\<close>

definition copy_front :: "nat \<Rightarrow> bytes \<Rightarrow> bytes \<Rightarrow> bytes" where
  "copy_front n src dst = take n src @ drop n dst"

definition set_udp_address :: "i32 \<Rightarrow> bytes \<Rightarrow> socket_server \<Rightarrow> reply \<times> socket_server" where
  "set_udp_address id' address ss =
     (let k = HASH_ID id'; s = ss_slot ss k; type = ucast (address ! 0) in
      if sk_type s = SOCKET_TYPE_INVALID \<or> sk_id s \<noteq> id' then (None, ss)
      else if type \<noteq> sk_protocol s then (Some (SOCKET_ERROR, message_of (sk_id s) (sk_opaque s) No_data), ss)
      else (None, set_slot k
        (s\<lparr>sk_udp_address := copy_front (if type = PROTOCOL_UDP then 1 + 2 + 4 else 1 + 2 + 16) address (sk_udp_address s)\<rparr>) ss))"

definition exit_message :: socket_message where
  "exit_message = message_of 0 0 No_data"

definition ctrl_cmd :: "os \<Rightarrow> request \<Rightarrow> socket_server \<Rightarrow> (reply \<times> socket_server) option" where
  "ctrl_cmd os r ss =
     (case r of
        Req_start id' opaque \<Rightarrow> start_socket os id' opaque ss
      | Req_bind id' fd opaque \<Rightarrow> bind_socket os id' fd opaque ss
      | Req_listen id' fd opaque \<Rightarrow> listen_socket os id' fd opaque ss
      | Req_close id' opaque \<Rightarrow> close_socket os id' opaque ss
      | Req_open id' port opaque host \<Rightarrow> open_socket os id' port opaque host ss
      | Req_exit \<Rightarrow> Some (Some (SOCKET_EXIT, exit_message), ss)
      | Req_send q \<Rightarrow> send_socket os q True None ss
      | Req_send_low q \<Rightarrow> send_socket os q False None ss
      | Req_send_udp q address \<Rightarrow> send_socket os q True (Some address) ss
      | Req_setudp id' address \<Rightarrow> Some (set_udp_address id' address ss)
      | Req_setopt id' what v \<Rightarrow> Some (None, setopt_socket id' what v ss)
      | Req_udp id' fd v6 opaque \<Rightarrow> map_option (\<lambda>ss. (None, ss)) (add_udp_socket os id' fd v6 opaque ss))"

section \<open>Reading\<close>

definition forward_message_tcp :: "os \<Rightarrow> nat \<Rightarrow> socket_server \<Rightarrow> (reply \<times> socket_server) option" where
  "forward_message_tcp os k ss =
     (let s = ss_slot ss k; sz = sk_size s in
      case sys_read os (sk_fd s) (unat sz) ss of
        (Not_received e, ss1) \<Rightarrow>
          if e = EINTR then Some (None, ss1)
          else if e = EAGAIN then Some (None, os_do (Stderr ''EAGAIN capture'') ss1)
          else map_option (\<lambda>(result, ss2). (Some (SOCKET_ERROR, result), ss2)) (force_close k ss1)
      | (Got buffer, ss1) \<Rightarrow>
          (let n = (of_nat (List.length buffer) :: i32) in
           if n = 0 then map_option (\<lambda>(result, ss2). (Some (SOCKET_CLOSE, result), ss2)) (force_close k ss1)
           else if sk_type s = SOCKET_TYPE_HALFCLOSE then Some (None, ss1)
           else
             (let size1 = (if n = sz then sz * 2
                           else if sint MIN_READ_BUFFER < sint sz \<and> sint (n * 2) < sint sz then of_int (sint sz div 2) else sz)
              in Some (Some (SOCKET_DATA, \<lparr>sm_id = sk_id s, sm_opaque = sk_opaque s, sm_ud = n, sm_data = Buffer buffer\<rparr>),
                   set_slot k (s\<lparr>sk_size := size1\<rparr>) ss1))))"

fun gen_udp_address :: "u16 \<Rightarrow> sockaddr \<Rightarrow> bytes" where
  "gen_udp_address protocol (V4 port addr) = ucast protocol # port @ addr"
| "gen_udp_address protocol (V6 port addr) = ucast protocol # port @ addr"

definition MAX_UDP_PACKAGE :: nat where "MAX_UDP_PACKAGE = 65535"

definition forward_message_udp :: "os \<Rightarrow> nat \<Rightarrow> socket_server \<Rightarrow> (reply \<times> socket_server) option" where
  "forward_message_udp os k ss =
     (let s = ss_slot ss k in
      case sys_recvfrom os (sk_fd s) MAX_UDP_PACKAGE ss of
        (No_packet e, ss1) \<Rightarrow>
          if e = EINTR \<or> e = EAGAIN then Some (None, ss1)
          else map_option (\<lambda>(result, ss2). (Some (SOCKET_ERROR, result), ss2)) (force_close k ss1)
      | (Packet bs sa, ss1) \<Rightarrow>
          (let protocol = (case sa of V4 _ _ \<Rightarrow> PROTOCOL_UDP | V6 _ _ \<Rightarrow> PROTOCOL_UDPv6) in
           if sk_protocol s \<noteq> protocol then Some (None, ss1)
           else Some (Some (SOCKET_UDP, \<lparr>sm_id = sk_id s, sm_opaque = sk_opaque s, sm_ud = of_nat (List.length bs),
                   sm_data = Buffer (bs @ gen_udp_address protocol sa)\<rparr>), ss1)))"

definition report_connect :: "os \<Rightarrow> nat \<Rightarrow> socket_server \<Rightarrow> (reply \<times> socket_server) option" where
  "report_connect os k ss =
     (let s = ss_slot ss k; failed = os_so_error os (os_time ss); ss1 = os_do (Sys_so_error (sk_fd s)) ss in
      if failed then map_option (\<lambda>(result, ss2). (Some (SOCKET_ERROR, result), ss2)) (force_close k ss1)
      else
        (let ss2 = set_type k SOCKET_TYPE_CONNECTED ss1;
             ss3 = (if send_buffer_empty s then os_do (Sp_write (sk_fd s) k False) ss2 else ss2)
         in Some (Some (SOCKET_OPEN, message_of (sk_id s) (sk_opaque s) (text_data (os_peer os (os_time ss3)))),
              os_do (Sys_peer (sk_fd s)) ss3)))"

text \<open>The result of \<open>report_accept\<close> with the type \<open>socket_server_poll\<close> makes of it.\<close>

definition report_accept :: "os \<Rightarrow> nat \<Rightarrow> socket_server \<Rightarrow> (reply \<times> socket_server) option" where
  "report_accept os k ss =
     (let s = ss_slot ss k; ss1 = os_do (Sys_accept (sk_fd s)) ss in
      case os_accept os (os_time ss) of
        Not_accepted e \<Rightarrow>
          if e = EMFILE \<or> e = ENFILE then Some (Some (SOCKET_ERROR, message_of (sk_id s) (sk_opaque s) (Strerror e)), ss1)
          else Some (None, ss1)
      | Accepted client_fd addr \<Rightarrow>
          (case reserve_id ss1 of
             (None, ss2) \<Rightarrow> Some (None, os_do (Sys_close client_fd) ss2)
           | (Some id', ss2) \<Rightarrow>
               (case new_fd os id' client_fd PROTOCOL_TCP (sk_opaque s) False
                   (os_do (Sp_nonblocking client_fd) (os_do (Keepalive client_fd) ss2)) of
                  None \<Rightarrow> None
                | Some (None, ss3) \<Rightarrow> Some (None, os_do (Sys_close client_fd) ss3)
                | Some (Some k', ss3) \<Rightarrow>
                    Some (Some (SOCKET_ACCEPT, \<lparr>sm_id = sk_id s, sm_opaque = sk_opaque s, sm_ud = id', sm_data = text_data addr\<rparr>),
                      set_type k' SOCKET_TYPE_PACCEPT ss3))))"

section \<open>The loop of the socket thread\<close>

definition clear_closed_event :: "i32 \<Rightarrow> int \<Rightarrow> socket_server \<Rightarrow> socket_server" where
  "clear_closed_event id' type ss =
     (if type = SOCKET_CLOSE \<or> type = SOCKET_ERROR then
        ss\<lparr>ss_ev := take (ss_event_index ss) (ss_ev ss) @
             map (\<lambda>e. case ev_s e of
                 None \<Rightarrow> e
               | Some k \<Rightarrow>
                   if sk_type (ss_slot ss k) = SOCKET_TYPE_INVALID \<and> sk_id (ss_slot ss k) = id' then e\<lparr>ev_s := None\<rparr> else e)
               (drop (ss_event_index ss) (ss_ev ss))\<rparr>
      else ss)"

text \<open>
  One round of the loop: it goes on, or \<open>socket_server_poll\<close> returns. The flag says whether the round
  has waited for events, which clears \<open>*more\<close>.
\<close>

datatype round = Again | Return reply

definition cleared :: "reply \<times> socket_server \<Rightarrow> round \<times> socket_server" where
  "cleared = (\<lambda>(r, ss). case r of
       None \<Rightarrow> (Again, ss)
     | Some (type, result) \<Rightarrow> (Return r, clear_closed_event (sm_id result) type ss))"

definition handle_event :: "os \<Rightarrow> socket_server \<Rightarrow> (round \<times> socket_server) option" where
  "handle_event os ss =
     (let i = ss_event_index ss; e = ss_ev ss ! i; ss1 = ss\<lparr>ss_event_index := Suc i\<rparr> in
      case ev_s e of
        None \<Rightarrow> Some (Again, ss1)
      | Some k \<Rightarrow>
          (let s = ss_slot ss1 k in
           if sk_type s = SOCKET_TYPE_CONNECTING then
             map_option (\<lambda>(r, ss2). (Return r, ss2)) (report_connect os k ss1)
           else if sk_type s = SOCKET_TYPE_LISTEN then
             map_option (\<lambda>(r, ss2). (if r = None then Again else Return r, ss2)) (report_accept os k ss1)
           else if sk_type s = SOCKET_TYPE_INVALID then Some (Again, os_do (Stderr ''invalid socket'') ss1)
           else if ev_read e then
             (if sk_protocol s \<noteq> PROTOCOL_TCP then
                (case forward_message_udp os k ss1 of
                   None \<Rightarrow> None
                 | Some (r, ss2) \<Rightarrow>
                     if (case r of None \<Rightarrow> False | Some (type, _) \<Rightarrow> type = SOCKET_UDP) then
                       Some (Return r, ss2\<lparr>ss_event_index := i\<rparr>)
                     else Some (cleared (r, if ev_write e
                       then ss2\<lparr>ss_event_index := i, ss_ev := (ss_ev ss2)[i := e\<lparr>ev_read := False\<rparr>]\<rparr> else ss2)))
              else
                (case forward_message_tcp os k ss1 of
                   None \<Rightarrow> None
                 | Some (r, ss2) \<Rightarrow>
                     Some (cleared (r, if ev_write e
                       then ss2\<lparr>ss_event_index := i, ss_ev := (ss_ev ss2)[i := e\<lparr>ev_read := False\<rparr>]\<rparr> else ss2))))
           else if ev_write e then map_option cleared (send_buffer os k ss1)
           else Some (Again, ss1)))"

definition poll_round :: "os \<Rightarrow> socket_server \<Rightarrow> (round \<times> bool \<times> socket_server) option" where
  "poll_round os ss =
     (case (if ss_checkctrl ss then ss_pipe ss else []) of
        r # pipe \<Rightarrow> map_option (\<lambda>(x, ss2). (x, False, ss2)) (map_option cleared (ctrl_cmd os r (ss\<lparr>ss_pipe := pipe\<rparr>)))
      | [] \<Rightarrow>
          (let ss1 = ss\<lparr>ss_checkctrl := False\<rparr> in
           if ss_event_index ss1 = List.length (ss_ev ss1) then
             (let ev = os_sp_wait os (os_time ss1);
                  ss2 = os_do Sp_wait ss1\<lparr>ss_ev := ev, ss_checkctrl := True, ss_event_index := 0\<rparr>
              in if ev = [] then Some (Return None, True, ss2)
                 else map_option (\<lambda>(x, ss3). (x, True, ss3)) (handle_event os ss2))
           else map_option (\<lambda>(x, ss3). (x, False, ss3)) (handle_event os ss1)))"

partial_function (option) socket_server_poll :: "os \<Rightarrow> bool \<Rightarrow> socket_server \<Rightarrow> (reply \<times> bool \<times> socket_server) option" where
  "socket_server_poll os m ss =
     (case poll_round os ss of
        None \<Rightarrow> None
      | Some (x, waited, ss1) \<Rightarrow>
          (case x of
             Again \<Rightarrow> socket_server_poll os (m \<and> \<not> waited) ss1
           | Return r \<Rightarrow> Some (r, m \<and> \<not> waited, ss1)))"

section \<open>The other threads\<close>

text \<open>
  A command is written to the pipe in one piece. The length of a host name is bounded so that the
  command and its address have 256 bytes at most (24 of them the structure).
\<close>

definition send_request :: "request \<Rightarrow> socket_server \<Rightarrow> socket_server" where
  "send_request r ss = ss\<lparr>ss_pipe := ss_pipe ss @ [r]\<rparr>"

definition reserve_and :: "(i32 \<Rightarrow> request) \<Rightarrow> socket_server \<Rightarrow> i32 option \<times> socket_server" where
  "reserve_and f ss =
     (case reserve_id ss of
        (None, ss1) \<Rightarrow> (None, ss1)
      | (Some id', ss1) \<Rightarrow> (Some id', send_request (f id') ss1))"

definition socket_server_connect :: "u64 \<Rightarrow> string \<Rightarrow> i32 \<Rightarrow> socket_server \<Rightarrow> i32 option \<times> socket_server" where
  "socket_server_connect opaque addr port ss =
     (if 256 < List.length addr + 24 then (None, os_do (Stderr ''Invalid addr'') ss)
      else reserve_and (\<lambda>id'. Req_open id' port opaque addr) ss)"

text \<open>\<open>fd\<close>: what \<open>do_listen\<close> or the caller gives; \<open>None\<close> if \<open>do_listen\<close> fails.\<close>

definition socket_server_listen :: "u64 \<Rightarrow> i32 option \<Rightarrow> socket_server \<Rightarrow> i32 option \<times> socket_server" where
  "socket_server_listen opaque listening ss =
     (case listening of
        None \<Rightarrow> (None, ss)
      | Some fd \<Rightarrow>
          (case reserve_and (\<lambda>id'. Req_listen id' fd opaque) ss of
             (None, ss1) \<Rightarrow> (None, os_do (Sys_close fd) ss1)
           | (Some id', ss1) \<Rightarrow> (Some id', ss1)))"

definition socket_server_bind :: "u64 \<Rightarrow> i32 \<Rightarrow> socket_server \<Rightarrow> i32 option \<times> socket_server" where
  "socket_server_bind opaque fd ss = reserve_and (\<lambda>id'. Req_bind id' fd opaque) ss"

text \<open>\<open>socket\<close> is the fd of \<open>do_bind\<close> or \<open>socket\<close> with the family (is it \<open>AF_INET6\<close>), or \<open>None\<close>.\<close>

definition socket_server_udp :: "u64 \<Rightarrow> (i32 \<times> bool) option \<Rightarrow> socket_server \<Rightarrow> i32 option \<times> socket_server" where
  "socket_server_udp opaque sock ss =
     (case sock of
        None \<Rightarrow> (None, ss)
      | Some (fd, v6) \<Rightarrow>
          (case reserve_and (\<lambda>id'. Req_udp id' fd v6 opaque) (os_do (Sp_nonblocking fd) ss) of
             (None, ss1) \<Rightarrow> (None, os_do (Sys_close fd) ss1)
           | (Some id', ss1) \<Rightarrow> (Some id', ss1)))"

definition known :: "i32 \<Rightarrow> socket_server \<Rightarrow> bool" where
  "known id' ss \<longleftrightarrow> sk_id (ss_slot ss (HASH_ID id')) = id' \<and> sk_type (ss_slot ss (HASH_ID id')) \<noteq> SOCKET_TYPE_INVALID"

definition socket_server_send :: "request_send \<Rightarrow> socket_server \<Rightarrow> i64 \<times> socket_server" where
  "socket_server_send q ss =
     (if \<not> known (rq_id q) ss then (-1, ss) else (sk_wb_size (ss_slot ss (HASH_ID (rq_id q))), send_request (Req_send q) ss))"

definition socket_server_send_lowpriority :: "request_send \<Rightarrow> socket_server \<Rightarrow> socket_server" where
  "socket_server_send_lowpriority q ss = (if \<not> known (rq_id q) ss then ss else send_request (Req_send_low q) ss)"

text \<open>The number of bytes of an address, by its first byte.\<close>

definition address_size :: "bytes \<Rightarrow> nat option" where
  "address_size a =
     (if ucast (a ! 0) = PROTOCOL_UDP then Some (1 + 2 + 4)
      else if ucast (a ! 0) = PROTOCOL_UDPv6 then Some (1 + 2 + 16) else None)"

definition socket_server_udp_send :: "request_send \<Rightarrow> bytes \<Rightarrow> socket_server \<Rightarrow> i64 \<times> socket_server" where
  "socket_server_udp_send q addr ss =
     (if \<not> known (rq_id q) ss then (-1, ss)
      else
        (case address_size addr of
           None \<Rightarrow> (-1, ss)
         | Some n \<Rightarrow> (sk_wb_size (ss_slot ss (HASH_ID (rq_id q))), send_request (Req_send_udp q (take n addr)) ss)))"

text \<open>The address \<open>getaddrinfo\<close> finds, unless it fails or finds one of another family.\<close>

definition socket_server_udp_connect :: "i32 \<Rightarrow> sockaddr option \<Rightarrow> socket_server \<Rightarrow> bool \<times> socket_server" where
  "socket_server_udp_connect id' addr ss =
     (case addr of
        None \<Rightarrow> (False, ss)
      | Some sa \<Rightarrow>
          (True, send_request (Req_setudp id'
             (gen_udp_address (case sa of V4 _ _ \<Rightarrow> PROTOCOL_UDP | V6 _ _ \<Rightarrow> PROTOCOL_UDPv6) sa)) ss))"

definition socket_server_exit :: "socket_server \<Rightarrow> socket_server" where
  "socket_server_exit ss = send_request Req_exit ss"

definition socket_server_close :: "u64 \<Rightarrow> i32 \<Rightarrow> socket_server \<Rightarrow> socket_server" where
  "socket_server_close opaque id' ss = send_request (Req_close id' opaque) ss"

definition socket_server_start :: "u64 \<Rightarrow> i32 \<Rightarrow> socket_server \<Rightarrow> socket_server" where
  "socket_server_start opaque id' ss = send_request (Req_start id' opaque) ss"

definition TCP_NODELAY :: i32 where "TCP_NODELAY = 1"

definition socket_server_nodelay :: "i32 \<Rightarrow> socket_server \<Rightarrow> socket_server" where
  "socket_server_nodelay id' ss = send_request (Req_setopt id' TCP_NODELAY 1) ss"

definition socket_server_udp_address :: "bytes \<Rightarrow> nat \<Rightarrow> bytes option" where
  "socket_server_udp_address data ud =
     (case address_size (drop ud data) of None \<Rightarrow> None | Some n \<Rightarrow> Some (take n (drop ud data)))"

text \<open>The start: only the pipe is polled.\<close>

definition no_socket :: socket where
  "no_socket = \<lparr>sk_opaque = 0, sk_high = [], sk_low = [], sk_wb_size = 0, sk_fd = 0, sk_id = 0, sk_protocol = 0,
     sk_type = SOCKET_TYPE_INVALID, sk_size = 0, sk_udp_address = []\<rparr>"

definition socket_server_create :: socket_server where
  "socket_server_create = \<lparr>ss_checkctrl = True, ss_alloc_id = 0, ss_event_index = 0, ss_ev = [],
     ss_slot = (\<lambda>_. no_socket), ss_pipe = [], ss_calls = []\<rparr>"

text \<open>\<open>socket_server_release\<close>, from slot \<open>k\<close> on.\<close>

function release_slots :: "nat \<Rightarrow> socket_server \<Rightarrow> socket_server option" where
  "release_slots k ss =
     (if MAX_SOCKET \<le> k then Some ss
      else if sk_type (ss_slot ss k) \<noteq> SOCKET_TYPE_RESERVE then
        (case force_close k ss of None \<Rightarrow> None | Some (_, ss1) \<Rightarrow> release_slots (Suc k) ss1)
      else release_slots (Suc k) ss)"
  by pat_completeness auto
termination by (relation "measure (\<lambda>(k, ss). MAX_SOCKET - k)") auto

definition socket_server_release :: "socket_server \<Rightarrow> socket_server option" where
  "socket_server_release ss = release_slots 0 ss"

end
