(* ===== verification/SocketStream.thy ===== *)
theory SocketStream
  imports SocketServer
begin

text \<open>
  What a TCP socket writes. Messages sent while earlier ones wait lie in two lists; the lemmas here say
  that the bytes written are whole messages one after the other, each priority in its order.
\<close>

section \<open>The bytes written to a file descriptor\<close>

fun written :: "i32 \<Rightarrow> os_call list \<Rightarrow> bytes" where
  "written fd [] = []"
| "written fd (c # cs) = (case c of Sys_write f bs \<Rightarrow> if f = fd then bs else [] | _ \<Rightarrow> []) @ written fd cs"

lemma written_append [simp]: "written fd (cs @ ds) = written fd cs @ written fd ds"
  by (induction cs) simp_all

definition written_since :: "i32 \<Rightarrow> socket_server \<Rightarrow> socket_server \<Rightarrow> bytes" where
  "written_since fd ss ss' = written fd (drop (List.length (ss_calls ss)) (ss_calls ss'))"

text \<open>\<open>later ss bs ss'\<close>: only calls have been added, and those write \<open>bs\<close> to \<open>fd\<close>.\<close>

definition wrote :: "i32 \<Rightarrow> socket_server \<Rightarrow> bytes \<Rightarrow> socket_server \<Rightarrow> bool" where
  "wrote fd ss bs ss' \<longleftrightarrow> (\<exists>cs. ss_calls ss' = ss_calls ss @ cs \<and> written fd cs = bs)"

lemma wrote_refl [simp]: "wrote fd ss [] ss"
  by (simp add: wrote_def)

lemma wrote_trans: "wrote fd ss bs ss1 \<Longrightarrow> wrote fd ss1 cs ss2 \<Longrightarrow> wrote fd ss (bs @ cs) ss2"
  by (auto simp: wrote_def)

lemma wrote_since: "wrote fd ss bs ss' \<Longrightarrow> written_since fd ss ss' = bs"
  by (auto simp: wrote_def written_since_def)

lemma slot_set [simp]:
  "ss_slot (set_slot k s ss) = (ss_slot ss)(k := s)" "ss_calls (set_slot k s ss) = ss_calls ss"
  "ss_slot (os_do c ss) = ss_slot ss" "ss_calls (os_do c ss) = ss_calls ss @ [c]"
  "ss_slot (write_buffer_free wb ss) = ss_slot ss"
  "ss_slot (free_object os q ss) = ss_slot ss"
  by (simp_all add: set_slot_def os_do_def write_buffer_free_def free_object_def)

lemma wrote_steps:
  "wrote fd ss bs (set_slot k s ss') \<longleftrightarrow> wrote fd ss bs ss'"
  "wrote fd (set_slot k s ss) bs ss' \<longleftrightarrow> wrote fd ss bs ss'"
  by (simp_all add: wrote_def)

lemma wrote_do:
  "(\<And>f bs. c \<noteq> Sys_write f bs) \<Longrightarrow> wrote fd ss bs ss' \<Longrightarrow> wrote fd ss bs (os_do c ss')"
  by (cases c) (auto simp: wrote_def)

lemma wrote_first:
  "(\<And>f bs. c \<noteq> Sys_write f bs) \<Longrightarrow> wrote fd (os_do c ss) bs ss' \<Longrightarrow> wrote fd ss bs ss'"
  by (cases c) (auto simp: wrote_def)

lemma wrote_free:
  "wrote fd ss bs ss' \<Longrightarrow> wrote fd ss bs (write_buffer_free wb ss')"
  "wrote fd ss bs ss' \<Longrightarrow> wrote fd ss bs (free_object os q ss')"
  "wrote fd (write_buffer_free wb ss) bs ss' \<Longrightarrow> wrote fd ss bs ss'"
  by (auto simp: write_buffer_free_def free_object_def intro: wrote_do dest: wrote_first [rotated])

lemma sys_write_cases:
  obtains n where "sys_write os fd data ss = (Took n, os_do (Sys_write fd (take n data)) ss)" and "n \<le> List.length data"
  | e where "sys_write os fd data ss = (Not_sent e, os_do (Sys_write fd []) ss)"
  by (cases "os_write os (os_time ss)") (auto simp: sys_write_def min_def take_all_iff intro: that)

section \<open>Sending a list\<close>

definition advance :: "nat \<Rightarrow> write_buffer \<Rightarrow> write_buffer" where
  "advance m wb = wb\<lparr>wr_ptr := wr_ptr wb + m, wr_data := drop m (wr_data wb)\<rparr>"

text \<open>What is left after \<open>n\<close> whole buffers and \<open>m\<close> bytes of the next one, and the bytes sent.\<close>

definition left :: "nat \<Rightarrow> nat \<Rightarrow> write_buffer list \<Rightarrow> write_buffer list" where
  "left n m l = (case drop n l of [] \<Rightarrow> [] | wb # rest \<Rightarrow> advance m wb # rest)"

definition gone :: "nat \<Rightarrow> nat \<Rightarrow> write_buffer list \<Rightarrow> bytes" where
  "gone n m l = concat (map wr_data (take n l)) @ (case drop n l of [] \<Rightarrow> [] | wb # rest \<Rightarrow> take m (wr_data wb))"

definition pending :: "write_buffer list \<Rightarrow> nat" where
  "pending l = sum_list (map (\<lambda>wb. List.length (wr_data wb)) l)"

lemma advance_0 [simp]: "advance 0 wb = wb"
  by (simp add: advance_def)

lemma left_0 [simp]: "left 0 0 l = l" and gone_0 [simp]: "gone 0 0 l = []"
  by (cases l; simp add: left_def gone_def)+

lemma left_Nil [simp]: "left n m [] = []" and gone_Nil [simp]: "gone n m [] = []"
  by (simp_all add: left_def gone_def)

lemma left_whole: "left n 0 l = drop n l"
  by (simp add: left_def split: list.splits)

lemma left_Suc [simp]: "left (Suc n) m (wb # l) = left n m l" and gone_Suc [simp]: "gone (Suc n) m (wb # l) = wr_data wb @ gone n m l"
  by (simp_all add: left_def gone_def)

lemma wb_list_set [simp]:
  "wb_list hi (set_wb_list hi l s) = l" "wb_list (\<not> hi) (set_wb_list hi l s) = wb_list (\<not> hi) s"
  "set_wb_list hi l (set_wb_list hi l' s) = set_wb_list hi l s" "set_wb_list hi (wb_list hi s) s = s"
  by (simp_all add: wb_list_def set_wb_list_def)

lemma sub_wb_size_simps [simp]:
  "sub_wb_size 0 s = s" "sub_wb_size n (sub_wb_size m s) = sub_wb_size (m + n) s"
  "sub_wb_size n (set_wb_list hi l s) = set_wb_list hi l (sub_wb_size n s)"
  "wb_list hi (sub_wb_size n s) = wb_list hi s"
  "sk_fd (sub_wb_size n s) = sk_fd s" "sk_fd (set_wb_list hi l s) = sk_fd s"
  by (simp_all add: sub_wb_size_def set_wb_list_def wb_list_def algebra_simps)

text \<open>\<open>n\<close> whole buffers of the list and \<open>m\<close> bytes of the next one have been written and taken off.\<close>

definition list_sent :: "nat \<Rightarrow> bool \<Rightarrow> socket_server \<Rightarrow> nat \<Rightarrow> nat \<Rightarrow> socket_server \<Rightarrow> bool" where
  "list_sent k hi ss n m ss' \<longleftrightarrow>
     (let s = ss_slot ss k; l = wb_list hi s in
      ss_slot ss' = (ss_slot ss)(k := set_wb_list hi (left n m l) (sub_wb_size (List.length (gone n m l)) s))
      \<and> wrote (sk_fd s) ss (gone n m l) ss')"

lemma list_sent_refl: "list_sent k hi ss 0 0 ss"
  by (simp add: list_sent_def Let_def fun_upd_idem)

lemma list_sent_Cons:
  assumes l: "wb_list hi (ss_slot ss k) = tmp # rest"
    and sent: "wrote (sk_fd (ss_slot ss k)) ss (wr_data tmp) ss1"
    and slot: "ss_slot ss1 = (ss_slot ss)(k := set_wb_list hi rest (sub_wb_size (List.length (wr_data tmp)) (ss_slot ss k)))"
    and next1: "list_sent k hi ss1 n m ss'"
  shows "list_sent k hi ss (Suc n) m ss'"
  using wrote_trans [OF sent, of "gone n m rest" ss'] next1 l
  by (auto simp: list_sent_def Let_def slot)

lemma list_sent_part:
  assumes l: "wb_list hi (ss_slot ss k) = tmp # rest"
    and sent: "wrote (sk_fd (ss_slot ss k)) ss (take m (wr_data tmp)) ss'"
    and slot: "ss_slot ss' = (ss_slot ss)(k := set_wb_list hi (advance m tmp # rest) (sub_wb_size (List.length (take m (wr_data tmp))) (ss_slot ss k)))"
  shows "list_sent k hi ss 0 m ss'"
  using sent l by (simp add: list_sent_def Let_def slot left_def gone_def)

lemma list_sent_retry:
  assumes "wrote (sk_fd (ss_slot ss k)) ss [] ss1" and "ss_slot ss1 = ss_slot ss" and "list_sent k hi ss1 n m ss'"
  shows "list_sent k hi ss n m ss'"
  using wrote_trans [OF assms(1)] assms(2,3) by (simp add: list_sent_def Let_def)

lemma send_list_tcp_sound:
  assumes "send_list_tcp os k hi ss = Some y" and "fst y = None"
  shows "\<exists>n m. list_sent k hi ss n m (snd y)"
  using assms
proof (induction rule: send_list_tcp.raw_induct [rotated, consumes 1, case_names step])
  case (step go os k hi ss y)
  let ?s = "ss_slot ss k"
  show ?case
  proof (cases "wb_list hi ?s")
    case Nil
    with step(2) have "snd y = ss" by auto
    then show ?thesis using list_sent_refl by blast
  next
    case (Cons tmp rest)
    show ?thesis
    proof (cases rule: sys_write_cases [of os "sk_fd ?s" "wr_data tmp" ss])
      case (1 sz)
      let ?ss1 = "os_do (Sys_write (sk_fd ?s) (take sz (wr_data tmp))) ss"
      show ?thesis
      proof (cases "sz = List.length (wr_data tmp)")
        case True
        let ?ss2 = "write_buffer_free tmp (set_slot k (set_wb_list hi rest (sub_wb_size sz (ss_slot ?ss1 k))) ?ss1)"
        have "go os k hi ?ss2 = Some y" using step(2) Cons 1 True by simp
        then obtain n m where "list_sent k hi ?ss2 n m (snd y)" using step(1) step(3) by blast
        moreover have "wrote (sk_fd ?s) ss (wr_data tmp) ?ss2"
          using True by (auto simp: wrote_steps wrote_def write_buffer_free_def)
        ultimately show ?thesis using list_sent_Cons [OF Cons] True by fastforce
      next
        case False
        then have "snd y = set_slot k (set_wb_list hi (advance sz tmp # rest) (sub_wb_size sz (ss_slot ?ss1 k))) ?ss1"
          using step(2) Cons 1 by (auto simp: advance_def)
        moreover have "wrote (sk_fd ?s) ss (take sz (wr_data tmp)) ?ss1" by (simp add: wrote_def)
        ultimately have "list_sent k hi ss 0 sz (snd y)"
          using list_sent_part [OF Cons, of sz] 1(2) by (auto simp: wrote_steps)
        then show ?thesis by blast
      qed
    next
      case (2 e)
      let ?ss1 = "os_do (Sys_write (sk_fd ?s) []) ss"
      have quiet: "wrote (sk_fd ?s) ss [] ?ss1" "ss_slot ?ss1 = ss_slot ss" by (simp_all add: wrote_def)
      consider "e = EINTR" "go os k hi ?ss1 = Some y" | "y = (None, ?ss1)"
        using step(2,3) Cons 2 by (auto split: if_splits)
      then show ?thesis
      proof cases
        case 1
        then obtain n m where "list_sent k hi ?ss1 n m (snd y)" using step(1) step(3) by blast
        then show ?thesis using list_sent_retry [OF quiet] by blast
      next
        case 2
        then show ?thesis using list_sent_retry [OF quiet list_sent_refl] by auto
      qed
    qed
  qed
qed

section \<open>Whole messages, each priority in its order\<close>

text \<open>
  Of the messages accepted with high priority (\<open>H\<close>) and with low priority (\<open>L\<close>), those begun are \<open>C\<close>:
  an interleaving of a first part of \<open>H\<close> and a first part of \<open>L\<close>, message by message. What has been
  written is \<open>C\<close> without the rest of the message at the head of the high list; the other messages lie
  in the two lists in order.
\<close>

definition delivery :: "bytes list \<Rightarrow> bytes list \<Rightarrow> bytes \<Rightarrow> socket \<Rightarrow> bool" where
  "delivery H L W s \<longleftrightarrow>
     (\<exists>C Hc Lc. C \<in> shuffles Hc Lc \<and> H = Hc @ map wr_data (tl (sk_high s)) \<and> L = Lc @ map wr_data (sk_low s)
        \<and> concat C = W @ (case sk_high s of [] \<Rightarrow> [] | wb # _ \<Rightarrow> wr_data wb))"

lemma shuffles_snoc:
  "C \<in> shuffles A B \<Longrightarrow> C @ [x] \<in> shuffles (A @ [x]) B"
  "C \<in> shuffles A B \<Longrightarrow> C @ [x] \<in> shuffles A (B @ [x])"
proof -
  have *: "C @ [x] \<in> shuffles (A @ [x]) B" if "C \<in> shuffles A B" for A B C :: "'a list"
    using that
  proof (induction A B arbitrary: C rule: shuffles.induct)
    case (1 ys)
    then show ?case by (induction ys arbitrary: C) (auto simp: Cons_in_shuffles_iff)
  qed (auto simp: Cons_in_shuffles_iff)
  show "C \<in> shuffles A B \<Longrightarrow> C @ [x] \<in> shuffles (A @ [x]) B" by (rule *)
  show "C \<in> shuffles A B \<Longrightarrow> C @ [x] \<in> shuffles A (B @ [x])"
    using * [of C B A] by (simp add: shuffles_commutes)
qed

lemma delivery_cong:
  "sk_high s' = sk_high s \<Longrightarrow> sk_low s' = sk_low s \<Longrightarrow> delivery H L W s' = delivery H L W s"
  by (simp add: delivery_def)

lemma delivery_start: "sk_high s = [] \<Longrightarrow> sk_low s = [] \<Longrightarrow> delivery [] [] [] s"
  by (simp add: delivery_def)

lemma delivery_done:
  "delivery H L W s \<Longrightarrow> sk_high s = [] \<Longrightarrow> sk_low s = [] \<Longrightarrow> \<exists>C. C \<in> shuffles H L \<and> W = concat C"
  by (auto simp: delivery_def)

lemma delivery_part:
  "delivery H L W s \<Longrightarrow> sk_high s = wb # rest \<Longrightarrow> delivery H L (W @ take m (wr_data wb)) (s\<lparr>sk_high := advance m wb # rest\<rparr>)"
  by (auto simp: delivery_def advance_def)

lemma delivery_head:
  assumes "delivery H L W s" and "sk_high s = wb # rest"
  shows "delivery H L (W @ wr_data wb) (s\<lparr>sk_high := rest\<rparr>)"
proof -
  obtain C Hc Lc where c: "C \<in> shuffles Hc Lc" "H = Hc @ map wr_data rest" "L = Lc @ map wr_data (sk_low s)"
    "concat C = W @ wr_data wb"
    using assms by (auto simp: delivery_def)
  show ?thesis
  proof (cases rest)
    case Nil
    with c show ?thesis by (auto simp: delivery_def)
  next
    case (Cons wb' rest')
    have "C @ [wr_data wb'] \<in> shuffles (Hc @ [wr_data wb']) Lc" using c(1) by (rule shuffles_snoc)
    moreover have "H = (Hc @ [wr_data wb']) @ map wr_data rest'" using c(2) Cons by simp
    moreover have "concat (C @ [wr_data wb']) = (W @ wr_data wb) @ wr_data wb'" using c(4) by simp
    ultimately show ?thesis using c(3) Cons unfolding delivery_def by force
  qed
qed

lemma delivery_high:
  "delivery H L W s \<Longrightarrow> delivery H L (W @ gone n m (sk_high s)) (s\<lparr>sk_high := left n m (sk_high s)\<rparr>)"
proof (induction n arbitrary: W s)
  case 0
  show ?case
  proof (cases "sk_high s")
    case Nil
    with 0 show ?thesis by (simp add: delivery_def)
  next
    case (Cons wb rest)
    with delivery_part [OF 0 Cons] show ?thesis by (simp add: left_def gone_def)
  qed
next
  case (Suc n)
  show ?case
  proof (cases "sk_high s")
    case Nil
    with Suc.prems show ?thesis by (simp add: left_def gone_def delivery_def)
  next
    case (Cons wb rest)
    from Suc.IH [OF delivery_head [OF Suc.prems Cons]] Cons show ?thesis by simp
  qed
qed

lemma delivery_low_head:
  assumes "delivery H L W s" and "sk_high s = []" and "sk_low s = wb # rest"
  shows "delivery H L (W @ wr_data wb) (s\<lparr>sk_low := rest\<rparr>)"
    and "delivery H L (W @ take m (wr_data wb)) (s\<lparr>sk_high := [advance m wb], sk_low := rest\<rparr>)"
proof -
  obtain C Hc Lc where c: "C \<in> shuffles Hc Lc" "H = Hc" "L = Lc @ wr_data wb # map wr_data rest" "concat C = W"
    using assms by (auto simp: delivery_def)
  have C: "C @ [wr_data wb] \<in> shuffles Hc (Lc @ [wr_data wb])" using c(1) by (rule shuffles_snoc)
  have L: "L = (Lc @ [wr_data wb]) @ map wr_data rest" using c(3) by simp
  show "delivery H L (W @ wr_data wb) (s\<lparr>sk_low := rest\<rparr>)"
    using C L c(2,4) assms(2) unfolding delivery_def by force
  show "delivery H L (W @ take m (wr_data wb)) (s\<lparr>sk_high := [advance m wb], sk_low := rest\<rparr>)"
    using C L c(2,4) unfolding delivery_def by (force simp: advance_def)
qed

lemma delivery_low:
  "delivery H L W s \<Longrightarrow> sk_high s = [] \<Longrightarrow> delivery H L (W @ gone n 0 (sk_low s)) (s\<lparr>sk_low := drop n (sk_low s)\<rparr>)"
proof (induction n arbitrary: W s)
  case 0
  then show ?case by simp
next
  case (Suc n)
  show ?case
  proof (cases "sk_low s")
    case Nil
    with Suc.prems show ?thesis by (simp add: gone_def delivery_def)
  next
    case (Cons wb rest)
    from Suc.IH [OF delivery_low_head(1) [OF Suc.prems Cons]] Suc.prems(2) Cons show ?thesis by simp
  qed
qed

lemma delivery_add:
  assumes "delivery H L W s" and "wr_data buf = d"
  shows "delivery (H @ [d]) L W (s\<lparr>sk_high := sk_high s @ [buf]\<rparr>)"
    and "delivery H (L @ [d]) W (s\<lparr>sk_low := sk_low s @ [buf]\<rparr>)"
proof -
  obtain C Hc Lc where c: "C \<in> shuffles Hc Lc" "H = Hc @ map wr_data (tl (sk_high s))" "L = Lc @ map wr_data (sk_low s)"
    "concat C = W @ (case sk_high s of [] \<Rightarrow> [] | wb # _ \<Rightarrow> wr_data wb)"
    using assms(1) by (auto simp: delivery_def)
  show "delivery H (L @ [d]) W (s\<lparr>sk_low := sk_low s @ [buf]\<rparr>)" using c assms(2) by (auto simp: delivery_def)
  show "delivery (H @ [d]) L W (s\<lparr>sk_high := sk_high s @ [buf]\<rparr>)"
  proof (cases "sk_high s")
    case Nil
    have "C @ [d] \<in> shuffles (Hc @ [d]) Lc" using c(1) by (rule shuffles_snoc)
    then show ?thesis using c Nil assms(2) unfolding delivery_def by force
  next
    case (Cons wb rest)
    then show ?thesis using c assms(2) unfolding delivery_def by (intro exI [of _ C] exI [of _ Hc] exI [of _ Lc]) simp
  qed
qed

text \<open>A message of low priority of which a part has been written at once goes to the high list.\<close>

lemma delivery_direct:
  assumes "delivery H L W s" and "sk_high s = []" and "sk_low s = []"
  shows "delivery (H @ [d]) L (W @ d) s" and "delivery H (L @ [d]) (W @ d) s"
    and "wr_data buf = drop n d \<Longrightarrow> delivery (H @ [d]) L (W @ take n d) (s\<lparr>sk_high := [buf]\<rparr>)"
    and "wr_data buf = drop n d \<Longrightarrow> delivery H (L @ [d]) (W @ take n d) (s\<lparr>sk_high := [buf]\<rparr>)"
proof -
  obtain C where c: "C \<in> shuffles H L" "concat C = W" using assms by (auto simp: delivery_def)
  have hi: "C @ [d] \<in> shuffles (H @ [d]) L" and lo: "C @ [d] \<in> shuffles H (L @ [d])" using c(1) by (auto intro: shuffles_snoc)
  show "delivery (H @ [d]) L (W @ d) s"
    and "wr_data buf = drop n d \<Longrightarrow> delivery (H @ [d]) L (W @ take n d) (s\<lparr>sk_high := [buf]\<rparr>)"
    using hi c(2) assms unfolding delivery_def by force+
  show "delivery H (L @ [d]) (W @ d) s"
    and "wr_data buf = drop n d \<Longrightarrow> delivery H (L @ [d]) (W @ take n d) (s\<lparr>sk_high := [buf]\<rparr>)"
    using lo c(2) assms unfolding delivery_def by force+
qed

section \<open>A connection\<close>

text \<open>
  The socket in its slot; \<open>accepts\<close>: what is sent to it is taken, and not dropped since it is being
  closed. \<open>sk_wb_size\<close> is the number of bytes that wait.
\<close>

definition tcp_ok :: "socket \<Rightarrow> bool" where
  "tcp_ok s \<longleftrightarrow> sk_protocol s = PROTOCOL_TCP \<and> (\<forall>wb\<in>set (sk_low s). wr_ptr wb = wr_buffer wb)
     \<and> sk_wb_size s = of_nat (pending (sk_high s) + pending (sk_low s))
     \<and> sk_type s \<in> {SOCKET_TYPE_CONNECTING, SOCKET_TYPE_CONNECTED, SOCKET_TYPE_BIND, SOCKET_TYPE_HALFCLOSE}"

text \<open>\<open>H\<close> and \<open>L\<close> have been accepted since \<open>ss0\<close>, when nothing waited.\<close>

definition streaming :: "nat \<Rightarrow> socket_server \<Rightarrow> bytes list \<Rightarrow> bytes list \<Rightarrow> socket_server \<Rightarrow> bool" where
  "streaming k ss0 H L ss \<longleftrightarrow>
     (let s = ss_slot ss k in tcp_ok s \<and> sk_fd s = sk_fd (ss_slot ss0 k) \<and> sk_id s = sk_id (ss_slot ss0 k)
        \<and> (\<exists>W. wrote (sk_fd s) ss0 W ss \<and> delivery H L W s))"

lemma pending_simps [simp]:
  "pending [] = 0" "pending (wb # l) = List.length (wr_data wb) + pending l" "pending (l @ l') = pending l + pending l'"
  by (simp_all add: pending_def)

lemma pending_left: "pending l = pending (left n m l) + List.length (gone n m l)"
proof (induction n arbitrary: l)
  case 0
  then show ?case by (cases l) (auto simp: left_def gone_def advance_def)
next
  case (Suc n)
  show ?case
  proof (cases l)
    case (Cons wb rest)
    then show ?thesis using Suc [of rest] by simp
  qed (simp add: left_def gone_def)
qed

lemma socket_fields [simp]:
  "sk_high (set_wb_list True l s) = l" "sk_low (set_wb_list True l s) = sk_low s"
  "sk_low (set_wb_list False l s) = l" "sk_high (set_wb_list False l s) = sk_high s"
  "wb_list True s = sk_high s" "wb_list False s = sk_low s"
  "sk_high (sub_wb_size n s) = sk_high s" "sk_low (sub_wb_size n s) = sk_low s"
  "sk_type (sub_wb_size n s) = sk_type s" "sk_type (set_wb_list hi l s) = sk_type s"
  "sk_protocol (sub_wb_size n s) = sk_protocol s" "sk_protocol (set_wb_list hi l s) = sk_protocol s"
  "sk_id (sub_wb_size n s) = sk_id s" "sk_id (set_wb_list hi l s) = sk_id s"
  "sk_wb_size (set_wb_list hi l s) = sk_wb_size s" "sk_wb_size (sub_wb_size n s) = sk_wb_size s - of_nat n"
  by (simp_all add: set_wb_list_def wb_list_def sub_wb_size_def)

lemma streaming_high:
  assumes st: "streaming k ss0 H L ss" and sent: "list_sent k True ss n m ss'"
  shows "streaming k ss0 H L ss'"
proof -
  let ?s = "ss_slot ss k" and ?s' = "ss_slot ss' k"
  from sent have s': "?s' = set_wb_list True (left n m (sk_high ?s)) (sub_wb_size (List.length (gone n m (sk_high ?s))) ?s)"
    and w: "wrote (sk_fd ?s) ss (gone n m (sk_high ?s)) ss'"
    by (auto simp: list_sent_def Let_def)
  from st obtain W where W: "wrote (sk_fd ?s) ss0 W ss" "delivery H L W ?s" and ok: "tcp_ok ?s"
    by (auto simp: streaming_def Let_def)
  have "tcp_ok ?s'" using ok pending_left [of "sk_high ?s" n m] by (auto simp: tcp_ok_def s')
  moreover have "delivery H L (W @ gone n m (sk_high ?s)) ?s'"
    using delivery_high [OF W(2), of n m] by (simp add: s' delivery_def)
  ultimately show ?thesis using st wrote_trans [OF W(1) w] by (auto simp: streaming_def Let_def s')
qed

text \<open>After the low list: a message sent in part is raised to the high list.\<close>

lemma streaming_low:
  assumes st: "streaming k ss0 H L ss" and empty: "sk_high (ss_slot ss k) = []" and sent: "list_sent k False ss n m ss'"
  shows "if list_uncomplete (sk_low (ss_slot ss' k))
    then \<exists>s. raise_uncomplete (ss_slot ss' k) = Some s \<and> streaming k ss0 H L (set_slot k s ss')
    else streaming k ss0 H L ss'"
proof -
  let ?s = "ss_slot ss k" and ?s' = "ss_slot ss' k" and ?l = "sk_low (ss_slot ss k)"
  from sent have s': "?s' = set_wb_list False (left n m ?l) (sub_wb_size (List.length (gone n m ?l)) ?s)"
    and w: "wrote (sk_fd ?s) ss (gone n m ?l) ss'"
    by (auto simp: list_sent_def Let_def)
  from st obtain W where W: "wrote (sk_fd ?s) ss0 W ss" "delivery H L W ?s" and ok: "tcp_ok ?s"
    by (auto simp: streaming_def Let_def)
  note written = wrote_trans [OF W(1) w]
  have size: "sk_wb_size ?s' = of_nat (pending (left n m ?l))"
    using ok pending_left [of ?l n m] by (simp add: tcp_ok_def s' empty)
  have ptrs: "\<forall>wb\<in>set (drop n ?l). wr_ptr wb = wr_buffer wb" using ok by (auto simp: tcp_ok_def dest: in_set_dropD)
  have whole: "delivery H L (W @ gone n 0 ?l) (?s\<lparr>sk_low := drop n ?l\<rparr>)"
    by (rule delivery_low [OF W(2) empty])
  show ?thesis
  proof (cases "drop n ?l")
    case Nil
    then have g: "left n m ?l = []" "gone n m ?l = gone n 0 ?l" by (simp_all add: left_def gone_def)
    have "delivery H L (W @ gone n m ?l) ?s'"
      using whole empty by (simp add: s' g Nil delivery_def)
    then show ?thesis
      using st written ok size by (auto simp: streaming_def Let_def list_uncomplete_def tcp_ok_def s' g empty)
  next
    case (Cons wb rest)
    then have g: "left n m ?l = advance m wb # rest" "gone n m ?l = gone n 0 ?l @ take m (wr_data wb)"
      by (simp_all add: left_def gone_def)
    show ?thesis
    proof (cases "m = 0")
      case True
      then have l: "left n m ?l = wb # rest" using g(1) by simp
      have d: "delivery H L (W @ gone n m ?l) ?s'"
        using whole empty Cons by (simp add: s' l delivery_def) (simp add: True)
      have "tcp_ok ?s'" using ok size ptrs Cons by (auto simp: tcp_ok_def s' l empty)
      moreover have "\<not> list_uncomplete (sk_low ?s')" using ptrs Cons by (simp add: s' l list_uncomplete_def)
      ultimately show ?thesis using st written d by (auto simp: streaming_def Let_def s')
    next
      case False
      have "delivery H L ((W @ gone n 0 ?l) @ take m (wr_data wb)) (?s\<lparr>sk_high := [advance m wb], sk_low := rest\<rparr>)"
        using delivery_low_head(2) [OF whole _ , of wb rest m] empty Cons by simp
      then have "delivery H L (W @ gone n m ?l) (?s'\<lparr>sk_high := [advance m wb], sk_low := rest\<rparr>)"
        by (simp add: g delivery_def)
      then show ?thesis
        using st written ok size False ptrs Cons
        by (auto simp: streaming_def Let_def list_uncomplete_def tcp_ok_def raise_uncomplete_def s' g empty advance_def wrote_steps)
    qed
  qed
qed

lemma send_list_tcp_streaming:
  assumes "streaming k ss0 H L ss" and "send_list os k hi ss = Some (None, ss')"
  shows "\<exists>n m. list_sent k hi ss n m ss'"
proof -
  have "send_list_tcp os k hi ss = Some (None, ss')"
    using assms by (auto simp: send_list_def streaming_def Let_def tcp_ok_def)
  then show ?thesis using send_list_tcp_sound by fastforce
qed

lemma streaming_do:
  assumes "streaming k ss0 H L ss" and "\<And>f bs. c \<noteq> Sys_write f bs"
  shows "streaming k ss0 H L (os_do c ss)"
  using assms(1) by (auto simp: streaming_def Let_def) (use wrote_do [OF assms(2)] in blast)

lemma list_sent_type: "list_sent k hi ss n m ss' \<Longrightarrow> sk_type (ss_slot ss' k) = sk_type (ss_slot ss k)"
  by (simp add: list_sent_def Let_def)

lemma send_buffer_streaming:
  assumes st: "streaming k ss0 H L ss" and sb: "send_buffer os k ss = Some (None, ss')"
  shows "streaming k ss0 H L ss'" and "sk_type (ss_slot ss' k) = sk_type (ss_slot ss k)"
proof -
  obtain ss1 where ss1: "send_list os k True ss = Some (None, ss1)"
    using sb by (auto simp: send_buffer_def split: if_splits option.splits)
  then obtain n m where sent1: "list_sent k True ss n m ss1" using send_list_tcp_streaming [OF st] by blast
  then have st1: "streaming k ss0 H L ss1" by (rule streaming_high [OF st])
  note type1 = list_sent_type [OF sent1]
  consider "sk_high (ss_slot ss1 k) \<noteq> []" | "sk_high (ss_slot ss1 k) = []" "sk_low (ss_slot ss1 k) \<noteq> []"
    | "sk_high (ss_slot ss1 k) = []" "sk_low (ss_slot ss1 k) = []" by blast
  then have "streaming k ss0 H L ss' \<and> sk_type (ss_slot ss' k) = sk_type (ss_slot ss k)"
  proof cases
    case 1
    then show ?thesis using sb ss1 st1 type1 by (auto simp: send_buffer_def split: if_splits)
  next
    case 2
    obtain ss2 where ss2: "send_list os k False ss1 = Some (None, ss2)"
      using sb ss1 2 by (auto simp: send_buffer_def split: if_splits option.splits)
    then obtain n m where sent2: "list_sent k False ss1 n m ss2" using send_list_tcp_streaming [OF st1] by blast
    from streaming_low [OF st1 2(1) sent2] show ?thesis
      using sb ss1 2 ss2 type1 list_sent_type [OF sent2]
      by (auto simp: send_buffer_def raise_uncomplete_def split: if_splits)
  next
    case 3
    then have "ss' = os_do (Sp_write (sk_fd (ss_slot ss1 k)) k False) ss1"
      using sb ss1 by (auto simp: send_buffer_def Let_def split: if_splits)
    then show ?thesis using streaming_do [OF st1] type1 by simp
  qed
  then show "streaming k ss0 H L ss'" and "sk_type (ss_slot ss' k) = sk_type (ss_slot ss k)" by simp_all
qed

definition payload :: "os \<Rightarrow> request_send \<Rightarrow> bytes" where
  "payload os q = fst (snd (send_object_init os q))"

text \<open>The data lies at the address of the object: always, unless a user object is sent.\<close>

definition plain :: "os \<Rightarrow> request_send \<Rightarrow> bool" where
  "plain os q \<longleftrightarrow> fst (send_object_init os q) = rq_buffer q"

lemma append_fields:
  "sk_high (append_sendbuffer os q n s) = sk_high s @ [\<lparr>wr_buffer = rq_buffer q, wr_ptr = fst (send_object_init os q) + n,
     wr_data = drop n (payload os q), wr_userobject = snd (snd (send_object_init os q)), wr_udp_address = []\<rparr>]"
  "sk_low (append_sendbuffer os q n s) = sk_low s"
  "sk_low (append_sendbuffer_low os q s) = sk_low s @ [\<lparr>wr_buffer = rq_buffer q, wr_ptr = fst (send_object_init os q),
     wr_data = payload os q, wr_userobject = snd (snd (send_object_init os q)), wr_udp_address = []\<rparr>]"
  "sk_high (append_sendbuffer_low os q s) = sk_high s"
  "sk_wb_size (append_sendbuffer os q n s) = sk_wb_size s + of_nat (List.length (payload os q) - n)"
  "sk_wb_size (append_sendbuffer_low os q s) = sk_wb_size s + of_nat (List.length (payload os q))"
  "sk_type (append_sendbuffer os q n s) = sk_type s" "sk_type (append_sendbuffer_low os q s) = sk_type s"
  "sk_protocol (append_sendbuffer os q n s) = sk_protocol s" "sk_protocol (append_sendbuffer_low os q s) = sk_protocol s"
  "sk_fd (append_sendbuffer os q n s) = sk_fd s" "sk_fd (append_sendbuffer_low os q s) = sk_fd s"
  "sk_id (append_sendbuffer os q n s) = sk_id s" "sk_id (append_sendbuffer_low os q s) = sk_id s"
  by (simp_all add: append_sendbuffer_def append_sendbuffer_low_def append_buffer_def payload_def set_wb_list_def wb_list_def
      split: prod.split)

lemma streamingI:
  assumes "streaming k ss0 H L ss" and "ss_slot ss' k = s'" and "tcp_ok s'" and "sk_fd s' = sk_fd (ss_slot ss k)"
    and "sk_id s' = sk_id (ss_slot ss k)" and "wrote (sk_fd s') ss w ss'"
    and "\<And>W. delivery H L W (ss_slot ss k) \<Longrightarrow> delivery H' L' (W @ w) s'"
  shows "streaming k ss0 H' L' ss'"
proof -
  obtain W where "wrote (sk_fd s') ss0 W ss" "delivery H L W (ss_slot ss k)"
    using assms(1,4) by (auto simp: streaming_def Let_def)
  then show ?thesis
    using assms wrote_trans [of "sk_fd s'" ss0 W ss w ss'] by (auto simp: streaming_def Let_def)
qed

definition add_if :: "bool \<Rightarrow> 'a \<Rightarrow> 'a list \<Rightarrow> 'a list" where
  "add_if b x xs = (if b then xs @ [x] else xs)"

lemma send_socket_streaming:
  assumes st: "streaming k ss0 H L ss" and k: "k = HASH_ID (rq_id q)" and id': "sk_id (ss_slot ss k) = rq_id q"
    and run: "send_socket os q hi None ss = Some (None, ss')" and plain: "\<not> hi \<Longrightarrow> plain os q"
  shows "sk_type (ss_slot ss' k) = sk_type (ss_slot ss k)
    \<and> (if sk_type (ss_slot ss k) = SOCKET_TYPE_HALFCLOSE then streaming k ss0 H L ss'
       else streaming k ss0 (add_if hi (payload os q) H) (add_if (\<not> hi) (payload os q) L) ss')"
proof -
  let ?s = "ss_slot ss k" and ?d = "payload os q"
  have ok: "tcp_ok ?s" using st by (simp add: streaming_def Let_def)
  then have types: "sk_type ?s \<noteq> SOCKET_TYPE_INVALID" "sk_type ?s \<noteq> SOCKET_TYPE_PACCEPT" "sk_type ?s \<noteq> SOCKET_TYPE_PLISTEN"
    "sk_type ?s \<noteq> SOCKET_TYPE_LISTEN" "sk_protocol ?s = PROTOCOL_TCP"
    by (auto simp: tcp_ok_def socket_types)
  consider (closing) "sk_type ?s = SOCKET_TYPE_HALFCLOSE"
    | (direct) "sk_type ?s = SOCKET_TYPE_CONNECTED" "send_buffer_empty ?s"
    | (queued) "sk_type ?s \<noteq> SOCKET_TYPE_HALFCLOSE" "\<not> (send_buffer_empty ?s \<and> sk_type ?s = SOCKET_TYPE_CONNECTED)"
    by (auto simp: socket_types)
  then show ?thesis
  proof cases
    case closing
    then have "ss' = free_object os q ss" using run k id' types by (simp add: send_socket_def Let_def)
    then show ?thesis using closing streaming_do [OF st] by (simp add: free_object_def os_do_def)
  next
    case queued
    let ?s' = "if hi then append_sendbuffer os q 0 ?s else append_sendbuffer_low os q ?s"
    have ss': "ss' = set_slot k ?s' ss"
      using run k id' types queued by (simp add: send_socket_def Let_def split: if_splits)
    have "tcp_ok ?s'" using ok plain by (auto simp: tcp_ok_def append_fields plain_def)
    moreover have "delivery (add_if hi ?d H) (add_if (\<not> hi) ?d L) (W @ []) ?s'" if "delivery H L W ?s" for W
      using delivery_add(1) [OF that, of "last (sk_high ?s')" ?d] delivery_add(2) [OF that, of "last (sk_low ?s')" ?d]
      by (cases hi) (simp_all add: append_fields add_if_def delivery_def)
    ultimately have "streaming k ss0 (add_if hi ?d H) (add_if (\<not> hi) ?d L) ss'"
      by (intro streamingI [OF st, where s' = ?s' and w = "[]"]) (simp_all add: ss' append_fields wrote_steps)
    then show ?thesis using queued by (simp add: ss' append_fields)
  next
    case direct
    then have empty: "sk_high ?s = []" "sk_low ?s = []" by (simp_all add: send_buffer_empty_def)
    have conn: "sk_type ?s \<noteq> SOCKET_TYPE_HALFCLOSE" using direct by (simp add: socket_types)
    obtain sent ss1 where w: "sys_write os (sk_fd ?s) ?d ss = (sent, ss1)" by fastforce
    define n where "n = (case sent of Took n \<Rightarrow> n | Not_sent _ \<Rightarrow> 0)"
    have s1: "ss_slot ss1 = ss_slot ss" "wrote (sk_fd ?s) ss (take n ?d) ss1" "n \<le> List.length ?d"
      using w by (cases rule: sys_write_cases [of os "sk_fd ?s" ?d ss]; auto simp: n_def wrote_def)+
    consider "n = List.length ?d" "ss' = free_object os q ss1"
      | "ss' = os_do (Sp_write (sk_fd ?s) k True) (set_slot k (append_sendbuffer os q n ?s) ss1)"
      using run k id' types direct conn w s1
      by (auto simp: send_socket_def Let_def n_def payload_def split: if_splits sent.splits)
    then show ?thesis
    proof cases
      case 1
      have "streaming k ss0 (add_if hi ?d H) (add_if (\<not> hi) ?d L) ss'"
        using 1 s1 ok
        by (intro streamingI [OF st, where s' = ?s and w = ?d])
          (auto simp: add_if_def wrote_free intro: delivery_direct(1,2) [OF _ empty])
      then show ?thesis using conn 1 s1 by simp
    next
      case 2
      let ?s' = "append_sendbuffer os q n ?s"
      have "tcp_ok ?s'" using ok s1(3) empty by (auto simp: tcp_ok_def append_fields)
      moreover have "delivery (add_if hi ?d H) (add_if (\<not> hi) ?d L) (W @ take n ?d) ?s'" if "delivery H L W ?s" for W
        using delivery_direct(3,4) [OF that empty, of "last (sk_high ?s')" n ?d] empty
        by (cases hi) (simp_all add: append_fields add_if_def delivery_def)
      ultimately have "streaming k ss0 (add_if hi ?d H) (add_if (\<not> hi) ?d L) ss'"
        using s1 by (intro streamingI [OF st, where s' = ?s' and w = "take n ?d"])
          (auto simp: 2 append_fields wrote_steps intro: wrote_do)
      then show ?thesis using conn by (simp add: 2 append_fields)
    qed
  qed
qed

lemma set_type_simps [simp]:
  "ss_slot (set_type k t ss) = (ss_slot ss)(k := (ss_slot ss k)\<lparr>sk_type := t\<rparr>)" "ss_calls (set_type k t ss) = ss_calls ss"
  by (simp_all add: set_type_def)

lemma close_socket_streaming:
  assumes st: "streaming (HASH_ID id') ss0 H L ss" and id': "sk_id (ss_slot ss (HASH_ID id')) = id'"
    and run: "close_socket os id' opaque ss = Some (None, ss')"
  shows "streaming (HASH_ID id') ss0 H L ss' \<and> sk_type (ss_slot ss' (HASH_ID id')) = SOCKET_TYPE_HALFCLOSE"
proof -
  let ?k = "HASH_ID id'"
  have "sk_type (ss_slot ss ?k) \<noteq> SOCKET_TYPE_INVALID"
    using st by (auto simp: streaming_def Let_def tcp_ok_def socket_types)
  then obtain ss1 where ss1: "streaming ?k ss0 H L ss1" "ss' = set_type ?k SOCKET_TYPE_HALFCLOSE ss1"
    using run id' st by (auto simp: close_socket_def Let_def dest: send_buffer_streaming split: if_splits option.splits)
  have "streaming ?k ss0 H L ss'"
    by (rule streamingI [OF ss1(1), where w = "[]" and s' = "(ss_slot ss1 ?k)\<lparr>sk_type := SOCKET_TYPE_HALFCLOSE\<rparr>"])
      (use ss1 in \<open>auto simp: tcp_ok_def streaming_def Let_def wrote_def delivery_def\<close>)
  then show ?thesis using ss1(2) by simp
qed

section \<open>Closing\<close>

text \<open>No write fails for another reason than that it would have to wait.\<close>

definition healthy :: "os \<Rightarrow> bool" where
  "healthy os \<longleftrightarrow> (\<forall>t e. os_write os t = Not_sent e \<longrightarrow> e = EINTR \<or> e = EAGAIN)"

lemma healthy_write: "healthy os \<Longrightarrow> sys_write os fd data ss = (Not_sent e, ss1) \<Longrightarrow> e = EINTR \<or> e = EAGAIN"
  by (auto simp: healthy_def sys_write_def split: sent.splits)

lemma healthy_list:
  "send_list_tcp os k hi ss = Some y \<Longrightarrow> healthy os \<Longrightarrow> fst y = None"
proof (induction rule: send_list_tcp.raw_induct [rotated, consumes 1, case_names step])
  case (step go os k hi ss y)
  show ?case
  proof (cases "wb_list hi (ss_slot ss k)")
    case (Cons tmp rest)
    obtain sent ss1 where w: "sys_write os (sk_fd (ss_slot ss k)) (wr_data tmp) ss = (sent, ss1)" by fastforce
    show ?thesis
    proof (cases sent)
      case (Took sz)
      then show ?thesis using step Cons w by (auto split: if_splits)
    next
      case (Not_sent e)
      then show ?thesis using step Cons w healthy_write [OF step(3), of _ _ ss e ss1] by (auto split: if_splits)
    qed
  qed (use step in auto)
qed

lemma wrote_free_list: "wrote fd ss bs ss' \<Longrightarrow> wrote fd ss bs (free_wb_list wbs ss')"
  by (induction wbs arbitrary: ss') (simp_all add: wrote_free)

lemma wrote_force_close: "force_close k ss = Some (m, ss') \<Longrightarrow> wrote fd ss [] ss'"
  by (auto simp: force_close_def Let_def wrote_steps wrote_free_list wrote_do split: if_splits)

text \<open>The socket is closed when nothing waits any more.\<close>

definition all_written :: "nat \<Rightarrow> socket_server \<Rightarrow> bytes list \<Rightarrow> bytes list \<Rightarrow> socket_server \<Rightarrow> bool" where
  "all_written k ss0 H L ss \<longleftrightarrow> (\<exists>C. C \<in> shuffles H L \<and> wrote (sk_fd (ss_slot ss0 k)) ss0 (concat C) ss)"

lemma all_written_force_close:
  assumes "streaming k ss0 H L ss" and "send_buffer_empty (ss_slot ss k)" and "force_close k ss = Some (m, ss')"
  shows "all_written k ss0 H L ss'"
proof -
  obtain W where W: "wrote (sk_fd (ss_slot ss0 k)) ss0 W ss" "delivery H L W (ss_slot ss k)"
    using assms(1) by (auto simp: streaming_def Let_def)
  from delivery_done [OF W(2)] assms(2) obtain C where "C \<in> shuffles H L" "W = concat C"
    by (auto simp: send_buffer_empty_def)
  with wrote_trans [OF W(1) wrote_force_close [OF assms(3)]] show ?thesis by (auto simp: all_written_def)
qed

lemma send_buffer_closes:
  assumes st: "streaming k ss0 H L ss" and h: "healthy os" and sb: "send_buffer os k ss = Some (Some r, ss')"
  shows "all_written k ss0 H L ss'"
proof -
  have list: "r' = None" if "send_list os k hi ss1 = Some (r', ss2)" "streaming k ss0 H L ss1" for hi ss1 r' ss2
    using that healthy_list [OF _ h, of k hi ss1 "(r', ss2)"] by (simp add: send_list_def streaming_def Let_def tcp_ok_def)
  obtain ss1 where ss1: "send_list os k True ss = Some (None, ss1)"
    using sb list [OF _ st, of True] by (auto simp: send_buffer_def split: if_splits option.splits)
  then obtain n m where "list_sent k True ss n m ss1" using send_list_tcp_streaming [OF st] by blast
  then have st1: "streaming k ss0 H L ss1" by (rule streaming_high [OF st])
  let ?ss2 = "os_do (Sp_write (sk_fd (ss_slot ss1 k)) k False) ss1"
  have "sk_high (ss_slot ss1 k) = []" "sk_low (ss_slot ss1 k) = []" "\<exists>m. force_close k ?ss2 = Some (m, ss')"
    using sb ss1 list [OF _ st1, of False] by (auto simp: send_buffer_def Let_def split: if_splits option.splits)
  then show ?thesis
    using all_written_force_close [OF streaming_do [OF st1]] by (auto simp: send_buffer_empty_def)
qed

lemma send_socket_goes_on:
  assumes st: "streaming (HASH_ID (rq_id q)) ss0 H L ss" and h: "healthy os" and run: "send_socket os q hi None ss = Some (r, ss')"
  shows "r = None"
proof -
  have "sk_protocol (ss_slot ss (HASH_ID (rq_id q))) = PROTOCOL_TCP" using st by (simp add: streaming_def Let_def tcp_ok_def)
  then show ?thesis
    using run healthy_write [OF h]
    by (auto simp: send_socket_def Let_def split: if_splits sent.splits prod.splits) (metis sent.exhaust)+
qed

lemma close_socket_closes:
  assumes st: "streaming (HASH_ID id') ss0 H L ss" and id': "sk_id (ss_slot ss (HASH_ID id')) = id'" and h: "healthy os"
    and run: "close_socket os id' opaque ss = Some (Some r, ss')"
  shows "all_written (HASH_ID id') ss0 H L ss'"
proof -
  let ?k = "HASH_ID id'"
  have "sk_type (ss_slot ss ?k) \<noteq> SOCKET_TYPE_INVALID"
    using st by (auto simp: streaming_def Let_def tcp_ok_def socket_types)
  then have close: "close_socket os id' opaque ss =
      (if send_buffer_empty (ss_slot ss ?k) then
         map_option (\<lambda>(result, ss). (Some (SOCKET_CLOSE, result\<lparr>sm_id := id', sm_opaque := opaque\<rparr>), ss)) (force_close ?k ss)
       else (case send_buffer os ?k ss of
           None \<Rightarrow> None
         | Some (Some r, ss1) \<Rightarrow> Some (Some r, ss1)
         | Some (None, ss1) \<Rightarrow>
             if send_buffer_empty (ss_slot ss1 ?k) then
               map_option (\<lambda>(result, ss). (Some (SOCKET_CLOSE, result\<lparr>sm_id := id', sm_opaque := opaque\<rparr>), ss)) (force_close ?k ss1)
             else Some (None, set_type ?k SOCKET_TYPE_HALFCLOSE ss1)))"
    using id' by (simp add: close_socket_def Let_def)
  show ?thesis
  proof (cases "send_buffer_empty (ss_slot ss ?k)")
    case True
    then obtain m where "force_close ?k ss = Some (m, ss')" using run close by auto
    then show ?thesis using all_written_force_close [OF st True] by blast
  next
    case False
    then obtain r1 ss1 where sb: "send_buffer os ?k ss = Some (r1, ss1)" using run close by (auto split: option.splits)
    show ?thesis
    proof (cases r1)
      case (Some r')
      then have "ss1 = ss'" using run close False sb by simp
      then show ?thesis using send_buffer_closes [OF st h] sb Some by blast
    next
      case None
      then obtain m where "send_buffer_empty (ss_slot ss1 ?k)" "force_close ?k ss1 = Some (m, ss')"
        using run close False sb by (auto split: if_splits)
      then show ?thesis using all_written_force_close send_buffer_streaming(1) [OF st] sb None by blast
    qed
  qed
qed

section \<open>Property\<close>

text \<open>What happens to a connection: something is sent to it, it can be written to, it is to be closed.\<close>

datatype socket_op = Send request_send bool | Writable | Close u64

definition socket_op :: "os \<Rightarrow> i32 \<Rightarrow> socket_op \<Rightarrow> socket_server \<Rightarrow> (reply \<times> socket_server) option" where
  "socket_op os id' op ss =
     (case op of
        Send q hi \<Rightarrow> send_socket os (q\<lparr>rq_id := id'\<rparr>) hi None ss
      | Writable \<Rightarrow> send_buffer os (HASH_ID id') ss
      | Close opaque \<Rightarrow> close_socket os id' opaque ss)"

text \<open>The operations as long as none has a message as its result.\<close>

fun socket_ops :: "os \<Rightarrow> i32 \<Rightarrow> socket_op list \<Rightarrow> socket_server \<Rightarrow> socket_server option" where
  "socket_ops os id' [] ss = Some ss"
| "socket_ops os id' (op # ops) ss =
     (case socket_op os id' op ss of Some (None, ss1) \<Rightarrow> socket_ops os id' ops ss1 | _ \<Rightarrow> None)"

text \<open>What is sent with a priority before the connection is to be closed.\<close>

fun messages :: "os \<Rightarrow> bool \<Rightarrow> socket_op list \<Rightarrow> bytes list" where
  "messages os hi [] = []"
| "messages os hi (Send q hi' # ops) = (if hi = hi' then [payload os q] else []) @ messages os hi ops"
| "messages os hi (Writable # ops) = messages os hi ops"
| "messages os hi (Close opaque # ops) = []"

definition plain_ops :: "os \<Rightarrow> socket_op list \<Rightarrow> bool" where
  "plain_ops os ops \<longleftrightarrow> list_all (\<lambda>op. case op of Send q hi \<Rightarrow> hi \<or> plain os q | _ \<Rightarrow> True) ops"

lemma payload_id [simp]: "payload os (q\<lparr>rq_id := id'\<rparr>) = payload os q" "plain os (q\<lparr>rq_id := id'\<rparr>) = plain os q"
  by (simp_all add: payload_def plain_def send_object_init_def)

lemma streaming_id: "streaming k ss0 H L ss \<Longrightarrow> sk_id (ss_slot ss k) = sk_id (ss_slot ss0 k)"
  by (simp add: streaming_def Let_def)

lemma socket_ops_streaming:
  assumes "streaming (HASH_ID id') ss0 H L ss" and "sk_id (ss_slot ss0 (HASH_ID id')) = id'" and "plain_ops os ops"
    and "socket_ops os id' ops ss = Some ss'"
  shows "if sk_type (ss_slot ss (HASH_ID id')) = SOCKET_TYPE_HALFCLOSE then streaming (HASH_ID id') ss0 H L ss'
    else streaming (HASH_ID id') ss0 (H @ messages os True ops) (L @ messages os False ops) ss'"
  using assms
proof (induction ops arbitrary: ss H L)
  case (Cons op ops)
  let ?k = "HASH_ID id'" and ?half = "\<lambda>ss. sk_type (ss_slot ss (HASH_ID id')) = SOCKET_TYPE_HALFCLOSE"
  have id1: "sk_id (ss_slot ss ?k) = id'" using Cons.prems(1,2) streaming_id by metis
  obtain ss1 where run: "socket_op os id' op ss = Some (None, ss1)" "socket_ops os id' ops ss1 = Some ss'"
    using Cons.prems(4) by (auto split: option.splits)
  have plain: "plain_ops os ops" using Cons.prems(3) by (simp add: plain_ops_def)
  note go_on = Cons.IH [OF _ Cons.prems(2) plain run(2)]
  show ?case
  proof (cases op)
    case (Send q hi)
    have "send_socket os (q\<lparr>rq_id := id'\<rparr>) hi None ss = Some (None, ss1)" using run(1) Send by (simp add: socket_op_def)
    moreover have "\<not> hi \<Longrightarrow> plain os (q\<lparr>rq_id := id'\<rparr>)" using Cons.prems(3) Send by (simp add: plain_ops_def)
    ultimately have sent: "sk_type (ss_slot ss1 ?k) = sk_type (ss_slot ss ?k)"
      "if ?half ss then streaming ?k ss0 H L ss1
       else streaming ?k ss0 (add_if hi (payload os q) H) (add_if (\<not> hi) (payload os q) L) ss1"
      using send_socket_streaming [OF Cons.prems(1), of "q\<lparr>rq_id := id'\<rparr>" os hi ss1] id1 by auto
    then show ?thesis using go_on Send by (cases hi) (force simp: add_if_def)+
  next
    case Writable
    then have "send_buffer os ?k ss = Some (None, ss1)" using run(1) by (simp add: socket_op_def)
    note sent = send_buffer_streaming [OF Cons.prems(1) this]
    show ?thesis using go_on [OF sent(1)] sent(2) Writable by simp
  next
    case (Close opaque)
    then have "close_socket os id' opaque ss = Some (None, ss1)" using run(1) by (simp add: socket_op_def)
    note closed = close_socket_streaming [OF Cons.prems(1) id1 this]
    show ?thesis using go_on [of H L] closed Close by simp
  qed
qed simp

text \<open>
  C35. On a TCP connection, whatever is sent with either priority, whenever it can be written to and
  however many bytes each \<open>write\<close> takes: what has been written is a sequence of whole messages followed
  by a part of one, each priority in the order of sending, and what is missing waits in the two lists,
  \<open>wb_size\<close> bytes in all (\<open>delivery\<close>). When the connection is closed by request, everything sent
  before has been written, unless a \<open>write\<close> failed.
\<close>

theorem socket_stream:
  assumes "let s = ss_slot ss (HASH_ID id') in sk_id s = id' \<and> sk_protocol s = PROTOCOL_TCP
      \<and> sk_type s \<in> {SOCKET_TYPE_CONNECTING, SOCKET_TYPE_CONNECTED} \<and> sk_high s = [] \<and> sk_low s = [] \<and> sk_wb_size s = 0"
    and "plain_ops os ops" and "socket_ops os id' ops ss = Some ss'"
  shows "delivery (messages os True ops) (messages os False ops)
      (written_since (sk_fd (ss_slot ss (HASH_ID id'))) ss ss') (ss_slot ss' (HASH_ID id'))
    \<and> sk_wb_size (ss_slot ss' (HASH_ID id'))
        = of_nat (pending (sk_high (ss_slot ss' (HASH_ID id'))) + pending (sk_low (ss_slot ss' (HASH_ID id'))))
    \<and> (\<forall>op r ss''. healthy os \<longrightarrow> socket_op os id' op ss' = Some (Some r, ss'') \<longrightarrow>
        (\<exists>C. C \<in> shuffles (messages os True ops) (messages os False ops)
           \<and> written_since (sk_fd (ss_slot ss (HASH_ID id'))) ss ss'' = concat C))"
proof -
  let ?k = "HASH_ID id'" and ?H = "messages os True ops" and ?L = "messages os False ops"
  have id1: "sk_id (ss_slot ss ?k) = id'" using assms(1) by (simp add: Let_def)
  have "streaming ?k ss [] [] ss"
    using assms(1) delivery_start [of "ss_slot ss ?k"]
    by (auto simp: streaming_def Let_def tcp_ok_def intro!: exI [of _ "[]"])
  then have st: "streaming ?k ss ?H ?L ss'"
    using socket_ops_streaming [OF _ id1 assms(2,3), of "[]" "[]"] assms(1) by (auto simp: Let_def socket_types)
  have all_written: "all_written ?k ss ?H ?L ss''" if "healthy os" "socket_op os id' op ss' = Some (Some r, ss'')" for op r ss''
  proof (cases op)
    case (Send q hi)
    then show ?thesis
      using that send_socket_goes_on [of "q\<lparr>rq_id := id'\<rparr>" ss ?H ?L ss' os hi "Some r" ss''] st
      by (simp add: socket_op_def)
  next
    case Writable
    then show ?thesis using that send_buffer_closes [OF st] by (simp add: socket_op_def)
  next
    case (Close opaque)
    then show ?thesis
      using that close_socket_closes [OF st] streaming_id [OF st] id1 by (simp add: socket_op_def)
  qed
  have "\<exists>C. C \<in> shuffles ?H ?L \<and> written_since (sk_fd (ss_slot ss ?k)) ss ss'' = concat C"
    if "healthy os" "socket_op os id' op ss' = Some (Some r, ss'')" for op r ss''
  proof -
    from all_written [OF that] obtain C where "C \<in> shuffles ?H ?L" "wrote (sk_fd (ss_slot ss ?k)) ss (concat C) ss''"
      unfolding all_written_def by blast
    with wrote_since show ?thesis by blast
  qed
  moreover have "delivery ?H ?L (written_since (sk_fd (ss_slot ss ?k)) ss ss') (ss_slot ss' ?k)"
    "sk_wb_size (ss_slot ss' ?k) = of_nat (pending (sk_high (ss_slot ss' ?k)) + pending (sk_low (ss_slot ss' ?k)))"
    using st by (auto simp: streaming_def Let_def tcp_ok_def dest: wrote_since)
  ultimately show ?thesis by blast
qed

text \<open>Two bytes can be written at a time, and the third call has to wait.\<close>

definition example_os :: os where
  "example_os = \<lparr>os_write = (\<lambda>t. if t = 2 then Not_sent EAGAIN else Took 2), os_sendto = (\<lambda>t. Took 0),
     os_read = (\<lambda>t. Got []), os_recvfrom = (\<lambda>t. No_packet EAGAIN), os_accept = (\<lambda>t. Not_accepted EAGAIN),
     os_sp_add = (\<lambda>t. False), os_sp_wait = (\<lambda>t. []), os_so_error = (\<lambda>t. False), os_peer = (\<lambda>t. None),
     os_connect = (\<lambda>t. None), soi_buffer = id, soi_data = (\<lambda>_. [])\<rparr>"

definition example_connection :: socket_server where
  "example_connection = set_slot 5 (no_socket\<lparr>sk_id := 5, sk_fd := 9, sk_type := SOCKET_TYPE_CONNECTED\<rparr>) socket_server_create"

definition example_ops :: "socket_op list" where
  "example_ops =
     [Send \<lparr>rq_id = 5, rq_sz = 3, rq_buffer = 100, rq_data = [1, 2, 3]\<rparr> False,
      Send \<lparr>rq_id = 5, rq_sz = 3, rq_buffer = 200, rq_data = [4, 5, 6]\<rparr> False,
      Send \<lparr>rq_id = 5, rq_sz = 2, rq_buffer = 300, rq_data = [7, 8]\<rparr> True, Writable, Writable]"

theorem socket_stream_witness:
  "\<exists>ss'. socket_ops example_os 5 example_ops example_connection = Some ss'
     \<and> written_since 9 example_connection ss' = [1, 2, 3, 7, 8, 4, 5]
     \<and> delivery [[7, 8]] [[1, 2, 3], [4, 5, 6]] [1, 2, 3, 7, 8, 4, 5] (ss_slot ss' 5)"
proof -
  have k: "HASH_ID 5 = 5" by (simp add: HASH_ID_def MAX_SOCKET_def MAX_SOCKET_P_def)
  have run: "\<exists>ss'. socket_ops example_os 5 example_ops example_connection = Some ss'
      \<and> written_since 9 example_connection ss' = [1, 2, 3, 7, 8, 4, 5]"
    by (simp add: example_ops_def socket_op_def send_socket_def k example_connection_def example_os_def no_socket_def
        socket_server_create_def send_object_init_def sys_write_def os_time_def os_do_def set_slot_def Let_def socket_types
        send_buffer_empty_def append_sendbuffer_def append_sendbuffer_low_def append_buffer_def wb_list_def set_wb_list_def
        PROTOCOL_TCP_def send_buffer_def list_uncomplete_def send_list_def send_list_tcp.simps sub_wb_size_def
        write_buffer_free_def free_object_def raise_uncomplete_def written_since_def)
  then obtain ss' where run: "socket_ops example_os 5 example_ops example_connection = Some ss'"
    "written_since 9 example_connection ss' = [1, 2, 3, 7, 8, 4, 5]" by auto
  moreover have "plain_ops example_os example_ops" by code_simp
  moreover have "messages example_os True example_ops = [[7, 8]]" "messages example_os False example_ops = [[1, 2, 3], [4, 5, 6]]"
    by code_simp+
  moreover have fields: "ss_slot example_connection 5 = no_socket\<lparr>sk_id := 5, sk_fd := 9, sk_type := SOCKET_TYPE_CONNECTED\<rparr>"
    by (simp add: example_connection_def)
  ultimately show ?thesis
    using socket_stream [of example_connection 5 example_os example_ops ss']
    by (simp add: k Let_def no_socket_def PROTOCOL_TCP_def)
qed

end
