(* ===== verification/SocketSafety.thy ===== *)
theory SocketSafety
  imports SocketStream "HOL-Library.Multiset"
begin

text \<open>
  The threads and the socket server together: the other threads reserve identifiers and write commands
  to the pipe, the socket thread takes commands and events. In every state they reach, no assertion of
  \<open>socket_server.c\<close> fails and every command and event is handled to its end.
\<close>

section \<open>One socket\<close>

text \<open>The sockets the event poll knows; those nothing can be sent to have empty lists.\<close>

definition registered_type :: "u16 \<Rightarrow> bool" where
  "registered_type t \<longleftrightarrow> t \<in> {SOCKET_TYPE_LISTEN, SOCKET_TYPE_CONNECTING, SOCKET_TYPE_CONNECTED, SOCKET_TYPE_HALFCLOSE, SOCKET_TYPE_BIND}"

definition listening :: "u16 \<Rightarrow> bool" where
  "listening t \<longleftrightarrow> t \<in> {SOCKET_TYPE_PLISTEN, SOCKET_TYPE_LISTEN}"

definition local_ok :: "socket \<Rightarrow> bool" where
  "local_ok s \<longleftrightarrow> (\<forall>wb\<in>set (sk_low s). wr_ptr wb = wr_buffer wb)
     \<and> (sk_type s \<in> {SOCKET_TYPE_INVALID, SOCKET_TYPE_RESERVE, SOCKET_TYPE_PLISTEN, SOCKET_TYPE_LISTEN, SOCKET_TYPE_PACCEPT}
        \<longrightarrow> sk_high s = [] \<and> sk_low s = [])
     \<and> (registered_type (sk_type s) \<or> sk_type s \<in> {SOCKET_TYPE_INVALID, SOCKET_TYPE_RESERVE, SOCKET_TYPE_PLISTEN, SOCKET_TYPE_PACCEPT})"

text \<open>What the socket thread may make of a socket that is not reserved.\<close>

definition quiet :: "socket \<Rightarrow> socket \<Rightarrow> bool" where
  "quiet s s' \<longleftrightarrow> sk_id s' = sk_id s \<and>
     (sk_type s' = sk_type s
      \<or> sk_type s \<noteq> SOCKET_TYPE_RESERVE \<and> sk_type s' = SOCKET_TYPE_INVALID
      \<or> registered_type (sk_type s) \<and> \<not> listening (sk_type s) \<and> registered_type (sk_type s') \<and> \<not> listening (sk_type s')
      \<or> sk_type s = SOCKET_TYPE_PACCEPT \<and> sk_type s' = SOCKET_TYPE_CONNECTED
      \<or> sk_type s = SOCKET_TYPE_PLISTEN \<and> sk_type s' = SOCKET_TYPE_LISTEN)"

lemma quiet_refl [simp]: "quiet s s"
  by (simp add: quiet_def)

lemma quiet_same: "sk_id s' = sk_id s \<Longrightarrow> sk_type s' = sk_type s \<Longrightarrow> quiet s s'"
  by (simp add: quiet_def)

definition same_frame :: "socket_server \<Rightarrow> socket_server \<Rightarrow> bool" where
  "same_frame ss ss' \<longleftrightarrow> ss_pipe ss' = ss_pipe ss \<and> ss_ev ss' = ss_ev ss \<and> ss_event_index ss' = ss_event_index ss
     \<and> ss_checkctrl ss' = ss_checkctrl ss"

lemma same_frame_refl [simp]: "same_frame ss ss"
  by (simp add: same_frame_def)

lemma same_frame_trans: "same_frame ss ss1 \<Longrightarrow> same_frame ss1 ss2 \<Longrightarrow> same_frame ss ss2"
  by (simp add: same_frame_def)

lemma same_frame_steps [simp]:
  "same_frame ss (set_slot k s ss') = same_frame ss ss'" "same_frame ss (os_do c ss') = same_frame ss ss'"
  "same_frame ss (set_type k t ss') = same_frame ss ss'" "same_frame ss (write_buffer_free wb ss') = same_frame ss ss'"
  "same_frame ss (free_object os q ss') = same_frame ss ss'"
  by (simp_all add: same_frame_def set_slot_def os_do_def set_type_def write_buffer_free_def free_object_def)

lemma free_wb_list_frame [simp]: "ss_slot (free_wb_list l ss) = ss_slot ss" "same_frame ss0 (free_wb_list l ss) = same_frame ss0 ss"
  by (induction l arbitrary: ss) simp_all

text \<open>The outcome of a handler for the socket in slot \<open>k\<close>: if it is closed, the message says so.\<close>

definition closing_reply :: "reply \<Rightarrow> i32 \<Rightarrow> bool" where
  "closing_reply r id' \<longleftrightarrow> (\<exists>t m. r = Some (t, m) \<and> t \<in> {SOCKET_CLOSE, SOCKET_ERROR} \<and> sm_id m = id')"

definition handled :: "nat \<Rightarrow> socket_server \<Rightarrow> reply \<times> socket_server \<Rightarrow> bool" where
  "handled k ss = (\<lambda>(r, ss'). \<exists>s'. ss_slot ss' = (ss_slot ss)(k := s') \<and> local_ok s' \<and> quiet (ss_slot ss k) s'
     \<and> (registered_type (sk_type (ss_slot ss k)) \<longrightarrow> sk_type s' = SOCKET_TYPE_INVALID \<longrightarrow> closing_reply r (sk_id s'))
     \<and> same_frame ss ss')"

lemma handledI:
  "ss_slot ss' = (ss_slot ss)(k := s') \<Longrightarrow> local_ok s' \<Longrightarrow> sk_id s' = sk_id (ss_slot ss k) \<Longrightarrow>
     sk_type s' = sk_type (ss_slot ss k) \<Longrightarrow> same_frame ss ss' \<Longrightarrow> handled k ss (r, ss')"
  by (auto simp: handled_def quiet_def registered_type_def socket_types)

lemma handled_same: "local_ok (ss_slot ss k) \<Longrightarrow> ss_slot ss' = ss_slot ss \<Longrightarrow> same_frame ss ss' \<Longrightarrow> handled k ss (r, ss')"
  by (rule handledI [of _ _ _ "ss_slot ss k"]) simp_all

text \<open>A handler that has changed the socket, but not its type, and goes on.\<close>

lemma handled_trans:
  assumes "ss_slot ss1 = (ss_slot ss)(k := s1)" and "sk_id s1 = sk_id (ss_slot ss k)" and "sk_type s1 = sk_type (ss_slot ss k)"
    and "same_frame ss ss1" and "handled k ss1 (r, ss')"
  shows "handled k ss (r, ss')"
  using assms same_frame_trans [OF assms(4)] by (auto simp: handled_def quiet_def)

lemma force_close_ok:
  assumes "sk_type (ss_slot ss k) \<noteq> SOCKET_TYPE_RESERVE" and "local_ok (ss_slot ss k)"
  shows "\<exists>m ss'. force_close k ss = Some (m, ss') \<and> sm_id m = sk_id (ss_slot ss k) \<and> handled k ss (Some (SOCKET_CLOSE, m), ss')
    \<and> handled k ss (Some (SOCKET_ERROR, m), ss')"
proof (cases "sk_type (ss_slot ss k) = SOCKET_TYPE_INVALID")
  case True
  then show ?thesis using assms(2) by (simp add: force_close_def Let_def message_of_def handled_same)
next
  case False
  let ?s' = "(ss_slot ss k)\<lparr>sk_high := [], sk_low := [], sk_type := SOCKET_TYPE_INVALID\<rparr>"
  obtain m ss' where f: "force_close k ss = Some (m, ss')" "sm_id m = sk_id (ss_slot ss k)" "ss_slot ss' = (ss_slot ss)(k := ?s')" "same_frame ss ss'"
    using assms(1) False by (simp add: force_close_def Let_def message_of_def)
  then show ?thesis using assms(1) by (auto simp: handled_def local_ok_def quiet_def closing_reply_def)
qed

section \<open>Writing\<close>

text \<open>Writes are not interrupted for ever.\<close>

definition not_stuck :: "os \<Rightarrow> bool" where
  "not_stuck os \<longleftrightarrow> (\<forall>t. \<exists>t'\<ge>t. os_write os t' \<noteq> Not_sent EINTR)"

lemma os_time_do [simp]: "os_time (os_do c ss) = Suc (os_time ss)"
  by (simp add: os_time_def os_do_def)

lemma force_close_Some: "sk_type (ss_slot ss k) \<noteq> SOCKET_TYPE_RESERVE \<Longrightarrow> \<exists>m ss'. force_close k ss = Some (m, ss')"
  by (simp add: force_close_def Let_def)

text \<open>One call of \<open>write\<close>: the loop ends, or goes on with the next buffer, or tries again.\<close>

lemma send_list_tcp_round:
  assumes l: "wb_list hi (ss_slot ss k) = tmp # rest" and type: "sk_type (ss_slot ss k) \<noteq> SOCKET_TYPE_RESERVE"
    and again: "os_write os (os_time ss) = Not_sent EINTR \<Longrightarrow>
      \<exists>r ss'. send_list_tcp os k hi (os_do (Sys_write (sk_fd (ss_slot ss k)) []) ss) = Some (r, ss')"
    and on: "\<And>ss1. wb_list hi (ss_slot ss1 k) = rest \<Longrightarrow> sk_type (ss_slot ss1 k) \<noteq> SOCKET_TYPE_RESERVE \<Longrightarrow>
      \<exists>r ss'. send_list_tcp os k hi ss1 = Some (r, ss')"
  shows "\<exists>r ss'. send_list_tcp os k hi ss = Some (r, ss')"
proof (cases rule: sys_write_cases [of os "sk_fd (ss_slot ss k)" "wr_data tmp" ss])
  case (1 sz)
  let ?ss1 = "os_do (Sys_write (sk_fd (ss_slot ss k)) (take sz (wr_data tmp))) ss"
  let ?ss2 = "write_buffer_free tmp (set_slot k (set_wb_list hi rest (sub_wb_size sz (ss_slot ?ss1 k))) ?ss1)"
  have "\<exists>r ss'. send_list_tcp os k hi ?ss2 = Some (r, ss')" using type by (intro on) simp_all
  then show ?thesis using l 1 by (subst send_list_tcp.simps) auto
next
  case (2 e)
  then have e: "os_write os (os_time ss) = Not_sent e" by (auto simp: sys_write_def split: sent.splits)
  have "\<exists>m ss'. force_close k (os_do (Sys_write (sk_fd (ss_slot ss k)) []) ss) = Some (m, ss')"
    using type by (intro force_close_Some) simp
  then show ?thesis using l 2 again e by (subst send_list_tcp.simps) auto
qed

lemma send_list_tcp_total:
  assumes ns: "not_stuck os" and "sk_type (ss_slot ss k) \<noteq> SOCKET_TYPE_RESERVE"
  shows "\<exists>r ss'. send_list_tcp os k hi ss = Some (r, ss')"
  using assms(2)
proof (induction "wb_list hi (ss_slot ss k)" arbitrary: ss)
  case Nil
  then show ?case by (subst send_list_tcp.simps) (simp flip: Nil)
next
  case (Cons tmp rest)
  obtain t' where t': "os_time ss \<le> t'" "os_write os t' \<noteq> Not_sent EINTR" using ns unfolding not_stuck_def by blast
  have "\<exists>r ss'. send_list_tcp os k hi ss1 = Some (r, ss')"
    if "t' - os_time ss1 = d" "os_time ss1 \<le> t'" "ss_slot ss1 = ss_slot ss" for d ss1
    using that
  proof (induction d arbitrary: ss1)
    case (0 ss1)
    have l: "wb_list hi (ss_slot ss1 k) = tmp # rest" "sk_type (ss_slot ss1 k) \<noteq> SOCKET_TYPE_RESERVE"
      using 0 Cons.hyps(2) Cons.prems by simp_all
    have "os_write os (os_time ss1) \<noteq> Not_sent EINTR" using t'(2) 0 by simp
    then show ?case using send_list_tcp_round [OF l] Cons.hyps(1) [OF sym] by blast
  next
    case (Suc d ss1)
    have l: "wb_list hi (ss_slot ss1 k) = tmp # rest" "sk_type (ss_slot ss1 k) \<noteq> SOCKET_TYPE_RESERVE"
      using Suc.prems Cons.hyps(2) Cons.prems by simp_all
    have "\<exists>r ss'. send_list_tcp os k hi (os_do (Sys_write (sk_fd (ss_slot ss1 k)) []) ss1) = Some (r, ss')"
      using Suc.prems by (intro Suc.IH) simp_all
    then show ?case using send_list_tcp_round [OF l] Cons.hyps(1) [OF sym] by blast
  qed
  from this [OF refl] t'(1) show ?case by simp
qed

definition closed :: "nat \<Rightarrow> socket_server \<Rightarrow> reply \<times> socket_server \<Rightarrow> bool" where
  "closed k ss = (\<lambda>(r, ss'). \<exists>m s'. r = Some (SOCKET_CLOSE, m) \<and> sm_id m = sk_id s' \<and> ss_slot ss' = (ss_slot ss)(k := s')
     \<and> sk_id s' = sk_id (ss_slot ss k) \<and> sk_type s' = SOCKET_TYPE_INVALID \<and> sk_high s' = [] \<and> sk_low s' = [] \<and> same_frame ss ss')"

lemma closed_force_close:
  assumes "sk_type (ss_slot ss k) \<noteq> SOCKET_TYPE_RESERVE" and "sk_type (ss_slot ss k) \<noteq> SOCKET_TYPE_INVALID"
    and "force_close k ss = Some (m, ss')"
  shows "closed k ss (Some (SOCKET_CLOSE, m), ss')"
  using assms
  by (auto simp: force_close_def Let_def closed_def message_of_def simp del: fun_upd_apply
      intro!: exI [of _ "(ss_slot ss k)\<lparr>sk_high := [], sk_low := [], sk_type := SOCKET_TYPE_INVALID\<rparr>"])

lemma closed_trans:
  assumes "ss_slot ss1 = (ss_slot ss)(k := s1)" and "sk_id s1 = sk_id (ss_slot ss k)" and "same_frame ss ss1" and "closed k ss1 y"
  shows "closed k ss y"
  using assms same_frame_trans [OF assms(3)] by (auto simp: closed_def)

lemma closed_do: "closed k (os_do c ss) y \<Longrightarrow> closed k ss y"
  by (auto simp: closed_def same_frame_def os_do_def)

lemma closed_handled: "closed k ss y \<Longrightarrow> sk_type (ss_slot ss k) \<noteq> SOCKET_TYPE_RESERVE \<Longrightarrow> handled k ss y"
  by (auto simp: closed_def handled_def local_ok_def quiet_def closing_reply_def)

text \<open>What sending one list leaves: the other list is the same, of this one a rest.\<close>

definition listed :: "nat \<Rightarrow> bool \<Rightarrow> socket_server \<Rightarrow> socket_server \<Rightarrow> bool" where
  "listed k hi ss ss' \<longleftrightarrow> (\<exists>n m s'. ss_slot ss' = (ss_slot ss)(k := s') \<and> sk_type s' = sk_type (ss_slot ss k)
     \<and> sk_id s' = sk_id (ss_slot ss k) \<and> sk_protocol s' = sk_protocol (ss_slot ss k)
     \<and> wb_list (\<not> hi) s' = wb_list (\<not> hi) (ss_slot ss k) \<and> wb_list hi s' = left n m (wb_list hi (ss_slot ss k))
     \<and> same_frame ss ss')"

lemma listed_sent: "list_sent k hi ss n m ss' \<Longrightarrow> same_frame ss ss' \<Longrightarrow> listed k hi ss ss'"
  unfolding listed_def list_sent_def Let_def
  by (intro exI [of _ n] exI [of _ m] exI [of _ "set_wb_list hi (left n m (wb_list hi (ss_slot ss k)))
      (sub_wb_size (List.length (gone n m (wb_list hi (ss_slot ss k)))) (ss_slot ss k))"]) (cases hi; simp)

lemma send_list_tcp_frame:
  assumes "send_list_tcp os k hi ss = Some y" and "sk_type (ss_slot ss k) \<noteq> SOCKET_TYPE_RESERVE"
    and "sk_type (ss_slot ss k) \<noteq> SOCKET_TYPE_INVALID"
  shows "same_frame ss (snd y) \<and> (fst y = None \<or> closed k ss y)"
  using assms
proof (induction rule: send_list_tcp.raw_induct [rotated, consumes 1, case_names step])
  case (step go os k hi ss y)
  let ?s = "ss_slot ss k"
  show ?case
  proof (cases "wb_list hi ?s")
    case Nil
    with step(2) show ?thesis by auto
  next
    case (Cons tmp rest)
    show ?thesis
    proof (cases rule: sys_write_cases [of os "sk_fd ?s" "wr_data tmp" ss])
      case (1 sz)
      let ?ss1 = "os_do (Sys_write (sk_fd ?s) (take sz (wr_data tmp))) ss"
      let ?ss2 = "write_buffer_free tmp (set_slot k (set_wb_list hi rest (sub_wb_size sz ?s)) ?ss1)"
      show ?thesis
      proof (cases "sz = List.length (wr_data tmp)")
        case True
        then have go: "go os k hi ?ss2 = Some y" using step(2) Cons 1 by simp
        have "same_frame ?ss2 (snd y) \<and> (fst y = None \<or> closed k ?ss2 y)"
          by (rule step(1) [OF go]) (use step(3,4) in simp_all)
        moreover have "closed k ss y" if "closed k ?ss2 y"
          using closed_trans [of ?ss2 ss k "set_wb_list hi rest (sub_wb_size sz ?s)" y] that by simp
        moreover have "same_frame ss (snd y)" if "same_frame ?ss2 (snd y)" using same_frame_trans [of ss ?ss2 "snd y"] that by simp
        ultimately show ?thesis by blast
      next
        case False
        then show ?thesis using step(2) Cons 1 by auto
      qed
    next
      case (2 e)
      let ?ss1 = "os_do (Sys_write (sk_fd ?s) []) ss"
      have y: "(if e = EINTR then go os k hi ?ss1 else if e = EAGAIN then Some (None, ?ss1)
          else map_option (\<lambda>(result, ss2). (Some (SOCKET_CLOSE, result), ss2)) (force_close k ?ss1)) = Some y"
        using step(2) Cons 2 by simp
      show ?thesis
      proof (cases "e = EINTR")
        case True
        then have go: "go os k hi ?ss1 = Some y" using y by simp
        have "same_frame ?ss1 (snd y) \<and> (fst y = None \<or> closed k ?ss1 y)"
          by (rule step(1) [OF go]) (use step(3,4) in simp_all)
        moreover have "closed k ss y" if "closed k ?ss1 y" using that by (rule closed_do)
        moreover have "same_frame ss (snd y)" if "same_frame ?ss1 (snd y)" using same_frame_trans [of ss ?ss1 "snd y"] that by simp
        ultimately show ?thesis by blast
      next
        case False
        show ?thesis
        proof (cases "e = EAGAIN")
          case True
          with y show ?thesis by auto
        next
          case other: False
          obtain m ss' where f: "force_close k ?ss1 = Some (m, ss')" using force_close_Some [of ?ss1 k] step(3) by auto
          then have "y = (Some (SOCKET_CLOSE, m), ss')" using y False other by simp
          then have "closed k ?ss1 y" using closed_force_close [OF _ _ f] step(3,4) by simp
          then have "closed k ss y" by (rule closed_do)
          then show ?thesis by (auto simp: closed_def)
        qed
      qed
    qed
  qed
qed

lemma send_list_udp_listed: "wb_list hi (ss_slot ss k) = wbs \<Longrightarrow> listed k hi ss (send_list_udp os k hi wbs ss)"
proof (induction wbs arbitrary: ss)
  case Nil
  then show ?case unfolding listed_def by (intro exI [of _ 0] exI [of _ "ss_slot ss k"]) simp
next
  case (Cons tmp rest)
  let ?s = "ss_slot ss k"
  obtain sent ss1 where w: "sys_sendto os (sk_fd ?s) (wr_data tmp) (udp_socket_address ?s (wr_udp_address tmp)) ss = (sent, ss1)" by fastforce
  then have s1: "ss_slot ss1 = ss_slot ss" "same_frame ss ss1" by (auto simp: sys_sendto_def split: sent.splits)
  show ?case
  proof (cases sent)
    case (Took n)
    let ?ss2 = "write_buffer_free tmp (set_slot k (set_wb_list hi rest (sub_wb_size (List.length (wr_data tmp)) ?s)) ss1)"
    have "listed k hi ?ss2 (send_list_udp os k hi rest ?ss2)" by (rule Cons.IH) (simp add: s1)
    then obtain n m s' where "ss_slot (send_list_udp os k hi rest ?ss2) = (ss_slot ?ss2)(k := s')"
      "sk_type s' = sk_type ?s" "sk_id s' = sk_id ?s" "sk_protocol s' = sk_protocol ?s" "wb_list (\<not> hi) s' = wb_list (\<not> hi) ?s"
      "wb_list hi s' = left n m rest" "same_frame ss (send_list_udp os k hi rest ?ss2)"
      using s1 same_frame_trans [of ss ?ss2] by (auto simp: listed_def)
    then show ?thesis
      using w Took s1 Cons.prems unfolding listed_def
      by (intro exI [of _ "Suc n"] exI [of _ m] exI [of _ s']) simp
  next
    case (Not_sent e)
    then show ?thesis using w s1 Cons.prems unfolding listed_def
      by (intro exI [of _ 0] exI [of _ "ss_slot ss k"]) simp
  qed
qed

lemma send_list_ok:
  assumes "not_stuck os" and "sk_type (ss_slot ss k) \<noteq> SOCKET_TYPE_RESERVE" and "sk_type (ss_slot ss k) \<noteq> SOCKET_TYPE_INVALID"
  obtains ss' where "send_list os k hi ss = Some (None, ss')" and "listed k hi ss ss'"
    | r ss' where "send_list os k hi ss = Some (Some r, ss')" and "closed k ss (Some r, ss')"
proof (cases "sk_protocol (ss_slot ss k) = PROTOCOL_TCP")
  case True
  obtain r ss' where run: "send_list_tcp os k hi ss = Some (r, ss')" using send_list_tcp_total [OF assms(1,2)] by blast
  note frame = send_list_tcp_frame [OF run assms(2,3)]
  show ?thesis
  proof (cases r)
    case None
    then obtain n m where "list_sent k hi ss n m ss'" using send_list_tcp_sound [OF run] by auto
    then show ?thesis using that(1) run True None frame listed_sent by (simp add: send_list_def)
  next
    case (Some r')
    then show ?thesis using that(2) run True frame by (simp add: send_list_def)
  qed
next
  case False
  then show ?thesis using that(1) send_list_udp_listed by (simp add: send_list_def)
qed

lemma tl_left: "tl (left n m l) = drop (Suc n) l"
  by (cases "drop n l") (auto simp: left_def drop_Suc tl_drop [symmetric])

lemma listed_local:
  assumes "listed k True ss ss'" and "local_ok (ss_slot ss k)"
  shows "local_ok (ss_slot ss' k)"
proof -
  obtain n m where "sk_type (ss_slot ss' k) = sk_type (ss_slot ss k)" "sk_low (ss_slot ss' k) = sk_low (ss_slot ss k)"
    "sk_high (ss_slot ss' k) = left n m (sk_high (ss_slot ss k))"
    using assms(1) by (auto simp: listed_def)
  then show ?thesis using assms(2) by (simp add: local_ok_def)
qed

lemma listed_handled:
  assumes "listed k hi ss ss'" and "local_ok s'" and "sk_type s' = sk_type (ss_slot ss' k)" and "sk_id s' = sk_id (ss_slot ss' k)"
  shows "handled k ss (r, set_slot k s' ss')"
  using assms by (intro handledI [of _ _ _ s']) (auto simp: listed_def)

lemma listed_trans:
  "listed k hi ss ss1 \<Longrightarrow> handled k ss1 y \<Longrightarrow> handled k ss y"
  "listed k hi ss ss1 \<Longrightarrow> closed k ss1 y \<Longrightarrow> closed k ss y"
  by (auto simp: listed_def intro: handled_trans closed_trans)
    (cases y, auto intro: handled_trans)

lemma handled_self: "local_ok (ss_slot ss k) \<Longrightarrow> handled k ss (r, ss)"
  by (rule handled_same) simp_all

lemma send_buffer_ok:
  assumes ns: "not_stuck os" and type: "sk_type (ss_slot ss k) \<noteq> SOCKET_TYPE_RESERVE" "sk_type (ss_slot ss k) \<noteq> SOCKET_TYPE_INVALID"
    and ok: "local_ok (ss_slot ss k)"
  obtains ss' where "send_buffer os k ss = Some (None, ss')" and "handled k ss (None, ss')"
      and "sk_type (ss_slot ss' k) = sk_type (ss_slot ss k)"
    | r ss' where "send_buffer os k ss = Some (Some r, ss')" and "closed k ss (Some r, ss')"
proof -
  have start: "\<not> list_uncomplete (sk_low (ss_slot ss k))"
    using ok by (auto simp: local_ok_def list_uncomplete_def split: list.splits)
  show ?thesis
  proof (rule send_list_ok [OF ns type, of True])
    fix r ss' assume "send_list os k True ss = Some (Some r, ss')" "closed k ss (Some r, ss')"
    then show thesis using start that(2) by (simp add: send_buffer_def)
  next
    fix ss1 assume run1: "send_list os k True ss = Some (None, ss1)" and l1: "listed k True ss ss1"
    have ok1: "local_ok (ss_slot ss1 k)" using listed_local [OF l1 ok] .
    have same1: "sk_type (ss_slot ss1 k) = sk_type (ss_slot ss k)" using l1 by (auto simp: listed_def)
    note type1 = type [folded same1]
    consider "sk_high (ss_slot ss1 k) \<noteq> []" | "sk_high (ss_slot ss1 k) = []" "sk_low (ss_slot ss1 k) \<noteq> []"
      | "sk_high (ss_slot ss1 k) = []" "sk_low (ss_slot ss1 k) = []" by blast
    then show thesis
    proof cases
      case 1
      then have "send_buffer os k ss = Some (None, ss1)" using start run1 by (simp add: send_buffer_def)
      then show thesis using that(1) listed_trans(1) [OF l1 handled_self [OF ok1]] same1 by blast
    next
      case 3
      let ?ss2 = "os_do (Sp_write (sk_fd (ss_slot ss1 k)) k False) ss1"
      show thesis
      proof (cases "sk_type (ss_slot ss1 k) = SOCKET_TYPE_HALFCLOSE")
        case True
        obtain m ss' where f: "force_close k ?ss2 = Some (m, ss')" using force_close_Some [of ?ss2 k] type1 by auto
        have "closed k ss (Some (SOCKET_CLOSE, m), ss')"
          by (rule listed_trans(2) [OF l1 closed_do [OF closed_force_close [OF _ _ f]]]) (use type1 in simp_all)
        then show thesis using that(2) start run1 3 True f by (simp add: send_buffer_def Let_def)
      next
        case False
        have "handled k ss (None, ?ss2)"
          using ok1 by (intro listed_trans(1) [OF l1] handled_same) simp_all
        then show thesis using that(1) start run1 3 False same1 by (simp add: send_buffer_def Let_def)
      qed
    next
      case 2
      show thesis
      proof (rule send_list_ok [OF ns type1, of False])
        fix r ss' assume "send_list os k False ss1 = Some (Some r, ss')" "closed k ss1 (Some r, ss')"
        then show thesis using start run1 2 that(2) listed_trans(2) [OF l1] by (simp add: send_buffer_def)
      next
        fix ss2 assume run2: "send_list os k False ss1 = Some (None, ss2)" and l2: "listed k False ss1 ss2"
        have same2: "sk_type (ss_slot ss2 k) = sk_type (ss_slot ss k)" using l2 same1 by (auto simp: listed_def)
        obtain n m where low: "sk_low (ss_slot ss2 k) = left n m (sk_low (ss_slot ss1 k))" "sk_high (ss_slot ss2 k) = []"
          using l2 2(1) by (auto simp: listed_def)
        have rest: "\<forall>wb\<in>set (tl (sk_low (ss_slot ss2 k))). wr_ptr wb = wr_buffer wb"
          using ok1 by (auto simp: low tl_left local_ok_def dest: in_set_dropD)
        show thesis
        proof (cases "list_uncomplete (sk_low (ss_slot ss2 k))")
          case True
          let ?s = "(ss_slot ss2 k)\<lparr>sk_high := [hd (sk_low (ss_slot ss2 k))], sk_low := tl (sk_low (ss_slot ss2 k))\<rparr>"
          have "sk_low (ss_slot ss1 k) \<noteq> []" by (rule 2)
          then have "sk_type (ss_slot ss k) \<notin> {SOCKET_TYPE_INVALID, SOCKET_TYPE_RESERVE, SOCKET_TYPE_PLISTEN, SOCKET_TYPE_LISTEN, SOCKET_TYPE_PACCEPT}"
            "registered_type (sk_type (ss_slot ss k))"
            using ok1 same1 by (auto simp: local_ok_def)
          then have "local_ok ?s" using rest same2 by (auto simp: local_ok_def)
          then have "handled k ss (None, set_slot k ?s ss2)"
            by (intro listed_trans(1) [OF l1] listed_handled [OF l2]) simp_all
          moreover have "send_buffer os k ss = Some (None, set_slot k ?s ss2)"
            using start run1 2 run2 True low(2) by (simp add: send_buffer_def raise_uncomplete_def)
          ultimately show thesis using that(1) same2 by simp
        next
          case False
          then have "\<forall>wb\<in>set (sk_low (ss_slot ss2 k)). wr_ptr wb = wr_buffer wb"
            using rest by (cases "sk_low (ss_slot ss2 k)") (auto simp: list_uncomplete_def)
          then have "local_ok (ss_slot ss2 k)"
            using ok1 same1 same2 low by (auto simp: local_ok_def left_def)
          then have "handled k ss (None, ss2)"
            using listed_trans(1) [OF l1 listed_trans(1) [OF l2 handled_self]] by blast
          then show thesis using that(1) start run1 2 run2 False same2 by (simp add: send_buffer_def)
        qed
      qed
    qed
  qed
qed

section \<open>Commands\<close>

lemma handled_do: "handled k ss (r, ss') \<Longrightarrow> handled k ss (r, os_do c ss')"
  by (simp add: handled_def)

lemma closed_reply: "closed k ss (r, ss') \<Longrightarrow> closing_reply r (sk_id (ss_slot ss k))"
  by (auto simp: closed_def closing_reply_def)

lemma force_close_handled:
  assumes "sk_type (ss_slot ss1 k) \<noteq> SOCKET_TYPE_RESERVE" and "local_ok (ss_slot ss k)" and "ss_slot ss1 = ss_slot ss" and "same_frame ss ss1"
  obtains m ss' where "force_close k ss1 = Some (m, ss')" and "sm_id m = sk_id (ss_slot ss k)"
    and "handled k ss (Some (SOCKET_CLOSE, m), ss')" and "handled k ss (Some (SOCKET_ERROR, m), ss')"
proof -
  obtain m ss' where f: "force_close k ss1 = Some (m, ss')" "sm_id m = sk_id (ss_slot ss1 k)"
    "handled k ss1 (Some (SOCKET_CLOSE, m), ss')" "handled k ss1 (Some (SOCKET_ERROR, m), ss')"
    using force_close_ok [of ss1 k] assms by auto
  then show thesis
    using that handled_trans [of ss1 ss k "ss_slot ss k"] assms(3,4) by simp
qed

lemma append_local:
  assumes "local_ok s" and "registered_type (sk_type s)" and "\<not> listening (sk_type s)"
  shows "local_ok (append_sendbuffer os q n s)"
    and "plain os q \<Longrightarrow> local_ok (append_sendbuffer_low os q s)"
    and "hi \<or> plain os q \<Longrightarrow> local_ok (append_sendbuffer_udp os hi q a s)"
proof -
  have t: "sk_type s \<notin> {SOCKET_TYPE_INVALID, SOCKET_TYPE_RESERVE, SOCKET_TYPE_PLISTEN, SOCKET_TYPE_LISTEN, SOCKET_TYPE_PACCEPT}"
    using assms(2,3) by (auto simp: registered_type_def listening_def socket_types)
  show "local_ok (append_sendbuffer os q n s)" "plain os q \<Longrightarrow> local_ok (append_sendbuffer_low os q s)"
    using assms t by (auto simp: local_ok_def append_fields plain_def)
  show "hi \<or> plain os q \<Longrightarrow> local_ok (append_sendbuffer_udp os hi q a s)"
    using assms t
    by (auto simp: local_ok_def append_sendbuffer_udp_def append_buffer_def plain_def set_wb_list_def wb_list_def split: prod.splits)
qed

lemma append_udp_fields:
  "sk_type (append_sendbuffer_udp os hi q a s) = sk_type s" "sk_id (append_sendbuffer_udp os hi q a s) = sk_id s"
  by (simp_all add: append_sendbuffer_udp_def append_buffer_def split: prod.split)

lemma send_socket_ok:
  assumes ok: "local_ok (ss_slot ss (HASH_ID (rq_id q)))" and plain: "hi \<or> plain os q"
    and type: "sk_id (ss_slot ss (HASH_ID (rq_id q))) = rq_id q \<Longrightarrow>
      \<not> listening (sk_type (ss_slot ss (HASH_ID (rq_id q)))) \<and> sk_type (ss_slot ss (HASH_ID (rq_id q))) \<noteq> SOCKET_TYPE_RESERVE"
  shows "\<exists>y. send_socket os q hi udp_address ss = Some y \<and> handled (HASH_ID (rq_id q)) ss y"
proof -
  let ?k = "HASH_ID (rq_id q)"
  let ?s = "ss_slot ss ?k" and ?d = "fst (snd (send_object_init os q))"
  let ?a = "case udp_address of None \<Rightarrow> sk_udp_address ?s | Some a \<Rightarrow> a"
  show ?thesis
  proof (cases "sk_type ?s = SOCKET_TYPE_INVALID \<or> sk_id ?s \<noteq> rq_id q \<or> sk_type ?s = SOCKET_TYPE_HALFCLOSE \<or> sk_type ?s = SOCKET_TYPE_PACCEPT")
    case True
    then show ?thesis using ok by (auto simp: send_socket_def Let_def intro!: handled_same)
  next
    case False
    then have t: "registered_type (sk_type ?s)" "\<not> listening (sk_type ?s)" "sk_type ?s \<noteq> SOCKET_TYPE_RESERVE"
      using ok type by (auto simp: local_ok_def listening_def)
    note keeps = append_local [OF ok t(1,2)]
    have put: "handled ?k ss (None, ss')" if "ss_slot ss' = (ss_slot ss)(?k := s')" "local_ok s'" "sk_id s' = sk_id ?s"
      "sk_type s' = sk_type ?s" "same_frame ss ss'" for s' ss'
      using that by (rule handledI)
    have not_listening: "sk_type ?s \<noteq> SOCKET_TYPE_PLISTEN" "sk_type ?s \<noteq> SOCKET_TYPE_LISTEN" using t by (auto simp: listening_def)
    show ?thesis
    proof (cases "send_buffer_empty ?s \<and> sk_type ?s = SOCKET_TYPE_CONNECTED")
      case empty: True
      show ?thesis
      proof (cases "sk_protocol ?s = PROTOCOL_TCP")
        case True
        obtain sent ss1 where w: "sys_write os (sk_fd ?s) ?d ss = (sent, ss1)" by fastforce
        then have s1: "ss_slot ss1 = ss_slot ss" "same_frame ss ss1" by (auto simp: sys_write_def split: sent.splits)
        obtain m ss2 where f: "force_close ?k (os_do (Stderr ''write error'') ss1) = Some (m, ss2)" "handled ?k ss (Some (SOCKET_CLOSE, m), ss2)"
          by (rule force_close_handled [of "os_do (Stderr ''write error'') ss1" ?k ss]) (use t(3) ok s1 in auto)
        show ?thesis
          using False empty True w s1 f not_listening keeps(1)
          by (auto simp: send_socket_def Let_def append_fields handled_same [OF ok] split: sent.splits intro!: put)
      next
        case udp: False
        obtain sent ss1 where w: "sys_sendto os (sk_fd ?s) ?d (udp_socket_address ?s ?a) ss = (sent, ss1)" by fastforce
        then have s1: "ss_slot ss1 = ss_slot ss" "same_frame ss ss1" by (auto simp: sys_sendto_def split: sent.splits)
        show ?thesis
          using False empty udp w s1 not_listening keeps(3) plain
          by (auto simp: send_socket_def Let_def append_udp_fields handled_same [OF ok] intro!: put)
      qed
    next
      case queued: False
      show ?thesis
        using False queued not_listening keeps plain
        by (auto simp: send_socket_def Let_def append_udp_fields append_fields intro!: put)
    qed
  qed
qed

lemma handled_message:
  assumes "handled k ss (Some (SOCKET_CLOSE, m), ss')" and "sm_id m' = sk_id (ss_slot ss k)"
  shows "handled k ss (Some (SOCKET_CLOSE, m'), ss')"
proof -
  obtain s' where "ss_slot ss' = (ss_slot ss)(k := s')" "local_ok s'" "quiet (ss_slot ss k) s'" "same_frame ss ss'"
    using assms(1) by (auto simp: handled_def)
  moreover then have "closing_reply (Some (SOCKET_CLOSE, m')) (sk_id s')"
    using assms(2) by (auto simp: closing_reply_def quiet_def)
  ultimately show ?thesis unfolding handled_def by blast
qed

lemma start_socket_ok:
  assumes ok: "local_ok (ss_slot ss (HASH_ID id'))"
  shows "\<exists>y. start_socket os id' opaque ss = Some y \<and> handled (HASH_ID id') ss y"
proof -
  let ?k = "HASH_ID id'" let ?s = "ss_slot ss ?k"
  obtain failed ss1 where w: "sys_sp_add os (sk_fd ?s) ?k ss = (failed, ss1)" by fastforce
  then have s1: "ss_slot ss1 = ss_slot ss" "same_frame ss ss1" by (auto simp: sys_sp_add_def)
  consider "sk_type ?s = SOCKET_TYPE_INVALID \<or> sk_id ?s \<noteq> id'"
    | "sk_type ?s \<noteq> SOCKET_TYPE_INVALID" "sk_id ?s = id'" "sk_type ?s = SOCKET_TYPE_PACCEPT \<or> sk_type ?s = SOCKET_TYPE_PLISTEN"
    | "sk_type ?s \<noteq> SOCKET_TYPE_INVALID" "sk_id ?s = id'" "sk_type ?s \<noteq> SOCKET_TYPE_PACCEPT" "sk_type ?s \<noteq> SOCKET_TYPE_PLISTEN"
    by blast
  then show ?thesis
  proof cases
    case 1
    then show ?thesis using ok by (auto simp: start_socket_def Let_def intro!: handled_same)
  next
    case 2
    have empty: "sk_high ?s = []" "sk_low ?s = []" using ok 2(3) by (auto simp: local_ok_def)
    have new: "handled ?k ss (r, set_slot ?k s' ss1)" if "sk_id s' = sk_id ?s" "sk_high s' = []" "sk_low s' = []"
      "sk_type s' = SOCKET_TYPE_INVALID \<or> sk_type s' = (if sk_type ?s = SOCKET_TYPE_PACCEPT then SOCKET_TYPE_CONNECTED else SOCKET_TYPE_LISTEN)"
      for r s'
    proof -
      have "\<not> registered_type (sk_type ?s)" "sk_type ?s \<noteq> SOCKET_TYPE_RESERVE" using 2(3) by (auto simp: registered_type_def socket_types)
      moreover have "local_ok s'" using that by (auto simp: local_ok_def registered_type_def)
      moreover have "quiet ?s s'" using that 2(3) \<open>sk_type ?s \<noteq> SOCKET_TYPE_RESERVE\<close> by (auto simp: quiet_def split: if_splits)
      moreover have "ss_slot (set_slot ?k s' ss1) = (ss_slot ss)(?k := s')" using s1 by simp
      ultimately show ?thesis using s1 unfolding handled_def by auto
    qed
    show ?thesis using 2 w s1 empty by (auto simp: start_socket_def Let_def set_type_def intro!: new)
  next
    case 3
    have "handled ?k ss (r, set_slot ?k (?s\<lparr>sk_opaque := opaque\<rparr>) ss)" for r
      using ok by (intro handledI [of _ _ _ "?s\<lparr>sk_opaque := opaque\<rparr>"]) (simp_all add: local_ok_def)
    then show ?thesis using 3 handled_self [OF ok] by (simp add: start_socket_def Let_def)
  qed
qed

lemma set_udp_address_ok:
  assumes ok: "local_ok (ss_slot ss (HASH_ID id'))"
  shows "handled (HASH_ID id') ss (set_udp_address id' address ss)"
proof -
  let ?k = "HASH_ID id'" let ?s = "ss_slot ss ?k"
  have "handled ?k ss (None, set_slot ?k (?s\<lparr>sk_udp_address := a\<rparr>) ss)" for a
    using ok by (intro handledI [of _ _ _ "?s\<lparr>sk_udp_address := a\<rparr>"]) (simp_all add: local_ok_def)
  then show ?thesis using handled_self [OF ok] by (simp add: set_udp_address_def Let_def)
qed

lemma setopt_socket_ok: "local_ok (ss_slot ss (HASH_ID id')) \<Longrightarrow> handled (HASH_ID id') ss (None, setopt_socket id' what v ss)"
  by (auto simp: setopt_socket_def Let_def intro: handled_same)

lemma close_socket_ok:
  assumes ns: "not_stuck os" and ok: "local_ok (ss_slot ss (HASH_ID id'))"
    and type: "sk_id (ss_slot ss (HASH_ID id')) = id' \<Longrightarrow> sk_type (ss_slot ss (HASH_ID id')) \<noteq> SOCKET_TYPE_RESERVE"
  shows "\<exists>y. close_socket os id' opaque ss = Some y \<and> handled (HASH_ID id') ss y"
proof -
  let ?k = "HASH_ID id'" let ?s = "ss_slot ss ?k"
  let ?finish = "\<lambda>ss. if send_buffer_empty (ss_slot ss ?k) then
        map_option (\<lambda>(result, ss). (Some (SOCKET_CLOSE, result\<lparr>sm_id := id', sm_opaque := opaque\<rparr>), ss)) (force_close ?k ss)
      else Some (None, set_type ?k SOCKET_TYPE_HALFCLOSE ss)"
  show ?thesis
  proof (cases "sk_type ?s = SOCKET_TYPE_INVALID \<or> sk_id ?s \<noteq> id'")
    case True
    then show ?thesis using ok by (auto simp: close_socket_def Let_def intro!: handled_same)
  next
    case False
    then have t: "sk_type ?s \<noteq> SOCKET_TYPE_INVALID" "sk_id ?s = id'" "sk_type ?s \<noteq> SOCKET_TYPE_RESERVE" using type by auto
    have finish: "\<exists>y. ?finish ss1 = Some y \<and> handled ?k ss1 y"
      if ok1: "local_ok (ss_slot ss1 ?k)" and type1: "sk_type (ss_slot ss1 ?k) = sk_type ?s" and id1: "sk_id (ss_slot ss1 ?k) = id'" for ss1
    proof (cases "send_buffer_empty (ss_slot ss1 ?k)")
      case True
      obtain m ss2 where "force_close ?k ss1 = Some (m, ss2)" "handled ?k ss1 (Some (SOCKET_CLOSE, m), ss2)"
        by (rule force_close_handled [of ss1 ?k ss1]) (use ok1 type1 t in auto)
      then show ?thesis using True id1 by (auto intro: handled_message)
    next
      case False
      have "registered_type (sk_type ?s)" "\<not> listening (sk_type ?s)"
        using ok1 type1 False by (auto simp: local_ok_def send_buffer_empty_def listening_def)
      then have "handled ?k ss1 (None, set_type ?k SOCKET_TYPE_HALFCLOSE ss1)"
        using ok1 type1 t by (auto simp: handled_def local_ok_def quiet_def registered_type_def listening_def socket_types)
      then show ?thesis using False by simp
    qed
    have run: "close_socket os id' opaque ss = (if \<not> send_buffer_empty ?s then
        (case send_buffer os ?k ss of None \<Rightarrow> None | Some (Some r, ss1) \<Rightarrow> Some (Some r, ss1) | Some (None, ss1) \<Rightarrow> ?finish ss1)
        else ?finish ss)"
      using t by (simp add: close_socket_def Let_def)
    show ?thesis
    proof (cases "send_buffer_empty ?s")
      case True
      then show ?thesis using finish [OF ok refl t(2)] run by simp
    next
      case False
      show ?thesis
      proof (rule send_buffer_ok [OF ns t(3,1) ok])
        fix r ss' assume "send_buffer os ?k ss = Some (Some r, ss')" "closed ?k ss (Some r, ss')"
        then show ?thesis using False run closed_handled t(3) by simp
      next
        fix ss1 assume sb: "send_buffer os ?k ss = Some (None, ss1)" "handled ?k ss (None, ss1)"
          "sk_type (ss_slot ss1 ?k) = sk_type ?s"
        then obtain s1 where s1: "ss_slot ss1 = (ss_slot ss)(?k := s1)" "local_ok s1" "sk_id s1 = sk_id ?s" "sk_type s1 = sk_type ?s"
          "same_frame ss ss1"
          by (auto simp: handled_def quiet_def)
        then obtain y where "?finish ss1 = Some y" "handled ?k ss1 y" using finish [of ss1] t(2) by auto
        then show ?thesis
          using False run sb handled_trans [OF s1(1,3,4,5), of "fst y" "snd y"] by (cases y) simp
      qed
    qed
  qed
qed

section \<open>Opening\<close>

text \<open>What a command makes of a reserved slot.\<close>

definition opened :: "i32 \<Rightarrow> socket_server \<Rightarrow> reply \<times> socket_server \<Rightarrow> bool" where
  "opened id' ss = (\<lambda>(r, ss'). \<exists>s'. ss_slot ss' = (ss_slot ss)(HASH_ID id' := s') \<and> local_ok s'
     \<and> sk_id s' = id' \<and> sk_type s' \<noteq> SOCKET_TYPE_RESERVE \<and> same_frame ss ss')"

definition reserved :: "i32 \<Rightarrow> socket_server \<Rightarrow> bool" where
  "reserved id' ss \<longleftrightarrow> (let s = ss_slot ss (HASH_ID id') in sk_type s = SOCKET_TYPE_RESERVE \<and> sk_id s = id' \<and> local_ok s)"

lemma new_fd_ok:
  assumes "reserved id' ss"
  obtains ss1 where "new_fd os id' fd protocol opaque add ss = Some (None, ss1)" and "opened id' ss (None, ss1)" and "add"
      and "sk_type (ss_slot ss1 (HASH_ID id')) = SOCKET_TYPE_INVALID"
    | ss1 where "new_fd os id' fd protocol opaque add ss = Some (Some (HASH_ID id'), ss1)"
      and "ss_slot ss1 = (ss_slot ss)(HASH_ID id' := (ss_slot ss (HASH_ID id'))\<lparr>sk_id := id', sk_fd := fd, sk_protocol := protocol,
          sk_size := MIN_READ_BUFFER, sk_opaque := opaque, sk_wb_size := 0\<rparr>)"
      and "sk_high (ss_slot ss (HASH_ID id')) = []" and "sk_low (ss_slot ss (HASH_ID id')) = []"
      and "same_frame ss ss1"
proof -
  let ?k = "HASH_ID id'" let ?s = "ss_slot ss ?k"
  have r: "sk_type ?s = SOCKET_TYPE_RESERVE" "sk_id ?s = id'" "local_ok ?s" using assms by (auto simp: reserved_def Let_def)
  then have empty: "sk_high ?s = []" "sk_low ?s = []" by (auto simp: local_ok_def)
  obtain failed ss1 where w: "(if add then sys_sp_add os fd ?k ss else (False, ss)) = (failed, ss1)" by fastforce
  then have s1: "ss_slot ss1 = ss_slot ss" "same_frame ss ss1" "failed \<Longrightarrow> add" by (auto simp: sys_sp_add_def split: if_splits)
  show ?thesis
  proof (cases failed)
    case True
    have "opened id' ss (None, set_slot ?k (?s\<lparr>sk_type := SOCKET_TYPE_INVALID\<rparr>) ss1)"
      using s1 r empty by (auto simp: opened_def local_ok_def socket_types)
    then show ?thesis using True w r s1 that(1) by (simp add: new_fd_def Let_def)
  next
    case False
    then show ?thesis using w r s1 empty that(2) by (simp add: new_fd_def Let_def)
  qed
qed

lemma openedI:
  assumes "ss_slot ss' = (ss_slot ss)(HASH_ID id' := s')" and "sk_high s' = []" and "sk_low s' = []" and "sk_id s' = id'"
    and "sk_type s' \<in> {SOCKET_TYPE_INVALID, SOCKET_TYPE_PLISTEN, SOCKET_TYPE_PACCEPT, SOCKET_TYPE_CONNECTING, SOCKET_TYPE_CONNECTED, SOCKET_TYPE_BIND}"
    and "same_frame ss ss'"
  shows "opened id' ss (r, ss')"
  using assms by (auto simp: opened_def local_ok_def registered_type_def socket_types)

text \<open>A command for a reserved slot; \<open>listens\<close>: it may leave a listening socket.\<close>

definition opens :: "bool \<Rightarrow> i32 \<Rightarrow> socket_server \<Rightarrow> (reply \<times> socket_server) option \<Rightarrow> bool" where
  "opens listens id' ss x \<longleftrightarrow> (\<exists>y. x = Some y \<and> opened id' ss y
     \<and> (listens \<or> \<not> listening (sk_type (ss_slot (snd y) (HASH_ID id')))))"

lemma opensI:
  assumes "ss_slot ss' = (ss_slot ss)(HASH_ID id' := s')" and "sk_high s' = []" and "sk_low s' = []" and "sk_id s' = id'"
    and "sk_type s' \<in> {SOCKET_TYPE_INVALID, SOCKET_TYPE_PACCEPT, SOCKET_TYPE_CONNECTING, SOCKET_TYPE_CONNECTED, SOCKET_TYPE_BIND}"
    and "same_frame ss ss'"
  shows "opens listens id' ss (Some (r, ss'))"
  using openedI [OF assms(1-4) _ assms(6), of r] assms by (auto simp: opens_def listening_def socket_types)

lemma opens_invalid:
  assumes "opened id' ss (r, ss1)" and "sk_type (ss_slot ss1 (HASH_ID id')) = SOCKET_TYPE_INVALID"
    and "ss_slot ss' = ss_slot ss1" and "same_frame ss1 ss'"
  shows "opens listens id' ss (Some (r', ss'))"
  using assms same_frame_trans [of ss ss1 ss'] by (auto simp: opens_def opened_def listening_def socket_types)

lemma listen_socket_ok:
  assumes "reserved id' ss"
  shows "opens True id' ss (listen_socket os id' fd opaque ss)"
proof (rule new_fd_ok [OF assms, of os fd PROTOCOL_TCP opaque False])
  fix ss1 assume n: "new_fd os id' fd PROTOCOL_TCP opaque False ss = Some (Some (HASH_ID id'), ss1)"
    and s: "ss_slot ss1 = (ss_slot ss)(HASH_ID id' := (ss_slot ss (HASH_ID id'))\<lparr>sk_id := id', sk_fd := fd,
      sk_protocol := PROTOCOL_TCP, sk_size := MIN_READ_BUFFER, sk_opaque := opaque, sk_wb_size := 0\<rparr>)"
      "sk_high (ss_slot ss (HASH_ID id')) = []" "sk_low (ss_slot ss (HASH_ID id')) = []" "same_frame ss ss1"
  have "opened id' ss (None, set_type (HASH_ID id') SOCKET_TYPE_PLISTEN ss1)"
    by (rule openedI [of _ _ _ "(ss_slot ss1 (HASH_ID id'))\<lparr>sk_type := SOCKET_TYPE_PLISTEN\<rparr>"]) (use s in simp_all)
  then show ?thesis using n by (simp add: listen_socket_def opens_def)
qed simp

lemma bind_socket_ok:
  assumes "reserved id' ss"
  shows "opens False id' ss (bind_socket os id' fd opaque ss)"
proof (rule new_fd_ok [OF assms, of os fd PROTOCOL_TCP opaque True])
  fix ss1 assume "new_fd os id' fd PROTOCOL_TCP opaque True ss = Some (None, ss1)" "opened id' ss (None, ss1)"
    "sk_type (ss_slot ss1 (HASH_ID id')) = SOCKET_TYPE_INVALID"
  then show ?thesis using opens_invalid [of id' ss None ss1 ss1] by (simp add: bind_socket_def)
next
  fix ss1 assume n: "new_fd os id' fd PROTOCOL_TCP opaque True ss = Some (Some (HASH_ID id'), ss1)"
    and s: "ss_slot ss1 = (ss_slot ss)(HASH_ID id' := (ss_slot ss (HASH_ID id'))\<lparr>sk_id := id', sk_fd := fd,
      sk_protocol := PROTOCOL_TCP, sk_size := MIN_READ_BUFFER, sk_opaque := opaque, sk_wb_size := 0\<rparr>)"
      "sk_high (ss_slot ss (HASH_ID id')) = []" "sk_low (ss_slot ss (HASH_ID id')) = []" "same_frame ss ss1"
  have "opens False id' ss (Some (r, set_type (HASH_ID id') SOCKET_TYPE_BIND (os_do (Sp_nonblocking fd) ss1)))" for r
    by (rule opensI [of _ _ _ "(ss_slot ss1 (HASH_ID id'))\<lparr>sk_type := SOCKET_TYPE_BIND\<rparr>"]) (use s in simp_all)
  then show ?thesis using n by (simp add: bind_socket_def)
qed

lemma add_udp_socket_ok:
  assumes "reserved id' ss"
  shows "opens False id' ss (map_option (\<lambda>ss. (None, ss)) (add_udp_socket os id' fd v6 opaque ss))"
proof -
  let ?p = "if v6 then PROTOCOL_UDPv6 else PROTOCOL_UDP"
  show ?thesis
  proof (rule new_fd_ok [OF assms, of os fd ?p opaque True])
    fix ss1 assume n: "new_fd os id' fd ?p opaque True ss = Some (None, ss1)" "opened id' ss (None, ss1)"
      "sk_type (ss_slot ss1 (HASH_ID id')) = SOCKET_TYPE_INVALID"
    have "(ss_slot ss1 (HASH_ID id'))\<lparr>sk_type := SOCKET_TYPE_INVALID\<rparr> = ss_slot ss1 (HASH_ID id')" using n(3) by simp
    then have "opens False id' ss (Some (None, set_type (HASH_ID id') SOCKET_TYPE_INVALID (os_do (Sys_close fd) ss1)))"
      by (intro opens_invalid [OF n(2,3)]) simp_all
    then show ?thesis using n by (simp add: add_udp_socket_def)
  next
    fix ss1 assume n: "new_fd os id' fd ?p opaque True ss = Some (Some (HASH_ID id'), ss1)"
      and s: "ss_slot ss1 = (ss_slot ss)(HASH_ID id' := (ss_slot ss (HASH_ID id'))\<lparr>sk_id := id', sk_fd := fd,
        sk_protocol := ?p, sk_size := MIN_READ_BUFFER, sk_opaque := opaque, sk_wb_size := 0\<rparr>)"
        "sk_high (ss_slot ss (HASH_ID id')) = []" "sk_low (ss_slot ss (HASH_ID id')) = []" "same_frame ss ss1"
    let ?s = "(ss_slot ss1 (HASH_ID id'))\<lparr>sk_type := SOCKET_TYPE_CONNECTED, sk_udp_address := replicate UDP_ADDRESS_SIZE 0\<rparr>"
    have "opens False id' ss (Some (None, set_slot (HASH_ID id') ?s ss1))"
      by (rule opensI [of _ _ _ ?s]) (use s in simp_all)
    then show ?thesis using n by (simp add: add_udp_socket_def)
  qed
qed

lemma connect_loop_frame: "ss_slot (snd (connect_loop ais ss)) = ss_slot ss \<and> same_frame ss (snd (connect_loop ais ss))"
proof (induction ais ss rule: connect_loop.induct)
  case (3 fd ais ss)
  then show ?case using same_frame_trans [of ss "os_do (Sys_close fd) (os_do (Sp_nonblocking fd) (os_do (Keepalive fd) ss))"] by simp
qed simp_all

lemma open_socket_ok:
  assumes r: "reserved id' ss"
  shows "opens False id' ss (open_socket os id' port opaque host ss)"
proof -
  let ?k = "HASH_ID id'" let ?s = "ss_slot ss ?k" let ?ss1 = "os_do (Sys_connect host port) ss"
  have empty: "sk_high ?s = []" "sk_low ?s = []" "sk_id ?s = id'" using r by (auto simp: reserved_def Let_def local_ok_def)
  have failed: "opens False id' ss (Some (m, set_type ?k SOCKET_TYPE_INVALID ss'))" if "ss_slot ss' = ss_slot ss" "same_frame ss ss'" for m ss'
    by (rule opensI [of _ _ _ "?s\<lparr>sk_type := SOCKET_TYPE_INVALID\<rparr>"]) (use that empty in simp_all)
  show ?thesis
  proof (cases "os_connect os (os_time ss)")
    case None
    then show ?thesis using failed by (simp add: open_socket_def Let_def)
  next
    case (Some ais)
    obtain c ss2 where c: "connect_loop ais ?ss1 = (c, ss2)" by fastforce
    then have s2: "ss_slot ss2 = ss_slot ss" "same_frame ss ss2"
      using connect_loop_frame [of ais ?ss1] same_frame_trans [of ss ?ss1 ss2] by simp_all
    show ?thesis
    proof (cases c)
      case None
      then show ?thesis using Some c failed s2 by (simp add: open_socket_def Let_def)
    next
      case (Some sock_status)
      obtain sock status where ss: "c = Some (sock, status)" using Some by (cases sock_status) simp
      have "reserved id' ss2" using r s2 by (simp add: reserved_def)
      then show ?thesis
      proof (rule new_fd_ok [of id' ss2 os sock PROTOCOL_TCP opaque True])
        fix ss3 assume n: "new_fd os id' sock PROTOCOL_TCP opaque True ss2 = Some (None, ss3)" "opened id' ss2 (None, ss3)"
          "sk_type (ss_slot ss3 ?k) = SOCKET_TYPE_INVALID"
        have "(ss_slot ss3 ?k)\<lparr>sk_type := SOCKET_TYPE_INVALID\<rparr> = ss_slot ss3 ?k" using n(3) by simp
        moreover have "opened id' ss (None, ss3)" using n(2) s2 same_frame_trans [OF s2(2)] by (auto simp: opened_def)
        ultimately have "opens False id' ss (Some (m, set_type ?k SOCKET_TYPE_INVALID (os_do (Sys_close sock) ss3)))" for m
          by (intro opens_invalid [OF _ n(3)]) simp_all
        then show ?thesis using n ss c \<open>os_connect os (os_time ss) = Some ais\<close> by (simp add: open_socket_def Let_def)
      next
        fix ss3 assume n: "new_fd os id' sock PROTOCOL_TCP opaque True ss2 = Some (Some ?k, ss3)"
          and s: "ss_slot ss3 = (ss_slot ss2)(?k := (ss_slot ss2 ?k)\<lparr>sk_id := id', sk_fd := sock,
            sk_protocol := PROTOCOL_TCP, sk_size := MIN_READ_BUFFER, sk_opaque := opaque, sk_wb_size := 0\<rparr>)"
            "same_frame ss2 ss3"
        have set: "opens False id' ss (Some (m, ss'))" if "ss_slot ss' = ss_slot (set_type ?k t ss3)" "same_frame ss ss'"
          "t = SOCKET_TYPE_CONNECTED \<or> t = SOCKET_TYPE_CONNECTING" for m t ss'
          by (rule opensI [of _ _ _ "(ss_slot ss3 ?k)\<lparr>sk_type := t\<rparr>"]) (use that s s2 empty in auto)
        have frame: "same_frame ss ss3" using same_frame_trans [OF s2(2) s(2)] .
        show ?thesis
          using n ss c \<open>os_connect os (os_time ss) = Some ais\<close> set frame
          by (cases status) (auto simp: open_socket_def Let_def)
      qed
    qed
  qed
qed

section \<open>Events\<close>

lemma forward_message_tcp_ok:
  assumes type: "sk_type (ss_slot ss k) \<noteq> SOCKET_TYPE_RESERVE" and ok: "local_ok (ss_slot ss k)"
  shows "\<exists>y. forward_message_tcp os k ss = Some y \<and> handled k ss y"
proof -
  let ?s = "ss_slot ss k"
  obtain got ss1 where w: "sys_read os (sk_fd ?s) (unat (sk_size ?s)) ss = (got, ss1)" by fastforce
  then have s1: "ss_slot ss1 = ss_slot ss" "same_frame ss ss1" by (auto simp: sys_read_def)
  obtain m ss' where f: "force_close k ss1 = Some (m, ss')" "handled k ss (Some (SOCKET_CLOSE, m), ss')" "handled k ss (Some (SOCKET_ERROR, m), ss')"
    by (rule force_close_handled [of ss1 k ss]) (use type ok s1 in auto)
  have size: "handled k ss (r, set_slot k (?s\<lparr>sk_size := z\<rparr>) ss1)" for r z
    by (rule handledI [of _ _ _ "?s\<lparr>sk_size := z\<rparr>"]) (use ok s1 in \<open>simp_all add: local_ok_def\<close>)
  show ?thesis
  proof (cases got)
    case (Got bs)
    then show ?thesis using w s1 f size handled_same [OF ok s1] by (simp add: forward_message_tcp_def Let_def)
  next
    case (Not_received e)
    then show ?thesis using w s1 f handled_same [OF ok s1] by (simp add: forward_message_tcp_def Let_def handled_do)
  qed
qed

lemma forward_message_udp_ok:
  assumes type: "sk_type (ss_slot ss k) \<noteq> SOCKET_TYPE_RESERVE" and ok: "local_ok (ss_slot ss k)"
  shows "\<exists>y. forward_message_udp os k ss = Some y \<and> handled k ss y"
proof -
  let ?s = "ss_slot ss k"
  obtain got ss1 where w: "sys_recvfrom os (sk_fd ?s) MAX_UDP_PACKAGE ss = (got, ss1)" by fastforce
  then have s1: "ss_slot ss1 = ss_slot ss" "same_frame ss ss1" by (auto simp: sys_recvfrom_def)
  obtain m ss' where f: "force_close k ss1 = Some (m, ss')" "handled k ss (Some (SOCKET_ERROR, m), ss')"
    by (rule force_close_handled [of ss1 k ss]) (use type ok s1 in auto)
  show ?thesis
    using w s1 f handled_same [OF ok s1] by (cases got) (simp_all add: forward_message_udp_def Let_def)
qed

lemma report_connect_ok:
  assumes type: "sk_type (ss_slot ss k) = SOCKET_TYPE_CONNECTING" and ok: "local_ok (ss_slot ss k)"
  shows "\<exists>y. report_connect os k ss = Some y \<and> fst y \<noteq> None \<and> handled k ss y"
proof -
  let ?s = "ss_slot ss k" let ?ss1 = "os_do (Sys_so_error (sk_fd ?s)) ss"
  obtain m ss' where f: "force_close k ?ss1 = Some (m, ss')" "handled k ss (Some (SOCKET_ERROR, m), ss')"
    by (rule force_close_handled [of ?ss1 k ss]) (use type ok in \<open>auto simp: socket_types\<close>)
  have "handled k ss (r, ss')" if "ss_slot ss' = ss_slot (set_type k SOCKET_TYPE_CONNECTED ss)" "same_frame ss ss'" for r ss'
    using that ok type by (auto simp: handled_def local_ok_def quiet_def registered_type_def listening_def socket_types)
  then show ?thesis using f by (auto simp: report_connect_def Let_def)
qed

text \<open>Reserving a slot: it was free, and its identifier is new.\<close>

lemma reserve_scan_ok:
  "reserve_scan n ss = (r, ss1) \<Longrightarrow> same_frame ss ss1 \<and>
     (case r of
        None \<Rightarrow> ss_slot ss1 = ss_slot ss
      | Some id' \<Rightarrow> sk_type (ss_slot ss (HASH_ID id')) = SOCKET_TYPE_INVALID \<and> ss_slot ss1 = (ss_slot ss)(HASH_ID id' :=
          (ss_slot ss (HASH_ID id'))\<lparr>sk_type := SOCKET_TYPE_RESERVE, sk_id := id', sk_fd := -1\<rparr>))"
proof (induction n arbitrary: ss)
  case (Suc n)
  let ?id = "next_id (ss_alloc_id ss)"
  show ?case
  proof (cases "sk_type (ss_slot ss (HASH_ID ?id)) = SOCKET_TYPE_INVALID")
    case True
    then show ?thesis using Suc.prems by (auto simp: Let_def same_frame_def set_slot_def)
  next
    case False
    then have "reserve_scan n (ss\<lparr>ss_alloc_id := ?id\<rparr>) = (r, ss1)" using Suc.prems by (simp add: Let_def)
    from Suc.IH [OF this] show ?thesis by (cases r) (simp_all add: same_frame_def)
  qed
qed simp

lemma reserve_id_reserved:
  assumes "reserve_id ss = (Some id', ss1)" and "\<And>k. local_ok (ss_slot ss k)"
  shows "reserved id' ss1" and "same_frame ss ss1" and "sk_type (ss_slot ss (HASH_ID id')) = SOCKET_TYPE_INVALID"
    and "ss_slot ss1 = (ss_slot ss)(HASH_ID id' := (ss_slot ss (HASH_ID id'))\<lparr>sk_type := SOCKET_TYPE_RESERVE, sk_id := id', sk_fd := -1\<rparr>)"
  using reserve_scan_ok [OF assms(1) [unfolded reserve_id_def]] assms(2) [of "HASH_ID id'"]
  by (auto simp: reserved_def local_ok_def Let_def)

lemma reserve_id_none: "reserve_id ss = (None, ss1) \<Longrightarrow> same_frame ss ss1 \<and> ss_slot ss1 = ss_slot ss"
  using reserve_scan_ok [of MAX_SOCKET ss None ss1] by (simp add: reserve_id_def)

text \<open>Accepting: nothing has changed, or a free slot has the new socket.\<close>

definition accepting :: "socket_server \<Rightarrow> socket_server \<Rightarrow> bool" where
  "accepting ss ss' \<longleftrightarrow> same_frame ss ss' \<and> (ss_slot ss' = ss_slot ss \<or>
     (\<exists>id' s'. sk_type (ss_slot ss (HASH_ID id')) = SOCKET_TYPE_INVALID \<and> ss_slot ss' = (ss_slot ss)(HASH_ID id' := s')
        \<and> sk_type s' = SOCKET_TYPE_PACCEPT \<and> local_ok s'))"

lemma report_accept_ok:
  assumes ok: "\<And>k. local_ok (ss_slot ss k)"
  shows "\<exists>y. report_accept os k ss = Some y \<and> accepting ss (snd y)"
proof (cases "os_accept os (os_time ss)")
  case (Not_accepted e)
  then show ?thesis by (simp add: report_accept_def Let_def accepting_def)
next
  case (Accepted fd addr)
  let ?ss1 = "os_do (Sys_accept (sk_fd (ss_slot ss k))) ss"
  obtain r ss2 where r: "reserve_id ?ss1 = (r, ss2)" by fastforce
  show ?thesis
  proof (cases r)
    case None
    then have "same_frame ?ss1 ss2" "ss_slot ss2 = ss_slot ss" using reserve_id_none r by auto
    then have "same_frame ss ss2" "ss_slot ss2 = ss_slot ss" using same_frame_trans [of ss ?ss1 ss2] by simp_all
    then show ?thesis using Accepted r None by (simp add: report_accept_def Let_def accepting_def)
  next
    case (Some id')
    let ?ss2 = "os_do (Sp_nonblocking fd) (os_do (Keepalive fd) ss2)"
    have r': "reserve_id ?ss1 = (Some id', ss2)" using r Some by simp
    have "local_ok (ss_slot ?ss1 j)" for j using ok by simp
    note res = reserve_id_reserved [OF r' this]
    have "same_frame ss ss2" using same_frame_trans [of ss ?ss1 ss2] res(2) by simp
    moreover have "reserved id' ?ss2" using res(1) by (simp add: reserved_def)
    ultimately show ?thesis
    proof (elim new_fd_ok [of id' ?ss2 os fd PROTOCOL_TCP "sk_opaque (ss_slot ss k)" False])
      fix ss3
      assume n: "new_fd os id' fd PROTOCOL_TCP (sk_opaque (ss_slot ss k)) False ?ss2 = Some (Some (HASH_ID id'), ss3)"
        and s: "ss_slot ss3 = (ss_slot ?ss2)(HASH_ID id' := (ss_slot ?ss2 (HASH_ID id'))\<lparr>sk_id := id', sk_fd := fd,
          sk_protocol := PROTOCOL_TCP, sk_size := MIN_READ_BUFFER, sk_opaque := sk_opaque (ss_slot ss k), sk_wb_size := 0\<rparr>)"
          "sk_high (ss_slot ?ss2 (HASH_ID id')) = []" "sk_low (ss_slot ?ss2 (HASH_ID id')) = []" "same_frame ?ss2 ss3"
          "same_frame ss ss2"
      let ?s = "(ss_slot ss3 (HASH_ID id'))\<lparr>sk_type := SOCKET_TYPE_PACCEPT\<rparr>"
      have "local_ok ?s" "sk_type ?s = SOCKET_TYPE_PACCEPT" using s by (auto simp: local_ok_def)
      moreover have "ss_slot (set_type (HASH_ID id') SOCKET_TYPE_PACCEPT ss3) = (ss_slot ss)(HASH_ID id' := ?s)"
        using s res(4) by simp
      moreover have "same_frame ss (set_type (HASH_ID id') SOCKET_TYPE_PACCEPT ss3)"
        using same_frame_trans [of ss ?ss2 ss3] s by simp
      ultimately have "accepting ss (set_type (HASH_ID id') SOCKET_TYPE_PACCEPT ss3)"
        using res(3) unfolding accepting_def by auto
      then show ?thesis using Accepted r' n by (simp add: report_accept_def Let_def)
    qed simp
  qed
qed

section \<open>The threads\<close>

text \<open>The identifier a command opens, and the one any other command is for.\<close>

fun opening_id :: "request \<Rightarrow> i32 option" where
  "opening_id (Req_bind id' _ _) = Some id'"
| "opening_id (Req_listen id' _ _) = Some id'"
| "opening_id (Req_open id' _ _ _) = Some id'"
| "opening_id (Req_udp id' _ _ _) = Some id'"
| "opening_id _ = None"

fun client_id :: "request \<Rightarrow> i32 option" where
  "client_id (Req_start id' _) = Some id'"
| "client_id (Req_close id' _) = Some id'"
| "client_id (Req_send q) = Some (rq_id q)"
| "client_id (Req_send_low q) = Some (rq_id q)"
| "client_id (Req_send_udp q _) = Some (rq_id q)"
| "client_id (Req_setopt id' _ _) = Some id'"
| "client_id (Req_setudp id' _) = Some id'"
| "client_id _ = None"

fun sending_id :: "request \<Rightarrow> i32 option" where
  "sending_id (Req_send q) = Some (rq_id q)"
| "sending_id (Req_send_low q) = Some (rq_id q)"
| "sending_id (Req_send_udp q _) = Some (rq_id q)"
| "sending_id _ = None"

fun listening_id :: "request \<Rightarrow> i32 option" where
  "listening_id (Req_listen id' _ _) = Some id'"
| "listening_id _ = None"

fun plain_request :: "os \<Rightarrow> request \<Rightarrow> bool" where
  "plain_request os (Req_send_low q) \<longleftrightarrow> plain os q"
| "plain_request os _ \<longleftrightarrow> True"

text \<open>
  What another thread may send: its identifier is one a call has returned, so that the command opening
  it has been sent; it is not the identifier of a listening socket if it sends data; and a user object
  of low priority is its own buffer.
\<close>

definition may_send :: "os \<Rightarrow> socket_server \<Rightarrow> request list \<Rightarrow> request \<Rightarrow> bool" where
  "may_send os ss unsent r \<longleftrightarrow> opening_id r = None \<and> plain_request os r
     \<and> (\<forall>id'. client_id r = Some id' \<longrightarrow> Some id' \<notin> opening_id ` set unsent)
     \<and> (\<forall>id'. sending_id r = Some id' \<longrightarrow> Some id' \<notin> listening_id ` set (unsent @ ss_pipe ss)
          \<and> \<not> (sk_id (ss_slot ss (HASH_ID id')) = id' \<and> listening (sk_type (ss_slot ss (HASH_ID id')))))"

text \<open>The events of one wait are for different sockets, those that were added to the event poll.\<close>

definition events_ok :: "(nat \<Rightarrow> socket) \<Rightarrow> event list \<Rightarrow> bool" where
  "events_ok slot ev \<longleftrightarrow> distinct (List.map_filter ev_s ev) \<and> (\<forall>k\<in>set (List.map_filter ev_s ev). registered_type (sk_type (slot k)))"

definition poll_ok :: "os \<Rightarrow> socket_server \<Rightarrow> bool" where
  "poll_ok os ss \<longleftrightarrow> events_ok (ss_slot ss) (os_sp_wait os (os_time ss))"

text \<open>The commands whose identifier is reserved and that are not in the pipe yet are \<open>unsent\<close>.\<close>

inductive server_step :: "os \<Rightarrow> socket_server \<times> request list \<Rightarrow> socket_server \<times> request list \<Rightarrow> bool" for os where
  reserve: "reserve_id ss = (Some id', ss1) \<Longrightarrow> opening_id r = Some id' \<Longrightarrow> Some id' \<notin> client_id ` set (ss_pipe ss) \<Longrightarrow>
    server_step os (ss, unsent) (ss1, r # unsent)"
| full: "reserve_id ss = (None, ss1) \<Longrightarrow> server_step os (ss, unsent) (ss1, unsent)"
| announce: "r \<in> set unsent \<Longrightarrow> server_step os (ss, unsent) (send_request r ss, remove1 r unsent)"
| client: "may_send os ss unsent r \<Longrightarrow> server_step os (ss, unsent) (send_request r ss, unsent)"
| poll: "poll_round os ss = Some (x, waited, ss1) \<Longrightarrow> poll_ok os ss \<Longrightarrow> server_step os (ss, unsent) (ss1, unsent)"

text \<open>The invariant.\<close>

fun ordered :: "request list \<Rightarrow> request list \<Rightarrow> bool" where
  "ordered unsent [] \<longleftrightarrow> True"
| "ordered unsent (r # pipe) \<longleftrightarrow> (client_id r = None \<or> client_id r \<notin> opening_id ` set (unsent @ pipe)) \<and> ordered unsent pipe"

definition openings :: "request list \<Rightarrow> i32 list" where
  "openings l = List.map_filter opening_id l"

definition opening_ok :: "(nat \<Rightarrow> socket) \<Rightarrow> request list \<Rightarrow> bool" where
  "opening_ok slot l \<longleftrightarrow> distinct (map HASH_ID (openings l))
     \<and> (\<forall>id'\<in>set (openings l). sk_type (slot (HASH_ID id')) = SOCKET_TYPE_RESERVE \<and> sk_id (slot (HASH_ID id')) = id')
     \<and> (\<forall>k. sk_type (slot k) = SOCKET_TYPE_RESERVE \<longrightarrow> sk_id (slot k) \<in> set (openings l) \<and> HASH_ID (sk_id (slot k)) = k)"

definition sends_ok :: "(nat \<Rightarrow> socket) \<Rightarrow> request list \<Rightarrow> request list \<Rightarrow> bool" where
  "sends_ok slot unsent pipe \<longleftrightarrow> (\<forall>r\<in>set pipe. \<forall>id'. sending_id r = Some id' \<longrightarrow> Some id' \<notin> listening_id ` set (unsent @ pipe)
     \<and> \<not> (sk_id (slot (HASH_ID id')) = id' \<and> listening (sk_type (slot (HASH_ID id')))))"

definition core_inv :: "os \<Rightarrow> socket_server \<Rightarrow> request list \<Rightarrow> bool" where
  "core_inv os ss unsent \<longleftrightarrow> (\<forall>k. local_ok (ss_slot ss k)) \<and> (\<forall>r\<in>set (ss_pipe ss). plain_request os r)
     \<and> (\<forall>r\<in>set unsent. opening_id r \<noteq> None)
     \<and> ordered unsent (ss_pipe ss) \<and> opening_ok (ss_slot ss) (unsent @ ss_pipe ss) \<and> sends_ok (ss_slot ss) unsent (ss_pipe ss)"

definition event_inv :: "(nat \<Rightarrow> socket) \<Rightarrow> socket_server \<Rightarrow> bool" where
  "event_inv slot ss \<longleftrightarrow> ss_event_index ss \<le> List.length (ss_ev ss) \<and> events_ok slot (drop (ss_event_index ss) (ss_ev ss))"

definition server_inv :: "os \<Rightarrow> socket_server \<Rightarrow> request list \<Rightarrow> bool" where
  "server_inv os ss unsent \<longleftrightarrow> core_inv os ss unsent \<and> event_inv (ss_slot ss) ss"

lemma quietD:
  assumes "quiet s s'"
  shows "sk_type s' = SOCKET_TYPE_RESERVE \<longleftrightarrow> sk_type s = SOCKET_TYPE_RESERVE" and "sk_id s' = sk_id s"
    and "listening (sk_type s') \<Longrightarrow> listening (sk_type s)"
    and "registered_type (sk_type s) \<Longrightarrow> registered_type (sk_type s') \<or> sk_type s' = SOCKET_TYPE_INVALID"
  using assms by (auto simp: quiet_def registered_type_def listening_def socket_types)

lemma openings_append [simp]: "openings (l1 @ l2) = openings l1 @ openings l2"
  by (simp add: openings_def map_filter_def)

lemma openings_Cons: "openings (r # l) = (case opening_id r of None \<Rightarrow> openings l | Some id' \<Rightarrow> id' # openings l)"
  by (cases "opening_id r") (simp_all add: openings_def map_filter_simps)

lemma set_openings: "id' \<in> set (openings l) \<longleftrightarrow> Some id' \<in> opening_id ` set l"
proof (induction l)
  case (Cons r l)
  then show ?case by (cases "opening_id r") (auto simp: openings_Cons image_iff eq_commute [of "Some id'"])
qed (simp add: openings_def map_filter_simps)

text \<open>A step of one socket that is not an opening.\<close>

definition slot_step :: "socket \<Rightarrow> socket \<Rightarrow> bool" where
  "slot_step s s' \<longleftrightarrow> local_ok s' \<and> (quiet s s' \<or> sk_type s = SOCKET_TYPE_INVALID \<and> sk_type s' = SOCKET_TYPE_PACCEPT)"

lemma opening_ok_step:
  assumes "opening_ok slot l" and "slot_step (slot k) s'"
  shows "opening_ok (slot(k := s')) l"
proof -
  have "sk_type s' = SOCKET_TYPE_RESERVE \<longleftrightarrow> sk_type (slot k) = SOCKET_TYPE_RESERVE"
    "sk_type (slot k) = SOCKET_TYPE_RESERVE \<Longrightarrow> sk_id s' = sk_id (slot k)"
    using assms(2) quietD(1,2) [of "slot k" s'] by (auto simp: slot_step_def socket_types)
  then show ?thesis using assms(1) by (auto simp: opening_ok_def)
qed

lemma sends_ok_step:
  assumes "sends_ok slot unsent pipe" and "slot_step (slot k) s'"
  shows "sends_ok (slot(k := s')) unsent pipe"
proof -
  have "listening (sk_type s') \<Longrightarrow> listening (sk_type (slot k)) \<and> sk_id s' = sk_id (slot k)"
    using assms(2) quietD(2,3) [of "slot k" s'] by (auto simp: slot_step_def listening_def socket_types)
  then show ?thesis using assms(1) by (auto simp: sends_ok_def)
qed

lemma core_step:
  assumes "core_inv os ss unsent" and "ss_pipe ss' = ss_pipe ss" and "ss_slot ss' = (ss_slot ss)(k := s')" and "slot_step (ss_slot ss k) s'"
  shows "core_inv os ss' unsent"
  using assms opening_ok_step [of "ss_slot ss" _ k s'] sends_ok_step [of "ss_slot ss" _ _ k s']
  by (auto simp: core_inv_def slot_step_def)

lemma core_handled: "core_inv os ss unsent \<Longrightarrow> handled k ss (r, ss') \<Longrightarrow> core_inv os ss' unsent"
  by (auto simp: handled_def slot_step_def same_frame_def intro!: core_step [of os ss])

lemma core_accepting:
  assumes "core_inv os ss unsent" and "accepting ss ss'"
  shows "core_inv os ss' unsent"
  using assms(2) unfolding accepting_def
proof (elim conjE disjE exE)
  assume "same_frame ss ss'" "ss_slot ss' = ss_slot ss"
  then show ?thesis using assms(1) by (simp add: core_inv_def same_frame_def)
next
  fix id' s' assume "same_frame ss ss'" "sk_type (ss_slot ss (HASH_ID id')) = SOCKET_TYPE_INVALID"
    "ss_slot ss' = (ss_slot ss)(HASH_ID id' := s')" "sk_type s' = SOCKET_TYPE_PACCEPT" "local_ok s'"
  then show ?thesis using core_step [OF assms(1), of ss' "HASH_ID id'" s'] by (simp add: slot_step_def same_frame_def)
qed

text \<open>The command that is taken from the pipe.\<close>

lemma core_pop:
  assumes "core_inv os ss unsent" and "ss_pipe ss = r # pipe" and "opening_id r = None"
  shows "core_inv os (ss\<lparr>ss_pipe := pipe\<rparr>) unsent"
  using assms by (auto simp: core_inv_def opening_ok_def sends_ok_def openings_Cons)

lemma core_opened:
  assumes inv: "core_inv os ss unsent" and pipe: "ss_pipe ss = r # pipe" and id: "opening_id r = Some id'"
    and opens: "opens (listening_id r \<noteq> None) id' (ss\<lparr>ss_pipe := pipe\<rparr>) (Some (m, ss'))"
  shows "core_inv os ss' unsent"
proof -
  let ?k = "HASH_ID id'"
  obtain s' where s': "ss_slot ss' = (ss_slot ss)(?k := s')" "local_ok s'" "sk_id s' = id'" "sk_type s' \<noteq> SOCKET_TYPE_RESERVE"
    "ss_pipe ss' = pipe" "listening_id r \<noteq> None \<or> \<not> listening (sk_type s')"
    using opens by (auto simp: opens_def opened_def same_frame_def)
  have l: "openings (unsent @ r # pipe) = openings unsent @ id' # openings pipe" using id by (simp add: openings_Cons)
  have op: "opening_ok (ss_slot ss) (unsent @ r # pipe)" using inv pipe by (simp add: core_inv_def)
  have "opening_ok (ss_slot ss') (unsent @ pipe)"
    unfolding opening_ok_def
  proof (intro conjI ballI allI impI)
    show "distinct (map HASH_ID (openings (unsent @ pipe)))" using op l by (auto simp: opening_ok_def)
  next
    fix i assume i: "i \<in> set (openings (unsent @ pipe))"
    then have "HASH_ID i \<noteq> ?k" using op l by (auto simp: opening_ok_def)
    then show "sk_type (ss_slot ss' (HASH_ID i)) = SOCKET_TYPE_RESERVE" "sk_id (ss_slot ss' (HASH_ID i)) = i"
      using op i s' l by (auto simp: opening_ok_def)
  next
    fix j assume j: "sk_type (ss_slot ss' j) = SOCKET_TYPE_RESERVE"
    then have "j \<noteq> ?k" "sk_type (ss_slot ss j) = SOCKET_TYPE_RESERVE" using s' by (auto split: if_splits)
    moreover then have "HASH_ID (sk_id (ss_slot ss j)) = j" using op by (auto simp: opening_ok_def)
    ultimately show "sk_id (ss_slot ss' j) \<in> set (openings (unsent @ pipe))" "HASH_ID (sk_id (ss_slot ss' j)) = j"
      using op l s' by (auto simp: opening_ok_def)
  qed
  moreover have "sends_ok (ss_slot ss') unsent pipe"
  proof -
    have old: "sends_ok (ss_slot ss) unsent (r # pipe)" using inv pipe by (simp add: core_inv_def)
    have "listening_id r = Some id'" if "listening_id r \<noteq> None" using that id by (cases r) auto
    then show ?thesis using old s' by (auto simp: sends_ok_def)
  qed
  ultimately show ?thesis using inv pipe s' by (auto simp: core_inv_def)
qed

section \<open>Commands and events\<close>

definition kept :: "(nat \<Rightarrow> socket) \<Rightarrow> reply \<times> socket_server \<Rightarrow> bool" where
  "kept slot = (\<lambda>(r, ss'). \<forall>j. registered_type (sk_type (slot j)) \<longrightarrow> registered_type (sk_type (ss_slot ss' j))
     \<or> sk_type (ss_slot ss' j) = SOCKET_TYPE_INVALID \<and> closing_reply r (sk_id (ss_slot ss' j)))"

lemma kept_handled: "handled k ss y \<Longrightarrow> kept (ss_slot ss) y"
proof -
  assume "handled k ss y"
  then obtain r ss' s' where y: "y = (r, ss')" "ss_slot ss' = (ss_slot ss)(k := s')" "quiet (ss_slot ss k) s'"
    "registered_type (sk_type (ss_slot ss k)) \<longrightarrow> sk_type s' = SOCKET_TYPE_INVALID \<longrightarrow> closing_reply r (sk_id s')"
    by (auto simp: handled_def)
  then show ?thesis using quietD(4) [OF y(3)] by (auto simp: kept_def)
qed

lemma kept_opened: "opened id' ss y \<Longrightarrow> \<not> registered_type (sk_type (ss_slot ss (HASH_ID id'))) \<Longrightarrow> kept (ss_slot ss) y"
  by (auto simp: opened_def kept_def)

definition command_ok :: "os \<Rightarrow> request list \<Rightarrow> socket_server \<Rightarrow> (reply \<times> socket_server) option \<Rightarrow> bool" where
  "command_ok os unsent ss x \<longleftrightarrow> (\<exists>y. x = Some y \<and> core_inv os (snd y) unsent \<and> same_frame ss (snd y) \<and> kept (ss_slot ss) y)"

lemma command_handled:
  assumes "core_inv os ss unsent" and "\<exists>y. x = Some y \<and> handled k ss y"
  shows "command_ok os unsent ss x"
proof -
  obtain r ss' where "x = Some (r, ss')" "handled k ss (r, ss')" using assms(2) by (metis prod.collapse)
  moreover then have "same_frame ss ss'" by (auto simp: handled_def)
  ultimately show ?thesis using core_handled [OF assms(1)] kept_handled unfolding command_ok_def by auto
qed

lemma command_opened:
  assumes inv: "core_inv os ss unsent" and pipe: "ss_pipe ss = r # pipe" and id: "opening_id r = Some id'"
    and opens: "reserved id' (ss\<lparr>ss_pipe := pipe\<rparr>) \<Longrightarrow> opens (listening_id r \<noteq> None) id' (ss\<lparr>ss_pipe := pipe\<rparr>) x"
  shows "command_ok os unsent (ss\<lparr>ss_pipe := pipe\<rparr>) x"
proof -
  have "id' \<in> set (openings (unsent @ ss_pipe ss))" using pipe id by (simp add: openings_Cons)
  then have s: "sk_type (ss_slot ss (HASH_ID id')) = SOCKET_TYPE_RESERVE" "sk_id (ss_slot ss (HASH_ID id')) = id'"
    "local_ok (ss_slot ss (HASH_ID id'))"
    using inv unfolding core_inv_def opening_ok_def by blast+
  then have o1: "opens (listening_id r \<noteq> None) id' (ss\<lparr>ss_pipe := pipe\<rparr>) x" by (intro opens) (simp add: reserved_def)
  then obtain m ss' where y: "x = Some (m, ss')" "opened id' (ss\<lparr>ss_pipe := pipe\<rparr>) (m, ss')" by (auto simp: opens_def)
  then have "same_frame (ss\<lparr>ss_pipe := pipe\<rparr>) ss'" by (auto simp: opened_def)
  moreover have "core_inv os ss' unsent" using core_opened [OF inv pipe id] o1 y(1) by simp
  moreover have "kept (ss_slot (ss\<lparr>ss_pipe := pipe\<rparr>)) (m, ss')"
    using s(1) by (intro kept_opened [OF y(2)]) (simp add: registered_type_def socket_types)
  ultimately show ?thesis using y(1) by (simp add: command_ok_def)
qed

lemma ctrl_cmd_ok:
  assumes inv: "core_inv os ss unsent" and ns: "not_stuck os" and pipe: "ss_pipe ss = r # pipe"
  shows "command_ok os unsent (ss\<lparr>ss_pipe := pipe\<rparr>) (ctrl_cmd os r (ss\<lparr>ss_pipe := pipe\<rparr>))"
proof (cases "opening_id r")
  case (Some id')
  show ?thesis
    by (rule command_opened [OF inv pipe Some])
      (use Some listen_socket_ok bind_socket_ok open_socket_ok add_udp_socket_ok in
        \<open>cases r; auto simp: ctrl_cmd_def intro: listen_socket_ok bind_socket_ok open_socket_ok add_udp_socket_ok\<close>)
next
  case None
  let ?ss = "ss\<lparr>ss_pipe := pipe\<rparr>"
  have core: "core_inv os ?ss unsent" using core_pop [OF inv pipe None] .
  have local: "local_ok (ss_slot ?ss k)" for k using inv by (simp add: core_inv_def)
  have type: "sk_type (ss_slot ?ss (HASH_ID id')) \<noteq> SOCKET_TYPE_RESERVE"
    if "client_id r = Some id'" "sk_id (ss_slot ?ss (HASH_ID id')) = id'" for id'
  proof
    assume "sk_type (ss_slot ?ss (HASH_ID id')) = SOCKET_TYPE_RESERVE"
    then have "id' \<in> set (openings (unsent @ pipe))"
      using core that(2) by (auto simp: core_inv_def opening_ok_def)
    moreover have "Some id' \<notin> opening_id ` set (unsent @ pipe)" using inv pipe that(1) by (auto simp: core_inv_def)
    ultimately show False using set_openings by blast
  qed
  have send: "\<not> listening (sk_type (ss_slot ?ss (HASH_ID id')))"
    if "sending_id r = Some id'" "sk_id (ss_slot ?ss (HASH_ID id')) = id'" for id'
    using inv pipe that by (auto simp: core_inv_def sends_ok_def)
  have plain: "plain_request os r" using inv pipe by (simp add: core_inv_def)
  note handled = command_handled [OF core]
  show ?thesis
  proof (cases r)
    case (Req_start id' opaque)
    then show ?thesis using handled [OF start_socket_ok [OF local]] by (simp add: ctrl_cmd_def)
  next
    case (Req_close id' opaque)
    then show ?thesis using handled [OF close_socket_ok [OF ns local type]] by (simp add: ctrl_cmd_def)
  next
    case Req_exit
    then show ?thesis using core by (simp add: ctrl_cmd_def command_ok_def kept_def)
  next
    case (Req_send q)
    then show ?thesis using handled [OF send_socket_ok [OF local]] send type by (simp add: ctrl_cmd_def)
  next
    case (Req_send_low q)
    then show ?thesis using handled [OF send_socket_ok [OF local]] send type plain by (simp add: ctrl_cmd_def)
  next
    case (Req_send_udp q a)
    then show ?thesis using handled [OF send_socket_ok [OF local]] send type by (simp add: ctrl_cmd_def)
  next
    case (Req_setopt id' what v)
    then show ?thesis using handled setopt_socket_ok [OF local] by (simp add: ctrl_cmd_def) blast
  next
    case (Req_setudp id' a)
    then show ?thesis using set_udp_address_ok [OF local] by (auto simp: ctrl_cmd_def intro: command_handled [OF core])
  qed (use None in simp_all)
qed

lemma events_ok_simps [simp]:
  "events_ok slot []"
  "events_ok slot (e # ev) \<longleftrightarrow> (case ev_s e of None \<Rightarrow> True | Some k \<Rightarrow> registered_type (sk_type (slot k)) \<and> (\<forall>e'\<in>set ev. ev_s e' \<noteq> Some k))
     \<and> events_ok slot ev"
proof -
  have "Some k \<in> ev_s ` set ev \<longleftrightarrow> k \<in> set (List.map_filter ev_s ev)" for k
    by (induction ev) (auto simp: map_filter_simps split: option.splits)
  then show "events_ok slot (e # ev) \<longleftrightarrow> (case ev_s e of None \<Rightarrow> True | Some k \<Rightarrow>
      registered_type (sk_type (slot k)) \<and> (\<forall>e'\<in>set ev. ev_s e' \<noteq> Some k)) \<and> events_ok slot ev"
    by (cases "ev_s e") (auto simp: events_ok_def map_filter_simps image_iff eq_commute [of "Some _"])
qed (simp add: events_ok_def map_filter_simps)

lemma events_other:
  "events_ok slot ev \<Longrightarrow> (\<And>e k. e \<in> set ev \<Longrightarrow> ev_s e = Some k \<Longrightarrow> registered_type (sk_type (slot k)) \<Longrightarrow> registered_type (sk_type (slot' k))) \<Longrightarrow>
     events_ok slot' ev"
  by (induction ev) (auto split: option.splits)

text \<open>What \<open>clear_closed_event\<close> makes of the events.\<close>

lemma events_clear:
  assumes "events_ok slot ev"
    and "\<And>e k. e \<in> set ev \<Longrightarrow> ev_s e = Some k \<Longrightarrow> registered_type (sk_type (slot k)) \<Longrightarrow>
      registered_type (sk_type (slot' k)) \<or> sk_type (slot' k) = SOCKET_TYPE_INVALID \<and> sk_id (slot' k) = id'"
  shows "events_ok slot' (map (\<lambda>e. case ev_s e of None \<Rightarrow> e
    | Some k \<Rightarrow> if sk_type (slot' k) = SOCKET_TYPE_INVALID \<and> sk_id (slot' k) = id' then e\<lparr>ev_s := None\<rparr> else e) ev)"
  using assms
proof (induction ev)
  case (Cons e ev)
  have "events_ok slot' (map (\<lambda>e. case ev_s e of None \<Rightarrow> e
    | Some k \<Rightarrow> if sk_type (slot' k) = SOCKET_TYPE_INVALID \<and> sk_id (slot' k) = id' then e\<lparr>ev_s := None\<rparr> else e) ev)"
    by (rule Cons.IH) (use Cons.prems in auto)
  then show ?case using Cons.prems(1) Cons.prems(2) [of e] by (auto split: option.splits)
qed simp

lemma cleared_ok:
  assumes "core_inv os ss' unsent" and "event_inv slot ss'" and "kept slot (r, ss')"
  shows "server_inv os (snd (cleared (r, ss'))) unsent"
proof -
  let ?i = "ss_event_index ss'" let ?ev = "drop ?i (ss_ev ss')"
  have ev: "?i \<le> List.length (ss_ev ss')" "events_ok slot ?ev" using assms(2) by (auto simp: event_inv_def)
  show ?thesis
  proof (cases "\<exists>t m. r = Some (t, m) \<and> (t = SOCKET_CLOSE \<or> t = SOCKET_ERROR)")
    case True
    then obtain t m where r: "r = Some (t, m)" "t = SOCKET_CLOSE \<or> t = SOCKET_ERROR" by blast
    define ss2 where "ss2 = clear_closed_event (sm_id m) t ss'"
    have s: "ss_slot ss2 = ss_slot ss'" "ss_pipe ss2 = ss_pipe ss'" "ss_event_index ss2 = ?i"
      "List.length (ss_ev ss2) = List.length (ss_ev ss')"
      "drop ?i (ss_ev ss2) = map (\<lambda>e. case ev_s e of None \<Rightarrow> e
         | Some k \<Rightarrow> if sk_type (ss_slot ss' k) = SOCKET_TYPE_INVALID \<and> sk_id (ss_slot ss' k) = sm_id m then e\<lparr>ev_s := None\<rparr> else e) ?ev"
      using r ev(1) by (auto simp: ss2_def clear_closed_event_def)
    have "events_ok (ss_slot ss') (drop ?i (ss_ev ss2))"
      unfolding s(5) by (rule events_clear [OF ev(2)]) (use assms(3) r in \<open>auto simp: kept_def closing_reply_def\<close>)
    then have "server_inv os ss2 unsent" using s ev assms(1) by (simp add: server_inv_def event_inv_def core_inv_def)
    then show ?thesis using r by (simp add: cleared_def ss2_def)
  next
    case False
    then have "snd (cleared (r, ss')) = ss'"
      by (auto simp: cleared_def clear_closed_event_def split: option.splits)
    moreover have "events_ok (ss_slot ss') ?ev"
      by (rule events_other [OF ev(2)]) (use assms(3) False in \<open>auto simp: kept_def closing_reply_def\<close>)
    ultimately show ?thesis using assms(1) ev(1) by (simp add: server_inv_def event_inv_def)
  qed
qed

text \<open>The event at the index is taken, and the index may be set back when only a part of it was handled.\<close>

lemma core_ev [simp]: "core_inv os (ss\<lparr>ss_event_index := i\<rparr>) unsent = core_inv os ss unsent"
    "core_inv os (ss\<lparr>ss_ev := ev\<rparr>) unsent = core_inv os ss unsent" "core_inv os (ss\<lparr>ss_checkctrl := b\<rparr>) unsent = core_inv os ss unsent"
    "core_inv os (os_do c ss) unsent = core_inv os ss unsent"
  by (simp_all add: core_inv_def os_do_def)

lemma drop_update: "i < List.length ev \<Longrightarrow> drop i (ev[i := e]) = e # drop (Suc i) ev"
  by (simp add: drop_update_swap Cons_nth_drop_Suc [symmetric])

lemma kept_ev [simp]: "kept slot (r, ss\<lparr>ss_event_index := i\<rparr>) = kept slot (r, ss)" "kept slot (r, ss\<lparr>ss_ev := ev\<rparr>) = kept slot (r, ss)"
  by (simp_all add: kept_def)

text \<open>What is left after a handler for the socket of the event.\<close>

definition event_handled :: "os \<Rightarrow> request list \<Rightarrow> socket_server \<Rightarrow> event \<Rightarrow> nat \<Rightarrow> reply \<times> socket_server \<Rightarrow> bool" where
  "event_handled os unsent ss e k y \<longleftrightarrow> core_inv os ss unsent \<and> ss_event_index ss < List.length (ss_ev ss)
     \<and> events_ok (ss_slot ss) (drop (ss_event_index ss) (ss_ev ss)) \<and> e = ss_ev ss ! ss_event_index ss \<and> ev_s e = Some k
     \<and> handled k (ss\<lparr>ss_event_index := Suc (ss_event_index ss)\<rparr>) y"

lemma event_handledD:
  assumes "event_handled os unsent ss e k (r, ss2)"
  shows "core_inv os ss2 unsent" and "kept (ss_slot ss) (r, ss2)"
    and "ss_event_index ss2 = Suc (ss_event_index ss)" and "ss_ev ss2 = ss_ev ss" and "ss_event_index ss < List.length (ss_ev ss)"
    and "events_ok (ss_slot ss) (e # drop (Suc (ss_event_index ss)) (ss_ev ss))" and "ev_s e = Some k"
    and "\<exists>s'. ss_slot ss2 = (ss_slot ss)(k := s')"
proof -
  note a = assms [unfolded event_handled_def]
  have h: "handled k (ss\<lparr>ss_event_index := Suc (ss_event_index ss)\<rparr>) (r, ss2)" using a by blast
  have core: "core_inv os (ss\<lparr>ss_event_index := Suc (ss_event_index ss)\<rparr>) unsent" using a by simp
  show "core_inv os ss2 unsent" by (rule core_handled [OF core h])
  show "kept (ss_slot ss) (r, ss2)" using kept_handled [OF h] by simp
  show "ss_event_index ss2 = Suc (ss_event_index ss)" "ss_ev ss2 = ss_ev ss" "\<exists>s'. ss_slot ss2 = (ss_slot ss)(k := s')"
    using h by (auto simp: handled_def same_frame_def)
  show more: "ss_event_index ss < List.length (ss_ev ss)" using a by blast
  have "drop (ss_event_index ss) (ss_ev ss) = e # drop (Suc (ss_event_index ss)) (ss_ev ss)"
    using a Cons_nth_drop_Suc [OF more] by simp
  then show "events_ok (ss_slot ss) (e # drop (Suc (ss_event_index ss)) (ss_ev ss))" using a by metis
  show "ev_s e = Some k" using a by blast
qed

lemma event_rest:
  assumes "event_handled os unsent ss e k (r, ss2)"
  shows "server_inv os ss2 unsent"
proof -
  note a = event_handledD [OF assms]
  obtain s' where s': "ss_slot ss2 = (ss_slot ss)(k := s')" using a(8) by blast
  have "events_ok (ss_slot ss2) (drop (Suc (ss_event_index ss)) (ss_ev ss))"
    by (rule events_other [of "ss_slot ss"]) (use a(6,7) s' in auto)
  moreover have "Suc (ss_event_index ss) \<le> List.length (ss_ev ss)" using a(5) by (rule Suc_leI)
  ultimately show ?thesis unfolding server_inv_def event_inv_def a(3,4) using a(1) by blast
qed

lemma event_cleared:
  assumes "event_handled os unsent ss e k (r, ss2)"
  shows "server_inv os (snd (cleared (r, ss2))) unsent"
proof -
  note a = event_handledD [OF assms]
  have "event_inv (ss_slot ss) ss2"
    unfolding event_inv_def a(3,4) using a(5,6) Suc_leI by simp
  then show ?thesis by (rule cleared_ok [OF a(1) _ a(2)])
qed

lemma event_reset:
  assumes "event_handled os unsent ss e k (r, ss2)"
  shows "server_inv os (snd (cleared (r, ss2\<lparr>ss_event_index := ss_event_index ss,
    ss_ev := (ss_ev ss2)[ss_event_index ss := e\<lparr>ev_read := False\<rparr>]\<rparr>))) unsent"
proof -
  note a = event_handledD [OF assms]
  let ?ss = "ss2\<lparr>ss_event_index := ss_event_index ss, ss_ev := (ss_ev ss2)[ss_event_index ss := e\<lparr>ev_read := False\<rparr>]\<rparr>"
  have ev: "ss_ev ?ss = (ss_ev ss)[ss_event_index ss := e\<lparr>ev_read := False\<rparr>]" "ss_event_index ?ss = ss_event_index ss"
    by (simp_all add: a(4))
  have "drop (ss_event_index ?ss) (ss_ev ?ss) = e\<lparr>ev_read := False\<rparr> # drop (Suc (ss_event_index ss)) (ss_ev ss)"
    unfolding ev by (rule drop_update [OF a(5)])
  moreover have "events_ok (ss_slot ss) (e\<lparr>ev_read := False\<rparr> # drop (Suc (ss_event_index ss)) (ss_ev ss))"
    using a(6,7) by simp
  moreover have "ss_event_index ?ss \<le> List.length (ss_ev ?ss)" using a(4,5) by simp
  ultimately have "event_inv (ss_slot ss) ?ss" unfolding event_inv_def by metis
  then show ?thesis by (rule cleared_ok [rotated]) (use a(1,2) in simp_all)
qed

lemma event_again:
  assumes "event_handled os unsent ss e k (r, ss2)" and "ss_slot ss2 = ss_slot ss"
  shows "server_inv os (ss2\<lparr>ss_event_index := ss_event_index ss\<rparr>) unsent"
proof -
  note a = event_handledD [OF assms(1)]
  have "events_ok (ss_slot ss) (drop (ss_event_index ss) (ss_ev ss))" using assms(1) unfolding event_handled_def by blast
  moreover have ev: "ss_ev (ss2\<lparr>ss_event_index := ss_event_index ss\<rparr>) = ss_ev ss" by (simp add: a(4))
  moreover have "core_inv os (ss2\<lparr>ss_event_index := ss_event_index ss\<rparr>) unsent" using a(1) by simp
  ultimately show ?thesis using a(5) assms(2) unfolding server_inv_def event_inv_def ev by simp
qed

text \<open>One event, one round of the loop.\<close>

definition round_ok :: "os \<Rightarrow> request list \<Rightarrow> (round \<times> socket_server) option \<Rightarrow> bool" where
  "round_ok os unsent x \<longleftrightarrow> (\<exists>y. x = Some y \<and> server_inv os (snd y) unsent)"

lemma round_ok_Some [simp]: "round_ok os unsent (Some y) \<longleftrightarrow> server_inv os (snd y) unsent"
  by (simp add: round_ok_def)

lemma accepting_other: "accepting ss ss' \<Longrightarrow> registered_type (sk_type (ss_slot ss k)) \<Longrightarrow> ss_slot ss' k = ss_slot ss k"
proof -
  assume a: "accepting ss ss'" and r: "registered_type (sk_type (ss_slot ss k))"
  have "sk_type (ss_slot ss k) \<noteq> SOCKET_TYPE_INVALID" using r by (auto simp: registered_type_def socket_types)
  then show ?thesis using a by (auto simp: accepting_def)
qed

lemma handle_event_ok:
  assumes core: "core_inv os ss unsent" and ns: "not_stuck os" and more: "ss_event_index ss < List.length (ss_ev ss)"
    and ev: "events_ok (ss_slot ss) (drop (ss_event_index ss) (ss_ev ss))"
  shows "round_ok os unsent (handle_event os ss)"
proof -
  let ?i = "ss_event_index ss" let ?e = "ss_ev ss ! ?i" let ?ss1 = "ss\<lparr>ss_event_index := Suc ?i\<rparr>"
  have split: "drop ?i (ss_ev ss) = ?e # drop (Suc ?i) (ss_ev ss)" using Cons_nth_drop_Suc [OF more] by simp
  have rest: "events_ok (ss_slot ss) (drop (Suc ?i) (ss_ev ss))" using ev unfolding split by simp
  show ?thesis
  proof (cases "ev_s ?e")
    case None
    moreover have "server_inv os ?ss1 unsent" using core more rest by (simp add: server_inv_def event_inv_def)
    ultimately show ?thesis by (simp add: handle_event_def Let_def)
  next
    case (Some k)
    let ?s = "ss_slot ?ss1 k"
    have reg: "registered_type (sk_type ?s)" using ev Some unfolding split by simp
    then have type: "sk_type ?s \<noteq> SOCKET_TYPE_RESERVE" "sk_type ?s \<noteq> SOCKET_TYPE_INVALID"
      by (auto simp: registered_type_def socket_types)
    have local: "local_ok (ss_slot ?ss1 j)" for j using core by (simp add: core_inv_def)
    have h: "event_handled os unsent ss ?e k y" if "handled k ?ss1 y" for y
      using core more ev Some that by (simp add: event_handled_def)
    consider (connecting) "sk_type ?s = SOCKET_TYPE_CONNECTING" | (listen) "sk_type ?s = SOCKET_TYPE_LISTEN"
      | (other) "sk_type ?s \<noteq> SOCKET_TYPE_CONNECTING" "sk_type ?s \<noteq> SOCKET_TYPE_LISTEN" by blast
    then show ?thesis
    proof cases
      case connecting
      obtain r ss2 where r: "report_connect os k ?ss1 = Some (r, ss2)" "handled k ?ss1 (r, ss2)"
        using report_connect_ok [OF connecting local, of os] by auto
      then have "server_inv os ss2 unsent" by (intro event_rest [OF h])
      then show ?thesis using Some connecting r by (simp add: handle_event_def Let_def)
    next
      case listen
      obtain r ss2 where r: "report_accept os k ?ss1 = Some (r, ss2)" "accepting ?ss1 ss2"
        using report_accept_ok [OF local, of os k] by auto
      have "core_inv os ss2 unsent" by (rule core_accepting [OF _ r(2)]) (simp add: core)
      moreover have frame: "ss_event_index ss2 = Suc ?i" "ss_ev ss2 = ss_ev ss" using r(2) by (auto simp: accepting_def same_frame_def)
      moreover have "events_ok (ss_slot ss2) (drop (Suc ?i) (ss_ev ss))"
        by (rule events_other [OF rest]) (use accepting_other [OF r(2)] in simp)
      ultimately have "server_inv os ss2 unsent" using Suc_leI [OF more] by (simp add: server_inv_def event_inv_def)
      then show ?thesis using Some listen r by (simp add: handle_event_def Let_def socket_types)
    next
      case other
      have udp: ?thesis if "ev_read ?e" "sk_protocol ?s \<noteq> PROTOCOL_TCP"
      proof -
        obtain r ss2 where r: "forward_message_udp os k ?ss1 = Some (r, ss2)" "handled k ?ss1 (r, ss2)"
          using forward_message_udp_ok [OF type(1) local, of os] by auto
        note fin = event_cleared [OF h [OF r(2)]] event_reset [OF h [OF r(2)]]
        have "server_inv os (ss2\<lparr>ss_event_index := ?i\<rparr>) unsent" if "\<exists>m. r = Some (SOCKET_UDP, m)"
          by (rule event_again [OF h [OF r(2)]])
            (use that r(1) in \<open>auto simp: forward_message_udp_def Let_def sys_recvfrom_def poll_results split: packet.splits if_splits\<close>)
        then show ?thesis using Some other type r fin that
          by (auto simp: handle_event_def Let_def split: option.splits)
      qed
      have tcp: ?thesis if "ev_read ?e" "sk_protocol ?s = PROTOCOL_TCP"
      proof -
        obtain r ss2 where r: "forward_message_tcp os k ?ss1 = Some (r, ss2)" "handled k ?ss1 (r, ss2)"
          using forward_message_tcp_ok [OF type(1) local, of os] by auto
        then show ?thesis using Some other type that event_cleared [OF h [OF r(2)]] event_reset [OF h [OF r(2)]]
          by (simp add: handle_event_def Let_def)
      qed
      have wr: ?thesis if "\<not> ev_read ?e" "ev_write ?e"
      proof -
        obtain r ss2 where r: "send_buffer os k ?ss1 = Some (r, ss2)" "handled k ?ss1 (r, ss2)"
        proof (rule send_buffer_ok [OF ns type local])
          fix ss' assume "send_buffer os k ?ss1 = Some (None, ss')" "handled k ?ss1 (None, ss')"
          then show ?thesis using that by blast
        next
          fix r ss' assume "send_buffer os k ?ss1 = Some (Some r, ss')" "closed k ?ss1 (Some r, ss')"
          then show ?thesis using that closed_handled type(1) by blast
        qed
        then show ?thesis using Some other type that event_cleared [OF h [OF r(2)]]
          by (simp add: handle_event_def Let_def)
      qed
      have "server_inv os ?ss1 unsent" using core rest Suc_leI [OF more] by (simp add: server_inv_def event_inv_def)
      then have ?thesis if "\<not> ev_read ?e" "\<not> ev_write ?e"
        using Some other type that by (simp add: handle_event_def Let_def)
      then show ?thesis using udp tcp wr by blast
    qed
  qed
qed

lemma poll_round_ok:
  assumes inv: "server_inv os ss unsent" and ns: "not_stuck os" and poll: "poll_ok os ss"
  shows "\<exists>x waited ss1. poll_round os ss = Some (x, waited, ss1) \<and> server_inv os ss1 unsent"
proof (cases "if ss_checkctrl ss then ss_pipe ss else []")
  case (Cons r pipe)
  then have pipe: "ss_pipe ss = r # pipe" by (simp split: if_splits)
  obtain m ss' where c: "ctrl_cmd os r (ss\<lparr>ss_pipe := pipe\<rparr>) = Some (m, ss')" "core_inv os ss' unsent"
    "same_frame (ss\<lparr>ss_pipe := pipe\<rparr>) ss'" "kept (ss_slot ss) (m, ss')"
    using ctrl_cmd_ok [OF _ ns pipe, of unsent] inv by (auto simp: command_ok_def server_inv_def)
  have "event_inv (ss_slot ss) ss'" using inv c(3) by (simp add: server_inv_def event_inv_def same_frame_def)
  from cleared_ok [OF c(2) this c(4)] have "server_inv os (snd (cleared (m, ss'))) unsent" .
  then show ?thesis using Cons c(1) by (cases "cleared (m, ss')") (auto simp: poll_round_def)
next
  case Nil
  let ?ss1 = "ss\<lparr>ss_checkctrl := False\<rparr>"
  have core: "core_inv os ss unsent" using inv by (simp add: server_inv_def)
  show ?thesis
  proof (cases "ss_event_index ss = List.length (ss_ev ss)")
    case True
    define ev where "ev = os_sp_wait os (os_time ss)"
    define ss2 where "ss2 = os_do Sp_wait ?ss1\<lparr>ss_ev := ev, ss_checkctrl := True, ss_event_index := 0\<rparr>"
    have s2: "core_inv os ss2 unsent" "ss_event_index ss2 = 0" "ss_ev ss2 = ev" "ss_slot ss2 = ss_slot ss"
      using core by (simp_all add: ss2_def)
    have ok: "events_ok (ss_slot ss2) ev" using poll s2(4) by (simp add: poll_ok_def ev_def)
    have run: "poll_round os ss = (if ev = [] then Some (Return None, True, ss2)
        else map_option (\<lambda>(x, ss3). (x, True, ss3)) (handle_event os ss2))"
      using Nil True by (simp add: poll_round_def Let_def os_time_def ev_def ss2_def)
    show ?thesis
    proof (cases "ev = []")
      case True
      then show ?thesis using run s2 ok by (auto simp: server_inv_def event_inv_def)
    next
      case False
      then have "round_ok os unsent (handle_event os ss2)" using s2 ok by (intro handle_event_ok [OF s2(1) ns]) simp_all
      then show ?thesis using run False by (auto simp: round_ok_def)
    qed
  next
    case False
    then have "round_ok os unsent (handle_event os ?ss1)"
      by (intro handle_event_ok [OF _ ns]) (use inv in \<open>simp_all add: server_inv_def event_inv_def\<close>)
    moreover have "poll_round os ss = map_option (\<lambda>(x, ss3). (x, False, ss3)) (handle_event os ?ss1)"
      using Nil False by (simp add: poll_round_def Let_def)
    ultimately show ?thesis by (auto simp: round_ok_def)
  qed
qed

section \<open>Every reachable state\<close>

lemma ordered_less: "ordered unsent pipe \<Longrightarrow> opening_id ` set unsent' \<subseteq> opening_id ` set unsent \<Longrightarrow> ordered unsent' pipe"
  by (induction pipe) auto

lemma ordered_reserve:
  "ordered unsent pipe \<Longrightarrow> opening_id r \<notin> client_id ` set pipe \<Longrightarrow> ordered (r # unsent) pipe"
  by (induction pipe) (auto simp: image_iff)

lemma ordered_send:
  "ordered unsent pipe \<Longrightarrow> opening_id r = None \<or> opening_id r \<in> opening_id ` set unsent \<Longrightarrow>
     client_id r = None \<or> client_id r \<notin> opening_id ` set unsent \<Longrightarrow> ordered unsent (pipe @ [r])"
proof (induction pipe)
  case (Cons q pipe)
  have "client_id q = None \<or> client_id q \<notin> opening_id ` set (unsent @ pipe @ [r])"
  proof -
    have l: "opening_id ` set (unsent @ pipe @ [r]) = insert (opening_id r) (opening_id ` set (unsent @ pipe))"
      "opening_id ` set unsent \<subseteq> opening_id ` set (unsent @ pipe)" by auto
    have q: "client_id q = None \<or> client_id q \<notin> opening_id ` set (unsent @ pipe)" using Cons.prems(1) by simp
    show ?thesis unfolding l(1) using Cons.prems(2) q l(2) by (metis insertE subsetD)
  qed
  then show ?case using Cons by simp
qed simp

lemma openings_perm: "mset l = mset l' \<Longrightarrow> mset (openings l) = mset (openings l')"
proof -
  have "mset (openings l) = image_mset the (filter_mset (\<lambda>x. x \<noteq> None) (image_mset opening_id (mset l)))" for l
    by (induction l) (simp_all add: openings_Cons openings_def map_filter_simps split: option.split)
  then show "mset l = mset l' \<Longrightarrow> mset (openings l) = mset (openings l')" by metis
qed

lemma opening_ok_perm: "mset l = mset l' \<Longrightarrow> opening_ok slot l = opening_ok slot l'"
proof -
  assume "mset l = mset l'"
  then have m: "mset (openings l) = mset (openings l')" by (rule openings_perm)
  have "mset (map HASH_ID (openings l)) = mset (map HASH_ID (openings l'))" using m by simp
  then have "distinct (map HASH_ID (openings l)) = distinct (map HASH_ID (openings l'))" by (rule mset_eq_imp_distinct_iff)
  then show ?thesis by (simp add: opening_ok_def mset_eq_setD [OF m])
qed

lemma server_step_inv:
  assumes "server_step os (ss, unsent) (ss', unsent')" and "server_inv os ss unsent" and ns: "not_stuck os"
  shows "server_inv os ss' unsent'"
  using assms(1)
proof cases
  case (reserve id' r)
  have core: "core_inv os ss unsent" and ev: "event_inv (ss_slot ss) ss" using assms(2) by (simp_all add: server_inv_def)
  have local: "local_ok (ss_slot ss k)" for k using core by (simp add: core_inv_def)
  note res = reserve_id_reserved [OF reserve(2) local]
  let ?k = "HASH_ID id'" let ?s = "(ss_slot ss ?k)\<lparr>sk_type := SOCKET_TYPE_RESERVE, sk_id := id', sk_fd := -1\<rparr>"
  have pipe: "ss_pipe ss' = ss_pipe ss" using res(2) by (simp add: same_frame_def)
  have "opening_ok (ss_slot ss') (unsent' @ ss_pipe ss')"
  proof -
    have old: "opening_ok (ss_slot ss) (unsent @ ss_pipe ss)" using core by (simp add: core_inv_def)
    define l where "l = openings (unsent @ ss_pipe ss)"
    have ids: "openings (unsent' @ ss_pipe ss') = id' # l"
      using reserve pipe by (simp add: openings_Cons l_def)
    have fresh: "HASH_ID i \<noteq> ?k" if "i \<in> set l" for i
    proof -
      have "sk_type (ss_slot ss (HASH_ID i)) = SOCKET_TYPE_RESERVE" using old that unfolding opening_ok_def l_def by blast
      then show ?thesis using res(3) by (auto simp: socket_types)
    qed
    then have "?k \<notin> HASH_ID ` set l" by (metis imageE)
    then show ?thesis unfolding opening_ok_def ids
      using old [unfolded opening_ok_def, folded l_def] fresh res(4) by simp
  qed
  moreover have "sends_ok (ss_slot ss') unsent' (ss_pipe ss')"
  proof -
    have "sending_id q = Some i \<Longrightarrow> client_id q = Some i" for q i by (cases q) auto
    then have other: "i \<noteq> id'" if "q \<in> set (ss_pipe ss)" "sending_id q = Some i" for q i
      using reserve(4) that by (metis image_eqI)
    have l: "listening_id r = Some i \<Longrightarrow> i = id'" for i using reserve(3) by (cases r) auto
    have old: "sends_ok (ss_slot ss) unsent (ss_pipe ss)" using core by (simp add: core_inv_def)
    have nl: "\<not> listening SOCKET_TYPE_RESERVE" by (simp add: listening_def socket_types)
    show ?thesis unfolding sends_ok_def pipe
    proof (intro ballI allI impI conjI)
      fix q i assume q: "q \<in> set (ss_pipe ss)" "sending_id q = Some i"
      have "Some i \<notin> listening_id ` set (unsent @ ss_pipe ss)" using old q unfolding sends_ok_def by blast
      moreover have "Some i \<noteq> listening_id r" using l [of i] other [OF q] by metis
      ultimately show "Some i \<notin> listening_id ` set (unsent' @ ss_pipe ss)"
        unfolding reserve(1) append_Cons list.set image_insert by blast
      show "\<not> (sk_id (ss_slot ss' (HASH_ID i)) = i \<and> listening (sk_type (ss_slot ss' (HASH_ID i))))"
      proof (cases "HASH_ID i = ?k")
        case True
        then show ?thesis using nl by (simp add: res(4))
      next
        case False
        moreover have "\<not> (sk_id (ss_slot ss (HASH_ID i)) = i \<and> listening (sk_type (ss_slot ss (HASH_ID i))))"
          using old q unfolding sends_ok_def by blast
        ultimately show ?thesis unfolding res(4) by simp
      qed
    qed
  qed
  moreover have "ordered unsent' (ss_pipe ss')"
    using core reserve pipe by (simp add: core_inv_def ordered_reserve)
  moreover have "local_ok (ss_slot ss' k)" for k
    using local [of k] res(1,4) by (simp add: reserved_def Let_def)
  ultimately have "core_inv os ss' unsent'" using core reserve pipe by (simp add: core_inv_def)
  moreover have "event_inv (ss_slot ss') ss'"
  proof -
    have "events_ok (ss_slot ss') (drop (ss_event_index ss) (ss_ev ss))"
      by (rule events_other [of "ss_slot ss"])
        (use ev res(3,4) in \<open>auto simp: event_inv_def registered_type_def socket_types\<close>)
    then show ?thesis using ev res(2) by (simp add: event_inv_def same_frame_def)
  qed
  ultimately show ?thesis by (simp add: server_inv_def)
next
  case full
  then have "same_frame ss ss'" "ss_slot ss' = ss_slot ss" using reserve_id_none by auto
  then show ?thesis using assms(2) full(1) by (simp add: server_inv_def core_inv_def event_inv_def same_frame_def)
next
  case (announce r)
  have core: "core_inv os ss unsent" and ev: "event_inv (ss_slot ss) ss" using assms(2) by (simp_all add: server_inv_def)
  have s: "ss_slot ss' = ss_slot ss" "ss_pipe ss' = ss_pipe ss @ [r]" "ss_ev ss' = ss_ev ss" "ss_event_index ss' = ss_event_index ss"
    using announce(1) by (simp_all add: send_request_def)
  obtain id' where id: "opening_id r = Some id'" using core announce(3) by (auto simp: core_inv_def)
  then have r: "client_id r = None" "sending_id r = None" "plain_request os r" by (cases r; simp)+
  have m: "mset (unsent' @ ss_pipe ss') = mset (unsent @ ss_pipe ss)" using announce(2,3) s by simp
  have "opening_ok (ss_slot ss) (unsent @ ss_pipe ss)" using core by (simp add: core_inv_def)
  then have open_ok: "opening_ok (ss_slot ss') (unsent' @ ss_pipe ss')" unfolding s(1) using opening_ok_perm [OF m] by blast
  have sub: "set unsent' \<subseteq> set unsent" unfolding announce(2) by (rule set_remove1_subset)
  have ord: "ordered unsent' (ss_pipe ss')"
    unfolding s(2)
  proof (rule ordered_less [OF ordered_send])
    show "ordered unsent (ss_pipe ss)" using core by (simp add: core_inv_def)
    show "opening_id r = None \<or> opening_id r \<in> opening_id ` set unsent" using announce(3) by blast
    show "client_id r = None \<or> client_id r \<notin> opening_id ` set unsent" using r(1) by blast
    show "opening_id ` set unsent' \<subseteq> opening_id ` set unsent" using sub by blast
  qed
  have sends: "sends_ok (ss_slot ss') unsent' (ss_pipe ss')"
    unfolding sends_ok_def s(1) mset_eq_setD [OF m]
  proof (intro ballI allI impI)
    fix q i assume q: "q \<in> set (ss_pipe ss')" "sending_id q = Some i"
    then have "q \<in> set (ss_pipe ss)" using r(2) unfolding s(2) by auto
    then show "Some i \<notin> listening_id ` set (unsent @ ss_pipe ss)
        \<and> \<not> (sk_id (ss_slot ss (HASH_ID i)) = i \<and> listening (sk_type (ss_slot ss (HASH_ID i))))"
      using core q(2) unfolding core_inv_def sends_ok_def by blast
  qed
  have "core_inv os ss' unsent'"
    unfolding core_inv_def
  proof (intro conjI)
    show "\<forall>k. local_ok (ss_slot ss' k)" unfolding s(1) using core unfolding core_inv_def by blast
    show "\<forall>q\<in>set (ss_pipe ss'). plain_request os q" unfolding s(2) using core r(3) by (auto simp: core_inv_def)
    show "\<forall>q\<in>set unsent'. opening_id q \<noteq> None" using core sub unfolding core_inv_def by blast
  qed (rule ord open_ok sends)+
  then show ?thesis using ev s by (simp add: server_inv_def event_inv_def)
next
  case (client r)
  have core: "core_inv os ss unsent" and ev: "event_inv (ss_slot ss) ss" using assms(2) by (simp_all add: server_inv_def)
  have s: "ss_slot ss' = ss_slot ss" "ss_pipe ss' = ss_pipe ss @ [r]" "ss_ev ss' = ss_ev ss" "ss_event_index ss' = ss_event_index ss"
    using client(1) by (simp_all add: send_request_def)
  note m = client(3) [unfolded may_send_def]
  have nl: "listening_id r = None" using m by (cases r) auto
  have "openings [r] = []" using m by (simp add: openings_Cons openings_def map_filter_simps)
  then have "opening_ok (ss_slot ss') (unsent' @ ss_pipe ss')" using core s client(2) by (simp add: core_inv_def opening_ok_def)
  moreover have "ordered unsent' (ss_pipe ss')"
    unfolding s client(2) using core m by (intro ordered_send) (auto simp: core_inv_def)
  moreover have "sends_ok (ss_slot ss') unsent' (ss_pipe ss')"
    using core m nl s client(2) by (auto simp: core_inv_def sends_ok_def)
  ultimately have "core_inv os ss' unsent'" using core m s client(2) by (simp add: core_inv_def)
  then show ?thesis using ev s by (simp add: server_inv_def event_inv_def)
next
  case (poll x waited)
  then show ?thesis using poll_round_ok [OF assms(2) ns poll(3)] by simp
qed

lemma server_inv_create: "server_inv os socket_server_create []"
  by (simp add: server_inv_def core_inv_def event_inv_def socket_server_create_def no_socket_def local_ok_def opening_ok_def
      sends_ok_def openings_def map_filter_simps socket_types)

lemma server_inv_reachable:
  assumes "(server_step os)\<^sup>*\<^sup>* (socket_server_create, []) (ss, unsent)" and "not_stuck os"
  shows "server_inv os ss unsent"
  using assms(1)
proof (induction "(ss, unsent)" arbitrary: ss unsent rule: rtranclp_induct)
  case base
  then show ?case using server_inv_create by simp
next
  case (step y ss unsent)
  then show ?case using server_step_inv [OF _ _ assms(2)] by (cases y) blast
qed

lemma release_slots_total: "\<exists>ss'. release_slots k ss = Some ss'"
proof (induction k ss rule: release_slots.induct)
  case (1 k ss)
  show ?case
  proof (cases "MAX_SOCKET \<le> k \<or> sk_type (ss_slot ss k) = SOCKET_TYPE_RESERVE")
    case True
    then show ?thesis using 1 by (subst release_slots.simps) (auto simp del: release_slots.simps)
  next
    case False
    then obtain m ss1 where "force_close k ss = Some (m, ss1)" using force_close_Some [of ss k] by blast
    then show ?thesis using 1 False by (subst release_slots.simps) (auto simp del: release_slots.simps)
  qed
qed



end
