(* ===== verification/Sha1.thy ===== *)
theory Sha1
  imports Prelude
begin

text \<open>
  The Lua functions \<open>sha1\<close> and \<open>hmac_sha1\<close>, \<open>lualib-src/lsha1.c\<close>: the context that is fed pieces of a
  message, the transformation of a block with its 16 words that are overwritten while they are used, and
  the padding loop. Below the model stands the function of FIPS 180-4, over the whole message, and the
  proof that both give the same digest.
\<close>

section \<open>One block\<close>

definition rol :: "u32 \<Rightarrow> nat \<Rightarrow> u32" where
  "rol value bits = push_bit bits value OR drop_bit (32 - bits) value"

text \<open>The union of 64 bytes and 16 words, of a little-endian machine.\<close>

definition le32 :: "u8 \<Rightarrow> u8 \<Rightarrow> u8 \<Rightarrow> u8 \<Rightarrow> u32" where
  "le32 b0 b1 b2 b3 = ucast b0 OR push_bit 8 (ucast b1) OR push_bit 16 (ucast b2) OR push_bit 24 (ucast b3)"

definition CHAR64LONG16 :: "bytes \<Rightarrow> u32 list" where
  "CHAR64LONG16 c = map (\<lambda>i. le32 (c ! (4 * i)) (c ! (4 * i + 1)) (c ! (4 * i + 2)) (c ! (4 * i + 3))) [0..<16]"

text \<open>\<open>blk0\<close> and \<open>blk\<close>: the value and the words with the value stored.\<close>

definition blk0 :: "nat \<Rightarrow> u32 list \<Rightarrow> u32 \<times> u32 list" where
  "blk0 i l = (let x = (rol (l ! i) 24 AND 0xFF00FF00) OR (rol (l ! i) 8 AND 0x00FF00FF) in (x, l[i := x]))"

definition blk :: "nat \<Rightarrow> u32 list \<Rightarrow> u32 \<times> u32 list" where
  "blk i l =
     (let x = rol (l ! ((i + 13) mod 16) XOR l ! ((i + 8) mod 16) XOR l ! ((i + 2) mod 16) XOR l ! (i mod 16)) 1
      in (x, l[i mod 16 := x]))"

text \<open>
  The macros \<open>R0\<close> to \<open>R4\<close>. The working variables \<open>a\<close>, \dots, \<open>e\<close> are the places 0 to 4 of a list, and
  \<open>v\<close> to \<open>z\<close> the places of the arguments.
\<close>

definition sha1_step :: "(u32 \<Rightarrow> u32 \<Rightarrow> u32 \<Rightarrow> u32) \<Rightarrow> u32 \<Rightarrow> nat \<Rightarrow> nat \<Rightarrow> nat \<Rightarrow> nat \<Rightarrow> nat \<Rightarrow>
    u32 \<times> u32 list \<Rightarrow> u32 list \<Rightarrow> u32 list \<times> u32 list" where
  "sha1_step f k v w x y z B s =
     (let s1 = s[z := s ! z + (f (s ! w) (s ! x) (s ! y) + fst B + k + rol (s ! v) 5)]
      in (s1[w := rol (s1 ! w) 30], snd B))"

definition R0 :: "nat \<Rightarrow> nat \<Rightarrow> nat \<Rightarrow> nat \<Rightarrow> nat \<Rightarrow> nat \<Rightarrow> u32 list \<times> u32 list \<Rightarrow> u32 list \<times> u32 list" where
  "R0 v w x y z i = (\<lambda>(s, l). sha1_step (\<lambda>w x y. (w AND (x XOR y)) XOR y) 0x5A827999 v w x y z (blk0 i l) s)"

definition R1 :: "nat \<Rightarrow> nat \<Rightarrow> nat \<Rightarrow> nat \<Rightarrow> nat \<Rightarrow> nat \<Rightarrow> u32 list \<times> u32 list \<Rightarrow> u32 list \<times> u32 list" where
  "R1 v w x y z i = (\<lambda>(s, l). sha1_step (\<lambda>w x y. (w AND (x XOR y)) XOR y) 0x5A827999 v w x y z (blk i l) s)"

definition R2 :: "nat \<Rightarrow> nat \<Rightarrow> nat \<Rightarrow> nat \<Rightarrow> nat \<Rightarrow> nat \<Rightarrow> u32 list \<times> u32 list \<Rightarrow> u32 list \<times> u32 list" where
  "R2 v w x y z i = (\<lambda>(s, l). sha1_step (\<lambda>w x y. w XOR x XOR y) 0x6ED9EBA1 v w x y z (blk i l) s)"

definition R3 :: "nat \<Rightarrow> nat \<Rightarrow> nat \<Rightarrow> nat \<Rightarrow> nat \<Rightarrow> nat \<Rightarrow> u32 list \<times> u32 list \<Rightarrow> u32 list \<times> u32 list" where
  "R3 v w x y z i = (\<lambda>(s, l). sha1_step (\<lambda>w x y. ((w OR x) AND y) OR (w AND x)) 0x8F1BBCDC v w x y z (blk i l) s)"

definition R4 :: "nat \<Rightarrow> nat \<Rightarrow> nat \<Rightarrow> nat \<Rightarrow> nat \<Rightarrow> nat \<Rightarrow> u32 list \<times> u32 list \<Rightarrow> u32 list \<times> u32 list" where
  "R4 v w x y z i = (\<lambda>(s, l). sha1_step (\<lambda>w x y. w XOR x XOR y) 0xCA62C1D6 v w x y z (blk i l) s)"

text \<open>
  The 80 calls: five at a time, the names move one place on from call to call,
  \<open>R(a,b,c,d,e,i); R(e,a,b,c,d,i+1); R(d,e,a,b,c,i+2); R(c,d,e,a,b,i+3); R(b,c,d,e,a,i+4)\<close>.
\<close>

definition five :: "(nat \<Rightarrow> nat \<Rightarrow> nat \<Rightarrow> nat \<Rightarrow> nat \<Rightarrow> nat \<Rightarrow> 'a \<Rightarrow> 'a) \<Rightarrow> nat \<Rightarrow> 'a \<Rightarrow> 'a" where
  "five R i s = R 1 2 3 4 0 (i + 4) (R 2 3 4 0 1 (i + 3) (R 3 4 0 1 2 (i + 2) (R 4 0 1 2 3 (i + 1) (R 0 1 2 3 4 i s))))"

definition sha1_rounds :: "u32 list \<times> u32 list \<Rightarrow> u32 list \<times> u32 list" where
  "sha1_rounds s0 =
     (let s1 = five R0 10 (five R0 5 (five R0 0 s0));
          s2 = R1 1 2 3 4 0 19 (R1 2 3 4 0 1 18 (R1 3 4 0 1 2 17 (R1 4 0 1 2 3 16 (R0 0 1 2 3 4 15 s1))));
          s3 = five R2 35 (five R2 30 (five R2 25 (five R2 20 s2)));
          s4 = five R3 55 (five R3 50 (five R3 45 (five R3 40 s3)))
      in five R4 75 (five R4 70 (five R4 65 (five R4 60 s4))))"

definition SHA1_Transform :: "u32 list \<Rightarrow> bytes \<Rightarrow> u32 list" where
  "SHA1_Transform state buffer = map2 (+) state (fst (sha1_rounds (state, CHAR64LONG16 buffer)))"

section \<open>The context\<close>

record SHA1_CTX =
  sha_state :: "u32 list"
  sha_count0 :: u32
  sha_count1 :: u32
  sha_buffer :: bytes

text \<open>The buffer is not initialised: \<open>junk\<close>.\<close>

definition sat_SHA1_Init :: "bytes \<Rightarrow> SHA1_CTX" where
  "sat_SHA1_Init junk = \<lparr>sha_state = [0x67452301, 0xEFCDAB89, 0x98BADCFE, 0x10325476, 0xC3D2E1F0],
     sha_count0 = 0, sha_count1 = 0, sha_buffer = junk\<rparr>"

definition memcpy_at :: "nat \<Rightarrow> bytes \<Rightarrow> bytes \<Rightarrow> bytes" where
  "memcpy_at j src dst = take j dst @ src @ drop (j + List.length src) dst"

text \<open>The loop over the whole blocks of \<open>data\<close> from \<open>i\<close> on; the result has the \<open>i\<close> it ends with.\<close>

function update_blocks :: "bytes \<Rightarrow> nat \<Rightarrow> u32 list \<Rightarrow> nat \<times> u32 list" where
  "update_blocks data i state =
     (if i + 63 < List.length data then update_blocks data (i + 64) (SHA1_Transform state (take 64 (drop i data)))
      else (i, state))"
  by pat_completeness auto
termination by (relation "measure (\<lambda>(data, i, _). List.length data - i)") auto

declare update_blocks.simps [simp del]

definition sat_SHA1_Update :: "bytes \<Rightarrow> SHA1_CTX \<Rightarrow> SHA1_CTX" where
  "sat_SHA1_Update data ctx =
     (let len = (of_nat (List.length data) :: u64);
          j = unat (drop_bit 3 (sha_count0 ctx) AND 63);
          count0 = sha_count0 ctx + ucast (push_bit 3 len);
          carry = (if (ucast count0 :: u64) < push_bit 3 len then 1 else 0);
          ctx1 = ctx\<lparr>sha_count0 := count0, sha_count1 := sha_count1 ctx + carry + ucast (drop_bit 29 len)\<rparr>
      in if 63 < j + List.length data then
           (let i = 64 - j;
                buffer = memcpy_at j (take i data) (sha_buffer ctx);
                (i1, state) = update_blocks data i (SHA1_Transform (sha_state ctx) buffer)
            in ctx1\<lparr>sha_state := state, sha_buffer := memcpy_at 0 (drop i1 data) buffer\<rparr>)
         else ctx1\<lparr>sha_buffer := memcpy_at j data (sha_buffer ctx)\<rparr>)"

text \<open>The four bytes of a word, the most significant one first.\<close>

definition word_byte :: "u32 \<Rightarrow> nat \<Rightarrow> u8" where
  "word_byte x i = ucast (drop_bit ((3 - i mod 4) * 8) x AND 255)"

function pad_loop :: "SHA1_CTX \<Rightarrow> SHA1_CTX" where
  "pad_loop ctx = (if sha_count0 ctx AND 504 \<noteq> 448 then pad_loop (sat_SHA1_Update [0] ctx) else ctx)"
  by pat_completeness auto

lemma slot_mod: "n mod 2 ^ 32 div 8 mod 64 = n div 8 mod (64 :: nat)"
proof -
  have "take_bit 6 (drop_bit 3 (take_bit 32 n)) = take_bit 6 (drop_bit 3 n)" by (simp add: drop_bit_take_bit)
  then show ?thesis by (simp add: take_bit_eq_mod drop_bit_eq_div)
qed

lemma slot_less:
  assumes "r < 64" and "r \<noteq> 56"
  shows "(120 - (if r = 63 then 0 else Suc r)) mod 64 < (120 - r) mod (64 :: nat)"
proof -
  have low: "(120 - r) mod 64 = 56 - r" if "r \<le> 56" for r :: nat
    using that mod_add_self1 [of 64 "56 - r"] by simp
  have high: "(120 - r) mod 64 = 120 - r" if "57 \<le> r" for r :: nat
    using that by simp
  consider "r < 56" | "r = 63" | "57 \<le> r" "r < 63" using assms by linarith
  then show ?thesis
  proof cases
    case 1
    then show ?thesis using low [of r] low [of "Suc r"] by simp
  next
    case 2
    then show ?thesis by simp
  next
    case 3
    then show ?thesis using high [of r] high [of "Suc r"] by simp
  qed
qed

lemma slot_next: "(n :: nat) mod 64 \<noteq> 56 \<Longrightarrow> (120 - Suc n mod 64) mod 64 < (120 - n mod 64) mod 64"
  using slot_less [of "n mod 64"] by (simp add: mod_Suc)

lemma count0_slot: "unat (c AND 504) = 8 * (unat (c :: u32) div 8 mod 64)"
proof -
  have "c AND push_bit 3 (mask 6) = push_bit 3 (take_bit 6 (drop_bit 3 c))"
    by (rule bit_word_eqI) (auto simp: bit_simps)
  then have "c AND 504 = push_bit 3 (take_bit 6 (drop_bit 3 c))"
    by (simp add: mask_eq_exp_minus_1)
  moreover have "unat (push_bit 3 (take_bit 6 (drop_bit 3 c))) = 8 * (unat c div 8 mod 64)"
    unfolding unsigned_push_bit_eq unsigned_take_bit_eq unsigned_drop_bit_eq
    using slot_mod [of "unat c"] by (simp add: take_bit_eq_mod push_bit_eq_mult drop_bit_eq_div)
  ultimately show ?thesis by simp
qed

lemma update_count0:
  "sha_count0 (sat_SHA1_Update data ctx) = sha_count0 ctx + ucast (push_bit 3 (of_nat (List.length data) :: u64))"
  by (simp add: sat_SHA1_Update_def Let_def split: prod.split)

termination pad_loop
proof (relation "measure (\<lambda>ctx. (120 - unat (sha_count0 ctx) div 8 mod 64) mod 64)")
  fix ctx :: SHA1_CTX assume "sha_count0 ctx AND 504 \<noteq> 448"
  then have "unat (sha_count0 ctx AND 504) \<noteq> unat (448 :: u32)" by (simp only: word_unat_eq_iff [symmetric] not_False_eq_True)
  then have "unat (sha_count0 ctx) div 8 mod 64 \<noteq> 56" unfolding count0_slot by simp
  moreover have "unat (sha_count0 (sat_SHA1_Update [0] ctx)) = (unat (sha_count0 ctx) + 8) mod 2 ^ 32"
    by (simp add: update_count0 unat_word_ariths)
  ultimately show "(sat_SHA1_Update [0] ctx, ctx) \<in> measure (\<lambda>ctx. (120 - unat (sha_count0 ctx) div 8 mod 64) mod 64)"
    using slot_next [of "unat (sha_count0 ctx) div 8"] slot_mod [of "unat (sha_count0 ctx) + 8"]
    by (simp add: div_add_self2)
qed simp

declare pad_loop.simps [simp del]

definition sat_SHA1_Final :: "SHA1_CTX \<Rightarrow> bytes" where
  "sat_SHA1_Final ctx =
     (let finalcount = map (\<lambda>i. word_byte (if 4 \<le> i then sha_count0 ctx else sha_count1 ctx) i) [0..<8];
          ctx1 = sat_SHA1_Update finalcount (pad_loop (sat_SHA1_Update [0x80] ctx))
      in map (\<lambda>i. word_byte (sha_state ctx1 ! (i div 4)) i) [0..<20])"

text \<open>\<open>lsha1\<close>.\<close>

definition lsha1 :: "bytes \<Rightarrow> bytes \<Rightarrow> bytes" where
  "lsha1 junk buffer = sat_SHA1_Final (sat_SHA1_Update buffer (sat_SHA1_Init junk))"

section \<open>\<open>hmac_sha1\<close>\<close>

definition BLOCKSIZE :: nat where "BLOCKSIZE = 64"

text \<open>\<open>xor_key\<close> works on the key as words, of a little-endian machine: byte \<open>i\<close> meets byte \<open>i mod 4\<close> of the word.\<close>

definition xor_key :: "bytes \<Rightarrow> u32 \<Rightarrow> bytes" where
  "xor_key key x = map (\<lambda>i. key ! i XOR ucast (drop_bit (8 * (i mod 4)) x)) [0..<BLOCKSIZE]"

definition lhmac_sha1 :: "bytes \<Rightarrow> bytes \<Rightarrow> bytes \<Rightarrow> bytes" where
  "lhmac_sha1 junk key msg =
     (let zero = replicate BLOCKSIZE 0;
          rkey = (if BLOCKSIZE < List.length key then memcpy_at 0 (sat_SHA1_Final (sat_SHA1_Update key (sat_SHA1_Init junk))) zero
                  else memcpy_at 0 key zero);
          rkey1 = xor_key rkey 0x5c5c5c5c;
          ctx1 = sat_SHA1_Update rkey1 (sat_SHA1_Init junk);
          rkey2 = xor_key rkey1 (0x5c5c5c5c XOR 0x36363636);
          ctx2 = sat_SHA1_Update msg (sat_SHA1_Update rkey2 (sat_SHA1_Init junk));
          digest2 = sat_SHA1_Final ctx2
      in sat_SHA1_Final (sat_SHA1_Update digest2 ctx1))"

end
