(* ===== verification/Sha1Correct.thy ===== *)
theory Sha1Correct
  imports Sha1
begin

text \<open>
  The function of FIPS 180-4 (and the message authentication code of RFC 2104 over it), and the proof
  that \<open>lsha1.c\<close> computes it: the 16 words that are overwritten hold the schedule of 80 words, the
  changing names of the variables are its assignments, and the context that is fed pieces of a message
  stands for the whole message.
\<close>

section \<open>FIPS 180-4\<close>

definition be32 :: "u8 \<Rightarrow> u8 \<Rightarrow> u8 \<Rightarrow> u8 \<Rightarrow> u32" where
  "be32 b0 b1 b2 b3 = push_bit 24 (ucast b0) OR push_bit 16 (ucast b1) OR push_bit 8 (ucast b2) OR ucast b3"

definition fips_words :: "bytes \<Rightarrow> u32 list" where
  "fips_words b = map (\<lambda>i. be32 (b ! (4 * i)) (b ! (4 * i + 1)) (b ! (4 * i + 2)) (b ! (4 * i + 3))) [0..<16]"

fun fips_W :: "u32 list \<Rightarrow> nat \<Rightarrow> u32" where
  "fips_W M t = (if t < 16 then M ! t
     else rol (fips_W M (t - 3) XOR fips_W M (t - 8) XOR fips_W M (t - 14) XOR fips_W M (t - 16)) 1)"

declare fips_W.simps [simp del]

definition Ch :: "u32 \<Rightarrow> u32 \<Rightarrow> u32 \<Rightarrow> u32" where
  "Ch x y z = (x AND y) XOR (NOT x AND z)"

definition Parity :: "u32 \<Rightarrow> u32 \<Rightarrow> u32 \<Rightarrow> u32" where
  "Parity x y z = x XOR y XOR z"

definition Maj :: "u32 \<Rightarrow> u32 \<Rightarrow> u32 \<Rightarrow> u32" where
  "Maj x y z = (x AND y) XOR (x AND z) XOR (y AND z)"

definition fips_f :: "nat \<Rightarrow> u32 \<Rightarrow> u32 \<Rightarrow> u32 \<Rightarrow> u32" where
  "fips_f t = (if t < 20 then Ch else if t < 40 then Parity else if t < 60 then Maj else Parity)"

definition fips_K :: "nat \<Rightarrow> u32" where
  "fips_K t = (if t < 20 then 0x5a827999 else if t < 40 then 0x6ed9eba1 else if t < 60 then 0x8f1bbcdc else 0xca62c1d6)"

type_synonym working = "u32 \<times> u32 \<times> u32 \<times> u32 \<times> u32"

primrec fips_rounds :: "u32 list \<Rightarrow> nat \<Rightarrow> working \<Rightarrow> working" where
  "fips_rounds M 0 s = s"
| "fips_rounds M (Suc t) s =
     (case fips_rounds M t s of
        (a, b, c, d, e) \<Rightarrow> (rol a 5 + fips_f t b c d + e + fips_K t + fips_W M t, a, rol b 30, c, d))"

fun fips_add :: "u32 list \<Rightarrow> working \<Rightarrow> u32 list" where
  "fips_add H (a, b, c, d, e) = [a + H ! 0, b + H ! 1, c + H ! 2, d + H ! 3, e + H ! 4]"

definition fips_compress :: "u32 list \<Rightarrow> bytes \<Rightarrow> u32 list" where
  "fips_compress H block = fips_add H (fips_rounds (fips_words block) 80 (H ! 0, H ! 1, H ! 2, H ! 3, H ! 4))"

definition be_bytes :: "u32 \<Rightarrow> bytes" where
  "be_bytes x = map (word_byte x) [0..<4]"

text \<open>A one, the zeros up to 448 bits modulo 512, and the length in bits as 64 bits.\<close>

definition fips_length :: "nat \<Rightarrow> bytes" where
  "fips_length n = be_bytes (of_nat (8 * n div 2 ^ 32)) @ be_bytes (of_nat (8 * n))"

definition fips_pad :: "bytes \<Rightarrow> bytes" where
  "fips_pad m = m @ 0x80 # replicate ((119 - List.length m mod 64) mod 64) 0 @ fips_length (List.length m)"

fun whole_blocks :: "nat \<Rightarrow> bytes \<Rightarrow> bytes list" where
  "whole_blocks 0 bs = []"
| "whole_blocks (Suc n) bs = take 64 bs # whole_blocks n (drop 64 bs)"

definition fips_initial :: "u32 list" where
  "fips_initial = [0x67452301, 0xefcdab89, 0x98badcfe, 0x10325476, 0xc3d2e1f0]"

text \<open>The hash value after the whole blocks of a message.\<close>

definition fips_hash :: "bytes \<Rightarrow> u32 list" where
  "fips_hash m = foldl fips_compress fips_initial (whole_blocks (List.length m div 64) m)"

definition fips_sha1 :: "bytes \<Rightarrow> bytes" where
  "fips_sha1 m = concat (map be_bytes (fips_hash (fips_pad m)))"

text \<open>RFC 2104.\<close>

definition rfc_key :: "bytes \<Rightarrow> bytes" where
  "rfc_key key = (let k = (if 64 < List.length key then fips_sha1 key else key) in k @ replicate (64 - List.length k) 0)"

definition rfc_hmac :: "bytes \<Rightarrow> bytes \<Rightarrow> bytes" where
  "rfc_hmac key msg =
     fips_sha1 (map (\<lambda>b. b XOR 0x5c) (rfc_key key) @ fips_sha1 (map (\<lambda>b. b XOR 0x36) (rfc_key key) @ msg))"

section \<open>One block\<close>

lemma round_functions:
  "(w AND (x XOR y)) XOR y = Ch w x y" "w XOR x XOR y = Parity w x y" "((w OR x) AND y) OR (w AND x) = Maj w x y"
  unfolding Ch_def Parity_def Maj_def by (rule bit_word_eqI; auto simp: bit_simps)+

lemma bit_le32:
  "bit (le32 a b c d) n \<longleftrightarrow> (if n < 8 then bit a n else if n < 16 then bit b (n - 8) else if n < 24 then bit c (n - 16)
     else n < 32 \<and> bit d (n - 24))"
  using bit_imp_le_length [of a n] bit_imp_le_length [of b "n - 8"] bit_imp_le_length [of c "n - 16"] bit_imp_le_length [of d "n - 24"]
  by (auto simp: le32_def bit_simps)

lemma bit_be32:
  "bit (be32 a b c d) n \<longleftrightarrow> (if n < 8 then bit d n else if n < 16 then bit c (n - 8) else if n < 24 then bit b (n - 16)
     else n < 32 \<and> bit a (n - 24))"
  using bit_imp_le_length [of d n] bit_imp_le_length [of c "n - 8"] bit_imp_le_length [of b "n - 16"] bit_imp_le_length [of a "n - 24"]
  by (auto simp: be32_def bit_simps)

lemma bit_rol: "0 < k \<Longrightarrow> k < 32 \<Longrightarrow> n < 32 \<Longrightarrow> bit (rol x k) n \<longleftrightarrow> bit x (if k \<le> n then n - k else n + (32 - k))"
  using bit_imp_le_length [of x "32 - k + n"] by (auto simp: rol_def bit_simps add.commute)

lemma endian: "(rol (le32 a b c d) 24 AND 0xFF00FF00) OR (rol (le32 a b c d) 8 AND 0x00FF00FF) = be32 a b c d"
proof -
  have m: "(0xFF00FF00 :: u32) = push_bit 24 (mask 8) OR push_bit 8 (mask 8)" "(0x00FF00FF :: u32) = push_bit 16 (mask 8) OR mask 8"
    by (simp_all add: mask_eq_exp_minus_1)
  show ?thesis unfolding m
  proof (rule bit_word_eqI)
    fix n assume "n < LENGTH(32)"
    then have n: "n < 32" by simp
    have "n = 8 * (n div 8) + n mod 8" "n mod 8 < 8" "n div 8 < 4" using n by simp_all
    then obtain q k where k: "n = 8 * q + k" "k < 8" "q < 4" by blast
    then have "q = 0 \<or> q = 1 \<or> q = 2 \<or> q = 3" by linarith
    then show "bit ((rol (le32 a b c d) 24 AND (push_bit 24 (mask 8) OR push_bit 8 (mask 8))) OR
        (rol (le32 a b c d) 8 AND (push_bit 16 (mask 8) OR mask 8))) n = bit (be32 a b c d) n"
      by (elim disjE) (use k in \<open>simp_all add: bit_or_iff bit_and_iff bit_push_bit_iff bit_mask_iff bit_rol bit_le32 bit_be32\<close>)
  qed
qed

text \<open>
  Before round \<open>t\<close> the five places hold the working variables, one place on for each round, and the 16
  words the last 16 words of the schedule, or those of the block that were not used yet.
\<close>

fun places :: "working \<Rightarrow> u32 list" where
  "places (a, b, c, d, e) = [a, b, c, d, e]"

definition place :: "nat \<Rightarrow> nat \<Rightarrow> nat" where
  "place t j = (j + 4 * t) mod 5"

definition round_at :: "bytes \<Rightarrow> working \<Rightarrow> nat \<Rightarrow> u32 list \<times> u32 list \<Rightarrow> bool" where
  "round_at b init t = (\<lambda>(s, l). s = rotate t (places (fips_rounds (fips_words b) t init)) \<and> List.length l = 16
     \<and> (\<forall>u<t. t \<le> u + 16 \<longrightarrow> l ! (u mod 16) = fips_W (fips_words b) u)
     \<and> (\<forall>j<16. t \<le> j \<longrightarrow> l ! j = CHAR64LONG16 b ! j))"

lemma rotate_small:
  "rotate 2 [x0, x1, x2, x3, x4] = [x2, x3, x4, x0, x1]" "rotate 3 [x0, x1, x2, x3, x4] = [x3, x4, x0, x1, x2]"
  "rotate 4 [x0, x1, x2, x3, x4] = [x4, x0, x1, x2, x3]" "rotate (Suc 0) [x0, x1, x2, x3, x4] = [x1, x2, x3, x4, x0]"
  by (simp_all add: eval_nat_numeral)

lemma rotate5:
  "rotate t [x0, x1, x2, x3, x4 :: 'a] =
     (if t mod 5 = 0 then [x0, x1, x2, x3, x4] else if t mod 5 = 1 then [x1, x2, x3, x4, x0]
      else if t mod 5 = 2 then [x2, x3, x4, x0, x1] else if t mod 5 = 3 then [x3, x4, x0, x1, x2] else [x4, x0, x1, x2, x3])"
proof -
  have "rotate t [x0, x1, x2, x3, x4] = rotate (t mod 5) [x0, x1, x2, x3, x4]"
    using rotate_conv_mod [of t "[x0, x1, x2, x3, x4]"] by simp
  moreover have "t mod 5 < 5" by simp
  then have "t mod 5 = 0 \<or> t mod 5 = 1 \<or> t mod 5 = 2 \<or> t mod 5 = 3 \<or> t mod 5 = 4" by linarith
  ultimately show ?thesis by (elim disjE) (simp_all add: rotate_small)
qed

lemma sha1_step_rotate:
  "sha1_step f k (place t 0) (place t 1) (place t 2) (place t 3) (place t 4) B (rotate t [a, b, c, d, e]) =
     (rotate (Suc t) [e + (f b c d + fst B + k + rol a 5), a, rol b 30, c, d], snd B)"
proof -
  have "t mod 5 < 5" by simp
  then have "t mod 5 = 0 \<or> t mod 5 = 1 \<or> t mod 5 = 2 \<or> t mod 5 = 3 \<or> t mod 5 = 4" by linarith
  moreover have "place t j = (j + 4 * (t mod 5)) mod 5" for j unfolding place_def by (metis mod_add_right_eq mod_mult_right_eq)
  moreover have "Suc t mod 5 = (if t mod 5 = 4 then 0 else Suc (t mod 5))" by (simp add: mod_Suc)
  ultimately show ?thesis by (elim disjE) (simp_all add: sha1_step_def rotate5 Let_def)
qed

text \<open>The words.\<close>

lemma fips_words_nth: "j < 16 \<Longrightarrow> fips_words b ! j = be32 (b ! (4 * j)) (b ! (4 * j + 1)) (b ! (4 * j + 2)) (b ! (4 * j + 3))"
  by (simp add: fips_words_def)

lemma blk0_at:
  assumes "round_at b init t (s, l)" and "t < 16"
  shows "blk0 t l = (fips_W (fips_words b) t, l[t := fips_W (fips_words b) t])"
proof -
  have "l ! t = CHAR64LONG16 b ! t" using assms by (simp add: round_at_def)
  then have "l ! t = le32 (b ! (4 * t)) (b ! (4 * t + 1)) (b ! (4 * t + 2)) (b ! (4 * t + 3))"
    using assms(2) by (simp add: CHAR64LONG16_def)
  then show ?thesis
    using assms(2) by (simp add: blk0_def Let_def endian fips_W.simps fips_words_nth)
qed

lemma blk_at:
  assumes at: "round_at b init t (s, l)" and t: "16 \<le> t"
  shows "blk t l = (fips_W (fips_words b) t, l[t mod 16 := fips_W (fips_words b) t])"
proof -
  let ?W = "fips_W (fips_words b)"
  have w: "l ! ((t + d) mod 16) = ?W (t - (16 - d))" if "d < 16" for d
  proof -
    have "(t - (16 - d)) mod 16 = (t - (16 - d) + 16) mod 16" by simp
    also have "t - (16 - d) + 16 = t + d" using t that by simp
    finally have "(t + d) mod 16 = (t - (16 - d)) mod 16" by simp
    moreover have "t - (16 - d) < t" "t \<le> t - (16 - d) + 16" using t that by simp_all
    ultimately show ?thesis using at by (simp add: round_at_def)
  qed
  have "?W t = rol (?W (t - 3) XOR ?W (t - 8) XOR ?W (t - 14) XOR ?W (t - 16)) 1"
    using t by (subst fips_W.simps) simp
  then show ?thesis using w [of 13] w [of 8] w [of 2] w [of 0] by (simp add: blk_def Let_def)
qed

lemma round_at_step:
  assumes at: "round_at b init t (s, l)" and B: "B = (fips_W (fips_words b) t, l[t mod 16 := fips_W (fips_words b) t])"
    and f: "f = fips_f t" and k: "k = fips_K t"
  shows "round_at b init (Suc t) (sha1_step f k (place t 0) (place t 1) (place t 2) (place t 3) (place t 4) B s)"
proof -
  let ?W = "fips_W (fips_words b)"
  obtain x0 x1 x2 x3 x4 where r: "fips_rounds (fips_words b) t init = (x0, x1, x2, x3, x4)"
    by (cases "fips_rounds (fips_words b) t init") auto
  have s: "s = rotate t [x0, x1, x2, x3, x4]" using at r by (simp add: round_at_def)
  have step: "sha1_step f k (place t 0) (place t 1) (place t 2) (place t 3) (place t 4) B s =
      (rotate (Suc t) (places (fips_rounds (fips_words b) (Suc t) init)), snd B)"
    unfolding s sha1_step_rotate using r f k B by (simp add: ac_simps)
  have l: "List.length l = 16" using at by (simp add: round_at_def)
  have words: "l[t mod 16 := ?W t] ! (u mod 16) = ?W u" if "u < Suc t" "Suc t \<le> u + 16" for u
  proof (cases "u = t")
    case False
    then have "u < t" "t \<le> u + 16" using that by simp_all
    moreover have "u mod 16 \<noteq> t mod 16"
    proof
      assume "u mod 16 = t mod 16"
      then have "16 dvd t - u" using \<open>u < t\<close> by (metis mod_eq_dvd_iff_nat less_imp_le)
      then show False using False that by (auto dest!: dvd_imp_le)
    qed
    ultimately show ?thesis using at by (simp add: round_at_def)
  qed (use l in simp)
  have "l[t mod 16 := ?W t] ! j = CHAR64LONG16 b ! j" if "j < 16" "Suc t \<le> j" for j
    using at that by (simp add: round_at_def)
  then show ?thesis unfolding step using words l B by (simp add: round_at_def)
qed

text \<open>Each macro is one round of the standard, when it is called with the names of that round.\<close>

definition is_round :: "(nat \<Rightarrow> nat \<Rightarrow> nat \<Rightarrow> nat \<Rightarrow> nat \<Rightarrow> nat \<Rightarrow> u32 list \<times> u32 list \<Rightarrow> u32 list \<times> u32 list) \<Rightarrow> nat \<Rightarrow> bool" where
  "is_round R t \<longleftrightarrow> (\<forall>b init p. round_at b init t p \<longrightarrow>
     round_at b init (Suc t) (R (place t 0) (place t 1) (place t 2) (place t 3) (place t 4) t p))"

lemma R0_round: "t < 16 \<Longrightarrow> is_round R0 t"
  unfolding is_round_def
proof (intro allI impI)
  fix b init and p :: "u32 list \<times> u32 list"
  assume t: "t < 16" and at: "round_at b init t p"
  obtain s l where p: "p = (s, l)" by (cases p) simp
  have "(\<lambda>w x y. (w AND (x XOR y)) XOR y) = Ch" by (simp add: fun_eq_iff round_functions)
  then have "R0 v w x y z t p = sha1_step (fips_f t) (fips_K t) v w x y z (blk0 t l) s" for v w x y z
    using t by (simp add: R0_def p fips_f_def fips_K_def)
  moreover have "blk0 t l = (fips_W (fips_words b) t, l[t mod 16 := fips_W (fips_words b) t])"
    using blk0_at [OF _ t] at t p by simp
  ultimately show "round_at b init (Suc t) (R0 (place t 0) (place t 1) (place t 2) (place t 3) (place t 4) t p)"
    using round_at_step [OF _ _ refl refl] at p by metis
qed

lemma later_round:
  assumes "16 \<le> t" and "\<And>v w x y z i s l. R v w x y z i (s, l) = sha1_step (fips_f t) (fips_K t) v w x y z (blk i l) s"
  shows "is_round R t"
  unfolding is_round_def
proof (intro allI impI)
  fix b init and p :: "u32 list \<times> u32 list"
  assume at: "round_at b init t p"
  obtain s l where p: "p = (s, l)" by (cases p) simp
  show "round_at b init (Suc t) (R (place t 0) (place t 1) (place t 2) (place t 3) (place t 4) t p)"
    using round_at_step [OF _ blk_at refl refl] at p assms by metis
qed

lemma later_rounds:
  "16 \<le> t \<Longrightarrow> t < 20 \<Longrightarrow> is_round R1 t" "20 \<le> t \<Longrightarrow> t < 40 \<Longrightarrow> is_round R2 t"
  "40 \<le> t \<Longrightarrow> t < 60 \<Longrightarrow> is_round R3 t" "60 \<le> t \<Longrightarrow> is_round R4 t"
proof -
  have "(\<lambda>w x y. (w AND (x XOR y)) XOR y) = Ch" "(\<lambda>w x y. w XOR x XOR y) = Parity" "(\<lambda>w x y. ((w OR x) AND y) OR (w AND x)) = Maj"
    by (simp_all add: fun_eq_iff round_functions)
  note f = this
  show "16 \<le> t \<Longrightarrow> t < 20 \<Longrightarrow> is_round R1 t" by (rule later_round) (simp_all add: R1_def fips_f_def fips_K_def f)
  show "20 \<le> t \<Longrightarrow> t < 40 \<Longrightarrow> is_round R2 t" by (rule later_round) (simp_all add: R2_def fips_f_def fips_K_def f)
  show "40 \<le> t \<Longrightarrow> t < 60 \<Longrightarrow> is_round R3 t" by (rule later_round) (simp_all add: R3_def fips_f_def fips_K_def f)
  show "60 \<le> t \<Longrightarrow> is_round R4 t" by (rule later_round) (simp_all add: R4_def fips_f_def fips_K_def f)
qed

lemma is_roundD:
  "is_round R t \<Longrightarrow> round_at b init t p \<Longrightarrow> t' = Suc t \<Longrightarrow> v = place t 0 \<Longrightarrow> w = place t 1 \<Longrightarrow> x = place t 2 \<Longrightarrow> y = place t 3 \<Longrightarrow> z = place t 4 \<Longrightarrow>
     round_at b init t' (R v w x y z t p)"
  unfolding is_round_def by blast

lemma five_at:
  assumes R: "\<And>c. c < 5 \<Longrightarrow> is_round R (i + c)" and i: "5 dvd i" and at: "round_at b init i p"
  shows "round_at b init (i + 5) (five R i p)"
proof -
  obtain q where q: "i = 5 * q" using i by blast
  have "place (i + c) j = (j + 4 * c) mod 5" for c j
  proof -
    have "j + 4 * (i + c) = (j + 4 * c) + 5 * (4 * q)" by (simp add: q)
    then show ?thesis unfolding place_def by (metis mod_mult_self2)
  qed
  note pl = this [of 0, simplified] this [of 1, simplified] this [of 2, simplified] this [of 3, simplified] this [of 4, simplified]
  have Ri: "is_round R (i + 1)" "is_round R (i + 2)" "is_round R (i + 3)" "is_round R (i + 4)" by (rule R, simp)+
  have "round_at b init (i + 1) (R 0 1 2 3 4 i p)" by (rule is_roundD [OF R [of 0, simplified] at]) (simp_all add: pl)
  then have "round_at b init (i + 2) (R 4 0 1 2 3 (i + 1) (R 0 1 2 3 4 i p))" by (rule is_roundD [OF Ri(1)]) (simp_all add: pl)
  then have "round_at b init (i + 3) (R 3 4 0 1 2 (i + 2) (R 4 0 1 2 3 (i + 1) (R 0 1 2 3 4 i p)))"
    by (rule is_roundD [OF Ri(2)]) (simp_all add: pl)
  then have "round_at b init (i + 4) (R 2 3 4 0 1 (i + 3) (R 3 4 0 1 2 (i + 2) (R 4 0 1 2 3 (i + 1) (R 0 1 2 3 4 i p))))"
    by (rule is_roundD [OF Ri(3)]) (simp_all add: pl)
  then show ?thesis unfolding five_def by (rule is_roundD [OF Ri(4)]) (simp_all add: pl)
qed

lemma sha1_rounds_at:
  assumes "round_at b init 0 p"
  shows "round_at b init 80 (sha1_rounds p)"
proof -
  define s1 where "s1 = five R0 10 (five R0 5 (five R0 0 p))"
  define s2 where "s2 = R1 1 2 3 4 0 19 (R1 2 3 4 0 1 18 (R1 3 4 0 1 2 17 (R1 4 0 1 2 3 16 (R0 0 1 2 3 4 15 s1))))"
  define s3 where "s3 = five R2 35 (five R2 30 (five R2 25 (five R2 20 s2)))"
  define s4 where "s4 = five R3 55 (five R3 50 (five R3 45 (five R3 40 s3)))"
  have r0: "c < 5 \<Longrightarrow> i \<le> 10 \<Longrightarrow> is_round R0 (i + c)" for i c by (rule R0_round) simp
  have r2: "c < 5 \<Longrightarrow> 20 \<le> i \<Longrightarrow> i \<le> 35 \<Longrightarrow> is_round R2 (i + c)" for i c by (rule later_rounds(2)) simp_all
  have r3: "c < 5 \<Longrightarrow> 40 \<le> i \<Longrightarrow> i \<le> 55 \<Longrightarrow> is_round R3 (i + c)" for i c by (rule later_rounds(3)) simp_all
  have r4: "c < 5 \<Longrightarrow> 60 \<le> i \<Longrightarrow> is_round R4 (i + c)" for i c by (rule later_rounds(4)) simp_all
  have "round_at b init 5 (five R0 0 p)" using five_at [OF r0 _ assms] by simp
  from five_at [OF r0 _ this] have "round_at b init 10 (five R0 5 (five R0 0 p))" by simp
  from five_at [OF r0 _ this] have a1: "round_at b init 15 s1" by (simp add: s1_def)
  have p: "place 15 j = j mod 5" "place 16 j = (j + 4) mod 5" "place 17 j = (j + 3) mod 5" "place 18 j = (j + 2) mod 5"
    "place 19 j = (j + 1) mod 5" for j
    by (simp_all add: place_def) presburger+
  have r1: "is_round R1 16" "is_round R1 17" "is_round R1 18" "is_round R1 19" by (rule later_rounds(1); simp)+
  have "round_at b init 16 (R0 0 1 2 3 4 15 s1)" by (rule is_roundD [OF R0_round a1]) (simp_all add: p)
  then have "round_at b init 17 (R1 4 0 1 2 3 16 (R0 0 1 2 3 4 15 s1))" by (rule is_roundD [OF r1(1)]) (simp_all add: p)
  then have "round_at b init 18 (R1 3 4 0 1 2 17 (R1 4 0 1 2 3 16 (R0 0 1 2 3 4 15 s1)))"
    by (rule is_roundD [OF r1(2)]) (simp_all add: p)
  then have "round_at b init 19 (R1 2 3 4 0 1 18 (R1 3 4 0 1 2 17 (R1 4 0 1 2 3 16 (R0 0 1 2 3 4 15 s1))))"
    by (rule is_roundD [OF r1(3)]) (simp_all add: p)
  then have a2: "round_at b init 20 s2" unfolding s2_def by (rule is_roundD [OF r1(4)]) (simp_all add: p)
  from five_at [OF r2 _ a2] have "round_at b init 25 (five R2 20 s2)" by simp
  from five_at [OF r2 _ this] have "round_at b init 30 (five R2 25 (five R2 20 s2))" by simp
  from five_at [OF r2 _ this] have "round_at b init 35 (five R2 30 (five R2 25 (five R2 20 s2)))" by simp
  from five_at [OF r2 _ this] have a3: "round_at b init 40 s3" by (simp add: s3_def)
  from five_at [OF r3 _ a3] have "round_at b init 45 (five R3 40 s3)" by simp
  from five_at [OF r3 _ this] have "round_at b init 50 (five R3 45 (five R3 40 s3))" by simp
  from five_at [OF r3 _ this] have "round_at b init 55 (five R3 50 (five R3 45 (five R3 40 s3)))" by simp
  from five_at [OF r3 _ this] have a4: "round_at b init 60 s4" by (simp add: s4_def)
  from five_at [OF r4 _ a4] have "round_at b init 65 (five R4 60 s4)" by simp
  from five_at [OF r4 _ this] have "round_at b init 70 (five R4 65 (five R4 60 s4))" by simp
  from five_at [OF r4 _ this] have "round_at b init 75 (five R4 70 (five R4 65 (five R4 60 s4)))" by simp
  from five_at [OF r4 _ this] show ?thesis
    by (simp add: sha1_rounds_def Let_def s1_def s2_def s3_def s4_def)
qed

lemma SHA1_Transform_compress:
  assumes "List.length state = 5"
  shows "SHA1_Transform state b = fips_compress state b"
proof -
  obtain h0 h1 h2 h3 h4 where h: "state = [h0, h1, h2, h3, h4]"
    using assms by (auto simp: eval_nat_numeral length_Suc_conv)
  have "round_at b (h0, h1, h2, h3, h4) 0 (state, CHAR64LONG16 b)"
    by (simp add: round_at_def h CHAR64LONG16_def)
  then have "round_at b (h0, h1, h2, h3, h4) 80 (sha1_rounds (state, CHAR64LONG16 b))" by (rule sha1_rounds_at)
  then have "fst (sha1_rounds (state, CHAR64LONG16 b)) = places (fips_rounds (fips_words b) 80 (h0, h1, h2, h3, h4))"
    using rotate5 [of 80] by (cases "fips_rounds (fips_words b) 80 (h0, h1, h2, h3, h4)") (auto simp: round_at_def)
  then show ?thesis
    by (cases "fips_rounds (fips_words b) 80 (h0, h1, h2, h3, h4)")
      (simp add: SHA1_Transform_def fips_compress_def h ac_simps eval_nat_numeral del: fips_rounds.simps)
qed

section \<open>The context stands for the bytes it was given\<close>

definition absorbed :: "bytes \<Rightarrow> SHA1_CTX \<Rightarrow> bool" where
  "absorbed m ctx \<longleftrightarrow> sha_state ctx = fips_hash m \<and> List.length (sha_buffer ctx) = 64
     \<and> take (List.length m mod 64) (sha_buffer ctx) = drop (64 * (List.length m div 64)) m
     \<and> unat (sha_count0 ctx) = 8 * List.length m mod 2 ^ 32
     \<and> unat (sha_count1 ctx) = 8 * List.length m div 2 ^ 32 mod 2 ^ 32"

lemma length_fips_add [simp]: "List.length (fips_add H s) = 5"
  by (cases "(H, s)" rule: fips_add.cases) simp

lemma length_compress: "List.length H = 5 \<Longrightarrow> List.length (foldl fips_compress H bs) = 5"
  by (induction bs arbitrary: H) (simp_all add: fips_compress_def)

lemma length_hash [simp]: "List.length (fips_hash m) = 5"
  by (simp add: fips_hash_def length_compress fips_initial_def)

lemma whole_blocks_Suc:
  "whole_blocks (Suc n) bs = whole_blocks n bs @ [take 64 (drop (64 * n) bs)]"
proof (induction n arbitrary: bs)
  case (Suc n)
  have "whole_blocks (Suc (Suc n)) bs = take 64 bs # whole_blocks (Suc n) (drop 64 bs)" by (rule whole_blocks.simps(2))
  also have "\<dots> = take 64 bs # whole_blocks n (drop 64 bs) @ [take 64 (drop (64 * n) (drop 64 bs))]" by (simp only: Suc.IH)
  finally show ?case by (simp add: add.commute)
qed simp

lemma whole_blocks_append: "64 * n \<le> List.length bs \<Longrightarrow> whole_blocks n (bs @ cs) = whole_blocks n bs"
  by (induction n arbitrary: bs) simp_all

lemma absorbed_Init: "List.length junk = 64 \<Longrightarrow> absorbed [] (sat_SHA1_Init junk)"
  by (simp add: absorbed_def sat_SHA1_Init_def fips_hash_def fips_initial_def)

definition hash_upto :: "nat \<Rightarrow> bytes \<Rightarrow> u32 list" where
  "hash_upto n bs = foldl fips_compress fips_initial (whole_blocks n bs)"

lemma hash_upto_Suc: "hash_upto (Suc n) bs = SHA1_Transform (hash_upto n bs) (take 64 (drop (64 * n) bs))"
  by (simp add: hash_upto_def whole_blocks_Suc SHA1_Transform_compress length_compress fips_initial_def del: whole_blocks.simps)

lemma fips_hash_upto: "fips_hash m = hash_upto (List.length m div 64) m"
  by (simp add: fips_hash_def hash_upto_def)

lemma update_blocks_hash:
  assumes "64 * n = List.length m + i" and "i \<le> List.length d"
  shows "update_blocks d i (hash_upto n (m @ d)) = (64 * (List.length (m @ d) div 64) - List.length m, fips_hash (m @ d))"
  using assms
proof (induction "List.length d - i" arbitrary: i n rule: less_induct)
  case less
  show ?case
  proof (cases "i + 63 < List.length d")
    case True
    have "drop (64 * n) (m @ d) = drop i d" using less.prems by simp
    then have "hash_upto (Suc n) (m @ d) = SHA1_Transform (hash_upto n (m @ d)) (take 64 (drop i d))" by (simp only: hash_upto_Suc)
    moreover have "update_blocks d (i + 64) (hash_upto (Suc n) (m @ d)) =
        (64 * (List.length (m @ d) div 64) - List.length m, fips_hash (m @ d))"
      by (rule less.hyps) (use True less.prems in simp_all)
    ultimately show ?thesis using True by (subst update_blocks.simps) simp
  next
    case False
    have "List.length (m @ d) div 64 = n"
      by (rule div_nat_eqI) (use False less.prems in simp_all)
    moreover from this have "64 * n - List.length m = i" using less.prems by simp
    ultimately show ?thesis using False by (subst update_blocks.simps) (simp add: fips_hash_upto)
  qed
qed

lemma take_memcpy: "j \<le> List.length dst \<Longrightarrow> take (j + List.length src) (memcpy_at j src dst) = take j dst @ src"
  by (simp add: memcpy_at_def)

lemma length_memcpy: "j + List.length src \<le> List.length dst \<Longrightarrow> List.length (memcpy_at j src dst) = List.length dst"
  by (simp add: memcpy_at_def)

text \<open>The number of bits, as long as one piece has fewer than \<open>2 ^ 29\<close> bytes.\<close>

lemma update_count:
  assumes c0: "unat (c0 :: u32) = 8 * m mod 2 ^ 32" and c1: "unat (c1 :: u32) = 8 * m div 2 ^ 32 mod 2 ^ 32" and n: "n < 2 ^ 29"
    and len: "len = (of_nat n :: u64)"
  shows "unat (c0 + ucast (push_bit 3 len)) = 8 * (m + n) mod 2 ^ 32"
    and "unat (c1 + (if (ucast (c0 + ucast (push_bit 3 len)) :: u64) < push_bit 3 len then 1 else 0) + ucast (drop_bit 29 len))
      = 8 * (m + n) div 2 ^ 32 mod 2 ^ 32"
proof -
  have l: "unat len = n" using n by (simp add: len unat_of_nat take_bit_nat_eq_self)
  have p: "unat (push_bit 3 len) = 8 * n"
    unfolding unsigned_push_bit_eq l using n by (simp add: push_bit_eq_mult take_bit_nat_eq_self mult.commute)
  have u: "unat (ucast (push_bit 3 len) :: u32) = 8 * n" using n by (simp add: unsigned_ucast_eq p take_bit_nat_eq_self)
  have d: "drop_bit 29 len = 0"
  proof (rule word_unat_eq_iff [THEN iffD2])
    show "unat (drop_bit 29 len) = unat (0 :: u64)" unfolding unsigned_drop_bit_eq l using n by (simp add: drop_bit_eq_div take_bit_nat_eq_self)
  qed
  let ?c = "c0 + ucast (push_bit 3 len)"
  have c: "unat ?c = (8 * m mod 2 ^ 32 + 8 * n) mod 2 ^ 32" by (simp add: unat_word_ariths u c0)
  then show "unat ?c = 8 * (m + n) mod 2 ^ 32" by (simp add: mod_simps algebra_simps)
  have "unat ?c < 2 ^ 64" unfolding c by (rule order.strict_trans [of _ "2 ^ 32"]) simp_all
  then have "unat (ucast ?c :: u64) = unat ?c" unfolding unsigned_ucast_eq by (simp add: take_bit_nat_eq_self)
  then have carry: "(ucast ?c :: u64) < push_bit 3 len \<longleftrightarrow> unat ?c < 8 * n" by (simp add: word_less_nat_alt p)
  have over: "unat ?c < 8 * n \<longleftrightarrow> 2 ^ 32 \<le> 8 * m mod 2 ^ 32 + 8 * n"
  proof (cases "8 * m mod 2 ^ 32 + 8 * n < 2 ^ 32")
    case False
    have "8 * m mod 2 ^ 32 < (2 ^ 32 :: nat)" by simp
    moreover have "unat ?c = 8 * m mod 2 ^ 32 + 8 * n - 2 ^ 32"
    proof -
      have "8 * n < 2 ^ 32" using n by simp
      then have "8 * m mod 2 ^ 32 + 8 * n - 2 ^ 32 < 2 ^ 32" using \<open>8 * m mod 2 ^ 32 < 2 ^ 32\<close> by linarith
      then show ?thesis unfolding c using False le_mod_geq [of "2 ^ 32" "8 * m mod 2 ^ 32 + 8 * n"] by simp
    qed
    ultimately show ?thesis using False by linarith
  qed (use c in simp)
  have "8 * (m + n) div 2 ^ 32 = 8 * m div 2 ^ 32 + (if 2 ^ 32 \<le> 8 * m mod 2 ^ 32 + 8 * n then 1 else 0)"
  proof -
    let ?r = "8 * m mod 2 ^ 32 + 8 * n"
    have "8 * (m + n) = ?r + 8 * m div 2 ^ 32 * 2 ^ 32" using div_mult_mod_eq [of "8 * m" "2 ^ 32"] by (simp only: distrib_left)
    then have "8 * (m + n) div 2 ^ 32 = ?r div 2 ^ 32 + 8 * m div 2 ^ 32" by simp
    moreover have "8 * m mod 2 ^ 32 < (2 ^ 32 :: nat)" by simp
    then have "?r div 2 ^ 32 = (if 2 ^ 32 \<le> ?r then 1 else 0)" using n by (auto intro: div_nat_eqI)
    ultimately show ?thesis by simp
  qed
  then show "unat (c1 + (if (ucast ?c :: u64) < push_bit 3 len then 1 else 0) + ucast (drop_bit 29 len)) = 8 * (m + n) div 2 ^ 32 mod 2 ^ 32"
    unfolding carry over d by (simp add: unat_word_ariths c1 mod_simps)
qed

lemma update_slot:
  assumes "unat (c :: u32) = 8 * m mod 2 ^ 32"
  shows "unat (drop_bit 3 c AND 63) = m mod 64"
proof -
  have "drop_bit 3 c AND 63 = take_bit 6 (drop_bit 3 c)" by (simp add: take_bit_eq_mask mask_eq_exp_minus_1)
  moreover have "unat (take_bit 6 (drop_bit 3 c)) = unat c div 8 mod 64"
    unfolding unsigned_take_bit_eq unsigned_drop_bit_eq using slot_mod [of "unat c"]
    by (simp add: take_bit_eq_mod drop_bit_eq_div)
  ultimately have "unat (drop_bit 3 c AND 63) = unat c div 8 mod 64" by simp
  then show ?thesis using assms slot_mod [of "8 * m"] by simp
qed

lemma slot_split:
  fixes x :: nat
  assumes "x < 64" and "L = x + q * 64"
  shows "L div 64 = q" and "L mod 64 = x"
  using assms by simp_all

lemma absorbed_Update:
  assumes ctx: "absorbed m ctx" and n: "List.length d < 2 ^ 29"
  shows "absorbed (m @ d) (sat_SHA1_Update d ctx)"
proof -
  let ?j = "List.length m mod 64" let ?q = "List.length m div 64"
  define len where "len = (of_nat (List.length d) :: u64)"
  define count0 where "count0 = sha_count0 ctx + ucast (push_bit 3 len)"
  define count1 where "count1 = sha_count1 ctx + (if (ucast count0 :: u64) < push_bit 3 len then 1 else 0) + ucast (drop_bit 29 len)"
  define ctx1 where "ctx1 = ctx\<lparr>sha_count0 := count0, sha_count1 := count1\<rparr>"
  have b: "List.length (sha_buffer ctx) = 64" "take ?j (sha_buffer ctx) = drop (64 * ?q) m" "sha_state ctx = hash_upto ?q m"
    using ctx by (simp_all add: absorbed_def fips_hash_upto)
  have count: "unat count0 = 8 * List.length (m @ d) mod 2 ^ 32" "unat count1 = 8 * List.length (m @ d) div 2 ^ 32 mod 2 ^ 32"
    using update_count [of "sha_count0 ctx" "List.length m" "sha_count1 ctx" "List.length d" len] ctx n
    by (simp_all add: absorbed_def len_def count0_def count1_def)
  have j: "unat (drop_bit 3 (sha_count0 ctx) AND 63) = ?j" using ctx by (intro update_slot) (simp add: absorbed_def)
  have m: "List.length m = 64 * ?q + ?j" "?j < 64" by simp_all
  have state: "hash_upto ?q (m @ d) = hash_upto ?q m" by (simp add: hash_upto_def whole_blocks_append)
  show ?thesis
  proof (cases "63 < ?j + List.length d")
    case True
    define i where "i = 64 - ?j"
    define buffer where "buffer = memcpy_at ?j (take i d) (sha_buffer ctx)"
    have i: "?j + i = 64" "i \<le> List.length d" using True m(2) by (simp_all add: i_def)
    have "64 * Suc ?q = 64 * ?q + (?j + i)" using i(1) by simp
    also have "\<dots> = List.length m + i" by (metis m(1) add.assoc)
    finally have e: "64 * Suc ?q = List.length m + i" .
    have "buffer = drop (64 * ?q) m @ take i d" using b i by (simp add: buffer_def memcpy_at_def)
    moreover have "64 + 64 * ?q - List.length m = i" using m(1) i(1) by linarith
    then have "take 64 (drop (64 * ?q) (m @ d)) = drop (64 * ?q) m @ take i d" using m i by simp
    ultimately have "SHA1_Transform (sha_state ctx) buffer = hash_upto (Suc ?q) (m @ d)"
      unfolding hash_upto_Suc state b(3) by simp
    moreover define r where "r = 64 * (List.length (m @ d) div 64) - List.length m"
    have run: "update_blocks d i (hash_upto (Suc ?q) (m @ d)) = (r, fips_hash (m @ d))"
      unfolding r_def
by (rule update_blocks_hash [OF e i(2)])
    ultimately have up: "sat_SHA1_Update d ctx = ctx1\<lparr>sha_state := fips_hash (m @ d), sha_buffer := memcpy_at 0 (drop r d) buffer\<rparr>"
      using True by (simp add: sat_SHA1_Update_def Let_def j ctx1_def len_def count0_def count1_def i_def buffer_def)
    have "Suc ?q \<le> List.length (m @ d) div 64" using e i(2) by (simp add: less_eq_div_iff_mult_less_eq)
    then have r: "64 * (List.length (m @ d) div 64) = List.length m + r" using m by (simp add: r_def)
    then have "drop (64 * (List.length (m @ d) div 64)) (m @ d) = drop r d" by simp
    moreover have "List.length (drop r d) = List.length (m @ d) mod 64"
      using r by (simp add: minus_mult_div_eq_mod [symmetric])
    moreover have "List.length buffer = 64" using b i by (simp add: buffer_def length_memcpy)
    ultimately show ?thesis
      using count unfolding up absorbed_def ctx1_def
      by (simp add: length_memcpy memcpy_at_def)
  next
    case False
    then have q: "List.length (m @ d) div 64 = ?q" "List.length (m @ d) mod 64 = ?j + List.length d"
    proof -
      have "?j + List.length d < 64" using False by simp
      moreover have "List.length (m @ d) = ?j + List.length d + ?q * 64" by simp
      ultimately show "List.length (m @ d) div 64 = ?q" "List.length (m @ d) mod 64 = ?j + List.length d" by (rule slot_split)+
    qed

    have "sat_SHA1_Update d ctx = ctx1\<lparr>sha_buffer := memcpy_at ?j d (sha_buffer ctx)\<rparr>"
      using False by (simp add: sat_SHA1_Update_def Let_def j ctx1_def len_def count0_def count1_def)
    moreover have "take (?j + List.length d) (memcpy_at ?j d (sha_buffer ctx)) = drop (64 * ?q) (m @ d)"
      using b m by (simp add: take_memcpy)
    moreover have "List.length (memcpy_at ?j d (sha_buffer ctx)) = 64" using b False by (simp add: length_memcpy)
    ultimately show ?thesis
      using count b q state unfolding absorbed_def ctx1_def by (simp add: fips_hash_upto)
  qed
qed

section \<open>Padding and digest\<close>

lemma full_slot:
  assumes "unat (c :: u32) = 8 * m mod 2 ^ 32"
  shows "c AND 504 = 448 \<longleftrightarrow> m mod 64 = 56"
proof -
  have "c AND 504 = 448 \<longleftrightarrow> unat (c AND 504) = unat (448 :: u32)" by (rule word_unat_eq_iff)
  also have "\<dots> \<longleftrightarrow> unat c div 8 mod 64 = 56" unfolding count0_slot by simp
  finally show ?thesis using assms slot_mod [of "8 * m"] by simp
qed

lemma zeros_Suc: "(n :: nat) mod 64 \<noteq> 56 \<Longrightarrow> (120 - n mod 64) mod 64 = Suc ((120 - Suc n mod 64) mod 64)"
proof -
  have g: "(120 - r) mod 64 = Suc ((120 - (if r = 63 then 0 else Suc r)) mod 64)" if lt: "r < 64" and ne: "r \<noteq> 56" for r :: nat
  proof -
    have low: "(120 - r) mod 64 = 56 - r" if "r \<le> 56" for r :: nat
      using that mod_add_self1 [of 64 "56 - r"] by simp
    consider "r < 56" | "r = 63" | "57 \<le> r" "r < 63" using lt ne by linarith
    then show ?thesis
    proof cases
      case 1
      then show ?thesis using low [of r] low [of "Suc r"] by simp
    qed simp_all
  qed
  assume "n mod 64 \<noteq> 56"
  then show ?thesis using g [of "n mod 64"] by (simp add: mod_Suc)
qed

lemma absorbed_pad_loop:
  "absorbed m ctx \<Longrightarrow> absorbed (m @ replicate ((120 - List.length m mod 64) mod 64) 0) (pad_loop ctx)"
proof (induction ctx arbitrary: m rule: pad_loop.induct)
  case (1 ctx)
  have full: "sha_count0 ctx AND 504 = 448 \<longleftrightarrow> List.length m mod 64 = 56"
    using 1 by (intro full_slot) (simp add: absorbed_def)
  show ?case
  proof (cases "List.length m mod 64 = 56")
    case True
    then show ?thesis using full 1 by (subst pad_loop.simps) simp
  next
    case False
    have "absorbed (m @ [0]) (sat_SHA1_Update [0] ctx)" by (rule absorbed_Update [OF 1(2)]) simp
    then have "absorbed ((m @ [0]) @ replicate ((120 - Suc (List.length m) mod 64) mod 64) 0) (pad_loop (sat_SHA1_Update [0] ctx))"
      using 1(1) [of "m @ [0]"] False full by simp
    then show ?thesis using False full zeros_Suc [OF False] by (subst pad_loop.simps) simp
  qed
qed

lemma fips_length_count:
  assumes "absorbed m ctx"
  shows "map (\<lambda>i. word_byte (if 4 \<le> i then sha_count0 ctx else sha_count1 ctx) i) [0..<8] = fips_length (List.length m)"
proof -
  have "sha_count0 ctx = of_nat (8 * List.length m)" "sha_count1 ctx = of_nat (8 * List.length m div 2 ^ 32)"
    using assms by (simp_all add: absorbed_def word_unat_eq_iff unat_of_nat del: of_nat_mult)
  then show ?thesis
    by (simp add: fips_length_def be_bytes_def word_byte_def upt_rec [of _ 8] upt_rec [of _ 4] del: upt_Suc of_nat_mult)
qed

lemma digest_bytes:
  assumes "List.length H = 5"
  shows "map (\<lambda>i. word_byte (H ! (i div 4)) i) [0..<20] = concat (map be_bytes H)"
proof -
  obtain h0 h1 h2 h3 h4 where h: "H = [h0, h1, h2, h3, h4]"
    using assms by (auto simp: eval_nat_numeral length_Suc_conv)
  have "[0..<20] = [0, 1, 2, 3, 4, 5, 6, 7, 8, 9, 10, 11, 12, 13, 14, 15, 16, 17, 18, 19 :: nat]" by (simp add: upt_rec)
  moreover have "[0..<4] = [0, 1, 2, 3 :: nat]" by (simp add: upt_rec)
  ultimately show ?thesis unfolding h be_bytes_def by (simp add: word_byte_def del: upt_Suc)
qed

lemma absorbed_Final:
  assumes "absorbed m ctx"
  shows "sat_SHA1_Final ctx = fips_sha1 m"
proof -
  let ?k = "(119 - List.length m mod 64) mod 64"
  have "absorbed (m @ [0x80]) (sat_SHA1_Update [0x80] ctx)" by (rule absorbed_Update [OF assms]) simp
  from absorbed_pad_loop [OF this]
  have "absorbed ((m @ [0x80]) @ replicate ((120 - Suc (List.length m) mod 64) mod 64) 0) (pad_loop (sat_SHA1_Update [0x80] ctx))"
    by simp
  moreover have "(120 - Suc n mod 64) mod 64 = (119 - n mod 64) mod 64" for n :: nat
    by (simp add: mod_Suc)
  ultimately have "absorbed ((m @ [0x80]) @ replicate ?k 0) (pad_loop (sat_SHA1_Update [0x80] ctx))" by simp
  from absorbed_Update [OF this, of "fips_length (List.length m)"]
  have "absorbed (fips_pad m) (sat_SHA1_Update (fips_length (List.length m)) (pad_loop (sat_SHA1_Update [0x80] ctx)))"
    by (simp add: fips_pad_def fips_length_def be_bytes_def)
  then have "sha_state (sat_SHA1_Update (fips_length (List.length m)) (pad_loop (sat_SHA1_Update [0x80] ctx))) = fips_hash (fips_pad m)"
    by (simp add: absorbed_def)
  then show ?thesis
    unfolding sat_SHA1_Final_def fips_length_count [OF assms] Let_def fips_sha1_def by (simp add: digest_bytes)
qed

lemma lsha1_fips: "List.length junk = 64 \<Longrightarrow> List.length m < 2 ^ 29 \<Longrightarrow> sat_SHA1_Final (sat_SHA1_Update m (sat_SHA1_Init junk)) = fips_sha1 m"
  using absorbed_Final [OF absorbed_Update [OF absorbed_Init]] by simp

lemma length_sha1: "List.length (fips_sha1 m) = 20"
  using digest_bytes [of "fips_hash (fips_pad m)", symmetric] by (simp add: fips_sha1_def)

lemma xor_key_bytes:
  assumes "List.length key = BLOCKSIZE"
  shows "xor_key key 0x5c5c5c5c = map (\<lambda>b. b XOR 0x5c) key" and "xor_key key (0x5c5c5c5c XOR 0x36363636) = map (\<lambda>b. b XOR 0x6a) key"
proof -
  have "(ucast (drop_bit (8 * (i mod 4)) (0x5c5c5c5c :: u32)) :: u8) = 0x5c
      \<and> (ucast (drop_bit (8 * (i mod 4)) (0x5c5c5c5c XOR 0x36363636 :: u32)) :: u8) = 0x6a" for i :: nat
  proof -
    have "i mod 4 < 4" by simp
    then have "i mod 4 = 0 \<or> i mod 4 = 1 \<or> i mod 4 = 2 \<or> i mod 4 = 3" by linarith
    then show ?thesis by (elim disjE) simp_all
  qed
  then show "xor_key key 0x5c5c5c5c = map (\<lambda>b. b XOR 0x5c) key" "xor_key key (0x5c5c5c5c XOR 0x36363636) = map (\<lambda>b. b XOR 0x6a) key"
    using assms by (simp_all add: xor_key_def list_eq_iff_nth_eq)
qed

text \<open>
  C37. \<open>sha1\<close> gives the digest of FIPS 180-4 and \<open>hmac_sha1\<close> the code of RFC 2104, for messages and
  keys of fewer than \<open>2 ^ 29\<close> bytes.
\<close>

theorem sha1_correct:
  assumes "List.length junk = 64" and "List.length m < 2 ^ 29" and "List.length key < 2 ^ 29"
  shows "lsha1 junk m = fips_sha1 m \<and> lhmac_sha1 junk key m = rfc_hmac key m"
proof -
  note sha = lsha1_fips [OF assms(1)]
  define rkey where "rkey = (if BLOCKSIZE < List.length key then
      memcpy_at 0 (sat_SHA1_Final (sat_SHA1_Update key (sat_SHA1_Init junk))) (replicate BLOCKSIZE 0) else memcpy_at 0 key (replicate BLOCKSIZE 0))"
  have rkey: "rkey = rfc_key key" "List.length rkey = BLOCKSIZE"
    using sha [OF assms(3)] length_sha1 [of key]
    by (auto simp: rkey_def rfc_key_def memcpy_at_def BLOCKSIZE_def Let_def)
  let ?o = "map (\<lambda>b. b XOR 0x5c) rkey" let ?i = "map (\<lambda>b. b XOR 0x36) rkey"
  have o: "xor_key rkey 0x5c5c5c5c = ?o" using rkey(2) by (rule xor_key_bytes(1))
  have "xor_key ?o (0x5c5c5c5c XOR 0x36363636) = map (\<lambda>b. b XOR 0x6a) ?o"
    by (rule xor_key_bytes(2)) (simp add: rkey(2))
  also have "\<dots> = ?i" by (simp add: xor.assoc)
  finally have i: "xor_key ?o (0x5c5c5c5c XOR 0x36363636) = ?i" .
  have "absorbed (?i @ m) (sat_SHA1_Update m (sat_SHA1_Update ?i (sat_SHA1_Init junk)))"
    using absorbed_Update [OF absorbed_Update [OF absorbed_Init [OF assms(1)], of ?i] assms(2)] rkey(2) by (simp add: BLOCKSIZE_def)
  note inner = absorbed_Final [OF this]
  have "absorbed (?o @ fips_sha1 (?i @ m)) (sat_SHA1_Update (fips_sha1 (?i @ m)) (sat_SHA1_Update ?o (sat_SHA1_Init junk)))"
    using absorbed_Update [OF absorbed_Update [OF absorbed_Init [OF assms(1)], of ?o], of "fips_sha1 (?i @ m)"] rkey(2)
      length_sha1 [of "?i @ m"] by (simp add: BLOCKSIZE_def)
  note outer = absorbed_Final [OF this]
  have "lhmac_sha1 junk key m = rfc_hmac key m"
    using inner outer by (simp add: lhmac_sha1_def Let_def rkey_def [symmetric] o i [simplified] rfc_hmac_def rkey(1) [symmetric])
  then show ?thesis using sha [OF assms(2)] by (simp add: lsha1_def)
qed

theorem sha1_correct_witness:
  "lsha1 (replicate 64 0) [97, 98, 99] = fips_sha1 [97, 98, 99]
     \<and> lhmac_sha1 (replicate 64 0) (replicate 20 11) [97, 98, 99] = rfc_hmac (replicate 20 11) [97, 98, 99]"
  using sha1_correct [of "replicate 64 0" "[97, 98, 99]" "replicate 20 11"] by simp

text \<open>
  From \<open>2 ^ 29\<close> bytes on the number of bits is wrong: \<open>len << 3\<close> has 64 bits, the new count 32, so that
  the comparison always sees a carry.
\<close>

lemma sha1_count_wrong:
  assumes "List.length d = 2 ^ 29"
  shows "unat (sha_count1 (sat_SHA1_Update d (sat_SHA1_Init junk))) \<noteq> 8 * List.length d div 2 ^ 32"
proof -
  have "sha_count1 (sat_SHA1_Update d (sat_SHA1_Init junk)) = 2"
    using assms by (simp add: sat_SHA1_Update_def sat_SHA1_Init_def Let_def split: prod.split)
  then show ?thesis using assms by simp
qed

end
