(* ===== verification/Crypt.thy ===== *)
theory Crypt
  imports LuaBase
begin

text \<open>
  The Lua library \<open>crypt\<close>, \<open>lualib-src/lua-crypt.c\<close>: DES with its padding, the hash of keys, the
  64-bit code over two words, text in hexadecimal and base64, and the key exchange of Diffie and Hellman
  modulo the greatest 64-bit prime. The SHA-1 functions are in Sha1. Sizes are natural numbers: a string
  has fewer than \<open>2 ^ 31\<close> bytes.
\<close>

section \<open>DES\<close>

definition SB1 :: "u32 list" where
  "SB1 = [
     0x01010400, 0, 0x00010000, 0x01010404, 0x01010004, 0x00010404, 0x00000004, 0x00010000,
     0x00000400, 0x01010400, 0x01010404, 0x00000400, 0x01000404, 0x01010004, 0x01000000, 0x00000004,
     0x00000404, 0x01000400, 0x01000400, 0x00010400, 0x00010400, 0x01010000, 0x01010000, 0x01000404,
     0x00010004, 0x01000004, 0x01000004, 0x00010004, 0, 0x00000404, 0x00010404, 0x01000000,
     0x00010000, 0x01010404, 0x00000004, 0x01010000, 0x01010400, 0x01000000, 0x01000000, 0x00000400,
     0x01010004, 0x00010000, 0x00010400, 0x01000004, 0x00000400, 0x00000004, 0x01000404, 0x00010404,
     0x01010404, 0x00010004, 0x01010000, 0x01000404, 0x01000004, 0x00000404, 0x00010404, 0x01010400,
     0x00000404, 0x01000400, 0x01000400, 0, 0x00010004, 0x00010400, 0, 0x01010004]"

definition SB2 :: "u32 list" where
  "SB2 = [
     0x80108020, 0x80008000, 0x00008000, 0x00108020, 0x00100000, 0x00000020, 0x80100020, 0x80008020,
     0x80000020, 0x80108020, 0x80108000, 0x80000000, 0x80008000, 0x00100000, 0x00000020, 0x80100020,
     0x00108000, 0x00100020, 0x80008020, 0, 0x80000000, 0x00008000, 0x00108020, 0x80100000,
     0x00100020, 0x80000020, 0, 0x00108000, 0x00008020, 0x80108000, 0x80100000, 0x00008020,
     0, 0x00108020, 0x80100020, 0x00100000, 0x80008020, 0x80100000, 0x80108000, 0x00008000,
     0x80100000, 0x80008000, 0x00000020, 0x80108020, 0x00108020, 0x00000020, 0x00008000, 0x80000000,
     0x00008020, 0x80108000, 0x00100000, 0x80000020, 0x00100020, 0x80008020, 0x80000020, 0x00100020,
     0x00108000, 0, 0x80008000, 0x00008020, 0x80000000, 0x80100020, 0x80108020, 0x00108000]"

definition SB3 :: "u32 list" where
  "SB3 = [
     0x00000208, 0x08020200, 0, 0x08020008, 0x08000200, 0, 0x00020208, 0x08000200,
     0x00020008, 0x08000008, 0x08000008, 0x00020000, 0x08020208, 0x00020008, 0x08020000, 0x00000208,
     0x08000000, 0x00000008, 0x08020200, 0x00000200, 0x00020200, 0x08020000, 0x08020008, 0x00020208,
     0x08000208, 0x00020200, 0x00020000, 0x08000208, 0x00000008, 0x08020208, 0x00000200, 0x08000000,
     0x08020200, 0x08000000, 0x00020008, 0x00000208, 0x00020000, 0x08020200, 0x08000200, 0,
     0x00000200, 0x00020008, 0x08020208, 0x08000200, 0x08000008, 0x00000200, 0, 0x08020008,
     0x08000208, 0x00020000, 0x08000000, 0x08020208, 0x00000008, 0x00020208, 0x00020200, 0x08000008,
     0x08020000, 0x08000208, 0x00000208, 0x08020000, 0x00020208, 0x00000008, 0x08020008, 0x00020200]"

definition SB4 :: "u32 list" where
  "SB4 = [
     0x00802001, 0x00002081, 0x00002081, 0x00000080, 0x00802080, 0x00800081, 0x00800001, 0x00002001,
     0, 0x00802000, 0x00802000, 0x00802081, 0x00000081, 0, 0x00800080, 0x00800001,
     1, 0x00002000, 0x00800000, 0x00802001, 0x00000080, 0x00800000, 0x00002001, 0x00002080,
     0x00800081, 1, 0x00002080, 0x00800080, 0x00002000, 0x00802080, 0x00802081, 0x00000081,
     0x00800080, 0x00800001, 0x00802000, 0x00802081, 0x00000081, 0, 0, 0x00802000,
     0x00002080, 0x00800080, 0x00800081, 1, 0x00802001, 0x00002081, 0x00002081, 0x00000080,
     0x00802081, 0x00000081, 1, 0x00002000, 0x00800001, 0x00002001, 0x00802080, 0x00800081,
     0x00002001, 0x00002080, 0x00800000, 0x00802001, 0x00000080, 0x00800000, 0x00002000, 0x00802080]"

definition SB5 :: "u32 list" where
  "SB5 = [
     0x00000100, 0x02080100, 0x02080000, 0x42000100, 0x00080000, 0x00000100, 0x40000000, 0x02080000,
     0x40080100, 0x00080000, 0x02000100, 0x40080100, 0x42000100, 0x42080000, 0x00080100, 0x40000000,
     0x02000000, 0x40080000, 0x40080000, 0, 0x40000100, 0x42080100, 0x42080100, 0x02000100,
     0x42080000, 0x40000100, 0, 0x42000000, 0x02080100, 0x02000000, 0x42000000, 0x00080100,
     0x00080000, 0x42000100, 0x00000100, 0x02000000, 0x40000000, 0x02080000, 0x42000100, 0x40080100,
     0x02000100, 0x40000000, 0x42080000, 0x02080100, 0x40080100, 0x00000100, 0x02000000, 0x42080000,
     0x42080100, 0x00080100, 0x42000000, 0x42080100, 0x02080000, 0, 0x40080000, 0x42000000,
     0x00080100, 0x02000100, 0x40000100, 0x00080000, 0, 0x40080000, 0x02080100, 0x40000100]"

definition SB6 :: "u32 list" where
  "SB6 = [
     0x20000010, 0x20400000, 0x00004000, 0x20404010, 0x20400000, 0x00000010, 0x20404010, 0x00400000,
     0x20004000, 0x00404010, 0x00400000, 0x20000010, 0x00400010, 0x20004000, 0x20000000, 0x00004010,
     0, 0x00400010, 0x20004010, 0x00004000, 0x00404000, 0x20004010, 0x00000010, 0x20400010,
     0x20400010, 0, 0x00404010, 0x20404000, 0x00004010, 0x00404000, 0x20404000, 0x20000000,
     0x20004000, 0x00000010, 0x20400010, 0x00404000, 0x20404010, 0x00400000, 0x00004010, 0x20000010,
     0x00400000, 0x20004000, 0x20000000, 0x00004010, 0x20000010, 0x20404010, 0x00404000, 0x20400000,
     0x00404010, 0x20404000, 0, 0x20400010, 0x00000010, 0x00004000, 0x20400000, 0x00404010,
     0x00004000, 0x00400010, 0x20004010, 0, 0x20404000, 0x20000000, 0x00400010, 0x20004010]"

definition SB7 :: "u32 list" where
  "SB7 = [
     0x00200000, 0x04200002, 0x04000802, 0, 0x00000800, 0x04000802, 0x00200802, 0x04200800,
     0x04200802, 0x00200000, 0, 0x04000002, 0x00000002, 0x04000000, 0x04200002, 0x00000802,
     0x04000800, 0x00200802, 0x00200002, 0x04000800, 0x04000002, 0x04200000, 0x04200800, 0x00200002,
     0x04200000, 0x00000800, 0x00000802, 0x04200802, 0x00200800, 0x00000002, 0x04000000, 0x00200800,
     0x04000000, 0x00200800, 0x00200000, 0x04000802, 0x04000802, 0x04200002, 0x04200002, 0x00000002,
     0x00200002, 0x04000000, 0x04000800, 0x00200000, 0x04200800, 0x00000802, 0x00200802, 0x04200800,
     0x00000802, 0x04000002, 0x04200802, 0x04200000, 0x00200800, 0, 0x00000002, 0x04200802,
     0, 0x00200802, 0x04200000, 0x00000800, 0x04000002, 0x04000800, 0x00000800, 0x00200002]"

definition SB8 :: "u32 list" where
  "SB8 = [
     0x10001040, 0x00001000, 0x00040000, 0x10041040, 0x10000000, 0x10001040, 0x00000040, 0x10000000,
     0x00040040, 0x10040000, 0x10041040, 0x00041000, 0x10041000, 0x00041040, 0x00001000, 0x00000040,
     0x10040000, 0x10000040, 0x10001000, 0x00001040, 0x00041000, 0x00040040, 0x10040040, 0x10041000,
     0x00001040, 0, 0, 0x10040040, 0x10000040, 0x10001000, 0x00041040, 0x00040000,
     0x00041040, 0x00040000, 0x10041000, 0x00001000, 0x00000040, 0x10040040, 0x00001000, 0x00041040,
     0x10001000, 0x00000040, 0x10000040, 0x10040000, 0x10040040, 0x10000000, 0x00040000, 0x10001040,
     0, 0x10041040, 0x00040040, 0x10000040, 0x10040000, 0x10001000, 0x10001040, 0,
     0x10041040, 0x00041000, 0x00041000, 0x00001040, 0x00001040, 0x00040040, 0x10000000, 0x10041000]"

definition LHs :: "u32 list" where
  "LHs = [
     0, 1, 0x00000100, 0x00000101, 0x00010000, 0x00010001, 0x00010100, 0x00010101,
     0x01000000, 0x01000001, 0x01000100, 0x01000101, 0x01010000, 0x01010001, 0x01010100, 0x01010101]"

definition RHs :: "u32 list" where
  "RHs = [
     0, 0x01000000, 0x00010000, 0x01010000, 0x00000100, 0x01000100, 0x00010100, 0x01010100,
     1, 0x01000001, 0x00010001, 0x01010001, 0x00000101, 0x01000101, 0x00010101, 0x01010101]"

text \<open>\<open>GET_UINT32\<close> and \<open>PUT_UINT32\<close>: four bytes, the most significant first.\<close>

definition GET_UINT32 :: "bytes \<Rightarrow> nat \<Rightarrow> u32" where
  "GET_UINT32 b i = push_bit 24 (ucast (b ! i)) OR push_bit 16 (ucast (b ! (i + 1))) OR push_bit 8 (ucast (b ! (i + 2)))
     OR ucast (b ! (i + 3))"

definition PUT_UINT32 :: "u32 \<Rightarrow> bytes" where
  "PUT_UINT32 n = [ucast (drop_bit 24 n), ucast (drop_bit 16 n), ucast (drop_bit 8 n), ucast n]"

text \<open>
  The lines of the permutations: \<open>T = ((X >> s) ^ Y) & m; Y ^= T; X ^= (T << s)\<close>, for the pair
  \<open>(X, Y)\<close>, and a rotation.
\<close>

definition swap_bits :: "nat \<Rightarrow> u32 \<Rightarrow> u32 \<times> u32 \<Rightarrow> u32 \<times> u32" where
  "swap_bits s m = (\<lambda>(X, Y). let T = (drop_bit s X XOR Y) AND m in (X XOR push_bit s T, Y XOR T))"

definition rotl1 :: "u32 \<Rightarrow> u32" where
  "rotl1 x = (push_bit 1 x OR drop_bit 31 x) AND 0xFFFFFFFF"

definition rotr1 :: "u32 \<Rightarrow> u32" where
  "rotr1 x = (push_bit 31 x OR drop_bit 1 x) AND 0xFFFFFFFF"

definition DES_IP :: "u32 \<times> u32 \<Rightarrow> u32 \<times> u32" where
  "DES_IP p0 =
     (let (X2, Y2) = swap_bits 16 0x0000FFFF (swap_bits 4 0x0F0F0F0F p0);
          (Y4, X4) = swap_bits 8 0x00FF00FF (swap_bits 2 0x33333333 (Y2, X2));
          (X6, Y6) = swap_bits 0 0xAAAAAAAA (X4, rotl1 Y4)
      in (rotl1 X6, Y6))"

definition DES_FP :: "u32 \<times> u32 \<Rightarrow> u32 \<times> u32" where
  "DES_FP p0 =
     (let (X0, Y0) = p0;
          (X2, Y2) = swap_bits 0 0xAAAAAAAA (rotr1 X0, Y0);
          (Y4, X4) = swap_bits 2 0x33333333 (swap_bits 8 0x00FF00FF (rotr1 Y2, X2))
      in swap_bits 4 0x0F0F0F0F (swap_bits 16 0x0000FFFF (X4, Y4)))"

text \<open>\<open>DES_ROUND(X,Y)\<close> with the next two words of the schedule: the new \<open>Y\<close>.\<close>

definition box :: "u32 list \<Rightarrow> nat \<Rightarrow> u32 \<Rightarrow> u32" where
  "box SB s T = SB ! unat (drop_bit s T AND 0x3F)"

definition DES_ROUND :: "u32 \<Rightarrow> u32 \<Rightarrow> u32 \<Rightarrow> u32 \<Rightarrow> u32" where
  "DES_ROUND k1 k2 X Y =
     (let T = k1 XOR X;
          Y1 = Y XOR (box SB8 0 T XOR box SB6 8 T XOR box SB4 16 T XOR box SB2 24 T);
          T2 = k2 XOR (push_bit 28 X OR drop_bit 4 X)
      in Y1 XOR (box SB7 0 T2 XOR box SB5 8 T2 XOR box SB3 16 T2 XOR box SB1 24 T2))"

text \<open>\<open>DES_ROUND(Y,X); DES_ROUND(X,Y)\<close> as long as there are words of the schedule.\<close>

fun des_rounds :: "u32 list \<Rightarrow> u32 \<times> u32 \<Rightarrow> u32 \<times> u32" where
  "des_rounds (k1 # k2 # k3 # k4 # SK) (X, Y) =
     (let X1 = DES_ROUND k1 k2 Y X; Y1 = DES_ROUND k3 k4 X1 Y in des_rounds SK (X1, Y1))"
| "des_rounds _ p = p"

definition des_crypt :: "u32 list \<Rightarrow> bytes \<Rightarrow> bytes" where
  "des_crypt SK input =
     (let (X, Y) = des_rounds SK (DES_IP (GET_UINT32 input 0, GET_UINT32 input 4));
          (Y', X') = DES_FP (Y, X)
      in PUT_UINT32 Y' @ PUT_UINT32 X')"

text \<open>The key schedule: \<open>LHs[ (X >> k) & 0xF ] << s\<close> is \<open>nibble LHs k s X\<close>.\<close>

definition nibble :: "u32 list \<Rightarrow> nat \<Rightarrow> nat \<Rightarrow> u32 \<Rightarrow> u32" where
  "nibble t k s x = push_bit s (t ! unat (drop_bit k x AND 0xF))"

definition permuted_choice :: "u32 \<times> u32 \<Rightarrow> u32 \<times> u32" where
  "permuted_choice p0 =
     (let (Y1, X1) = swap_bits 4 0x0F0F0F0F (snd p0, fst p0);
          (Y, X) = swap_bits 0 0x10101010 (Y1, X1)
      in ((nibble LHs 0 3 X OR nibble LHs 8 2 X OR nibble LHs 16 1 X OR nibble LHs 24 0 X OR
          nibble LHs 5 7 X OR nibble LHs 13 6 X OR nibble LHs 21 5 X OR nibble LHs 29 4 X) AND 0x0FFFFFFF,
          (nibble RHs 1 3 Y OR nibble RHs 9 2 Y OR nibble RHs 17 1 Y OR nibble RHs 25 0 Y OR
          nibble RHs 4 7 Y OR nibble RHs 12 6 Y OR nibble RHs 20 5 Y OR nibble RHs 28 4 Y) AND 0x0FFFFFFF))"

definition subkey1 :: "u32 \<Rightarrow> u32 \<Rightarrow> u32" where
  "subkey1 X Y =
     ((push_bit 4 X AND 0x24000000) OR (push_bit 28 X AND 0x10000000) OR (push_bit 14 X AND 0x08000000) OR (push_bit 18 X AND 0x02080000) OR
      (push_bit 6 X AND 0x01000000) OR (push_bit 9 X AND 0x00200000) OR (drop_bit 1 X AND 0x00100000) OR (push_bit 10 X AND 0x00040000) OR
      (push_bit 2 X AND 0x00020000) OR (drop_bit 10 X AND 0x00010000) OR (drop_bit 13 Y AND 0x00002000) OR (drop_bit 4 Y AND 0x00001000) OR
      (push_bit 6 Y AND 0x00000800) OR (drop_bit 1 Y AND 0x00000400) OR (drop_bit 14 Y AND 0x00000200) OR (Y AND 0x00000100) OR
      (drop_bit 5 Y AND 0x00000020) OR (drop_bit 10 Y AND 0x00000010) OR (drop_bit 3 Y AND 0x00000008) OR (drop_bit 18 Y AND 0x00000004) OR
      (drop_bit 26 Y AND 0x00000002) OR (drop_bit 24 Y AND 0x00000001))"

definition subkey2 :: "u32 \<Rightarrow> u32 \<Rightarrow> u32" where
  "subkey2 X Y =
     ((push_bit 15 X AND 0x20000000) OR (push_bit 17 X AND 0x10000000) OR (push_bit 10 X AND 0x08000000) OR (push_bit 22 X AND 0x04000000) OR
      (drop_bit 2 X AND 0x02000000) OR (push_bit 1 X AND 0x01000000) OR (push_bit 16 X AND 0x00200000) OR (push_bit 11 X AND 0x00100000) OR
      (push_bit 3 X AND 0x00080000) OR (drop_bit 6 X AND 0x00040000) OR (push_bit 15 X AND 0x00020000) OR (drop_bit 4 X AND 0x00010000) OR
      (drop_bit 2 Y AND 0x00002000) OR (push_bit 8 Y AND 0x00001000) OR (drop_bit 14 Y AND 0x00000808) OR (drop_bit 9 Y AND 0x00000400) OR
      (Y AND 0x00000200) OR (push_bit 7 Y AND 0x00000100) OR (drop_bit 7 Y AND 0x00000020) OR (drop_bit 3 Y AND 0x00000011) OR
      (push_bit 2 Y AND 0x00000004) OR (drop_bit 21 Y AND 0x00000002))"

definition rotate28 :: "nat \<Rightarrow> u32 \<Rightarrow> u32" where
  "rotate28 n x = (push_bit n x OR drop_bit (28 - n) x) AND 0x0FFFFFFF"

text \<open>The loop over the sixteen pairs of words, from number \<open>16 - n\<close> on.\<close>

fun subkeys :: "nat \<Rightarrow> u32 \<Rightarrow> u32 \<Rightarrow> u32 list" where
  "subkeys 0 X Y = []"
| "subkeys (Suc n) X Y =
     (let i = 15 - n; s = (if i < 2 \<or> i = 8 \<or> i = 15 then 1 else 2); X1 = rotate28 s X; Y1 = rotate28 s Y
      in subkey1 X1 Y1 # subkey2 X1 Y1 # subkeys n X1 Y1)"

definition des_main_ks :: "bytes \<Rightarrow> u32 list" where
  "des_main_ks key = (case permuted_choice (GET_UINT32 key 0, GET_UINT32 key 4) of (X, Y) \<Rightarrow> subkeys 16 X Y)"

section \<open>Encoding and decoding\<close>

definition des_key :: "bytes \<Rightarrow> u32 list outcome" where
  "des_key key = (if List.length key \<noteq> 8 then Lua_error ''Invalid key size'' else Done (des_main_ks key))"

definition des_tail :: "bytes \<Rightarrow> bytes" where
  "des_tail txt = map (\<lambda>j. if j < List.length txt then txt ! j else if j = List.length txt then 0x80 else 0) [0..<8]"

function des_chunks :: "u32 list \<Rightarrow> bytes \<Rightarrow> bytes" where
  "des_chunks SK txt =
     (if 7 < List.length txt then des_crypt SK (take 8 txt) @ des_chunks SK (drop 8 txt) else des_crypt SK (des_tail txt))"
  by pat_completeness auto
termination by (relation "measure (\<lambda>(_, t). List.length t)") auto

declare des_chunks.simps [simp del]

definition ldesencode :: "bytes \<Rightarrow> bytes \<Rightarrow> bytes outcome" where
  "ldesencode key txt = bind_outcome (des_key key) (\<lambda>SK. Done (des_chunks SK txt))"

definition reverse_keys :: "u32 list \<Rightarrow> u32 list" where
  "reverse_keys ESK = concat (map (\<lambda>i. [ESK ! (30 - 2 * i), ESK ! (31 - 2 * i)]) [0..<16])"

function des_blocks :: "u32 list \<Rightarrow> bytes \<Rightarrow> bytes" where
  "des_blocks SK txt = (if txt = [] then [] else des_crypt SK (take 8 txt) @ des_blocks SK (drop 8 txt))"
  by pat_completeness auto
termination by (relation "measure (\<lambda>(_, t). List.length t)") auto

declare des_blocks.simps [simp del]

text \<open>
  The loop over the last eight bytes, the last one first; \<open>n\<close> is \<open>textsz\<close>. Its condition compares an
  \<open>int\<close> with \<open>size_t\<close>: with a single block it goes on before the first byte.
\<close>

fun des_padding :: "nat \<Rightarrow> nat \<Rightarrow> bytes \<Rightarrow> nat outcome" where
  "des_padding n padding [] = (if n = 8 then Crash else Done padding)"
| "des_padding n padding (b # bs) =
     (if b = 0 then des_padding n (padding + 1) bs
      else if b = 0x80 then Done padding else Lua_error ''Invalid des crypt text'')"

definition ldesdecode :: "bytes \<Rightarrow> bytes \<Rightarrow> bytes outcome" where
  "ldesdecode key txt =
     bind_outcome (des_key key) (\<lambda>ESK.
       if List.length txt mod 8 \<noteq> 0 \<or> txt = [] then Lua_error ''Invalid des crypt text length''
       else
         (let buffer = des_blocks (reverse_keys ESK) txt in
          bind_outcome (des_padding (List.length txt) 1 (take 8 (rev buffer))) (\<lambda>padding.
            if 8 < padding then Lua_error ''Invalid des crypt text''
            else Done (take (List.length txt - padding) buffer))))"

section \<open>Hashes\<close>

text \<open>\<open>Hash\<close>: the two hashes over the text, and their bytes.\<close>

definition hash_step :: "u32 \<times> u32 \<Rightarrow> u8 \<Rightarrow> u32 \<times> u32" where
  "hash_step = (\<lambda>(djb_hash, js_hash) c.
     (djb_hash + (push_bit 5 djb_hash + ucast c), js_hash XOR (push_bit 5 js_hash + ucast c + drop_bit 2 js_hash)))"

definition Hash :: "bytes \<Rightarrow> bytes" where
  "Hash str = (case foldl hash_step (5381, 1315423911) str of (djb_hash, js_hash) \<Rightarrow> le_bytes 4 djb_hash @ le_bytes 4 js_hash)"

definition md5_k :: "u32 list" where
  "md5_k = [
     0xd76aa478, 0xe8c7b756, 0x242070db, 0xc1bdceee, 0xf57c0faf, 0x4787c62a, 0xa8304613, 0xfd469501,
     0x698098d8, 0x8b44f7af, 0xffff5bb1, 0x895cd7be, 0x6b901122, 0xfd987193, 0xa679438e, 0x49b40821,
     0xf61e2562, 0xc040b340, 0x265e5a51, 0xe9b6c7aa, 0xd62f105d, 0x02441453, 0xd8a1e681, 0xe7d3fbc8,
     0x21e1cde6, 0xc33707d6, 0xf4d50d87, 0x455a14ed, 0xa9e3e905, 0xfcefa3f8, 0x676f02d9, 0x8d2a4c8a,
     0xfffa3942, 0x8771f681, 0x6d9d6122, 0xfde5380c, 0xa4beea44, 0x4bdecfa9, 0xf6bb4b60, 0xbebfbc70,
     0x289b7ec6, 0xeaa127fa, 0xd4ef3085, 0x04881d05, 0xd9d4d039, 0xe6db99e5, 0x1fa27cf8, 0xc4ac5665,
     0xf4292244, 0x432aff97, 0xab9423a7, 0xfc93a039, 0x655b59c3, 0x8f0ccc92, 0xffeff47d, 0x85845dd1,
     0x6fa87e4f, 0xfe2ce6e0, 0xa3014314, 0x4e0811a1, 0xf7537e82, 0xbd3af235, 0x2ad7d2bb, 0xeb86d391]"

definition md5_r :: "nat list" where
  "md5_r = [
     7, 12, 17, 22, 7, 12, 17, 22, 7, 12, 17, 22, 7, 12, 17, 22,
     5, 9, 14, 20, 5, 9, 14, 20, 5, 9, 14, 20, 5, 9, 14, 20,
     4, 11, 16, 23, 4, 11, 16, 23, 4, 11, 16, 23, 4, 11, 16, 23,
     6, 10, 15, 21, 6, 10, 15, 21, 6, 10, 15, 21, 6, 10, 15, 21]"

definition LEFTROTATE :: "u32 \<Rightarrow> nat \<Rightarrow> u32" where
  "LEFTROTATE x c = push_bit c x OR drop_bit (32 - c) x"

definition hmac_words :: "u32 \<times> u32 \<Rightarrow> u32 \<times> u32 \<Rightarrow> u32 list" where
  "hmac_words x y = concat (replicate 4 [snd x, fst x, snd y, fst y])"

definition hmac_round :: "u32 list \<Rightarrow> nat \<Rightarrow> u32 \<times> u32 \<times> u32 \<times> u32 \<Rightarrow> u32 \<times> u32 \<times> u32 \<times> u32" where
  "hmac_round w i = (\<lambda>(a, b, c, d).
     (let (f, g) = (if i < 16 then ((b AND c) OR (NOT b AND d), i)
                    else if i < 32 then ((d AND b) OR (NOT d AND c), (5 * i + 1) mod 16)
                    else if i < 48 then (b XOR c XOR d, (3 * i + 5) mod 16)
                    else (c XOR (b OR NOT d), (7 * i) mod 16))
      in (d, b + LEFTROTATE (a + f + md5_k ! i + w ! g) (md5_r ! i), b, c)))"

definition hmac :: "u32 \<times> u32 \<Rightarrow> u32 \<times> u32 \<Rightarrow> u32 \<times> u32" where
  "hmac x y =
     (case foldl (\<lambda>s i. hmac_round (hmac_words x y) i s) (0x67452301, 0xefcdab89, 0x98badcfe, 0x10325476) [0..<64] of
        (a, b, c, d) \<Rightarrow> (c XOR d, a XOR b))"

text \<open>Eight bytes as two words, \<open>pushqword\<close> and \<open>read64\<close>.\<close>

definition qword :: "bytes \<Rightarrow> u32 \<times> u32" where
  "qword x = (le_word (take 4 x), le_word (drop 4 x))"

definition pushqword :: "u32 \<times> u32 \<Rightarrow> bytes" where
  "pushqword result = le_bytes 4 (fst result) @ le_bytes 4 (snd result)"

definition read64 :: "bytes \<Rightarrow> bytes \<Rightarrow> ((u32 \<times> u32) \<times> (u32 \<times> u32)) outcome" where
  "read64 x y =
     (if List.length x \<noteq> 8 then Lua_error ''Invalid uint64 x''
      else if List.length y \<noteq> 8 then Lua_error ''Invalid uint64 y'' else Done (qword x, qword y))"

definition lhashkey :: "bytes \<Rightarrow> bytes" where
  "lhashkey key = Hash key"

definition lhmac64 :: "bytes \<Rightarrow> bytes \<Rightarrow> bytes outcome" where
  "lhmac64 x y = bind_outcome (read64 x y) (\<lambda>(x, y). Done (pushqword (hmac x y)))"

definition lhmac_hash :: "bytes \<Rightarrow> bytes \<Rightarrow> bytes outcome" where
  "lhmac_hash x txt =
     (if List.length x \<noteq> 8 then Lua_error ''Invalid uint64 key'' else Done (pushqword (hmac (qword (Hash txt)) (qword x))))"

section \<open>Hexadecimal\<close>

definition hex_digit :: "u8 \<Rightarrow> u8" where
  "hex_digit n = of_nat (of_char (''0123456789abcdef'' ! unat n))"

definition ltohex :: "bytes \<Rightarrow> bytes" where
  "ltohex txt = concat (map (\<lambda>b. [hex_digit (drop_bit 4 b), hex_digit (b AND 0xf)]) txt)"

text \<open>\<open>HEX\<close>: the character is a signed one, and the digit is put into a byte.\<close>

definition HEX :: "u8 \<Rightarrow> u8" where
  "HEX c = (if 48 \<le> sint c \<and> sint c \<le> 57 then c - 48 else c - 97 + 10)"

text \<open>The text ends with a zero, which is read when its size is odd.\<close>

definition hex_byte :: "u8 \<Rightarrow> u8 \<Rightarrow> u8 outcome" where
  "hex_byte a b =
     (let hi = HEX a; low = HEX b in
      if 16 < hi \<or> 16 < low then Lua_error ''Invalid hex text'' else Done (push_bit 4 hi OR low))"

fun fromhex_loop :: "bytes \<Rightarrow> bytes outcome" where
  "fromhex_loop [] = Done []"
| "fromhex_loop [a] = bind_outcome (hex_byte a 0) (\<lambda>x. Done [x])"
| "fromhex_loop (a # b # txt) = bind_outcome (hex_byte a b) (\<lambda>x. bind_outcome (fromhex_loop txt) (\<lambda>bs. Done (x # bs)))"

definition lfromhex :: "bytes \<Rightarrow> bytes outcome" where
  "lfromhex txt =
     (if (of_nat (List.length txt) :: u64) AND 2 \<noteq> 0 then Lua_error ''Invalid hex text size'' else fromhex_loop txt)"

section \<open>Key exchange\<close>

definition DH_P :: u64 where "DH_P = 0xffffffffffffffc5"
definition DH_G :: u64 where "DH_G = 5"

function mul_loop :: "u64 \<Rightarrow> u64 \<Rightarrow> u64 \<Rightarrow> u64" where
  "mul_loop m a b =
     (if b = 0 then m
      else
        (let t = DH_P - a;
             m1 = (if b AND 1 \<noteq> 0 then (if t \<le> m then m - t else m + a) else m);
             a1 = (if DH_P - a \<le> a then a * 2 - DH_P else a * 2)
         in mul_loop m1 a1 (drop_bit 1 b)))"
  by pat_completeness auto
termination
  by (relation "measure (\<lambda>(m, a, b). unat b)") (auto simp: unat_drop_bit_div unat_gt_0)

declare mul_loop.simps [simp del]

definition mul_mod_p :: "u64 \<Rightarrow> u64 \<Rightarrow> u64" where
  "mul_mod_p a b = mul_loop 0 a b"

definition pow_step :: "u64 \<Rightarrow> u64 \<Rightarrow> u64 \<Rightarrow> u64" where
  "pow_step a b t = (let t1 = mul_mod_p t t in if b mod 2 \<noteq> 0 then mul_mod_p t1 a else t1)"

text \<open>The recursion ends at 1; from 0 it does not end.\<close>

partial_function (option) pow_mod_p :: "u64 \<Rightarrow> u64 \<Rightarrow> u64 option" where
  "pow_mod_p a b =
     (if b = 1 then Some a
      else Option.bind (pow_mod_p a (drop_bit 1 b)) (\<lambda>t. Some (pow_step a b t)))"

definition powmodp :: "u64 \<Rightarrow> u64 \<Rightarrow> u64 option" where
  "powmodp a b = pow_mod_p (if DH_P < a then a mod DH_P else a) b"

definition join64 :: "u32 \<times> u32 \<Rightarrow> u64" where
  "join64 x = ucast (fst x) OR push_bit 32 (ucast (snd x))"

text \<open>The result of a function that may not return: \<open>None\<close>.\<close>

definition ldhsecret :: "bytes \<Rightarrow> bytes \<Rightarrow> bytes outcome option" where
  "ldhsecret x y =
     (case read64 x y of
        Done (x, y) \<Rightarrow> map_option (\<lambda>r. Done (le_bytes 8 r)) (powmodp (join64 x) (join64 y))
      | Lua_error e \<Rightarrow> Some (Lua_error e) | Crash \<Rightarrow> Some Crash | No_fuel \<Rightarrow> Some No_fuel)"

definition ldhexchange :: "bytes \<Rightarrow> bytes outcome option" where
  "ldhexchange x =
     (if List.length x \<noteq> 8 then Some (Lua_error ''Invalid dh uint64 key'')
      else map_option (\<lambda>r. Done (le_bytes 8 r)) (powmodp DH_G (join64 (qword x))))"

section \<open>Base64\<close>

definition encoding :: string where
  "encoding = ''ABCDEFGHIJKLMNOPQRSTUVWXYZabcdefghijklmnopqrstuvwxyz0123456789+/''"

definition b64char :: "u32 \<Rightarrow> u8" where
  "b64char v = of_nat (of_char (encoding ! unat v))"

fun lb64encode :: "bytes \<Rightarrow> bytes" where
  "lb64encode (a # b # c # txt) =
     (let v = push_bit 16 (ucast a) OR push_bit 8 (ucast b) OR (ucast c :: u32) in
      b64char (drop_bit 18 v) # b64char (drop_bit 12 v AND 0x3f) # b64char (drop_bit 6 v AND 0x3f) # b64char (v AND 0x3f)
        # lb64encode txt)"
| "lb64encode [a, b] =
     (let v = push_bit 8 (ucast a) OR (ucast b :: u32) in
      [b64char (drop_bit 10 v), b64char (drop_bit 4 v AND 0x3f), b64char (push_bit 2 (v AND 0xf)), 61])"
| "lb64encode [a] =
     (let v = (ucast a :: u32) in [b64char (drop_bit 2 v), b64char (push_bit 4 (v AND 3)), 61, 61])"
| "lb64encode [] = []"

definition decoding :: "int list" where
  "decoding = [
     62, -1, -1, -1, 63, 52, 53, 54, 55, 56, 57, 58, 59, 60, 61, -1, -1, -1, -2, -1,
     -1, -1, 0, 1, 2, 3, 4, 5, 6, 7, 8, 9, 10, 11, 12, 13, 14, 15, 16, 17,
     18, 19, 20, 21, 22, 23, 24, 25, -1, -1, -1, -1, -1, -1, 26, 27, 28, 29, 30, 31,
     32, 33, 34, 35, 36, 37, 38, 39, 40, 41, 42, 43, 44, 45, 46, 47, 48, 49, 50, 51]"

definition b64index :: "u8 \<Rightarrow> int" where
  "b64index c =
     (if c < 43 then -1 else if int (List.length decoding) \<le> uint (c - 43) then -1 else decoding ! unat (c - 43))"

text \<open>The next characters that are in the alphabet, \<open>j\<close> of them, and the text after them.\<close>

fun b64_take :: "nat \<Rightarrow> bytes \<Rightarrow> (int list \<times> bytes) outcome" where
  "b64_take 0 txt = Done ([], txt)"
| "b64_take (Suc j) [] = Lua_error ''Invalid base64 text''"
| "b64_take (Suc j) (x # txt) =
     (if b64index x = -1 then b64_take (Suc j) txt
      else bind_outcome (b64_take j txt) (\<lambda>(c, rest). Done (b64index x # c, rest)))"

definition i32_of :: "int \<Rightarrow> u32" where "i32_of c = of_int c"

definition b64_group :: "int list \<Rightarrow> bytes outcome" where
  "b64_group c =
     (let padding = List.length (filter (\<lambda>x. x = -2) c) in
      if padding = 0 then
        (let v = push_bit 18 (i32_of (c ! 0)) OR push_bit 12 (i32_of (c ! 1)) OR push_bit 6 (i32_of (c ! 2)) OR i32_of (c ! 3)
         in Done [ucast (drop_bit 16 v), ucast (drop_bit 8 v AND 0xff), ucast (v AND 0xff)])
      else if padding = 1 then
        (if c ! 3 \<noteq> -2 \<or> i32_of (c ! 2) AND 3 \<noteq> 0 then Lua_error ''Invalid base64 text''
         else (let v = push_bit 10 (i32_of (c ! 0)) OR push_bit 4 (i32_of (c ! 1)) OR drop_bit 2 (i32_of (c ! 2))
               in Done [ucast (drop_bit 8 v), ucast (v AND 0xff)]))
      else if padding = 2 then
        (if c ! 3 \<noteq> -2 \<or> c ! 2 \<noteq> -2 \<or> i32_of (c ! 1) AND 0xf \<noteq> 0 then Lua_error ''Invalid base64 text''
         else (let v = push_bit 2 (i32_of (c ! 0)) OR drop_bit 4 (i32_of (c ! 1)) in Done [ucast v]))
      else Lua_error ''Invalid base64 text'')"

lemma b64_take_shorter: "b64_take j s = Done (c, rest) \<Longrightarrow> List.length rest + j \<le> List.length s"
  by (induction j s arbitrary: c rest rule: b64_take.induct) (fastforce simp: bind_Done_iff split: if_splits)+

function lb64decode :: "bytes \<Rightarrow> bytes outcome" where
  "lb64decode txt =
     (if txt = [] then Done []
      else case b64_take 4 txt of
        Done (c, rest) \<Rightarrow> bind_outcome (b64_group c) (\<lambda>bs. bind_outcome (lb64decode rest) (\<lambda>out. Done (bs @ out)))
      | Lua_error e \<Rightarrow> Lua_error e | Crash \<Rightarrow> Crash | No_fuel \<Rightarrow> No_fuel)"
  by pat_completeness auto
termination
  by (relation "measure List.length") (auto dest!: b64_take_shorter)

declare lb64decode.simps [simp del]

end
