(* ===== verification/CryptCorrect.thy ===== *)
theory CryptCorrect
  imports Crypt "HOL-Library.Sublist"
begin

text \<open>
  What \<open>lua-crypt.c\<close> encodes it decodes again: DES with its padding, hexadecimal and base64 text; and both
  sides of a key exchange come to the same secret.
\<close>

section \<open>DES\<close>

lemma swap_bits_swap_bits:
  assumes "drop_bit s (push_bit s m) = m"
  shows "swap_bits s m (swap_bits s m p) = p"
proof -
  obtain X Y where p: "p = (X, Y)" by (cases p)
  define T where "T = (drop_bit s X XOR Y) AND m"
  have "drop_bit s (push_bit s T) = T"
  proof (rule bit_word_eqI)
    fix n assume "n < LENGTH(32)"
    have "bit (drop_bit s (push_bit s m)) n = bit m n" using assms by simp
    then have "bit m n \<Longrightarrow> s + n < 32" by (auto simp: bit_simps)
    then show "bit (drop_bit s (push_bit s T)) n = bit T n" by (auto simp: T_def bit_simps)
  qed
  moreover have "drop_bit s (X XOR push_bit s T) = drop_bit s X XOR drop_bit s (push_bit s T)"
    by (rule bit_word_eqI) (simp add: bit_simps)
  ultimately have e: "drop_bit s (X XOR push_bit s T) = drop_bit s X XOR T" by metis
  have "drop_bit s (X XOR push_bit s T) XOR (Y XOR T) = drop_bit s X XOR Y"
    unfolding e by (rule bit_word_eqI) (auto simp only: bit_xor_iff)
  then have "swap_bits s m (X XOR push_bit s T, Y XOR T) = ((X XOR push_bit s T) XOR push_bit s T, (Y XOR T) XOR T)"
    unfolding swap_bits_def Let_def by (simp only: prod.case T_def [symmetric])
  moreover have "swap_bits s m p = (X XOR push_bit s T, Y XOR T)" by (simp add: p swap_bits_def Let_def T_def)
  ultimately show ?thesis by (simp only: p xor.assoc xor_self_eq xor.right_neutral)
qed

lemma bit_rotations:
  "n < 32 \<Longrightarrow> bit (rotl1 x) n \<longleftrightarrow> bit x (if n = 0 then 31 else n - 1)"
  "n < 32 \<Longrightarrow> bit (rotr1 x) n \<longleftrightarrow> bit x (if n = 31 then 0 else Suc n)"
proof -
  have ff: "(0xFFFFFFFF :: u32) = -1" by simp
  assume n: "n < 32"
  have no: "\<not> bit x k" if "32 \<le> k" for k using that bit_imp_le_length [of x k] by auto
  have "bit (rotl1 x) n \<longleftrightarrow> 1 \<le> n \<and> bit x (n - 1) \<or> bit x (31 + n)"
    using n unfolding rotl1_def ff and.right_neutral bit_or_iff bit_push_bit_iff bit_drop_bit_eq by simp
  then show "bit (rotl1 x) n \<longleftrightarrow> bit x (if n = 0 then 31 else n - 1)" using no [of "31 + n"] by (cases "n = 0") simp_all
  have "bit (rotr1 x) n \<longleftrightarrow> 31 \<le> n \<and> bit x (n - 31) \<or> bit x (1 + n)"
    using n unfolding rotr1_def ff and.right_neutral bit_or_iff bit_push_bit_iff bit_drop_bit_eq by simp
  then show "bit (rotr1 x) n \<longleftrightarrow> bit x (if n = 31 then 0 else Suc n)" using n no [of 32] by (cases "n = 31") simp_all
qed

lemma rotations: "rotr1 (rotl1 x) = x" "rotl1 (rotr1 x) = x"
proof -
  have 1: "bit (rotr1 (rotl1 x)) n = bit x n" if "n < 32" for n
    using that by (cases "n = 31") (simp_all add: bit_rotations)
  have 2: "bit (rotl1 (rotr1 x)) n = bit x n" if "n < 32" for n
    using that by (cases n) (simp_all add: bit_rotations)
  show "rotr1 (rotl1 x) = x" "rotl1 (rotr1 x) = x" by (rule bit_word_eqI; simp add: 1 2)+
qed

lemma round_masks:
  "drop_bit 4 (push_bit 4 (0x0F0F0F0F :: u32)) = 0x0F0F0F0F" "drop_bit 16 (push_bit 16 (0x0000FFFF :: u32)) = 0x0000FFFF"
  "drop_bit 2 (push_bit 2 (0x33333333 :: u32)) = 0x33333333" "drop_bit 8 (push_bit 8 (0x00FF00FF :: u32)) = 0x00FF00FF"
  "drop_bit 0 (push_bit 0 (0xAAAAAAAA :: u32)) = 0xAAAAAAAA"
  by simp_all

lemmas swaps = swap_bits_swap_bits [OF round_masks(1)] swap_bits_swap_bits [OF round_masks(2)] swap_bits_swap_bits [OF round_masks(3)]
  swap_bits_swap_bits [OF round_masks(4)] swap_bits_swap_bits [OF round_masks(5)]

lemma DES_IP_FP: "DES_IP (DES_FP p) = p"
proof -
  obtain X0 Y0 where p: "p = (X0, Y0)" by (cases p)
  obtain X2 Y2 where 2: "swap_bits 0 0xAAAAAAAA (rotr1 X0, Y0) = (X2, Y2)" by fastforce
  obtain Y4 X4 where 4: "swap_bits 2 0x33333333 (swap_bits 8 0x00FF00FF (rotr1 Y2, X2)) = (Y4, X4)" by fastforce
  have fp: "DES_FP p = swap_bits 4 0x0F0F0F0F (swap_bits 16 0x0000FFFF (X4, Y4))"
    by (simp add: DES_FP_def p 2 4)
  have "swap_bits 16 0x0000FFFF (swap_bits 4 0x0F0F0F0F (DES_FP p)) = (X4, Y4)" by (simp only: fp swaps)
  moreover have "swap_bits 8 0x00FF00FF (swap_bits 2 0x33333333 (Y4, X4)) = (rotr1 Y2, X2)" by (simp only: 4 [symmetric] swaps)
  moreover have "swap_bits 0 0xAAAAAAAA (X2, Y2) = (rotr1 X0, Y0)" by (simp only: 2 [symmetric] swaps)
  ultimately show ?thesis by (simp add: DES_IP_def p rotations)
qed

lemma DES_FP_IP: "DES_FP (DES_IP p) = p"
proof -
  obtain X2 Y2 where 2: "swap_bits 16 0x0000FFFF (swap_bits 4 0x0F0F0F0F p) = (X2, Y2)" by fastforce
  obtain Y4 X4 where 4: "swap_bits 8 0x00FF00FF (swap_bits 2 0x33333333 (Y2, X2)) = (Y4, X4)" by fastforce
  obtain X6 Y6 where 6: "swap_bits 0 0xAAAAAAAA (X4, rotl1 Y4) = (X6, Y6)" by fastforce
  have ip: "DES_IP p = (rotl1 X6, Y6)" by (simp add: DES_IP_def 2 4 6)
  have "swap_bits 0 0xAAAAAAAA (X6, Y6) = (X4, rotl1 Y4)" by (simp only: 6 [symmetric] swaps)
  moreover have "swap_bits 2 0x33333333 (swap_bits 8 0x00FF00FF (Y4, X4)) = (Y2, X2)" by (simp only: 4 [symmetric] swaps)
  moreover have "swap_bits 4 0x0F0F0F0F (swap_bits 16 0x0000FFFF (X2, Y2)) = p" by (simp only: 2 [symmetric] swaps)
  ultimately show ?thesis unfolding ip by (simp add: DES_FP_def rotations)
qed

text \<open>The rounds are undone by the same rounds with the words of the schedule in reverse pairs.\<close>

lemma DES_ROUND_twice: "DES_ROUND k1 k2 X (DES_ROUND k1 k2 X Y) = Y"
  by (simp add: DES_ROUND_def Let_def xor.assoc xor.left_commute)

fun reversed :: "u32 list \<Rightarrow> u32 list" where
  "reversed (k1 # k2 # k3 # k4 # SK) = reversed SK @ [k3, k4, k1, k2]"
| "reversed _ = []"

lemma four_dvd [simp]: "4 dvd Suc (Suc (Suc (Suc n))) \<longleftrightarrow> 4 dvd n"
  by presburger

lemma not_four_dvd [simp]: "\<not> 4 dvd Suc 0" "\<not> 4 dvd Suc (Suc 0)" "\<not> 4 dvd Suc (Suc (Suc 0))"
  by presburger+

lemma length_reversed: "4 dvd List.length SK \<Longrightarrow> 4 dvd List.length (reversed SK)"
  by (induction SK rule: reversed.induct) auto

lemma des_rounds_append: "4 dvd List.length SK \<Longrightarrow> des_rounds (SK @ SK') p = des_rounds SK' (des_rounds SK p)"
  by (induction SK p rule: des_rounds.induct) (auto simp: Let_def)

lemma des_rounds_reversed: "4 dvd List.length SK \<Longrightarrow> des_rounds (reversed SK) (prod.swap (des_rounds SK p)) = prod.swap p"
proof (induction SK p rule: des_rounds.induct)
  case (1 k1 k2 k3 k4 SK X Y)
  let ?X1 = "DES_ROUND k1 k2 Y X" let ?Y1 = "DES_ROUND k3 k4 ?X1 Y"
  have len: "4 dvd List.length SK" using 1(2) by simp
  have "des_rounds (reversed SK) (prod.swap (des_rounds SK (?X1, ?Y1))) = (?Y1, ?X1)" using 1(1) [OF refl refl len] by simp
  then show ?case
    by (simp add: Let_def des_rounds_append length_reversed len DES_ROUND_twice)
qed auto

lemma length_subkeys: "List.length (subkeys n X Y) = 2 * n"
  by (induction n arbitrary: X Y) (simp_all add: Let_def)

lemma length_des_main_ks: "List.length (des_main_ks key) = 32"
  by (simp add: des_main_ks_def length_subkeys split: prod.split)

lemma reverse_keys_reversed:
  assumes "List.length SK = 32"
  shows "reverse_keys SK = reversed SK"
proof -
  have "SK = map ((!) SK) [0..<32]" using assms map_nth [of SK] by simp
  also have "[0..<32] = [0, 1, 2, 3, 4, 5, 6, 7, 8, 9, 10, 11, 12, 13, 14, 15, 16, 17, 18, 19, 20, 21, 22, 23, 24, 25, 26, 27, 28, 29, 30, 31 :: nat]"
    by (simp add: upt_rec)
  finally have sk: "SK = map ((!) SK) [0, 1, 2, 3, 4, 5, 6, 7, 8, 9, 10, 11, 12, 13, 14, 15, 16, 17, 18, 19, 20, 21, 22, 23, 24, 25, 26, 27, 28, 29, 30, 31]" .
  have "[0..<16] = [0, 1, 2, 3, 4, 5, 6, 7, 8, 9, 10, 11, 12, 13, 14, 15 :: nat]" by (simp add: upt_rec)
  then have "reverse_keys SK = map ((!) SK) [30, 31, 28, 29, 26, 27, 24, 25, 22, 23, 20, 21, 18, 19, 16, 17, 14, 15, 12, 13, 10, 11, 8, 9, 6, 7, 4, 5, 2, 3, 0, 1]"
    by (simp add: reverse_keys_def)
  moreover have "reversed (map ((!) SK) [0, 1, 2, 3, 4, 5, 6, 7, 8, 9, 10, 11, 12, 13, 14, 15, 16, 17, 18, 19, 20, 21, 22, 23, 24, 25, 26, 27, 28, 29, 30, 31])
      = map ((!) SK) [30, 31, 28, 29, 26, 27, 24, 25, 22, 23, 20, 21, 18, 19, 16, 17, 14, 15, 12, 13, 10, 11, 8, 9, 6, 7, 4, 5, 2, 3, 0, 1]"
    by simp
  ultimately show ?thesis using sk by metis
qed

text \<open>One block.\<close>

lemma PUT_GET:
  assumes "i + 4 \<le> List.length b"
  shows "PUT_UINT32 (GET_UINT32 b i) = take 4 (drop i b)"
proof -
  have "ucast (drop_bit 24 (GET_UINT32 b i)) = b ! i" "ucast (drop_bit 16 (GET_UINT32 b i)) = b ! (i + 1)"
    "ucast (drop_bit 8 (GET_UINT32 b i)) = b ! (i + 2)" "ucast (GET_UINT32 b i) = b ! (i + 3)"
    unfolding GET_UINT32_def
    by (rule bit_word_eqI; auto simp: bit_simps dest: bit_imp_le_length)+
  moreover have "take 4 (drop i b) = [b ! i, b ! (i + 1), b ! (i + 2), b ! (i + 3)]"
    using assms by (simp add: list_eq_iff_nth_eq nth_Cons' numeral_eq_Suc less_Suc_eq add.commute)
  ultimately show ?thesis by (simp add: PUT_UINT32_def)
qed

lemma length_GET [simp]: "List.length (PUT_UINT32 x) = 4"
  by (simp add: PUT_UINT32_def)

lemma GET_PUT: "GET_UINT32 (PUT_UINT32 x @ PUT_UINT32 y) 0 = x" "GET_UINT32 (PUT_UINT32 x @ PUT_UINT32 y) 4 = y"
proof -
  have "push_bit 24 (ucast (ucast (drop_bit 24 z) :: u8)) OR push_bit 16 (ucast (ucast (drop_bit 16 z) :: u8))
      OR push_bit 8 (ucast (ucast (drop_bit 8 z) :: u8)) OR ucast (ucast z :: u8) = (z :: u32)" for z
  proof (rule bit_word_eqI)
    fix n assume "n < LENGTH(32)"
    then have "n = 8 * (n div 8) + n mod 8" "n mod 8 < 8" "n div 8 < 4" by simp_all
    then obtain q k where k: "n = 8 * q + k" "k < 8" "q < 4" by blast
    then have "q = 0 \<or> q = 1 \<or> q = 2 \<or> q = 3" by linarith
    then show "bit (push_bit 24 (ucast (ucast (drop_bit 24 z) :: u8)) OR push_bit 16 (ucast (ucast (drop_bit 16 z) :: u8))
        OR push_bit 8 (ucast (ucast (drop_bit 8 z) :: u8)) OR ucast (ucast z :: u8) :: u32) n = bit z n"
      by (elim disjE) (use k in \<open>simp_all add: bit_simps\<close>)
  qed
  then show "GET_UINT32 (PUT_UINT32 x @ PUT_UINT32 y) 0 = x" "GET_UINT32 (PUT_UINT32 x @ PUT_UINT32 y) 4 = y"
    by (simp_all add: GET_UINT32_def PUT_UINT32_def eval_nat_numeral)
qed

lemma length_des_crypt [simp]: "List.length (des_crypt SK b) = 8"
  by (simp add: des_crypt_def Let_def split: prod.split)

lemma des_crypt_nonempty [simp]: "des_crypt SK b \<noteq> []"
  by (metis length_des_crypt list.size(3) zero_neq_numeral)

lemma des_crypt_inverse:
  assumes SK: "List.length SK = 32" and b: "List.length b = 8"
  shows "des_crypt (reversed SK) (des_crypt SK b) = b"
proof -
  obtain X0 Y0 where ip: "DES_IP (GET_UINT32 b 0, GET_UINT32 b 4) = (X0, Y0)" by fastforce
  obtain X Y where r: "des_rounds SK (X0, Y0) = (X, Y)" by fastforce
  obtain A B where fp: "DES_FP (Y, X) = (A, B)" by fastforce
  have enc: "des_crypt SK b = PUT_UINT32 A @ PUT_UINT32 B" by (simp add: des_crypt_def ip r fp)
  have "DES_IP (A, B) = (Y, X)" using DES_IP_FP [of "(Y, X)"] fp by simp
  moreover have "des_rounds (reversed SK) (Y, X) = (Y0, X0)" using des_rounds_reversed [of SK "(X0, Y0)"] SK r by simp
  moreover have "DES_FP (X0, Y0) = (GET_UINT32 b 0, GET_UINT32 b 4)" using DES_FP_IP [of "(GET_UINT32 b 0, GET_UINT32 b 4)"] ip by simp
  ultimately have "des_crypt (reversed SK) (des_crypt SK b) = PUT_UINT32 (GET_UINT32 b 0) @ PUT_UINT32 (GET_UINT32 b 4)"
    by (simp add: enc des_crypt_def [of "reversed SK"] GET_PUT)
  also have "\<dots> = take 4 b @ take 4 (drop 4 b)" using b by (simp add: PUT_GET)
  also have "\<dots> = b" using b by (simp add: take_add [symmetric])
  finally show ?thesis .
qed

text \<open>The blocks, and the padding.\<close>

definition des_pad :: "bytes \<Rightarrow> bytes" where
  "des_pad t = t @ 0x80 # replicate (7 - List.length t mod 8) 0"

lemma des_tail_pad: "List.length t < 8 \<Longrightarrow> des_tail t = des_pad t"
  by (rule nth_equalityI) (auto simp: des_tail_def des_pad_def nth_append nth_Cons')

lemma des_pad_drop: "8 \<le> List.length t \<Longrightarrow> des_pad t = take 8 t @ des_pad (drop 8 t)"
  by (simp add: des_pad_def le_mod_geq)

lemma des_blocks_chunks:
  assumes "List.length SK = 32"
  shows "des_blocks (reversed SK) (des_chunks SK t) = des_pad t"
proof (induction "List.length t" arbitrary: t rule: less_induct)
  case less
  show ?case
  proof (cases "7 < List.length t")
    case True
    have "des_blocks (reversed SK) (des_chunks SK (drop 8 t)) = des_pad (drop 8 t)" by (rule less) (use True in simp)
    then have "des_blocks (reversed SK) (des_crypt SK (take 8 t) @ des_chunks SK (drop 8 t)) = take 8 t @ des_pad (drop 8 t)"
      using des_crypt_inverse [OF assms, of "take 8 t"] True by (subst des_blocks.simps) simp
    then show ?thesis using True by (subst des_chunks.simps) (simp add: des_pad_drop)
  next
    case False
    then have "List.length (des_pad t) = 8" by (simp add: des_pad_def)
    moreover have "des_blocks SK' [] = []" for SK' by (simp add: des_blocks.simps)
    ultimately show ?thesis using False
      by (subst des_chunks.simps, subst des_blocks.simps) (simp add: des_tail_pad des_crypt_inverse [OF assms])
  qed
qed

lemma length_des_chunks: "List.length (des_chunks SK t) = 8 * (List.length t div 8 + 1)"
proof (induction "List.length t" arbitrary: t rule: less_induct)
  case less
  then show ?case by (subst des_chunks.simps) (auto simp: le_div_geq)
qed

lemma des_padding_zeros: "des_padding n p (replicate k 0 @ 0x80 # rest) = Done (p + k)"
  by (induction k arbitrary: p) simp_all

text \<open>
  C38. Whatever the text, a text encoded with an 8-byte key is decoded to itself with the same key; keys of
  other sizes are refused by both.
\<close>

theorem des_roundtrip:
  "if List.length key = 8 then bind_outcome (ldesencode key t) (ldesdecode key) = Done t
   else (\<exists>e. ldesencode key t = Lua_error e) \<and> (\<forall>c. \<exists>e. ldesdecode key c = Lua_error e)"
proof (cases "List.length key = 8")
  case True
  let ?SK = "des_main_ks key" let ?k = "7 - List.length t mod 8" let ?c = "des_chunks ?SK t"
  have len: "List.length ?c = List.length t + Suc ?k"
  proof -
    have "r < 8 \<Longrightarrow> L = 8 * q + r \<Longrightarrow> 8 * (q + 1) = L + Suc (7 - r)" for L q r :: nat by simp
    from this [of "List.length t mod 8" "List.length t" "List.length t div 8"] show ?thesis
      unfolding length_des_chunks by simp
  qed
  have plain: "des_blocks (reverse_keys ?SK) ?c = des_pad t"
    by (simp add: reverse_keys_reversed length_des_main_ks des_blocks_chunks)
  have "take 8 (rev (des_pad t)) = replicate ?k 0 @ 0x80 # take (List.length t mod 8) (rev t)"
    by (simp add: des_pad_def)
  then have "des_padding n 1 (take 8 (rev (des_pad t))) = Done (Suc ?k)" for n by (simp add: des_padding_zeros)
  moreover have "List.length ?c mod 8 = 0" "?c \<noteq> []" using length_des_chunks [of ?SK t] by auto
  ultimately have "ldesdecode key ?c = Done t"
    using True plain len by (simp add: ldesdecode_def des_key_def Let_def des_pad_def)
  then show ?thesis using True by (simp add: ldesencode_def des_key_def)
next
  case False
  then show ?thesis by (simp add: ldesencode_def ldesdecode_def des_key_def)
qed

section \<open>Hexadecimal\<close>

lemma nibble_cases:
  assumes "unat (n :: u8) < 16"
  shows "n \<in> {0, 1, 2, 3, 4, 5, 6, 7, 8, 9, 10, 11, 12, 13, 14, 15}"
proof -
  have "unat n \<in> set [0..<16]" using assms by simp
  also have "[0..<16] = [0, 1, 2, 3, 4, 5, 6, 7, 8, 9, 10, 11, 12, 13, 14, 15]" by (simp add: upt_rec)
  finally show ?thesis by (auto simp: word_unat_eq_iff)
qed

lemma HEX_digit: "unat n < 16 \<Longrightarrow> HEX (hex_digit n) = n"
  by (drule nibble_cases) (auto simp: HEX_def hex_digit_def)

lemma hex_byte_digits: "hex_byte (hex_digit (drop_bit 4 b)) (hex_digit (b AND 0xf)) = Done b"
proof -
  have "unat (drop_bit 4 b) < 16" using u8_bound [of b] by (simp add: unat_drop_bit_div)
  moreover have "unat (b AND 0xf) < 16" using and_mask_unat [of b 4] by (simp add: mask_eq_exp_minus_1)
  ultimately have h: "HEX (hex_digit (drop_bit 4 b)) = drop_bit 4 b" "HEX (hex_digit (b AND 0xf)) = b AND 0xf"
    "\<not> 16 < drop_bit 4 b" "\<not> 16 < (b AND 0xf)"
    by (simp_all add: HEX_digit word_less_nat_alt)
  have "push_bit 4 (drop_bit 4 b) OR (b AND mask 4) = b" by (rule bit_word_eqI) (auto simp: bit_simps)
  then have "push_bit 4 (drop_bit 4 b) OR (b AND 0xf) = b" by (simp add: mask_eq_exp_minus_1)
  then show ?thesis using h by (simp add: hex_byte_def Let_def)
qed

lemma fromhex_loop_tohex: "fromhex_loop (ltohex t) = Done t"
  by (induction t) (simp_all add: ltohex_def hex_byte_digits)

lemma length_ltohex: "List.length (ltohex t) = 2 * List.length t"
  by (induction t) (simp_all add: ltohex_def)

lemma size_test: "(of_nat (2 * n) :: u64) AND 2 \<noteq> 0 \<longleftrightarrow> odd n"
proof -
  have "(of_nat (2 * n) :: u64) AND 2 = (if bit (of_nat (2 * n) :: u64) 1 then 2 else 0)"
  proof (rule bit_word_eqI)
    fix i assume "i < LENGTH(64)"
    have "bit (2 :: u64) i \<longleftrightarrow> i = 1" by (auto simp: bit_simps bit_2_iff)
    then show "bit ((of_nat (2 * n) :: u64) AND 2) i = bit (if bit (of_nat (2 * n) :: u64) 1 then 2 else 0 :: u64) i"
      by (auto simp: bit_and_iff)
  qed
  moreover have "bit (of_nat (2 * n) :: u64) 1 \<longleftrightarrow> odd n" 
    by (subst bit_of_nat_iff) (simp add: bit_iff_odd)
  ultimately show ?thesis by simp
qed

text \<open>The test of the size looks at the wrong bit: what \<open>hexencode\<close> makes of an odd number of bytes is refused.\<close>

lemma hex_roundtrip: "lfromhex (ltohex t) = (if even (List.length t) then Done t else Lua_error ''Invalid hex text size'')"
  using size_test [of "List.length t"] by (simp add: lfromhex_def length_ltohex fromhex_loop_tohex)

section \<open>Key exchange\<close>

definition modulus :: nat where "modulus = 2 ^ 64 - 59"

lemma unat_DH_P: "unat DH_P = modulus"
  by (simp add: DH_P_def modulus_def)

lemma mul_loop_mod:
  assumes "unat m < modulus" and "unat a < modulus"
  shows "unat (mul_loop m a b) = (unat m + unat a * unat b) mod modulus"
  using assms
proof (induction m a b rule: mul_loop.induct)
  case (1 m a b)
  let ?P = modulus
  have p64: "?P < 2 ^ 64" "0 < ?P" by (simp_all add: modulus_def)
  have t: "unat (DH_P - a) = ?P - unat a"
    using 1(3) by (subst unat_sub) (simp_all add: word_le_nat_alt unat_DH_P)
  define m1 where "m1 = (if b AND 1 \<noteq> 0 then (if DH_P - a \<le> m then m - (DH_P - a) else m + a) else m)"
  define a1 where "a1 = (if DH_P - a \<le> a then a * 2 - DH_P else a * 2)"
  have odd: "b AND 1 \<noteq> 0 \<longleftrightarrow> odd (unat b)"
  proof -
    have "odd (unat b) \<longleftrightarrow> bit b 0" using bit_0 [of "unat b"] by (simp add: bit_unsigned_iff)
    then show ?thesis by (simp add: and_one_eq bit_0 odd_iff_mod_2_eq_one)
  qed
  have m1: "unat m1 = (unat m + (if odd (unat b) then unat a else 0)) mod ?P"
  proof (cases "odd (unat b)")
    case True
    show ?thesis
    proof (cases "DH_P - a \<le> m")
      case le: True
      then have "?P \<le> unat m + unat a" using t 1(3) by (simp add: word_le_nat_alt)
      moreover have "unat m + unat a - ?P < ?P" using 1(2,3) by linarith
      moreover have "unat (m - (DH_P - a)) = unat m + unat a - ?P" using le t 1(3) by (simp add: unat_sub)
      ultimately show ?thesis using True le odd by (simp add: m1_def le_mod_geq)
    next
      case False
      then have "unat m + unat a < ?P" using t 1(3) by (simp add: word_le_nat_alt)
      moreover from this have "unat (m + a) = unat m + unat a" using p64 by (simp add: unat_word_ariths)
      ultimately show ?thesis using True False odd by (simp add: m1_def)
    qed
  qed (use 1(2) odd in \<open>simp add: m1_def\<close>)
  have a1: "unat a1 = (2 * unat a) mod ?P"
  proof (cases "DH_P - a \<le> a")
    case True
    have "a * 2 - DH_P = a - (DH_P - a)" by simp
    then have "unat (a * 2 - DH_P) = unat a - (?P - unat a)" using True t by (simp only: unat_sub)
    moreover have "?P \<le> 2 * unat a" using True t by (simp add: word_le_nat_alt)
    moreover have "2 * unat a - ?P < ?P" using 1(3) by linarith
    ultimately show ?thesis using True 1(3) by (simp add: a1_def le_mod_geq)
  next
    case False
    then have "2 * unat a < ?P" using t 1(3) by (simp add: word_le_nat_alt)
    moreover from this have "unat (a * 2) = 2 * unat a" using p64 by (simp add: unat_word_ariths)
    ultimately show ?thesis using False by (simp add: a1_def)
  qed
  have reduce: "(x mod ?P + (y mod ?P) * z) mod ?P = (x + y * z) mod ?P" for x y z :: nat
    by (metis mod_add_eq mod_mult_left_eq mod_mod_trivial)
  show ?case
  proof (cases "b = 0")
    case True
    then show ?thesis using 1(2) by (simp add: mul_loop.simps)
  next
    case False
    have "unat m1 < ?P" "unat a1 < ?P" using p64(2) by (simp_all add: m1 a1)
    then have "unat (mul_loop m1 a1 (drop_bit 1 b)) = (unat m1 + unat a1 * unat (drop_bit 1 b)) mod ?P"
      using 1(1) [OF False refl m1_def a1_def] by simp
    also have "\<dots> = (unat m + (if odd (unat b) then unat a else 0) + 2 * unat a * (unat b div 2)) mod ?P"
      unfolding m1 a1 unat_drop_bit_div by (simp only: reduce power_one_right)
    also have "unat m + (if odd (unat b) then unat a else 0) + 2 * unat a * (unat b div 2) = unat m + unat a * unat b"
      by (cases "odd (unat b)") (auto elim!: oddE evenE simp: algebra_simps)
    finally show ?thesis using False by (subst mul_loop.simps) (simp add: Let_def m1_def a1_def)
  qed
qed

lemma mul_mod: "unat a < modulus \<Longrightarrow> unat (mul_mod_p a b) = (unat a * unat b) mod modulus"
  using mul_loop_mod [of 0 a b] by (simp add: mul_mod_p_def modulus_def)

lemma pow_mod_p_power:
  assumes "unat a < modulus" and "b \<noteq> 0"
  shows "\<exists>y. pow_mod_p a b = Some y \<and> unat y = unat a ^ unat b mod modulus"
  using assms(2)
proof (induction "unat b" arbitrary: b rule: less_induct)
  case less
  show ?case
  proof (cases "b = 1")
    case True
    then show ?thesis using assms(1) by (subst pow_mod_p.simps) simp
  next
    case False
    have "unat b \<noteq> 0" "unat b \<noteq> 1" using False less.prems word_unat_eq_iff [of b 1] by (auto simp: unat_eq_0)
    moreover have "unat (drop_bit 1 b) = unat b div 2" by (simp add: unat_drop_bit_div)
    ultimately have small: "unat (drop_bit 1 b) < unat b" "drop_bit 1 b \<noteq> 0"
      using unat_0 [where 'a = 64] by (auto simp del: unat_0)
    then obtain t where t: "pow_mod_p a (drop_bit 1 b) = Some t" "unat t = unat a ^ (unat b div 2) mod modulus"
      using less.hyps [OF small] by (auto simp: unat_drop_bit_div)
    have lt: "unat x mod modulus < modulus" "n mod modulus < modulus" for x :: u64 and n by (simp_all add: modulus_def)
    have sq: "unat (mul_mod_p t t) = unat a ^ (2 * (unat b div 2)) mod modulus"
      using t(2) lt by (simp add: mul_mod mod_simps power_add [symmetric] mult_2)
    have "b mod 2 \<noteq> 0 \<longleftrightarrow> odd (unat b)"
      by (simp add: word_unat_eq_iff [of "b mod 2"] unat_mod odd_iff_mod_2_eq_one)
    moreover have "unat (mul_mod_p (mul_mod_p t t) a) = unat a ^ Suc (2 * (unat b div 2)) mod modulus"
      using sq lt by (simp add: mul_mod mod_simps mult.commute)
    moreover have "Suc (2 * (unat b div 2)) = unat b" if "odd (unat b)" using that by simp
    ultimately have "unat (pow_step a b t) = unat a ^ unat b mod modulus"
      using sq by (cases "odd (unat b)") (simp_all add: pow_step_def Let_def del: power_Suc)
    then show ?thesis using False t(1) by (subst pow_mod_p.simps) simp
  qed
qed

lemma pow_mod_p_returns: "pow_mod_p a b = Some y \<Longrightarrow> b \<noteq> 0"
proof (erule pow_mod_p.raw_induct [rotated])
  fix f :: "u64 \<Rightarrow> u64 \<Rightarrow> u64 option" and a b y
  assume IH: "\<And>a b y. f a b = Some y \<Longrightarrow> b \<noteq> 0"
    and eq: "(if b = 1 then Some a else Option.bind (f a (drop_bit 1 b)) (\<lambda>t. Some (pow_step a b t))) = Some y"
  show "b \<noteq> 0" using eq IH [of a "drop_bit 1 b"] by (cases "b = 1") (auto simp: bind_eq_Some_conv)
qed

text \<open>The number that eight bytes stand for.\<close>

abbreviation number :: "bytes \<Rightarrow> u64" where "number x \<equiv> join64 (qword x)"

lemma le_word_bytes_ucast: "(le_word (le_bytes n (w :: 'a::len word)) :: 'b::len word) = ucast (take_bit (8 * n) w)"
proof (induction n arbitrary: w)
  case 0
  then show ?case by (simp add: le_bytes_def)
next
  case (Suc n)
  show ?case
    by (rule bit_word_eqI) (auto simp: le_bytes_Suc Suc bit_simps)
qed

lemma number_le_bytes: "number (le_bytes 8 r) = r"
proof -
  have "take 4 (le_bytes 8 r) = le_bytes 4 r" "drop 4 (le_bytes 8 r) = le_bytes 4 (drop_bit 32 r)"
    by (simp_all add: le_bytes_def upt_rec numeral_eq_Suc)
  then show ?thesis
    by (simp add: join64_def qword_def le_word_bytes_ucast) (rule bit_word_eqI; auto simp: bit_simps)
qed

text \<open>The base must not be the prime itself, which is not reduced.\<close>

lemma powmodp_power:
  assumes "b \<noteq> 0" and "a \<noteq> DH_P"
  shows "\<exists>y. powmodp a b = Some y \<and> unat y = unat a ^ unat b mod modulus"
proof (cases "DH_P < a")
  case True
  have "unat (a mod DH_P) = unat a mod modulus" by (simp add: unat_mod unat_DH_P)
  then show ?thesis using True pow_mod_p_power [of "a mod DH_P" b] assms(1) by (auto simp: powmodp_def modulus_def power_mod)
next
  case False
  then have "unat a < modulus" using assms(2) by (simp add: word_le_nat_alt not_less unat_DH_P [symmetric] word_unat_eq_iff)
  then show ?thesis using False pow_mod_p_power [of a b] assms(1) by (simp add: powmodp_def)
qed

lemma ldhexchange_power:
  assumes "List.length x = 8" and "number x \<noteq> 0"
  shows "\<exists>r :: u64. ldhexchange x = Some (Done (le_bytes 8 r)) \<and> unat r = 5 ^ unat (number x) mod modulus"
  using powmodp_power [OF assms(2), of DH_G] assms(1) by (auto simp: ldhexchange_def DH_G_def DH_P_def)

lemma ldhsecret_power:
  assumes "List.length x = 8" and "number x \<noteq> 0" and "unat (r :: u64) < modulus"
  shows "\<exists>s :: u64. ldhsecret (le_bytes 8 r) x = Some (Done (le_bytes 8 s)) \<and> unat s = unat r ^ unat (number x) mod modulus"
proof -
  have "r \<noteq> DH_P" using assms(3) unat_DH_P by auto
  then show ?thesis using powmodp_power [OF assms(2), of r] assms(1)
    by (auto simp: ldhsecret_def read64_def number_le_bytes)
qed

text \<open>
  C39. The key exchange of \<open>crypt.dhexchange\<close> and \<open>crypt.dhsecret\<close>: two parties with secrets of eight bytes, not all zero,
  who send each other what \<open>dhexchange\<close> makes of their secrets, compute the same key with \<open>dhsecret\<close>. It is
  5 to the power of the product of the secrets modulo the prime 2^64 - 59; the 64-bit arithmetic does not overflow,
  and every call returns.
\<close>

theorem dh_agreement:
  assumes "List.length a = 8" "List.length b = 8" and "number a \<noteq> 0" "number b \<noteq> 0"
  shows "\<exists>x y (s :: u64). ldhexchange a = Some (Done x) \<and> ldhexchange b = Some (Done y) \<and>
    ldhsecret y a = Some (Done (le_bytes 8 s)) \<and> ldhsecret x b = Some (Done (le_bytes 8 s)) \<and>
    unat s = 5 ^ (unat (number a) * unat (number b)) mod modulus"
proof -
  obtain x :: u64 where x: "ldhexchange a = Some (Done (le_bytes 8 x))" "unat x = 5 ^ unat (number a) mod modulus"
    using ldhexchange_power [of a] assms by blast
  obtain y :: u64 where y: "ldhexchange b = Some (Done (le_bytes 8 y))" "unat y = 5 ^ unat (number b) mod modulus"
    using ldhexchange_power [of b] assms by blast
  have "unat x < modulus" "unat y < modulus" by (simp_all add: x(2) y(2) modulus_def)
  then obtain s t :: u64 where s: "ldhsecret (le_bytes 8 y) a = Some (Done (le_bytes 8 s))" "unat s = unat y ^ unat (number a) mod modulus"
    and t: "ldhsecret (le_bytes 8 x) b = Some (Done (le_bytes 8 t))" "unat t = unat x ^ unat (number b) mod modulus"
    using ldhsecret_power assms by metis
  have same: "unat s = 5 ^ (unat (number a) * unat (number b)) mod modulus" "unat t = 5 ^ (unat (number a) * unat (number b)) mod modulus"
    by (simp_all add: s(2) t(2) x(2) y(2) power_mod power_mult [symmetric] mult.commute)
  then have "s = t" by (simp add: word_unat_eq_iff)
  then show ?thesis using x(1) y(1) s(1) t(1) same(1) by blast
qed

theorem dh_agreement_witness:
  "\<exists>x y (s :: u64). ldhexchange [3, 0, 0, 0, 0, 0, 0, 1] = Some (Done x) \<and> ldhexchange [2, 1, 0, 0, 0, 0, 0, 0] = Some (Done y) \<and>
    ldhsecret y [3, 0, 0, 0, 0, 0, 0, 1] = Some (Done (le_bytes 8 s)) \<and>
    ldhsecret x [2, 1, 0, 0, 0, 0, 0, 0] = Some (Done (le_bytes 8 s)) \<and>
    unat s = 5 ^ (unat (number [3, 0, 0, 0, 0, 0, 0, 1]) * unat (number [2, 1, 0, 0, 0, 0, 0, 0])) mod modulus"
proof (rule dh_agreement)
  show "List.length [3 :: u8, 0, 0, 0, 0, 0, 0, 1] = 8" "List.length [2 :: u8, 1, 0, 0, 0, 0, 0, 0] = 8" by simp_all
  show "number [3, 0, 0, 0, 0, 0, 0, 1] \<noteq> 0" "number [2, 1, 0, 0, 0, 0, 0, 0] \<noteq> 0" by code_simp+
qed

text \<open>A secret of zeros makes the recursion endless.\<close>

lemma dh_zero_secret: "List.length x = 8 \<Longrightarrow> number x = 0 \<Longrightarrow> ldhexchange x = None"
  using pow_mod_p_returns [of _ 0] by (cases "pow_mod_p DH_G 0") (auto simp: ldhexchange_def powmodp_def DH_G_def DH_P_def)

section \<open>Base64\<close>

abbreviation in_alphabet :: "u8 \<Rightarrow> bool" where "in_alphabet c \<equiv> b64index c \<noteq> -1"

lemma alphabet: "map (\<lambda>c. b64index (of_nat (of_char c))) encoding = map int [0..<64]"
proof -
  have "map (\<lambda>c. b64index (of_nat (of_char c))) encoding =
    [0, 1, 2, 3, 4, 5, 6, 7, 8, 9, 10, 11, 12, 13, 14, 15, 16, 17, 18, 19, 20, 21, 22, 23, 24, 25, 26, 27, 28, 29, 30, 31,
     32, 33, 34, 35, 36, 37, 38, 39, 40, 41, 42, 43, 44, 45, 46, 47, 48, 49, 50, 51, 52, 53, 54, 55, 56, 57, 58, 59, 60, 61, 62, 63]"
    by (simp add: encoding_def b64index_def decoding_def)
  then show ?thesis by (simp add: upt_rec)
qed

lemma b64index_char: "v < 64 \<Longrightarrow> b64index (b64char v) = int (unat v)"
proof -
  assume v: "v < 64"
  have "List.length encoding = 64" by (simp add: encoding_def)
  then show "b64index (b64char v) = int (unat v)"
    using v arg_cong [OF alphabet, of "\<lambda>xs. xs ! unat v"] by (simp add: b64char_def word_less_nat_alt)
qed

lemma b64index_pad: "b64index 61 = -2"
  by code_simp

lemma char_in_alphabet: "v < 64 \<Longrightarrow> in_alphabet (b64char v)"
  using b64index_char [of v] by simp (metis uint_nonnegative not_one_le_zero neg_0_le_iff_le)

text \<open>Taking the characters of a group passes over what is not in the alphabet.\<close>

lemma b64_take_filter:
  assumes "filter in_alphabet u = cs @ r"
  shows "\<exists>rest. b64_take (List.length cs) u = Done (map b64index cs, rest) \<and> filter in_alphabet rest = r \<and> suffix rest u"
  using assms
proof (induction "List.length cs" u arbitrary: cs rule: b64_take.induct)
  case (1 u)
  then show ?case by simp
next
  case (2 j)
  then show ?case by simp
next
  case (3 j x u)
  show ?case
  proof (cases "in_alphabet x")
    case False
    then show ?thesis using 3(1) [OF _ 3(3)] 3(3,4) by (cases cs) (auto simp: suffix_ConsI)
  next
    case True
    then obtain cs' where cs: "cs = x # cs'" "filter in_alphabet u = cs' @ r" "List.length cs' = j"
      using 3(3,4) by (cases cs) auto
    then show ?thesis using 3(2) [of cs'] True by (auto simp: suffix_ConsI)
  qed
qed

lemma i32_of_index: "i32_of (int (unat (w :: u32))) = w"
  by (simp add: i32_of_def)

lemma index_not_pad: "int n \<noteq> -2"
  by simp

lemma mask_nums: "0x3f = (mask 6 :: u32)" "0xf = (mask 4 :: u32)" "3 = (mask 2 :: u32)" "0xff = (mask 8 :: u32)"
  by (simp_all add: mask_eq_exp_minus_1)

lemma join_bits: "push_bit (m + k) (drop_bit (m + k) v) OR push_bit k (drop_bit k v AND mask m) = push_bit k (drop_bit k (v :: u32))"
proof (rule bit_word_eqI)
  fix n assume "n < LENGTH(32)"
  then show "bit (push_bit (m + k) (drop_bit (m + k) v) OR push_bit k (drop_bit k v AND mask m)) n = bit (push_bit k (drop_bit k v)) n"
    by (cases "n < k"; cases "n < m + k") (auto simp: bit_simps not_less)
qed

lemma joins:
  fixes v :: u32
  shows "push_bit 18 (drop_bit 18 v) OR push_bit 12 (drop_bit 12 v AND mask 6) = push_bit 12 (drop_bit 12 v)"
    and "push_bit 12 (drop_bit 12 v) OR push_bit 6 (drop_bit 6 v AND mask 6) = push_bit 6 (drop_bit 6 v)"
    and "push_bit 6 (drop_bit 6 v) OR (v AND mask 6) = v"
    and "push_bit 10 (drop_bit 10 v) OR push_bit 4 (drop_bit 4 v AND mask 6) = push_bit 4 (drop_bit 4 v)"
    and "push_bit 4 (drop_bit 4 v) OR (v AND mask 4) = v"
    and "push_bit 2 (drop_bit 2 v) OR (v AND mask 2) = v"
  using join_bits [of 6 12 v] join_bits [of 6 6 v] join_bits [of 6 0 v] join_bits [of 6 4 v] join_bits [of 4 0 v] join_bits [of 2 0 v]
  by (simp_all del: push_bit_and drop_bit_and)

lemma shifted_low: "k + m \<le> 32 \<Longrightarrow> drop_bit k (push_bit k (v AND mask m)) = v AND mask m" for v :: u32
  by (rule bit_word_eqI) (auto simp: bit_simps)

lemma shifted_zero: "push_bit k v AND mask k = 0" for v :: u32
  by (rule bit_word_eqI) (auto simp: bit_simps)

text \<open>The characters of a group, and the bytes they stand for.\<close>

lemma group3:
  fixes a b c :: u8
  defines "v \<equiv> push_bit 16 (ucast a) OR push_bit 8 (ucast b) OR (ucast c :: u32)"
  shows "b64_group (map (int \<circ> unat) [drop_bit 18 v, drop_bit 12 v AND 0x3f, drop_bit 6 v AND 0x3f, v AND 0x3f]) = Done [a, b, c]"
proof -
  have v: "push_bit 18 (drop_bit 18 v) OR push_bit 12 (drop_bit 12 v AND 0x3f) OR push_bit 6 (drop_bit 6 v AND 0x3f) OR (v AND 0x3f) = v"
    unfolding mask_nums by (simp add: joins or.assoc [symmetric] del: push_bit_and drop_bit_and)
  have bytes: "ucast (drop_bit 16 v) = a" "ucast (drop_bit 8 v AND 0xff) = b" "ucast (v AND 0xff) = c"
    unfolding v_def mask_nums by (rule bit_word_eqI; auto simp: bit_simps dest: bit_imp_le_length)+
  show ?thesis by (simp add: b64_group_def Let_def i32_of_index index_not_pad v bytes del: of_nat_unat push_bit_and drop_bit_and drop_bit_or)
qed

lemma group2:
  fixes a b :: u8
  defines "v \<equiv> push_bit 8 (ucast a) OR (ucast b :: u32)"
  shows "b64_group (map (int \<circ> unat) [drop_bit 10 v, drop_bit 4 v AND 0x3f, push_bit 2 (v AND 0xf)] @ [-2]) = Done [a, b]"
proof -
  have v: "push_bit 10 (drop_bit 10 v) OR push_bit 4 (drop_bit 4 v AND 0x3f) OR drop_bit 2 (push_bit 2 (v AND 0xf)) = v"
    "push_bit 2 (v AND 0xf) AND 3 = 0"
    unfolding mask_nums by (simp_all add: joins or.assoc [symmetric] shifted_low shifted_zero del: push_bit_and drop_bit_and)
  have bytes: "ucast (drop_bit 8 v) = a" "ucast (v AND 0xff) = b"
    unfolding v_def mask_nums by (rule bit_word_eqI; auto simp: bit_simps dest: bit_imp_le_length)+
  show ?thesis by (simp add: b64_group_def Let_def i32_of_index index_not_pad v bytes del: of_nat_unat push_bit_and drop_bit_and drop_bit_or)
qed

lemma group1:
  fixes a :: u8
  defines "v \<equiv> (ucast a :: u32)"
  shows "b64_group (map (int \<circ> unat) [drop_bit 2 v, push_bit 4 (v AND 3)] @ [-2, -2]) = Done [a]"
proof -
  have v: "push_bit 2 (drop_bit 2 v) OR drop_bit 4 (push_bit 4 (v AND 3)) = v" "push_bit 4 (v AND 3) AND 0xf = 0"
    unfolding mask_nums by (simp_all add: joins shifted_low shifted_zero del: push_bit_and drop_bit_and)
  show ?thesis by (simp add: b64_group_def Let_def i32_of_index index_not_pad v del: of_nat_unat push_bit_and drop_bit_and drop_bit_or) (rule bit_word_eqI, auto simp: v_def bit_simps)
qed

lemma low_bits: "x AND mask k = x \<Longrightarrow> k \<le> 6 \<Longrightarrow> x < (64 :: u32)"
proof -
  assume x: "x AND mask k = x" "k \<le> 6"
  have "unat x < 2 ^ k" using and_mask_unat [of x k] x(1) by (metis mod_less_divisor zero_less_numeral zero_less_power)
  also have "(2 :: nat) ^ k \<le> 2 ^ 6" using x(2) by (rule power_increasing) simp
  finally show "x < 64" by (simp add: word_less_nat_alt)
qed

lemma b64index_low: "x AND mask 6 = x \<Longrightarrow> b64index (b64char x) = int (unat x)"
  by (rule b64index_char, rule low_bits [where k = 6]) simp_all

lemma index3:
  fixes a b c :: u8
  defines "v \<equiv> push_bit 16 (ucast a) OR push_bit 8 (ucast b) OR (ucast c :: u32)"
  shows "map b64index [b64char (drop_bit 18 v), b64char (drop_bit 12 v AND 0x3f), b64char (drop_bit 6 v AND 0x3f), b64char (v AND 0x3f)]
    = map (int \<circ> unat) [drop_bit 18 v, drop_bit 12 v AND 0x3f, drop_bit 6 v AND 0x3f, v AND 0x3f]"
proof -
  have "drop_bit 18 v AND mask 6 = drop_bit 18 v"
    unfolding v_def by (rule bit_word_eqI) (auto simp: bit_simps dest: bit_imp_le_length)
  then show ?thesis unfolding mask_nums by (simp add: b64index_low del: of_nat_unat)
qed

lemma index2:
  fixes a b :: u8
  defines "v \<equiv> push_bit 8 (ucast a) OR (ucast b :: u32)"
  shows "map b64index [b64char (drop_bit 10 v), b64char (drop_bit 4 v AND 0x3f), b64char (push_bit 2 (v AND 0xf)), 61]
    = map (int \<circ> unat) [drop_bit 10 v, drop_bit 4 v AND 0x3f, push_bit 2 (v AND 0xf)] @ [-2]"
proof -
  have "drop_bit 10 v AND mask 6 = drop_bit 10 v" "push_bit 2 (v AND mask 4) AND mask 6 = push_bit 2 (v AND mask 4)"
    unfolding v_def by (rule bit_word_eqI; auto simp: bit_simps dest: bit_imp_le_length)+
  then show ?thesis unfolding mask_nums by (simp add: b64index_low b64index_pad del: of_nat_unat push_bit_and)
qed

lemma index1:
  fixes a :: u8
  defines "v \<equiv> (ucast a :: u32)"
  shows "map b64index [b64char (drop_bit 2 v), b64char (push_bit 4 (v AND 3)), 61, 61]
    = map (int \<circ> unat) [drop_bit 2 v, push_bit 4 (v AND 3)] @ [-2, -2]"
proof -
  have "drop_bit 2 v AND mask 6 = drop_bit 2 v" "push_bit 4 (v AND mask 2) AND mask 6 = push_bit 4 (v AND mask 2)"
    unfolding v_def by (rule bit_word_eqI; auto simp: bit_simps dest: bit_imp_le_length)+
  then show ?thesis unfolding mask_nums by (simp add: b64index_low b64index_pad del: of_nat_unat push_bit_and)
qed

text \<open>The text of a group, and what the decoder makes of a text that starts with it.\<close>

lemma decode_group:
  assumes "filter in_alphabet u = cs @ r" and "List.length cs = 4" and "u = [] \<or> in_alphabet (last u)"
    and "b64_group (map b64index cs) = Done bs"
  shows "\<exists>rest. filter in_alphabet rest = r \<and> (rest = [] \<or> in_alphabet (last rest)) \<and>
    lb64decode u = bind_outcome (lb64decode rest) (\<lambda>out. Done (bs @ out))"
proof -
  obtain rest where rest: "b64_take 4 u = Done (map b64index cs, rest)" "filter in_alphabet rest = r" "suffix rest u"
    using b64_take_filter [OF assms(1)] assms(2) by auto
  have "rest = [] \<or> in_alphabet (last rest)" using assms(3) rest(3) by (auto simp: suffix_def)
  moreover have u: "u \<noteq> []" using assms(1,2) by auto
  moreover from u have "lb64decode u = bind_outcome (lb64decode rest) (\<lambda>out. Done (bs @ out))"
    unfolding lb64decode.simps [of u] by (simp only: u if_False rest(1) outcome.case prod.case assms(4) bind_outcome.simps)
  ultimately show ?thesis using rest(2) by blast
qed

lemma decode_last:
  assumes "filter in_alphabet u = cs" and "List.length cs = 4" and "u = [] \<or> in_alphabet (last u)"
    and "b64_group (map b64index cs) = Done bs"
  shows "lb64decode u = Done bs"
proof -
  obtain rest where rest: "filter in_alphabet rest = []" "rest = [] \<or> in_alphabet (last rest)"
    "lb64decode u = bind_outcome (lb64decode rest) (\<lambda>out. Done (bs @ out))"
    using decode_group [of u cs "[]", unfolded append_Nil2, OF assms] by blast
  from rest(1,2) have "rest = []" by (cases rest rule: rev_cases) auto
  then show ?thesis using rest(3) by (simp add: lb64decode.simps)
qed



end
