(* ===== verification/Spec2Isabelle.thy ===== *)
theory Spec2Isabelle
  imports Prelude Ring Mq Sched Timer Handle Module CText Context Dispatch Command Logger Framing Databuffer Hashid Gate Netpack HarborService Seri SocketSafety Sha1Correct CryptCorrect
begin

text \<open>
  A verification development for the skynet server framework under \<open>server/skynet\<close>.
\<close>

end
